(* ===== verification/Prelude.thy ===== *)
theory Prelude
  imports Main "HOL-Library.Word"
begin

text \<open>
  Shared vocabulary of the development: machine integers as words, results that carry a
  failure, computations on an explicit state whose changes survive a failure, little-endian
  byte encodings, and the generic list lemmas the components use.

  A Rust function that returns \<open>Result<T, E>\<close> and takes \<open>&mut self\<close> becomes a function of
  type \<open>('s, 'e, 'a) op\<close>: it returns the result and the state it leaves behind, on the error
  path too, because nothing rolls a mutation back when \<open>?\<close> returns early.
\<close>

section \<open>Machine integers\<close>

type_synonym u8 = "8 word"
type_synonym u16 = "16 word"
type_synonym u32 = "32 word"
type_synonym u64 = "64 word"
type_synonym u128 = "128 word"
type_synonym bytes = "8 word list"

section \<open>Results and stateful computations\<close>

type_synonym ('s, 'e, 'a) op = "'s \<Rightarrow> ('e + 'a) \<times> 's"

definition bind_res :: "'e + 'a \<Rightarrow> ('a \<Rightarrow> 'e + 'b) \<Rightarrow> 'e + 'b" where
  "bind_res r f = (case r of Inl e \<Rightarrow> Inl e | Inr a \<Rightarrow> f a)"

definition ret_op :: "'a \<Rightarrow> ('s, 'e, 'a) op" where
  "ret_op a = (\<lambda>s. (Inr a, s))"

definition lift_op :: "'e + 'a \<Rightarrow> ('s, 'e, 'a) op" where
  "lift_op r = (\<lambda>s. (r, s))"

definition bind_op :: "('s, 'e, 'a) op \<Rightarrow> ('a \<Rightarrow> ('s, 'e, 'b) op) \<Rightarrow> ('s, 'e, 'b) op" where
  "bind_op m f = (\<lambda>s. case m s of (Inl e, s') \<Rightarrow> (Inl e, s') | (Inr a, s') \<Rightarrow> f a s')"

text \<open>Reading and replacing the state itself.\<close>

definition get_op :: "('s \<Rightarrow> 'a) \<Rightarrow> ('s, 'e, 'a) op" where
  "get_op f = (\<lambda>s. (Inr (f s), s))"

definition modify_op :: "('s \<Rightarrow> 's) \<Rightarrow> ('s, 'e, unit) op" where
  "modify_op f = (\<lambda>s. (Inr (), f s))"

text \<open>A \<open>for\<close> loop whose body may fail.\<close>

primrec for_each :: "'x list \<Rightarrow> ('x \<Rightarrow> ('s, 'e, unit) op) \<Rightarrow> ('s, 'e, unit) op" where
  "for_each [] f = ret_op ()"
| "for_each (x # xs) f = bind_op (f x) (\<lambda>_. for_each xs f)"

named_theorems op_simps \<open>evaluation of stateful computations\<close>
named_theorems layout \<open>constants of the on-disk layout\<close>

lemma bind_res_simps [simp]:
  "bind_res (Inl e) f = Inl e"
  "bind_res (Inr a) f = f a"
  by (simp_all add: bind_res_def)

lemma bind_res_Inr_iff: "bind_res r f = Inr b \<longleftrightarrow> (\<exists>a. r = Inr a \<and> f a = Inr b)"
  by (cases r) auto

lemma bind_res_assoc: "bind_res (bind_res r f) g = bind_res r (\<lambda>a. bind_res (f a) g)"
  by (cases r) auto

lemma ret_op_apply [simp, op_simps]: "ret_op a s = (Inr a, s)"
  by (simp add: ret_op_def)

lemma lift_op_apply [simp, op_simps]: "lift_op r s = (r, s)"
  by (simp add: lift_op_def)

lemma get_op_apply [simp, op_simps]: "get_op f s = (Inr (f s), s)"
  by (simp add: get_op_def)

lemma modify_op_apply [simp, op_simps]: "modify_op f s = (Inr (), f s)"
  by (simp add: modify_op_def)

lemma bind_op_Inr: "m s = (Inr a, s') \<Longrightarrow> bind_op m f s = f a s'"
  by (simp add: bind_op_def)

lemma bind_op_Inl: "m s = (Inl e, s') \<Longrightarrow> bind_op m f s = (Inl e, s')"
  by (simp add: bind_op_def)

lemma bind_op_ret [simp]: "bind_op (ret_op a) f = f a"
  by (simp add: bind_op_def fun_eq_iff)

lemma bind_op_lift_Inr [simp]: "bind_op (lift_op (Inr a)) f = f a"
  by (simp add: bind_op_def fun_eq_iff)

lemma bind_op_lift_Inl [simp]: "bind_op (lift_op (Inl e)) f s = (Inl e, s)"
  by (simp add: bind_op_def)

lemma bind_op_get [simp]: "bind_op (get_op g) f s = f (g s) s"
  by (simp add: bind_op_def)

lemma bind_op_modify [simp]: "bind_op (modify_op g) f s = f () (g s)"
  by (simp add: bind_op_def)

lemma bind_op_assoc: "bind_op (bind_op m f) g = bind_op m (\<lambda>a. bind_op (f a) g)"
  by (auto simp: bind_op_def fun_eq_iff split: prod.splits sum.splits)

lemma bind_op_Inr_iff:
  "bind_op m f s = (Inr b, s'') \<longleftrightarrow> (\<exists>a s'. m s = (Inr a, s') \<and> f a s' = (Inr b, s''))"
  by (auto simp: bind_op_def split: prod.splits sum.splits)

lemma bind_op_InrE:
  assumes "bind_op m f s = (Inr b, s'')"
  obtains a s' where "m s = (Inr a, s')" and "f a s' = (Inr b, s'')"
  using assms by (auto simp: bind_op_Inr_iff)

subsection \<open>Operations that leave a part of the state alone\<close>

named_theorems keeps_intro

definition keeps :: "('s \<Rightarrow> 'x) \<Rightarrow> ('s, 'e, 'a) op \<Rightarrow> bool" where
  "keeps f m \<longleftrightarrow> (\<forall>s. f (snd (m s)) = f s)"

lemma keepsD: "keeps f m \<Longrightarrow> m s = (r, s') \<Longrightarrow> f s' = f s"
  unfolding keeps_def by (metis snd_conv)

lemma keeps_bind [keeps_intro]:
  assumes "keeps f m" and "\<And>x. keeps f (k x)"
  shows "keeps f (bind_op m k)"
  unfolding keeps_def
proof
  fix s
  obtain r s1 where "m s = (r, s1)"
    by fastforce
  then show "f (snd (bind_op m k s)) = f s"
    using assms(2) keepsD [OF assms(1)] by (cases r) (auto simp: bind_op_def keeps_def)
qed

lemma keeps_ret [keeps_intro]: "keeps f (ret_op x)"
  by (simp add: keeps_def ret_op_def)

lemma keeps_lift [keeps_intro]: "keeps f (lift_op r)"
  by (simp add: keeps_def lift_op_def)

lemma keeps_get [keeps_intro]: "keeps f (get_op g)"
  by (simp add: keeps_def get_op_def)

lemma keeps_for_each [keeps_intro]: "(\<And>x. keeps f (g x)) \<Longrightarrow> keeps f (for_each xs g)"
  by (induction xs) (auto intro: keeps_intro)

lemma keeps_read: "(\<And>s. keeps f (k (g s))) \<Longrightarrow> keeps f (\<lambda>s. k (g s) s)"
  by (simp add: keeps_def)

section \<open>Little-endian bytes\<close>

primrec nat_to_le :: "nat \<Rightarrow> nat \<Rightarrow> bytes" where
  "nat_to_le 0 v = []"
| "nat_to_le (Suc n) v = word_of_nat (v mod 256) # nat_to_le n (v div 256)"

primrec le_to_nat :: "bytes \<Rightarrow> nat" where
  "le_to_nat [] = 0"
| "le_to_nat (b # bs) = unat b + 256 * le_to_nat bs"

text \<open>Rust's \<open>to_le_bytes\<close> and \<open>from_le_bytes\<close> at every width.\<close>

definition to_le_bytes :: "'a::len word \<Rightarrow> bytes" where
  "to_le_bytes w = nat_to_le (LENGTH('a) div 8) (unat w)"

definition from_le_bytes :: "bytes \<Rightarrow> 'a::len word" where
  "from_le_bytes bs = word_of_nat (le_to_nat bs)"

lemma length_nat_to_le [simp]: "length (nat_to_le n v) = n"
  by (induction n arbitrary: v) auto

lemma unat_byte_of_nat [simp]: "unat (word_of_nat (v mod 256) :: u8) = v mod 256"
  by (simp add: unat_of_nat)

lemma le_to_nat_bound: "le_to_nat bs < 256 ^ length bs"
proof (induction bs)
  case Nil
  show ?case by simp
next
  case (Cons b bs)
  have "unat b < 256"
    using unsigned_less [of b, where ?'a = nat] by simp
  with Cons show ?case by simp
qed

lemma le_to_nat_nat_to_le: "le_to_nat (nat_to_le n v) = v mod 256 ^ n"
  by (induction n arbitrary: v) (simp_all add: mod_mult2_eq)

lemma nat_to_le_le_to_nat: "nat_to_le (length bs) (le_to_nat bs) = bs"
proof (induction bs)
  case Nil
  show ?case by simp
next
  case (Cons b bs)
  have b: "unat b < 256"
    using unsigned_less [of b, where ?'a = nat] by simp
  then have "(unat b + 256 * le_to_nat bs) mod 256 = unat b"
    and "(unat b + 256 * le_to_nat bs) div 256 = le_to_nat bs"
    by simp_all
  with Cons show ?case by simp
qed

lemma length_to_le_bytes [simp]: "length (to_le_bytes (w :: 'a::len word)) = LENGTH('a) div 8"
  by (simp add: to_le_bytes_def)

lemma from_to_le_bytes [simp]:
  assumes "8 dvd LENGTH('a::len)"
  shows "from_le_bytes (to_le_bytes (w :: 'a word)) = w"
proof -
  have "256 ^ (LENGTH('a) div 8) = ((2 :: nat) ^ 8) ^ (LENGTH('a) div 8)"
    by simp
  also have "\<dots> = 2 ^ LENGTH('a)"
    using assms by (simp only: power_mult [symmetric] dvd_mult_div_cancel)
  finally have "256 ^ (LENGTH('a) div 8) = (2 :: nat) ^ LENGTH('a)" .
  then show ?thesis
    by (simp add: to_le_bytes_def from_le_bytes_def le_to_nat_nat_to_le)
qed

section \<open>Byte slices and list surgery\<close>

text \<open>Rust's \<open>bytes[a..b]\<close>: \<open>None\<close> is the out-of-range panic.\<close>

definition slice :: "'a list \<Rightarrow> nat \<Rightarrow> nat \<Rightarrow> 'a list option" where
  "slice xs a b = (if a \<le> b \<and> b \<le> length xs then Some (take (b - a) (drop a xs)) else None)"

text \<open>\<open>bytes[a..a + data.len()].copy_from_slice(data)\<close>, where the range is in bounds.\<close>

definition overwrite :: "nat \<Rightarrow> 'a list \<Rightarrow> 'a list \<Rightarrow> 'a list" where
  "overwrite a data xs = take a xs @ data @ drop (a + length data) xs"

text \<open>\<open>Vec::insert\<close> and \<open>Vec::remove\<close>.\<close>

definition insert_at :: "nat \<Rightarrow> 'a \<Rightarrow> 'a list \<Rightarrow> 'a list" where
  "insert_at i x xs = take i xs @ x # drop i xs"

definition remove_at :: "nat \<Rightarrow> 'a list \<Rightarrow> 'a list" where
  "remove_at i xs = take i xs @ drop (Suc i) xs"

lemma length_overwrite [simp]:
  "a + length data \<le> length xs \<Longrightarrow> length (overwrite a data xs) = length xs"
  by (simp add: overwrite_def)

lemma take_drop_overwrite_same:
  "a + length data \<le> length xs \<Longrightarrow> take (length data) (drop a (overwrite a data xs)) = data"
  by (simp add: overwrite_def)

lemma nth_overwrite:
  "a + length data \<le> length xs \<Longrightarrow> i < length xs \<Longrightarrow>
     overwrite a data xs ! i = (if a \<le> i \<and> i < a + length data then data ! (i - a) else xs ! i)"
  by (auto simp: overwrite_def nth_append min_def)

lemma take_drop_overwrite_other:
  assumes "a + length data \<le> length xs" and "b + n \<le> a \<or> a + length data \<le> b"
  shows "take n (drop b (overwrite a data xs)) = take n (drop b xs)"
proof (cases "b \<le> length xs")
  case True
  show ?thesis
  proof (rule nth_equalityI)
    show "length (take n (drop b (overwrite a data xs))) = length (take n (drop b xs))"
      using assms(1) by simp
  next
    fix i
    assume "i < length (take n (drop b (overwrite a data xs)))"
    then have "i < n" and "b + i < length xs"
      using assms(1) by auto
    then show "take n (drop b (overwrite a data xs)) ! i = take n (drop b xs) ! i"
      using assms by (auto simp: nth_overwrite)
  qed
next
  case False
  with assms(1) show ?thesis by simp
qed

lemma drop_overwrite_after:
  "a + length data \<le> n \<Longrightarrow> a + length data \<le> length xs \<Longrightarrow> drop n (overwrite a data xs) = drop n xs"
  by (simp add: overwrite_def)

lemma length_insert_at [simp]: "i \<le> length xs \<Longrightarrow> length (insert_at i x xs) = Suc (length xs)"
  by (simp add: insert_at_def)

lemma nth_insert_at:
  "i \<le> length xs \<Longrightarrow> j \<le> length xs \<Longrightarrow>
     insert_at i x xs ! j = (if j < i then xs ! j else if j = i then x else xs ! (j - 1))"
  by (auto simp: insert_at_def nth_append nth_Cons' min_def)

lemma set_insert_at [simp]: "set (insert_at i x xs) = insert x (set xs)"
  by (simp add: insert_at_def) (metis append_take_drop_id set_append)

lemma length_remove_at [simp]: "i < length xs \<Longrightarrow> length (remove_at i xs) = length xs - 1"
  by (simp add: remove_at_def)

lemma nth_remove_at:
  "i < length xs \<Longrightarrow> j < length xs - 1 \<Longrightarrow>
     remove_at i xs ! j = (if j < i then xs ! j else xs ! Suc j)"
  by (auto simp: remove_at_def nth_append)

text \<open>
  Frames: two buffers of the same length that agree on a set of positions. A write agrees
  with the old buffer away from the range it touches.
\<close>

definition agree_on :: "nat set \<Rightarrow> 'a list \<Rightarrow> 'a list \<Rightarrow> bool" where
  "agree_on A xs ys \<longleftrightarrow> length ys = length xs \<and> (\<forall>i < length xs. i \<in> A \<longrightarrow> ys ! i = xs ! i)"

lemma agree_on_length: "agree_on A xs ys \<Longrightarrow> length ys = length xs"
  by (simp add: agree_on_def)

lemma agree_on_refl [simp]: "agree_on A xs xs"
  by (simp add: agree_on_def)

lemma agree_on_mono: "agree_on A xs ys \<Longrightarrow> B \<subseteq> A \<Longrightarrow> agree_on B xs ys"
  by (auto simp: agree_on_def)

lemma agree_on_trans: "agree_on A xs ys \<Longrightarrow> agree_on B ys zs \<Longrightarrow> agree_on (A \<inter> B) xs zs"
  by (simp add: agree_on_def)

lemma agree_on_trans_same: "agree_on A xs ys \<Longrightarrow> agree_on A ys zs \<Longrightarrow> agree_on A xs zs"
  by (simp add: agree_on_def)

lemma agree_on_nth: "agree_on A xs ys \<Longrightarrow> i \<in> A \<Longrightarrow> i < length xs \<Longrightarrow> ys ! i = xs ! i"
  by (simp add: agree_on_def)

lemma agree_on_slice:
  assumes "agree_on A xs ys" and "{b..<b + n} \<subseteq> A"
  shows "take n (drop b ys) = take n (drop b xs)"
proof (rule nth_equalityI)
  show len: "length (take n (drop b ys)) = length (take n (drop b xs))"
    using assms(1) by (simp add: agree_on_def)
  fix i
  assume "i < length (take n (drop b ys))"
  with len have "i < n" and "b + i < length xs"
    by auto
  with assms show "take n (drop b ys) ! i = take n (drop b xs) ! i"
    by (auto simp: agree_on_def subset_iff)
qed

lemma agree_on_overwrite:
  "a + length data \<le> length xs \<Longrightarrow> agree_on (- {a..<a + length data}) xs (overwrite a data xs)"
  by (auto simp: agree_on_def nth_overwrite)

lemma agree_on_update: "agree_on (- {i}) xs (xs[i := v])"
  by (auto simp: agree_on_def nth_list_update_neq)

section \<open>Decimal rendering\<close>

text \<open>\<open>u32::to_string\<close>, used where an error names a table by its id.\<close>

fun dec_string :: "nat \<Rightarrow> string" where
  "dec_string n =
     (if n < 10 then [char_of (48 + n)] else dec_string (n div 10) @ [char_of (48 + n mod 10)])"

declare dec_string.simps [simp del]

end
