(* ===== verification/Common.thy ===== *)
theory Common
  imports Prelude
begin

text \<open>
  The crate \<open>ferrite-common\<close>: values, rows, schemas, errors, snapshots and the
  uniqueness requirement the storage layer enforces.

  A \<open>String\<close> holding data is its UTF-8 bytes (\<^typ>\<open>bytes\<close>); names and messages are HOL strings.
  An \<open>f64\<close> is its bit pattern, and comparison is IEEE equality on it. Error messages keep
  their constant text; \<open>UniqueViolation\<close> carries the key values themselves instead of their
  debug rendering.
\<close>

section \<open>Values (value.rs)\<close>

datatype data_type =
  DT_Boolean | DT_Int4 | DT_Int8 | DT_Float8 | DT_Text | DT_Timestamp | DT_Uuid | DT_Json

datatype val =
    VNull
  | VBoolean bool
  | VInt4 u32
  | VInt8 u64
  | VFloat8 u64
  | VText bytes
  | VTimestamp u64
  | VUuid u128
  | VJson bytes

fun data_type_of :: "val \<Rightarrow> data_type option" where
  "data_type_of VNull = None"
| "data_type_of (VBoolean _) = Some DT_Boolean"
| "data_type_of (VInt4 _) = Some DT_Int4"
| "data_type_of (VInt8 _) = Some DT_Int8"
| "data_type_of (VFloat8 _) = Some DT_Float8"
| "data_type_of (VText _) = Some DT_Text"
| "data_type_of (VTimestamp _) = Some DT_Timestamp"
| "data_type_of (VUuid _) = Some DT_Uuid"
| "data_type_of (VJson _) = Some DT_Json"

definition is_null :: "val \<Rightarrow> bool" where
  "is_null v \<longleftrightarrow> v = VNull"

record row =
  row_values :: "val list"

definition row_new :: "val list \<Rightarrow> row" where
  "row_new vs = \<lparr>row_values = vs\<rparr>"

text \<open>
  \<open>PartialEq\<close> as derived: variant by variant, with IEEE equality on \<open>f64\<close>, under which NaN
  differs from itself and the two zeros agree.
\<close>

unbundle bit_operations_syntax

definition f64_is_nan :: "u64 \<Rightarrow> bool" where
  "f64_is_nan w \<longleftrightarrow> w AND 0x7FF0000000000000 = 0x7FF0000000000000 \<and> w AND 0x000FFFFFFFFFFFFF \<noteq> 0"

definition f64_is_zero :: "u64 \<Rightarrow> bool" where
  "f64_is_zero w \<longleftrightarrow> w AND 0x7FFFFFFFFFFFFFFF = 0"

definition f64_eq :: "u64 \<Rightarrow> u64 \<Rightarrow> bool" where
  "f64_eq a b \<longleftrightarrow>
     \<not> f64_is_nan a \<and> \<not> f64_is_nan b \<and> (a = b \<or> f64_is_zero a \<and> f64_is_zero b)"

fun val_eq :: "val \<Rightarrow> val \<Rightarrow> bool" where
  "val_eq (VFloat8 a) w = (case w of VFloat8 b \<Rightarrow> f64_eq a b | _ \<Rightarrow> False)"
| "val_eq v w = (v = w)"

abbreviation vals_eq :: "val list \<Rightarrow> val list \<Rightarrow> bool" where
  "vals_eq \<equiv> list_all2 val_eq"

section \<open>Schemas (schema.rs)\<close>

datatype column_default = Constant val | CurrentTimestamp

fun column_default_constant :: "column_default \<Rightarrow> val option" where
  "column_default_constant (Constant v) = Some v"
| "column_default_constant CurrentTimestamp = None"

record column_def =
  col_name :: string
  col_data_type :: data_type
  col_nullable :: bool
  col_default :: "column_default option"

definition column_def_new :: "string \<Rightarrow> data_type \<Rightarrow> bool \<Rightarrow> column_def" where
  "column_def_new n t nullable =
     \<lparr>col_name = n, col_data_type = t, col_nullable = nullable, col_default = None\<rparr>"

definition with_default :: "column_def \<Rightarrow> column_default \<Rightarrow> column_def" where
  "with_default c d = c\<lparr>col_default := Some d\<rparr>"

record schema =
  schema_columns :: "column_def list"

fun position :: "('a \<Rightarrow> bool) \<Rightarrow> 'a list \<Rightarrow> nat option" where
  "position P [] = None"
| "position P (x # xs) = (if P x then Some 0 else map_option Suc (position P xs))"

definition column_index :: "schema \<Rightarrow> string \<Rightarrow> nat option" where
  "column_index s n = position (\<lambda>c. col_name c = n) (schema_columns s)"

section \<open>Errors (error.rs)\<close>

datatype ferrite_error =
    TableNotFound string
  | ColumnNotFound string
  | TypeMismatch data_type data_type
  | RowNotFound
  | TxnNotActive u64
  | PermissionDenied string
  | SerializationFailure
  | Storage string
  | Parse string
  | Plan string
  | Exec string
  | Protocol string
  | ObjectAlreadyExists string
  | UniqueViolation string "val list"
  | Timeout string
  | ResourceLimit string
  | InvalidDefinition string

text \<open>
  A call that does not return a value returns \<open>Err\<close>, panics and poisons the engine lock, or never
  returns, which the loops over chains of pages can do when a chain in a damaged file is cyclic.
\<close>

datatype failure = Err ferrite_error | Panic | Diverge

type_synonym 'a res = "failure + 'a"

definition checked :: "'a option \<Rightarrow> 'a res" where
  "checked x = (case x of None \<Rightarrow> Inl Panic | Some a \<Rightarrow> Inr a)"

lemma checked_simps [simp]: "checked None = Inl Panic" "checked (Some a) = Inr a"
  by (simp_all add: checked_def)

section \<open>Transactions (txn.rs)\<close>

record snapshot =
  snap_txn_id :: u64
  snap_xmin :: u64
  active_at_start :: "u64 list"

section \<open>Uniqueness requirements (storage.rs)\<close>

record unique_key =
  uk_name :: string
  uk_columns :: "nat list"

fun extract_from :: "nat list \<Rightarrow> val list \<Rightarrow> val list option" where
  "extract_from [] vs = Some []"
| "extract_from (p # ps) vs =
     (if p < length vs \<and> \<not> is_null (vs ! p)
      then map_option (Cons (vs ! p)) (extract_from ps vs) else None)"

definition extract_key :: "unique_key \<Rightarrow> row \<Rightarrow> val list option" where
  "extract_key k r = extract_from (uk_columns k) (row_values r)"

definition violation :: "unique_key \<Rightarrow> val list \<Rightarrow> failure" where
  "violation k vs = Err (UniqueViolation (uk_name k) vs)"

text \<open>\<open>key.extract(&existing).as_ref() == Some(values)\<close>.\<close>

definition key_matches :: "unique_key \<Rightarrow> row \<Rightarrow> val list \<Rightarrow> bool" where
  "key_matches k r vs = (case extract_key k r of None \<Rightarrow> False | Some ws \<Rightarrow> vals_eq ws vs)"

text \<open>
  The default, snapshot-scoped check. The engine is a parameter through the outcome of
  \<open>engine.scan(txn, table)\<close>: a failure, or the entries the iterator yields.
\<close>

fun clash_in :: "(unique_key \<times> val list) list \<Rightarrow> row \<Rightarrow> (unique_key \<times> val list) option" where
  "clash_in [] r = None"
| "clash_in ((k, vs) # ws) r = (if key_matches k r vs then Some (k, vs) else clash_in ws r)"

fun scan_for_clash ::
  "(unique_key \<times> val list) list \<Rightarrow> u64 option \<Rightarrow> (u64 \<times> row) res list \<Rightarrow> unit res" where
  "scan_for_clash wanted exclude [] = Inr ()"
| "scan_for_clash wanted exclude (Inl e # es) = Inl e"
| "scan_for_clash wanted exclude (Inr (rid, existing) # es) =
     (if Some rid = exclude then scan_for_clash wanted exclude es
      else case clash_in wanted existing of
             Some (k, vs) \<Rightarrow> Inl (violation k vs)
           | None \<Rightarrow> scan_for_clash wanted exclude es)"

definition check_unique_by_scan ::
  "(u64 \<times> row) res list res \<Rightarrow> row \<Rightarrow> unique_key list \<Rightarrow> u64 option \<Rightarrow> unit res" where
  "check_unique_by_scan scan r unique exclude =
     (let wanted = List.map_filter (\<lambda>k. map_option (Pair k) (extract_key k r)) unique
      in if wanted = [] then Inr ()
         else bind_res scan (scan_for_clash wanted exclude))"

section \<open>Index metadata and identities (catalog.rs, identity.rs)\<close>

record index_def =
  idx_id :: u32
  idx_name :: string
  idx_table :: u32
  idx_columns :: "string list"
  idx_unique :: bool

datatype permission =
  Connect | CreateTable | Select | Insert | Update | Delete | Execute | Admin

record role =
  role_name :: string
  role_permissions :: "permission list"

type_synonym identity = bytes

definition ANONYMOUS :: identity where
  "ANONYMOUS = replicate 32 0"

section \<open>Facts about keys\<close>

lemma f64_eq_sym: "f64_eq a b = f64_eq b a"
  by (auto simp: f64_eq_def)

lemma val_eq_sym: "val_eq a b = val_eq b a"
  by (cases a; cases b) (auto simp: f64_eq_sym)

lemma extract_from_length: "extract_from ps vs = Some ks \<Longrightarrow> length ks = length ps"
  by (induction ps arbitrary: ks) (auto split: if_splits)

lemma extract_from_null:
  "p \<in> set ps \<Longrightarrow> length vs \<le> p \<or> vs ! p = VNull \<Longrightarrow> extract_from ps vs = None"
  by (induction ps) (auto simp: is_null_def)

lemma extract_from_nth:
  "extract_from ps vs = Some ks \<Longrightarrow> i < length ps \<Longrightarrow> ks ! i = vs ! (ps ! i)"
  by (induction ps arbitrary: ks i) (auto split: if_splits simp: nth_Cons split: nat.splits)

lemma position_Some:
  "position P xs = Some i \<Longrightarrow> i < length xs \<and> P (xs ! i) \<and> (\<forall>j < i. \<not> P (xs ! j))"
proof (induction xs arbitrary: i)
  case Nil
  then show ?case by simp
next
  case (Cons x xs)
  then show ?case
    by (cases i) (auto split: if_splits simp: nth_Cons split: nat.splits)
qed

lemma position_None: "position P xs = None \<longleftrightarrow> (\<forall>x \<in> set xs. \<not> P x)"
  by (induction xs) auto

end
