(* ===== verification/Codec.thy ===== *)
theory Codec
  imports Common
begin

text \<open>
  \<open>ferrite-storage/src/codec.rs\<close>: the hand-written row encoding. A \<open>Reader\<close> walks a byte
  slice, a \<open>Writer\<close> is the bytes written so far. The lemmas give the round trip of rows and
  the rejection of truncated and over-long input.
\<close>

section \<open>Reader\<close>

record reader =
  rd_bytes :: bytes
  rd_pos :: nat

definition corrupt :: "string \<Rightarrow> failure" where
  "corrupt what = Err (Storage (''corrupt row encoding: '' @ what))"

definition rd_new :: "bytes \<Rightarrow> reader" where
  "rd_new bs = \<lparr>rd_bytes = bs, rd_pos = 0\<rparr>"

definition rd_remaining :: "reader \<Rightarrow> nat" where
  "rd_remaining r = length (rd_bytes r) - rd_pos r"

definition rd_is_empty :: "reader \<Rightarrow> bool" where
  "rd_is_empty r \<longleftrightarrow> rd_remaining r = 0"

definition rd_take :: "nat \<Rightarrow> (reader, failure, bytes) op" where
  "rd_take len = (\<lambda>r.
     if rd_remaining r < len then (Inl (corrupt ''unexpected end of buffer''), r)
     else (Inr (take len (drop (rd_pos r) (rd_bytes r))), r\<lparr>rd_pos := rd_pos r + len\<rparr>))"

definition rd_u8 :: "(reader, failure, u8) op" where
  "rd_u8 = bind_op (rd_take 1) (\<lambda>b. ret_op (b ! 0))"

definition rd_u16 :: "(reader, failure, u16) op" where
  "rd_u16 = bind_op (rd_take 2) (\<lambda>b. ret_op (from_le_bytes b))"

definition rd_u32 :: "(reader, failure, u32) op" where
  "rd_u32 = bind_op (rd_take 4) (\<lambda>b. ret_op (from_le_bytes b))"

definition rd_u64 :: "(reader, failure, u64) op" where
  "rd_u64 = bind_op (rd_take 8) (\<lambda>b. ret_op (from_le_bytes b))"

definition rd_u128 :: "(reader, failure, u128) op" where
  "rd_u128 = bind_op (rd_take 16) (\<lambda>b. ret_op (from_le_bytes b))"

section \<open>Writer\<close>

type_synonym writer = bytes

definition wr_u8 :: "u8 \<Rightarrow> writer \<Rightarrow> writer" where
  "wr_u8 v w = w @ [v]"

definition wr_u16 :: "u16 \<Rightarrow> writer \<Rightarrow> writer" where
  "wr_u16 v w = w @ to_le_bytes v"

definition wr_u32 :: "u32 \<Rightarrow> writer \<Rightarrow> writer" where
  "wr_u32 v w = w @ to_le_bytes v"

definition wr_u64 :: "u64 \<Rightarrow> writer \<Rightarrow> writer" where
  "wr_u64 v w = w @ to_le_bytes v"

definition wr_u128 :: "u128 \<Rightarrow> writer \<Rightarrow> writer" where
  "wr_u128 v w = w @ to_le_bytes v"

definition wr_bytes :: "bytes \<Rightarrow> writer \<Rightarrow> writer" where
  "wr_bytes v w = w @ v"

definition wr_len_prefixed :: "bytes \<Rightarrow> writer \<Rightarrow> writer" where
  "wr_len_prefixed v w = wr_bytes v (wr_u32 (word_of_nat (length v)) w)"

section \<open>Encoding\<close>

definition TAG_NULL :: u8 where "TAG_NULL = 0"
definition TAG_BOOLEAN :: u8 where "TAG_BOOLEAN = 1"
definition TAG_INT4 :: u8 where "TAG_INT4 = 2"
definition TAG_INT8 :: u8 where "TAG_INT8 = 3"
definition TAG_FLOAT8 :: u8 where "TAG_FLOAT8 = 4"
definition TAG_TEXT :: u8 where "TAG_TEXT = 5"
definition TAG_TIMESTAMP :: u8 where "TAG_TIMESTAMP = 6"
definition TAG_UUID :: u8 where "TAG_UUID = 7"
definition TAG_JSON :: u8 where "TAG_JSON = 8"

lemmas tag_defs = TAG_NULL_def TAG_BOOLEAN_def TAG_INT4_def TAG_INT8_def TAG_FLOAT8_def
  TAG_TEXT_def TAG_TIMESTAMP_def TAG_UUID_def TAG_JSON_def

fun encode_value :: "val \<Rightarrow> writer \<Rightarrow> writer" where
  "encode_value VNull w = wr_u8 TAG_NULL w"
| "encode_value (VBoolean b) w = wr_u8 (if b then 1 else 0) (wr_u8 TAG_BOOLEAN w)"
| "encode_value (VInt4 v) w = wr_u32 v (wr_u8 TAG_INT4 w)"
| "encode_value (VInt8 v) w = wr_u64 v (wr_u8 TAG_INT8 w)"
| "encode_value (VFloat8 v) w = wr_u64 v (wr_u8 TAG_FLOAT8 w)"
| "encode_value (VText s) w = wr_len_prefixed s (wr_u8 TAG_TEXT w)"
| "encode_value (VTimestamp v) w = wr_u64 v (wr_u8 TAG_TIMESTAMP w)"
| "encode_value (VUuid v) w = wr_u128 v (wr_u8 TAG_UUID w)"
| "encode_value (VJson s) w = wr_len_prefixed s (wr_u8 TAG_JSON w)"

definition encode_row :: "row \<Rightarrow> bytes" where
  "encode_row r =
     fold encode_value (row_values r) (wr_u16 (word_of_nat (length (row_values r))) [])"

section \<open>Decoding\<close>

text \<open>\<open>String::from_utf8\<close> accepts exactly the well-formed UTF-8 byte sequences.\<close>

definition cont :: "u8 \<Rightarrow> bool" where
  "cont b \<longleftrightarrow> 0x80 \<le> b \<and> b \<le> 0xBF"

fun valid_utf8 :: "bytes \<Rightarrow> bool" where
  "valid_utf8 [] = True"
| "valid_utf8 (a # bs) =
     (if a < 0x80 then valid_utf8 bs
      else case bs of
        [] \<Rightarrow> False
      | b # cs \<Rightarrow>
          if 0xC2 \<le> a \<and> a \<le> 0xDF then cont b \<and> valid_utf8 cs
          else case cs of
            [] \<Rightarrow> False
          | c # ds \<Rightarrow>
              if a = 0xE0 then 0xA0 \<le> b \<and> b \<le> 0xBF \<and> cont c \<and> valid_utf8 ds
              else if a = 0xED then 0x80 \<le> b \<and> b \<le> 0x9F \<and> cont c \<and> valid_utf8 ds
              else if 0xE1 \<le> a \<and> a \<le> 0xEF then cont b \<and> cont c \<and> valid_utf8 ds
              else case ds of
                [] \<Rightarrow> False
              | d # es \<Rightarrow>
                  if a = 0xF0 then 0x90 \<le> b \<and> b \<le> 0xBF \<and> cont c \<and> cont d \<and> valid_utf8 es
                  else if a = 0xF4 then 0x80 \<le> b \<and> b \<le> 0x8F \<and> cont c \<and> cont d \<and> valid_utf8 es
                  else 0xF1 \<le> a \<and> a \<le> 0xF3 \<and> cont b \<and> cont c \<and> cont d \<and> valid_utf8 es)"

definition decode_string :: "(reader, failure, bytes) op" where
  "decode_string = bind_op rd_u32 (\<lambda>len. bind_op (rd_take (unat len)) (\<lambda>bs.
     if valid_utf8 bs then ret_op bs
     else lift_op (Inl (corrupt ''invalid utf-8 in text value''))))"

definition decode_value :: "(reader, failure, val) op" where
  "decode_value = bind_op rd_u8 (\<lambda>tag.
     if tag = TAG_NULL then ret_op VNull
     else if tag = TAG_BOOLEAN then bind_op rd_u8 (\<lambda>b. ret_op (VBoolean (b \<noteq> 0)))
     else if tag = TAG_INT4 then bind_op rd_u32 (\<lambda>v. ret_op (VInt4 v))
     else if tag = TAG_INT8 then bind_op rd_u64 (\<lambda>v. ret_op (VInt8 v))
     else if tag = TAG_FLOAT8 then bind_op rd_u64 (\<lambda>v. ret_op (VFloat8 v))
     else if tag = TAG_TEXT then bind_op decode_string (\<lambda>s. ret_op (VText s))
     else if tag = TAG_TIMESTAMP then bind_op rd_u64 (\<lambda>v. ret_op (VTimestamp v))
     else if tag = TAG_UUID then bind_op rd_u128 (\<lambda>v. ret_op (VUuid v))
     else if tag = TAG_JSON then bind_op decode_string (\<lambda>s. ret_op (VJson s))
     else lift_op (Inl (corrupt (''unknown value tag '' @ dec_string (unat tag)))))"

fun decode_values :: "nat \<Rightarrow> (reader, failure, val list) op" where
  "decode_values 0 = ret_op []"
| "decode_values (Suc n) =
     bind_op decode_value (\<lambda>v. bind_op (decode_values n) (\<lambda>vs. ret_op (v # vs)))"

definition decode_row :: "bytes \<Rightarrow> row res" where
  "decode_row bs = fst (bind_op rd_u16 (\<lambda>count. bind_op (decode_values (unat count)) (\<lambda>vs.
     bind_op (get_op rd_is_empty) (\<lambda>e.
       if \<not> e then lift_op (Inl (corrupt ''trailing bytes after row''))
       else ret_op (row_new vs)))) (rd_new bs))"

section \<open>Reading what is there\<close>

text \<open>
  \<open>rest r\<close> is what a reader has left. A reader over \<open>xs @ ys\<close> reads \<open>xs\<close> and is left with
  \<open>ys\<close>; a reader with less left than asked fails and stays where it was.
\<close>

definition rest :: "reader \<Rightarrow> bytes" where
  "rest r = drop (rd_pos r) (rd_bytes r)"

definition skip :: "nat \<Rightarrow> reader \<Rightarrow> reader" where
  "skip n r = r\<lparr>rd_pos := rd_pos r + n\<rparr>"

named_theorems reader_simps \<open>evaluation of readers over known input\<close>

lemma rest_new [reader_simps]: "rest (rd_new bs) = bs"
  by (simp add: rest_def rd_new_def)

lemma rest_skip [reader_simps]: "rest (skip n r) = drop n (rest r)"
  by (simp add: rest_def skip_def add.commute)

lemma skip_0 [simp]: "skip 0 r = r"
  by (simp add: skip_def)

lemma skip_skip [reader_simps]: "skip n (skip m r) = skip (m + n) r"
  by (simp add: skip_def add.assoc)

lemma rd_remaining_rest: "rd_remaining r = length (rest r)"
  by (simp add: rd_remaining_def rest_def)

lemma rd_is_empty_rest: "rd_is_empty r \<longleftrightarrow> rest r = []"
  by (simp add: rd_is_empty_def rd_remaining_rest)

lemma rd_take_eq:
  "rd_take n r =
     (if length (rest r) < n then (Inl (corrupt ''unexpected end of buffer''), r)
      else (Inr (take n (rest r)), skip n r))"
  by (simp add: rd_take_def rd_remaining_rest rest_def skip_def)

lemma rd_take_append [reader_simps]:
  "rest r = xs @ ys \<Longrightarrow> n = length xs \<Longrightarrow> rd_take n r = (Inr xs, skip n r)"
  by (simp add: rd_take_eq)

lemma rd_u8_Cons [reader_simps]: "rest r = b # ys \<Longrightarrow> rd_u8 r = (Inr b, skip 1 r)"
  by (simp add: rd_u8_def bind_op_def rd_take_eq)

lemma rd_le_append [reader_simps]:
  "rest r = to_le_bytes a @ ys \<Longrightarrow> rd_u16 r = (Inr a, skip 2 r)"
  "rest r = to_le_bytes b @ ys \<Longrightarrow> rd_u32 r = (Inr b, skip 4 r)"
  "rest r = to_le_bytes c @ ys \<Longrightarrow> rd_u64 r = (Inr c, skip 8 r)"
  "rest r = to_le_bytes d @ ys \<Longrightarrow> rd_u128 r = (Inr d, skip 16 r)"
  by (simp_all add: rd_u16_def rd_u32_def rd_u64_def rd_u128_def bind_op_def rd_take_eq)

section \<open>Round trip\<close>

text \<open>What Rust's types guarantee of a value, plus the 32-bit length of its text.\<close>

fun val_ok :: "val \<Rightarrow> bool" where
  "val_ok (VText s) = (valid_utf8 s \<and> length s < 2 ^ 32)"
| "val_ok (VJson s) = (valid_utf8 s \<and> length s < 2 ^ 32)"
| "val_ok _ = True"

definition row_ok :: "row \<Rightarrow> bool" where
  "row_ok r \<longleftrightarrow> list_all val_ok (row_values r) \<and> length (row_values r) < 2 ^ 16"

lemmas writer_defs = wr_u8_def wr_u16_def wr_u32_def wr_u64_def wr_u128_def wr_bytes_def
  wr_len_prefixed_def

lemma encode_value_append: "encode_value v w = w @ encode_value v []"
  by (cases v) (simp_all add: writer_defs)

lemma encode_values_append:
  "fold encode_value vs w = w @ concat (map (\<lambda>v. encode_value v []) vs)"
proof (induction vs arbitrary: w)
  case Nil
  show ?case by simp
next
  case (Cons v vs)
  then show ?case
    by (simp add: encode_value_append [of v w])
qed

lemma decode_string_append:
  assumes "rest r = to_le_bytes (word_of_nat (length s) :: u32) @ s @ ys"
    and "valid_utf8 s" and "length s < 2 ^ 32"
  shows "decode_string r = (Inr s, skip (4 + length s) r)"
proof -
  have "unat (word_of_nat (length s) :: u32) = length s"
    using assms(3) by (simp add: unat_of_nat)
  moreover have "rd_take (length s) (skip 4 r) = (Inr s, skip (4 + length s) r)"
    using rd_take_append [of "skip 4 r" s ys] assms(1) by (simp add: reader_simps)
  ultimately show ?thesis
    using assms(2) by (simp add: decode_string_def bind_op_def rd_le_append(2) [OF assms(1)])
qed

lemma decode_value_append:
  assumes "rest r = encode_value v [] @ ys" and "val_ok v"
  shows "decode_value r = (Inr v, skip (length (encode_value v [])) r)"
proof -
  obtain tag body where enc: "encode_value v [] = tag # body"
    by (cases v) (auto simp: writer_defs)
  have tag: "rd_u8 r = (Inr tag, skip 1 r)"
    using assms(1) enc by (simp add: reader_simps)
  have body: "rest (skip 1 r) = body @ ys"
    using assms(1) enc by (simp add: reader_simps)
  show ?thesis
  proof (cases v)
    case (VBoolean b)
    with enc body have "rd_u8 (skip 1 r) = (Inr (if b then 1 else 0), skip 2 r)"
      by (auto simp: writer_defs reader_simps numeral_2_eq_2)
    with VBoolean enc tag show ?thesis
      by (auto simp: decode_value_def bind_op_def writer_defs tag_defs numeral_2_eq_2)
  next
    case (VText s)
    with enc body assms(2) have "decode_string (skip 1 r) = (Inr s, skip (4 + length s) (skip 1 r))"
      by (intro decode_string_append) (auto simp: writer_defs)
    with VText enc tag show ?thesis
      by (auto simp: decode_value_def bind_op_def writer_defs tag_defs reader_simps)
  next
    case (VJson s)
    with enc body assms(2) have "decode_string (skip 1 r) = (Inr s, skip (4 + length s) (skip 1 r))"
      by (intro decode_string_append) (auto simp: writer_defs)
    with VJson enc tag show ?thesis
      by (auto simp: decode_value_def bind_op_def writer_defs tag_defs reader_simps)
  next
    case (VInt4 x)
    with enc body have "rd_u32 (skip 1 r) = (Inr x, skip 4 (skip 1 r))"
      by (intro rd_le_append) (auto simp: writer_defs)
    with VInt4 enc tag show ?thesis
      by (auto simp: decode_value_def bind_op_def writer_defs tag_defs reader_simps)
  next
    case (VInt8 x)
    with enc body have "rd_u64 (skip 1 r) = (Inr x, skip 8 (skip 1 r))"
      by (intro rd_le_append) (auto simp: writer_defs)
    with VInt8 enc tag show ?thesis
      by (auto simp: decode_value_def bind_op_def writer_defs tag_defs reader_simps)
  next
    case (VFloat8 x)
    with enc body have "rd_u64 (skip 1 r) = (Inr x, skip 8 (skip 1 r))"
      by (intro rd_le_append) (auto simp: writer_defs)
    with VFloat8 enc tag show ?thesis
      by (auto simp: decode_value_def bind_op_def writer_defs tag_defs reader_simps)
  next
    case (VTimestamp x)
    with enc body have "rd_u64 (skip 1 r) = (Inr x, skip 8 (skip 1 r))"
      by (intro rd_le_append) (auto simp: writer_defs)
    with VTimestamp enc tag show ?thesis
      by (auto simp: decode_value_def bind_op_def writer_defs tag_defs reader_simps)
  next
    case (VUuid x)
    with enc body have "rd_u128 (skip 1 r) = (Inr x, skip 16 (skip 1 r))"
      by (intro rd_le_append) (auto simp: writer_defs)
    with VUuid enc tag show ?thesis
      by (auto simp: decode_value_def bind_op_def writer_defs tag_defs reader_simps)
  next
    case VNull
    with enc tag show ?thesis
      by (auto simp: decode_value_def bind_op_def writer_defs tag_defs)
  qed
qed

lemma decode_values_append:
  assumes "list_all val_ok vs"
    and "rest r = concat (map (\<lambda>v. encode_value v []) vs) @ ys"
  shows "\<exists>n. decode_values (length vs) r = (Inr vs, skip n r) \<and> rest (skip n r) = ys"
  using assms
proof (induction vs arbitrary: r)
  case Nil
  then show ?case by (intro exI [of _ 0]) simp
next
  case (Cons v vs)
  let ?n = "length (encode_value v [])"
  have v: "decode_value r = (Inr v, skip ?n r)"
    using Cons.prems by (intro decode_value_append) auto
  have "rest (skip ?n r) = concat (map (\<lambda>v. encode_value v []) vs) @ ys"
    using Cons.prems by (simp add: reader_simps)
  then obtain m where "decode_values (length vs) (skip ?n r) = (Inr vs, skip m (skip ?n r))"
    and "rest (skip m (skip ?n r)) = ys"
    using Cons by auto
  with v show ?case
    by (intro exI [of _ "?n + m"]) (simp add: bind_op_def reader_simps)
qed

lemma row_roundtrip:
  assumes "row_ok r"
  shows "decode_row (encode_row r) = Inr r"
proof -
  let ?vs = "row_values r"
  let ?r0 = "rd_new (encode_row r)"
  let ?body = "concat (map (\<lambda>v. encode_value v []) ?vs)"
  have len: "unat (word_of_nat (length ?vs) :: u16) = length ?vs" and ok: "list_all val_ok ?vs"
    using assms by (simp_all add: row_ok_def unat_of_nat)
  have rest: "rest ?r0 = to_le_bytes (word_of_nat (length ?vs) :: u16) @ ?body"
    by (simp add: reader_simps encode_row_def encode_values_append writer_defs)
  then have "rest (skip 2 ?r0) = ?body @ []"
    by (simp add: reader_simps)
  then obtain n where "decode_values (length ?vs) (skip 2 ?r0) = (Inr ?vs, skip n (skip 2 ?r0))"
    and "rest (skip n (skip 2 ?r0)) = []"
    using decode_values_append [OF ok] by blast
  then show ?thesis
    using len by (simp add: decode_row_def bind_op_def rd_le_append(1) [OF rest] rd_is_empty_rest
        row_new_def)
qed

text \<open>
  C23: decoding the encoding of a row returns that row, bit for bit (a NaN keeps its payload),
  for every row whose values fit the format: well-formed text, fewer than \<open>2^16\<close> columns and
  fewer than \<open>2^32\<close> bytes of text each.
\<close>

theorem decode_encode_row:
  "row_ok r \<Longrightarrow> decode_row (encode_row r) = Inr r"
  by (rule row_roundtrip)

theorem decode_encode_row_witness:
  "decode_row (encode_row \<lparr>row_values = [VNull, VBoolean True, VInt4 7, VText [0x68, 0xC3, 0xA9]]\<rparr>)
     = Inr \<lparr>row_values = [VNull, VBoolean True, VInt4 7, VText [0x68, 0xC3, 0xA9]]\<rparr>"
  by (rule decode_encode_row) (simp add: row_ok_def cont_def)

section \<open>Damaged input\<close>

text \<open>
  A computation on a reader is prefix-stable when a success depends only on the bytes it
  consumed: with more bytes behind them it returns the same value.
\<close>

definition extend :: "bytes \<Rightarrow> reader \<Rightarrow> reader" where
  "extend ys r = r\<lparr>rd_bytes := rd_bytes r @ ys\<rparr>"

definition in_range :: "reader \<Rightarrow> bool" where
  "in_range r \<longleftrightarrow> rd_pos r \<le> length (rd_bytes r)"

definition prefix_stable :: "(reader, failure, 'a) op \<Rightarrow> bool" where
  "prefix_stable m \<longleftrightarrow> (\<forall>r a s ys. in_range r \<longrightarrow> m r = (Inr a, s) \<longrightarrow>
     in_range s \<and> m (extend ys r) = (Inr a, extend ys s))"

named_theorems stable \<open>prefix-stable readers\<close>

lemma prefix_stable_ret [stable]: "prefix_stable (ret_op a)"
  by (simp add: prefix_stable_def)

lemma prefix_stable_fail [stable]: "prefix_stable (lift_op (Inl e))"
  by (simp add: prefix_stable_def)

lemma prefix_stable_bind [stable]:
  assumes "prefix_stable m" and "\<And>a. prefix_stable (f a)"
  shows "prefix_stable (bind_op m f)"
  using assms unfolding prefix_stable_def bind_op_Inr_iff by blast

lemma prefix_stable_if [stable]:
  "prefix_stable m \<Longrightarrow> prefix_stable m' \<Longrightarrow> prefix_stable (if b then m else m')"
  by simp

lemma prefix_stable_take [stable]: "prefix_stable (rd_take n)"
  by (auto simp: prefix_stable_def rd_take_def rd_remaining_def extend_def in_range_def
      split: if_splits)

lemma prefix_stable_scalars [stable]:
  "prefix_stable rd_u8" "prefix_stable rd_u16" "prefix_stable rd_u32" "prefix_stable rd_u64"
  "prefix_stable rd_u128"
  unfolding rd_u8_def rd_u16_def rd_u32_def rd_u64_def rd_u128_def by (intro stable)+

lemma prefix_stable_decode_value [stable]: "prefix_stable decode_value"
  unfolding decode_value_def decode_string_def by (intro stable)

lemma prefix_stable_decode_values [stable]: "prefix_stable (decode_values n)"
  by (induction n) (simp_all only: decode_values.simps, (intro stable; assumption)+)

text \<open>
  A decoder that reads its whole input through a prefix-stable computation and then refuses
  left-over bytes accepts no strict prefix of anything it accepts.
\<close>

lemma rest_extend: "in_range r \<Longrightarrow> rest (extend ys r) = rest r @ ys"
  by (simp add: rest_def extend_def in_range_def)

lemma stable_unique_end:
  assumes "prefix_stable m"
    and "m (rd_new xs) = (Inr a, s)" and "rest s = []"
    and "m (rd_new (xs @ ys)) = (Inr b, t)" and "rest t = []"
  shows "ys = []"
proof -
  have "in_range (rd_new xs)" and "rd_new (xs @ ys) = extend ys (rd_new xs)"
    by (simp_all add: in_range_def rd_new_def extend_def)
  with assms(1,2) have "in_range s" and "m (rd_new (xs @ ys)) = (Inr a, extend ys s)"
    by (auto simp: prefix_stable_def)
  moreover from this assms(4) have "t = extend ys s"
    by simp
  ultimately show ?thesis
    using assms(3,5) by (simp add: rest_extend)
qed

definition row_reader :: "(reader, failure, val list) op" where
  "row_reader = bind_op rd_u16 (\<lambda>count. decode_values (unat count))"

lemma decode_row_Inr_iff:
  "decode_row bs = Inr r \<longleftrightarrow>
     (\<exists>s. row_reader (rd_new bs) = (Inr (row_values r), s) \<and> rest s = [])"
  unfolding decode_row_def row_reader_def bind_op_assoc [symmetric]
  by (cases r)
    (auto simp: bind_op_def row_new_def rd_is_empty_rest split: prod.splits sum.splits if_splits)

text \<open>
  No strict prefix of a decodable row decodes, so a row cut short on disk is reported
  and never read back as a different row.
\<close>

theorem decode_row_rejects_truncation:
  assumes "decode_row bs = Inr r" and "n < length bs"
  shows "\<exists>e. decode_row (take n bs) = Inl e"
proof (cases "decode_row (take n bs)")
  case (Inr r')
  then obtain s t where
    "row_reader (rd_new (take n bs)) = (Inr (row_values r'), s)" "rest s = []"
    "row_reader (rd_new (take n bs @ drop n bs)) = (Inr (row_values r), t)" "rest t = []"
    using assms(1) by (auto simp: decode_row_Inr_iff)
  moreover have "prefix_stable row_reader"
    unfolding row_reader_def by (intro stable)
  ultimately have "drop n bs = []"
    by (rule stable_unique_end [rotated])
  with assms(2) show ?thesis by simp
qed blast

theorem decode_row_rejects_truncation_witness:
  "\<exists>e. decode_row (take 2 (encode_row \<lparr>row_values = [VInt4 1]\<rparr>)) = Inl e"
  by (rule decode_row_rejects_truncation [OF row_roundtrip])
    (simp_all add: row_ok_def encode_row_def writer_defs)

end
