(* ===== verification/Crc.thy ===== *)
theory Crc
  imports Prelude
begin

unbundle bit_operations_syntax

text \<open>
  \<open>ferrite-storage/src/crc.rs\<close>: the table-driven CRC-32C that guards every page and every
  journal record. The lemmas show that the table computes the bitwise division by the
  Castagnoli polynomial and that a change confined to four adjacent bytes never goes
  unnoticed.
\<close>

section \<open>Definitions\<close>

definition POLY :: u32 where
  "POLY = 0x82f63b78"

text \<open>One turn of the inner loop of \<open>build_table\<close>.\<close>

definition crc_bit :: "u32 \<Rightarrow> u32" where
  "crc_bit crc = (if crc AND 1 \<noteq> 0 then drop_bit 1 crc XOR POLY else drop_bit 1 crc)"

definition build_table :: "u32 list" where
  "build_table = map (\<lambda>i. (crc_bit ^^ 8) (word_of_nat i)) [0..<256]"

definition crc_step :: "u32 \<Rightarrow> u8 \<Rightarrow> u32" where
  "crc_step crc b = drop_bit 8 crc XOR build_table ! unat ((crc XOR ucast b) AND 0xff)"

definition crc32c :: "bytes \<Rightarrow> u32" where
  "crc32c bs = NOT (foldl crc_step 0xffffffff bs)"

section \<open>The table is bitwise division\<close>

lemma crc_bit_linear: "crc_bit (x XOR y) = crc_bit x XOR crc_bit y"
proof -
  have odd: "(z AND 1 \<noteq> 0) = bit z 0" for z :: u32
    by (simp add: and_one_eq bit_0 odd_iff_mod_2_eq_one)
  show ?thesis
    unfolding crc_bit_def odd
    by (auto simp: bit_xor_iff drop_bit_xor ac_simps)
qed

lemma crc_bits_linear: "(crc_bit ^^ n) (x XOR y) = (crc_bit ^^ n) x XOR (crc_bit ^^ n) y"
  by (induction n) (simp_all add: crc_bit_linear)

lemma crc_bits_high:
  assumes "\<And>i. i < n \<Longrightarrow> \<not> bit z i"
  shows "(crc_bit ^^ n) z = drop_bit n z"
  using assms
proof (induction n)
  case 0
  show ?case by simp
next
  case (Suc n)
  then have "(crc_bit ^^ n) z = drop_bit n z"
    by simp
  moreover have "\<not> bit (drop_bit n z) 0"
    using Suc.prems [of n] by (simp add: bit_drop_bit_eq)
  then have "crc_bit (drop_bit n z) = drop_bit 1 (drop_bit n z)"
    by (simp add: crc_bit_def and_one_eq bit_0 odd_iff_mod_2_eq_one)
  ultimately show ?case
    by simp
qed

lemma build_table_nth: "i < 256 \<Longrightarrow> build_table ! i = (crc_bit ^^ 8) (word_of_nat i)"
  by (simp add: build_table_def)

lemma low_byte_bound: "unat (x AND 0xff :: u32) < 256"
proof -
  have "x AND 0xff \<le> (0xff :: u32)"
    by (rule word_and_le1)
  then show ?thesis
    by (simp add: word_le_nat_alt)
qed

lemma crc_step_bitwise: "crc_step crc b = (crc_bit ^^ 8) (crc XOR ucast b)"
proof -
  let ?x = "crc XOR ucast b :: u32"
  let ?lo = "?x AND 0xff" and ?hi = "?x AND NOT (mask 8)"
  have ff: "(0xff :: u32) = mask 8"
    by (simp add: mask_eq_decr_exp)
  have split: "?x = ?lo XOR ?hi"
    unfolding ff by (rule bit_word_eqI) (auto simp: bit_simps)
  have hi: "(crc_bit ^^ 8) ?hi = drop_bit 8 ?hi"
    by (rule crc_bits_high) (simp add: bit_simps)
  have drop: "drop_bit 8 ?hi = drop_bit 8 crc"
    by (rule bit_word_eqI) (auto simp: bit_simps dest: bit_imp_le_length)
  have "(crc_bit ^^ 8) ?x = (crc_bit ^^ 8) ?lo XOR (crc_bit ^^ 8) ?hi"
    by (subst split) (rule crc_bits_linear)
  also have "(crc_bit ^^ 8) ?lo = build_table ! unat ?lo"
    using low_byte_bound [of ?x] by (simp add: build_table_nth)
  finally show ?thesis
    unfolding crc_step_def hi drop by (simp only: xor.commute)
qed

section \<open>Burst errors\<close>

lemma xor_zeroD:
  fixes x y :: u32
  assumes "x XOR y = 0"
  shows "x = y"
proof (rule bit_word_eqI)
  fix n
  have "bit (x XOR y) n = bit (0 :: u32) n"
    using assms by simp
  then show "bit x n = bit y n"
    by (simp add: bit_xor_iff)
qed

lemma xor_cancel:
  fixes x y z :: u32
  assumes "x XOR z = y XOR z"
  shows "x = y"
proof (rule bit_word_eqI)
  fix n
  have "bit (x XOR z) n = bit (y XOR z) n"
    using assms by simp
  then show "bit x n = bit y n"
    by (auto simp: bit_xor_iff)
qed

lemma crc_bit_zero: "crc_bit z = 0 \<longleftrightarrow> z = 0"
proof
  assume zero: "crc_bit z = 0"
  show "z = 0"
  proof (cases "z AND 1 \<noteq> 0")
    case True
    with zero have "drop_bit 1 z XOR POLY = 0"
      by (simp add: crc_bit_def)
    then have "drop_bit 1 z = POLY"
      by (rule xor_zeroD)
    moreover have "bit POLY 31"
      by (simp add: POLY_def)
    ultimately have "bit (drop_bit 1 z) 31"
      by simp
    then have "bit z 32"
      by (simp add: bit_drop_bit_eq)
    then show ?thesis
      using bit_imp_le_length [of z 32] by simp
  next
    case False
    with zero have "drop_bit 1 z = 0" and "\<not> bit z 0"
      by (simp_all add: crc_bit_def and_one_eq bit_0 odd_iff_mod_2_eq_one)
    show ?thesis
    proof (rule bit_word_eqI)
      fix n
      have "bit (drop_bit 1 z) m = bit (0 :: u32) m" for m
        using \<open>drop_bit 1 z = 0\<close> by simp
      then have "\<not> bit z (Suc m)" for m
        by (simp add: bit_drop_bit_eq)
      with \<open>\<not> bit z 0\<close> show "bit z n = bit 0 n"
        by (cases n) simp_all
    qed
  qed
qed (simp add: crc_bit_def)

lemma crc_bits_zero: "(crc_bit ^^ n) z = 0 \<longleftrightarrow> z = 0"
  by (induction n) (simp_all add: crc_bit_zero)

lemma crc_bits_inj:
  assumes "(crc_bit ^^ n) x = (crc_bit ^^ n) y"
  shows "x = y"
proof -
  have "(crc_bit ^^ n) (x XOR y) = 0"
    using assms by (simp add: crc_bits_linear)
  then have "x XOR y = 0"
    by (simp add: crc_bits_zero)
  then show ?thesis
    by (rule xor_zeroD)
qed

lemma crc_step_inj: "crc_step x b = crc_step y b \<Longrightarrow> x = y"
  by (auto simp: crc_step_bitwise dest!: crc_bits_inj xor_cancel)

lemma crc_fold_inj: "foldl crc_step x bs = foldl crc_step y bs \<Longrightarrow> x = y"
  by (induction bs arbitrary: x y) (auto dest: crc_step_inj)


text \<open>Up to four bytes enter the register as one little-endian word.\<close>

lemma crc_bits_byte_shift:
  assumes "w < 2 ^ 24"
  shows "w = (crc_bit ^^ 8) (push_bit 8 w)"
proof -
  have "(crc_bit ^^ 8) (push_bit 8 w) = drop_bit 8 (push_bit 8 w)"
    by (rule crc_bits_high) (simp add: bit_simps)
  also have "\<dots> = w"
  proof (rule bit_word_eqI)
    fix n
    assume "n < LENGTH(32)"
    have "unat w < 2 ^ 24"
      using assms by (simp add: word_less_nat_alt)
    then have "take_bit 24 (unat w) = unat w"
      by (rule take_bit_nat_eq_self)
    then have "bit (unat w) n \<longrightarrow> n < 24"
      by (metis bit_take_bit_iff)
    then have "bit w n \<longrightarrow> n < 24"
      by (simp add: bit_unsigned_iff)
    then show "bit (drop_bit 8 (push_bit 8 w)) n = bit w n"
      by (auto simp: bit_simps)
  qed
  finally show ?thesis ..
qed

lemma from_le_bytes_Cons:
  assumes "length bs \<le> 3"
  shows "(from_le_bytes (b # bs) :: u32) = ucast b XOR push_bit 8 (from_le_bytes bs)"
    and "(from_le_bytes bs :: u32) < 2 ^ 24"
proof -
  have n: "le_to_nat bs < 2 ^ 24"
    using le_to_nat_bound [of bs] power_increasing [OF assms, of "256 :: nat"] by simp
  then show "(from_le_bytes bs :: u32) < 2 ^ 24"
    by (simp add: from_le_bytes_def word_less_nat_alt unat_of_nat)
  have disj: "ucast b AND push_bit 8 (from_le_bytes bs) = (0 :: u32)"
    by (rule bit_word_eqI) (auto simp: bit_simps dest: bit_imp_le_length)
  have "(from_le_bytes (b # bs) :: u32) = ucast b + push_bit 8 (from_le_bytes bs)"
    by (simp add: from_le_bytes_def push_bit_eq_mult)
  also have "\<dots> = ucast b XOR push_bit 8 (from_le_bytes bs)"
    using disj by (rule disjunctive_add_eq_xor)
  finally show "(from_le_bytes (b # bs) :: u32) = ucast b XOR push_bit 8 (from_le_bytes bs)" .
qed

lemma crc_fold_word:
  "length bs \<le> 4 \<Longrightarrow>
     foldl crc_step x bs = (crc_bit ^^ (8 * length bs)) (x XOR from_le_bytes bs)"
proof (induction bs arbitrary: x)
  case Nil
  show ?case by (simp add: from_le_bytes_def)
next
  case (Cons b bs)
  let ?w = "from_le_bytes bs :: u32"
  have le: "length bs \<le> 3"
    using Cons.prems by simp
  have "foldl crc_step x (b # bs) = (crc_bit ^^ (8 * length bs)) (crc_step x b XOR ?w)"
    using Cons le by simp
  also have "crc_step x b XOR ?w = (crc_bit ^^ 8) (x XOR ucast b) XOR (crc_bit ^^ 8) (push_bit 8 ?w)"
    using crc_bits_byte_shift [OF from_le_bytes_Cons(2) [OF le]] by (simp add: crc_step_bitwise)
  also have "\<dots> = (crc_bit ^^ 8) (x XOR from_le_bytes (b # bs))"
    by (simp add: crc_bits_linear from_le_bytes_Cons(1) [OF le] xor.assoc)
  finally show ?case
    by (simp add: funpow_add [symmetric, THEN fun_cong, unfolded comp_def] add.commute)
qed

text \<open>
  C22: two messages that differ only in a window of at most four adjacent bytes have
  different checksums, so a burst of up to 32 bits inside a page or a journal record is
  always detected.
\<close>

theorem crc32c_detects_burst:
  assumes "length a = length b" and "length a \<le> 4"
    and "crc32c (xs @ a @ ys) = crc32c (xs @ b @ ys)"
  shows "a = b"
proof -
  let ?s = "foldl crc_step 0xffffffff xs"
  have "foldl crc_step ?s a = foldl crc_step ?s b"
    using assms(3) by (auto simp: crc32c_def dest: crc_fold_inj)
  then have "?s XOR from_le_bytes a = ?s XOR from_le_bytes b"
    using assms(1,2) crc_bits_inj by (simp add: crc_fold_word)
  then have "from_le_bytes a = (from_le_bytes b :: u32)"
    using xor_cancel by (simp add: xor.commute [of ?s])
  moreover have "unat (from_le_bytes cs :: u32) = le_to_nat cs" if "length cs \<le> 4" for cs
    using le_to_nat_bound [of cs] power_increasing [OF that, of "256 :: nat"]
    by (simp add: from_le_bytes_def unat_of_nat)
  ultimately have "le_to_nat a = le_to_nat b"
    using assms(1,2) by metis
  then show ?thesis
    by (metis assms(1) nat_to_le_le_to_nat)
qed

theorem crc32c_detects_burst_witness:
  "crc32c ([1, 2] @ [3, 4] @ [5]) \<noteq> crc32c ([1, 2] @ [3, 9] @ [5])"
  using crc32c_detects_burst [of "[3, 4]" "[3, 9]" "[1, 2]" "[5]"] by auto

lemma crc_byte_steps: "(crc_bit ^^ 8) x =
    crc_bit (crc_bit (crc_bit (crc_bit (crc_bit (crc_bit (crc_bit (crc_bit x)))))))"
  by (simp add: numeral_eq_Suc)

lemma crc32c_known_vectors:
  "crc32c [] = 0"
  "crc32c [0x61] = 0xc1d04330"
  "crc32c [0x31, 0x32, 0x33, 0x34, 0x35, 0x36, 0x37, 0x38, 0x39] = 0xe3069283"
  by (simp_all add: crc32c_def crc_step_bitwise crc_byte_steps crc_bit_def POLY_def)

end
