(* ===== verification/Page.thy ===== *)
theory Page
  imports Common Crc
begin

text \<open>
  \<open>ferrite-storage/src/page.rs\<close>: the 8 KiB slotted page, byte for byte. A page is its 8192
  bytes; the header fields are read and written at the offsets of the source. Reading a slot
  or an item outside the buffer is the panic it would be in Rust.

  The invariant \<open>page_inv\<close> is what \<open>validate_layout\<close> checks together with the disjointness
  of the items. Under it a page is a list of items (\<open>page_items\<close>), and inserting, removing,
  replacing and compacting are the corresponding list operations, none of which panics.
\<close>

section \<open>Definitions\<close>

definition PAGE_SIZE :: nat where [layout]: "PAGE_SIZE = 8192"
definition HEADER_SIZE :: nat where [layout]: "HEADER_SIZE = 24"
definition SLOT_SIZE :: nat where [layout]: "SLOT_SIZE = 4"

type_synonym page_id = u32

definition META_PAGE :: page_id where "META_PAGE = 0"
definition NO_PAGE :: page_id where "NO_PAGE = 0"

datatype page_kind =
  PK_Meta | PK_Leaf | PK_Internal | PK_Overflow | PK_TableHeader | PK_Clog | PK_Free

fun kind_to_u8 :: "page_kind \<Rightarrow> u8" where
  "kind_to_u8 PK_Meta = 0"
| "kind_to_u8 PK_Leaf = 1"
| "kind_to_u8 PK_Internal = 2"
| "kind_to_u8 PK_Overflow = 3"
| "kind_to_u8 PK_TableHeader = 4"
| "kind_to_u8 PK_Clog = 5"
| "kind_to_u8 PK_Free = 6"

definition kind_from_u8 :: "u8 \<Rightarrow> page_kind res" where
  "kind_from_u8 v =
     (if v = 0 then Inr PK_Meta
      else if v = 1 then Inr PK_Leaf
      else if v = 2 then Inr PK_Internal
      else if v = 3 then Inr PK_Overflow
      else if v = 4 then Inr PK_TableHeader
      else if v = 5 then Inr PK_Clog
      else if v = 6 then Inr PK_Free
      else Inl (Err (Storage (''unknown page kind '' @ dec_string (unat v)))))"

text \<open>\<open>Box<[u8; PAGE_SIZE]>\<close>: the length is an invariant here and part of the type there.\<close>

type_synonym page = bytes

definition get_u16 :: "nat \<Rightarrow> page \<Rightarrow> nat" where
  "get_u16 a p = unat (from_le_bytes (take 2 (drop a p)) :: u16)"

definition put_u16 :: "nat \<Rightarrow> u16 \<Rightarrow> page \<Rightarrow> page" where
  "put_u16 a v p = overwrite a (to_le_bytes v) p"

definition kind :: "page \<Rightarrow> page_kind res" where
  "kind p = (case kind_from_u8 (p ! 12) of Inl _ \<Rightarrow> Inl Panic | Inr k \<Rightarrow> Inr k)"

definition set_kind :: "page_kind \<Rightarrow> page \<Rightarrow> page" where
  "set_kind k p = p[12 := kind_to_u8 k]"

definition lsn :: "page \<Rightarrow> u64" where
  "lsn p = from_le_bytes (take 8 (drop 4 p))"

definition set_lsn :: "u64 \<Rightarrow> page \<Rightarrow> page" where
  "set_lsn v p = overwrite 4 (to_le_bytes v) p"

definition extra :: "page \<Rightarrow> u32" where
  "extra p = from_le_bytes (take 4 (drop 20 p))"

definition set_extra :: "u32 \<Rightarrow> page \<Rightarrow> page" where
  "set_extra v p = overwrite 20 (to_le_bytes v) p"

definition slot_count :: "page \<Rightarrow> nat" where
  "slot_count p = get_u16 14 p"

definition set_slot_count :: "u16 \<Rightarrow> page \<Rightarrow> page" where
  "set_slot_count v p = put_u16 14 v p"

definition free_end :: "page \<Rightarrow> nat" where
  "free_end p = get_u16 16 p"

definition set_free_end :: "u16 \<Rightarrow> page \<Rightarrow> page" where
  "set_free_end v p = put_u16 16 v p"

definition page_new :: "page_kind \<Rightarrow> page" where
  "page_new k = set_free_end (word_of_nat PAGE_SIZE) (set_kind k (replicate PAGE_SIZE 0))"

definition body :: "page \<Rightarrow> bytes" where
  "body p = drop HEADER_SIZE p"

text \<open>\<open>body_mut()[a..a + data.len()].copy_from_slice(data)\<close>.\<close>

definition put_body :: "nat \<Rightarrow> bytes \<Rightarrow> page \<Rightarrow> page res" where
  "put_body a data p =
     (if HEADER_SIZE + a + length data \<le> length p then Inr (overwrite (HEADER_SIZE + a) data p)
      else Inl Panic)"

definition slot_base :: "nat \<Rightarrow> nat" where
  "slot_base i = HEADER_SIZE + i * SLOT_SIZE"

definition slot_at :: "page \<Rightarrow> nat \<Rightarrow> (nat \<times> nat) res" where
  "slot_at p i =
     (if slot_base i + 4 \<le> length p
      then Inr (get_u16 (slot_base i) p, get_u16 (slot_base i + 2) p) else Inl Panic)"

definition write_slot :: "nat \<Rightarrow> nat \<Rightarrow> nat \<Rightarrow> page \<Rightarrow> page res" where
  "write_slot i offset len p =
     (if slot_base i + 4 \<le> length p
      then Inr (put_u16 (slot_base i + 2) (word_of_nat len) (put_u16 (slot_base i) (word_of_nat offset) p))
      else Inl Panic)"

definition item :: "page \<Rightarrow> nat \<Rightarrow> bytes res" where
  "item p i = bind_res (slot_at p i) (\<lambda>(offset, len). checked (slice p offset (offset + len)))"

definition item_cost :: "nat \<Rightarrow> nat" where
  "item_cost len = len + SLOT_SIZE"

definition free_space :: "page \<Rightarrow> nat" where
  "free_space p = free_end p - (HEADER_SIZE + slot_count p * SLOT_SIZE)"

subsection \<open>Loading and storing\<close>

definition bad_layout :: "page_id \<Rightarrow> string \<Rightarrow> failure" where
  "bad_layout pid what = Err (Storage (''page '' @ dec_string (unat pid) @ '': corrupt layout, '' @ what))"

fun validate_slots :: "page_id \<Rightarrow> page \<Rightarrow> nat list \<Rightarrow> unit res" where
  "validate_slots pid p [] = Inr ()"
| "validate_slots pid p (i # is) = bind_res (slot_at p i) (\<lambda>(offset, len).
     if offset < free_end p \<or> offset + len > PAGE_SIZE
     then Inl (bad_layout pid ''an item lies outside the item area'')
     else validate_slots pid p is)"

definition validate_layout :: "page_id \<Rightarrow> page \<Rightarrow> unit res" where
  "validate_layout pid p =
     (let count = slot_count p; slot_end = HEADER_SIZE + count * SLOT_SIZE
      in if slot_end > PAGE_SIZE
         then Inl (bad_layout pid ''slot array runs past the end of the page'')
         else if free_end p > PAGE_SIZE \<or> free_end p < slot_end
         then Inl (bad_layout pid ''free-space boundary outside the item area'')
         else validate_slots pid p [0..<count])"

definition from_bytes :: "bytes \<Rightarrow> page_id \<Rightarrow> page res" where
  "from_bytes bs pid =
     (if (from_le_bytes (take 4 bs) :: u32) \<noteq> crc32c (drop 4 bs)
      then Inl (Err (Storage (''page '' @ dec_string (unat pid) @ '' checksum mismatch'')))
      else bind_res (kind_from_u8 (bs ! 12)) (\<lambda>_.
             bind_res (validate_layout pid bs) (\<lambda>_. Inr bs)))"

definition to_bytes :: "page \<Rightarrow> bytes" where
  "to_bytes p = overwrite 0 (to_le_bytes (crc32c (drop 4 p))) p"

subsection \<open>Items\<close>

text \<open>\<open>for i in (index..count).rev()\<close>: the slots from \<open>index\<close> on move one place right.\<close>

fun shift_right :: "nat \<Rightarrow> nat \<Rightarrow> page \<Rightarrow> page res" where
  "shift_right index 0 p = Inr p"
| "shift_right index (Suc i) p =
     (if i < index then Inr p
      else bind_res (slot_at p i) (\<lambda>(offset, len).
             bind_res (write_slot (Suc i) offset len p) (shift_right index i)))"

definition insert_item :: "nat \<Rightarrow> bytes \<Rightarrow> page \<Rightarrow> (bool \<times> page) res" where
  "insert_item index data p =
     (if item_cost (length data) > free_space p then Inr (False, p)
      else
        let count = slot_count p; offset = free_end p - length data
        in if offset + length data > length p then Inl Panic
           else bind_res (shift_right index count
                    (set_free_end (word_of_nat offset) (overwrite offset data p))) (\<lambda>p1.
                bind_res (write_slot index offset (length data) p1) (\<lambda>p2.
                  Inr (True, set_slot_count (word_of_nat (count + 1)) p2))))"

text \<open>\<open>for i in index + 1..count\<close>: the slots behind \<open>index\<close> move one place left.\<close>

fun shift_left :: "nat list \<Rightarrow> page \<Rightarrow> page res" where
  "shift_left [] p = Inr p"
| "shift_left (i # is) p = bind_res (slot_at p i) (\<lambda>(offset, len).
     bind_res (write_slot (i - 1) offset len p) (shift_left is))"

definition remove_item :: "nat \<Rightarrow> page \<Rightarrow> page res" where
  "remove_item index p =
     (let count = slot_count p
      in bind_res (shift_left [index + 1..<count] p) (\<lambda>p1.
           Inr (set_slot_count (word_of_nat count - 1) p1)))"

fun collect_items :: "page \<Rightarrow> nat list \<Rightarrow> bytes list res" where
  "collect_items p [] = Inr []"
| "collect_items p (i # is) =
     bind_res (item p i) (\<lambda>x. bind_res (collect_items p is) (\<lambda>xs. Inr (x # xs)))"

fun insert_all :: "nat \<Rightarrow> bytes list \<Rightarrow> page \<Rightarrow> page res" where
  "insert_all i [] p = Inr p"
| "insert_all i (x # xs) p = bind_res (insert_item i x p) (\<lambda>(_, p1). insert_all (Suc i) xs p1)"

definition compact :: "page \<Rightarrow> page res" where
  "compact p = bind_res (collect_items p [0..<slot_count p]) (\<lambda>xs.
     insert_all 0 xs (set_slot_count 0 (set_free_end (word_of_nat PAGE_SIZE) p)))"

definition replace_item :: "nat \<Rightarrow> bytes \<Rightarrow> page \<Rightarrow> (bool \<times> page) res" where
  "replace_item index data p = bind_res (slot_at p index) (\<lambda>(offset, old_len).
     if length data = old_len then
       (if offset + length data \<le> length p then Inr (True, overwrite offset data p) else Inl Panic)
     else bind_res (remove_item index p) (\<lambda>p1.
       bind_res (if item_cost (length data) > free_space p1 then compact p1 else Inr p1) (\<lambda>p2.
         bind_res (insert_item index data p2) (\<lambda>(inserted, p3).
           Inr (if inserted then (True, p3) else (False, p))))))"

section \<open>Header fields\<close>

lemma length_put_u16 [simp]: "a + 2 \<le> length p \<Longrightarrow> length (put_u16 a v p) = length p"
  by (simp add: put_u16_def)

lemma get_put_u16 [simp]: "a + 2 \<le> length p \<Longrightarrow> get_u16 a (put_u16 a v p) = unat v"
  using take_drop_overwrite_same [of a "to_le_bytes v" p] by (simp add: put_u16_def get_u16_def)

lemma slot_count_set [simp]: "16 \<le> length p \<Longrightarrow> slot_count (set_slot_count v p) = unat v"
  by (simp add: slot_count_def set_slot_count_def)

lemma free_end_set [simp]: "18 \<le> length p \<Longrightarrow> free_end (set_free_end v p) = unat v"
  by (simp add: free_end_def set_free_end_def)

lemma agree_on_put_u16: "a + 2 \<le> length p \<Longrightarrow> agree_on (- {a..<a + 2}) p (put_u16 a v p)"
  using agree_on_overwrite [of a "to_le_bytes v" p] by (simp add: put_u16_def)

lemma get_u16_agree: "agree_on A p q \<Longrightarrow> {a..<a + 2} \<subseteq> A \<Longrightarrow> get_u16 a q = get_u16 a p"
  by (simp add: get_u16_def agree_on_slice)

lemma extra_agree: "agree_on A p q \<Longrightarrow> {20..<24} \<subseteq> A \<Longrightarrow> extra q = extra p"
  by (simp add: extra_def agree_on_slice)

lemma kind_agree: "agree_on A p q \<Longrightarrow> 12 \<in> A \<Longrightarrow> 12 < length p \<Longrightarrow> kind q = kind p"
  by (simp add: kind_def agree_on_nth)

lemma kind_from_to [simp]: "kind_from_u8 (kind_to_u8 k) = Inr k"
  by (cases k) (simp_all add: kind_from_u8_def)

section \<open>Layout invariant\<close>

definition slot_off :: "page \<Rightarrow> nat \<Rightarrow> nat" where
  "slot_off p i = get_u16 (slot_base i) p"

definition slot_len :: "page \<Rightarrow> nat \<Rightarrow> nat" where
  "slot_len p i = get_u16 (slot_base i + 2) p"

definition layout_ok :: "page \<Rightarrow> bool" where
  "layout_ok p \<longleftrightarrow> length p = PAGE_SIZE \<and> slot_base (slot_count p) \<le> free_end p \<and>
     free_end p \<le> PAGE_SIZE \<and>
     (\<forall>i < slot_count p. free_end p \<le> slot_off p i \<and> slot_off p i + slot_len p i \<le> PAGE_SIZE)"

definition slots_disjoint :: "page \<Rightarrow> bool" where
  "slots_disjoint p \<longleftrightarrow> (\<forall>i < slot_count p. \<forall>j < slot_count p. i \<noteq> j \<longrightarrow>
     slot_off p i + slot_len p i \<le> slot_off p j \<or> slot_off p j + slot_len p j \<le> slot_off p i)"

definition kind_ok :: "page \<Rightarrow> bool" where
  "kind_ok p \<longleftrightarrow> (\<exists>k. kind_from_u8 (p ! 12) = Inr k)"

text \<open>What loading a page checks, and the invariant of pages built by the operations below.\<close>

definition page_ok :: "page \<Rightarrow> bool" where
  "page_ok p \<longleftrightarrow> layout_ok p \<and> kind_ok p"

definition page_inv :: "page \<Rightarrow> bool" where
  "page_inv p \<longleftrightarrow> layout_ok p \<and> slots_disjoint p \<and> kind_ok p"

lemma page_inv_ok: "page_inv p \<Longrightarrow> page_ok p"
  by (simp add: page_inv_def page_ok_def)

lemma page_ok_length: "page_ok p \<Longrightarrow> length p = PAGE_SIZE"
  by (simp add: page_ok_def layout_ok_def)

definition slot_item :: "page \<Rightarrow> nat \<Rightarrow> bytes" where
  "slot_item p i = take (slot_len p i) (drop (slot_off p i) p)"

definition page_items :: "page \<Rightarrow> bytes list" where
  "page_items p = map (slot_item p) [0..<slot_count p]"

lemma length_page_items [simp]: "length (page_items p) = slot_count p"
  by (simp add: page_items_def)

lemma nth_page_items [simp]: "i < slot_count p \<Longrightarrow> page_items p ! i = slot_item p i"
  by (simp add: page_items_def)

lemma slot_base_mono: "i < j \<Longrightarrow> slot_base i + 4 \<le> slot_base j"
  by (simp add: slot_base_def SLOT_SIZE_def)

lemma slot_base_le: "i \<le> j \<Longrightarrow> slot_base i \<le> slot_base j"
  by (simp add: slot_base_def SLOT_SIZE_def)

lemma slot_base_ge: "24 \<le> slot_base i"
  by (simp add: slot_base_def HEADER_SIZE_def)

lemma slot_base_Suc: "slot_base (Suc i) = slot_base i + 4"
  by (simp add: slot_base_def SLOT_SIZE_def)

lemma free_space_eq: "free_space p = free_end p - slot_base (slot_count p)"
  by (simp add: free_space_def slot_base_def)

lemma slot_at_ok: "slot_base i + 4 \<le> length p \<Longrightarrow> slot_at p i = Inr (slot_off p i, slot_len p i)"
  by (simp add: slot_at_def slot_off_def slot_len_def)

lemma layout_slot_range:
  assumes "layout_ok p" and "i < slot_count p"
  shows "slot_base i + 4 \<le> length p"
  using assms slot_base_mono [of i "slot_count p"] by (simp add: layout_ok_def)

lemma item_eq: "layout_ok p \<Longrightarrow> i < slot_count p \<Longrightarrow> item p i = Inr (page_items p ! i)"
  using layout_slot_range [of p i]
  by (auto simp: item_def slot_at_ok slice_def slot_item_def layout_ok_def)

lemma collect_items_eq:
  "layout_ok p \<Longrightarrow> \<forall>i \<in> set is. i < slot_count p \<Longrightarrow> collect_items p is = Inr (map (slot_item p) is)"
  by (induction "is") (simp_all add: item_eq)

lemma collect_all_items: "layout_ok p \<Longrightarrow> collect_items p [0..<slot_count p] = Inr (page_items p)"
  by (simp add: collect_items_eq page_items_def)

lemma validate_slots_iff:
  "\<forall>i \<in> set is. slot_base i + 4 \<le> length p \<Longrightarrow>
     validate_slots pid p is = Inr () \<longleftrightarrow>
       (\<forall>i \<in> set is. free_end p \<le> slot_off p i \<and> slot_off p i + slot_len p i \<le> PAGE_SIZE)"
  by (induction "is") (auto simp: slot_at_ok not_less)

lemma validate_layout_iff:
  assumes "length p = PAGE_SIZE"
  shows "validate_layout pid p = Inr () \<longleftrightarrow> layout_ok p"
proof (cases "slot_base (slot_count p) \<le> free_end p \<and> free_end p \<le> PAGE_SIZE")
  case True
  then have "\<forall>i \<in> set [0..<slot_count p]. slot_base i + 4 \<le> length p"
    using slot_base_mono assms by fastforce
  with True show ?thesis
    using validate_slots_iff [of "[0..<slot_count p]" p pid] assms
    by (auto simp: validate_layout_def layout_ok_def slot_base_def Let_def)
next
  case False
  then show ?thesis
    by (auto simp: validate_layout_def layout_ok_def slot_base_def Let_def not_le)
qed

lemma validate_layout_no_panic:
  assumes "length p = PAGE_SIZE"
  shows "validate_layout pid p \<noteq> Inl Panic"
proof -
  have "validate_slots pid p is \<noteq> Inl Panic" if "\<forall>i \<in> set is. slot_base i + 4 \<le> length p" for "is"
    using that by (induction "is") (auto simp: slot_at_ok bad_layout_def)
  moreover have "slot_base i + 4 \<le> length p"
    if "i < slot_count p" "slot_base (slot_count p) \<le> PAGE_SIZE" for i
    using slot_base_mono [OF that(1)] that(2) assms by simp
  ultimately show ?thesis
    by (auto simp: validate_layout_def Let_def bad_layout_def slot_base_def)
qed

section \<open>Moving slots\<close>

lemma u16_bound: "get_u16 a p < 65536"
  using unsigned_less [of "from_le_bytes (take 2 (drop a p)) :: u16", where ?'a = nat]
  by (simp add: get_u16_def)

lemma unat_u16 [simp]: "n < 65536 \<Longrightarrow> unat (word_of_nat n :: u16) = n"
  by (simp add: unat_of_nat)

lemma slot_agree:
  assumes "agree_on A p q" and "{slot_base i..<slot_base i + 4} \<subseteq> A"
  shows "slot_off q i = slot_off p i" and "slot_len q i = slot_len p i"
  using assms get_u16_agree [OF assms(1)] by (auto simp: slot_off_def slot_len_def subset_iff)

lemma slot_frame:
  assumes "agree_on (- {lo..<hi}) p q" and "slot_base i + 4 \<le> lo \<or> hi \<le> slot_base i"
  shows "slot_off q i = slot_off p i" and "slot_len q i = slot_len p i"
  using assms by (auto intro!: slot_agree [OF assms(1)])

lemma write_slot_spec:
  assumes "slot_base i + 4 \<le> length p" and "off < 65536" and "len < 65536"
  obtains q where "write_slot i off len p = Inr q"
    and "agree_on (- {slot_base i..<slot_base i + 4}) p q"
    and "slot_off q i = off" and "slot_len q i = len"
proof -
  let ?p1 = "put_u16 (slot_base i) (word_of_nat off) p"
  let ?q = "put_u16 (slot_base i + 2) (word_of_nat len) ?p1"
  have 1: "agree_on (- {slot_base i..<slot_base i + 2}) p ?p1"
    using assms by (intro agree_on_put_u16) simp
  have 2: "agree_on (- {slot_base i + 2..<slot_base i + 2 + 2}) ?p1 ?q"
    using assms by (intro agree_on_put_u16) simp
  have "agree_on (- {slot_base i..<slot_base i + 4}) p ?q"
    by (rule agree_on_mono [OF agree_on_trans [OF 1 2]]) auto
  moreover have "get_u16 (slot_base i) ?q = get_u16 (slot_base i) ?p1"
    by (rule get_u16_agree [OF 2]) auto
  then have "slot_off ?q i = off"
    using assms by (simp add: slot_off_def)
  moreover have "slot_len ?q i = len"
    using assms by (simp add: slot_len_def)
  moreover have "write_slot i off len p = Inr ?q"
    using assms by (simp add: write_slot_def)
  ultimately show thesis by (intro that)
qed

lemma slot_bounds [simp]: "slot_off p i < 65536" "slot_len p i < 65536"
  by (simp_all add: slot_off_def slot_len_def u16_bound)

lemma shift_right_spec:
  assumes "index \<le> n" and "slot_base n + 4 \<le> length p"
  shows "\<exists>q. shift_right index n p = Inr q \<and>
     agree_on (- {slot_base index + 4..<slot_base n + 4}) p q \<and>
     (\<forall>j. index < j \<and> j \<le> n \<longrightarrow> slot_off q j = slot_off p (j - 1) \<and> slot_len q j = slot_len p (j - 1))"
  using assms
proof (induction n arbitrary: p)
  case 0
  then show ?case by simp
next
  case (Suc i)
  show ?case
  proof (cases "i < index")
    case True
    with Suc.prems show ?thesis by simp
  next
    case False
    have bi: "slot_base i + 4 \<le> length p"
      using Suc.prems(2) by (simp add: slot_base_Suc)
    obtain p1 where w: "write_slot (Suc i) (slot_off p i) (slot_len p i) p = Inr p1"
      and a1: "agree_on (- {slot_base (Suc i)..<slot_base (Suc i) + 4}) p p1"
      and v1: "slot_off p1 (Suc i) = slot_off p i" "slot_len p1 (Suc i) = slot_len p i"
      using write_slot_spec [OF Suc.prems(2), of "slot_off p i" "slot_len p i"] by auto
    obtain q where q: "shift_right index i p1 = Inr q"
      and a2: "agree_on (- {slot_base index + 4..<slot_base i + 4}) p1 q"
      and v2: "\<And>j. index < j \<Longrightarrow> j \<le> i \<Longrightarrow>
        slot_off q j = slot_off p1 (j - 1) \<and> slot_len q j = slot_len p1 (j - 1)"
      using Suc.IH [of p1] False bi agree_on_length [OF a1] by auto
    have "agree_on (- {slot_base index + 4..<slot_base (Suc i) + 4}) p q"
      using slot_base_le [of index i] False
      by (intro agree_on_mono [OF agree_on_trans [OF a1 a2]]) (auto simp: slot_base_Suc)
    moreover have "slot_off q j = slot_off p (j - 1) \<and> slot_len q j = slot_len p (j - 1)"
      if j: "index < j" "j \<le> Suc i" for j
    proof (cases "j = Suc i")
      case True
      then show ?thesis
        using slot_frame [OF a2, of "Suc i"] v1 by (auto simp: slot_base_Suc)
    next
      case False
      then have "slot_base (j - 1) + 4 \<le> slot_base (Suc i)"
        using j by (intro slot_base_mono) simp
      then show ?thesis
        using slot_frame [OF a1, of "j - 1"] v2 [of j] j False by auto
    qed
    ultimately show ?thesis
      using False w q bi by (auto simp: slot_at_ok)
  qed
qed

lemma shift_left_spec:
  assumes "0 < i" and "slot_base n \<le> length p"
  shows "\<exists>q. shift_left [i..<n] p = Inr q \<and>
     agree_on (- {slot_base (i - 1)..<slot_base n}) p q \<and>
     (\<forall>j. i \<le> j \<and> j < n \<longrightarrow> slot_off q (j - 1) = slot_off p j \<and> slot_len q (j - 1) = slot_len p j)"
  using assms
proof (induction "n - i" arbitrary: i p)
  case 0
  then show ?case by simp
next
  case (Suc k)
  then have "i < n" and k: "k = n - Suc i" by simp_all
  then have bi: "slot_base i + 4 \<le> length p"
    using slot_base_mono [of i n] Suc.prems(2) by simp
  have im: "slot_base i = slot_base (i - 1) + 4"
    using slot_base_Suc [of "i - 1"] Suc.prems(1) by simp
  obtain p1 where w: "write_slot (i - 1) (slot_off p i) (slot_len p i) p = Inr p1"
    and a1: "agree_on (- {slot_base (i - 1)..<slot_base (i - 1) + 4}) p p1"
    and v1: "slot_off p1 (i - 1) = slot_off p i" "slot_len p1 (i - 1) = slot_len p i"
    using write_slot_spec [of "i - 1" p "slot_off p i" "slot_len p i"] bi im by auto
  obtain q where q: "shift_left [Suc i..<n] p1 = Inr q"
    and a2: "agree_on (- {slot_base i..<slot_base n}) p1 q"
    and v2: "\<And>j. Suc i \<le> j \<Longrightarrow> j < n \<Longrightarrow>
      slot_off q (j - 1) = slot_off p1 j \<and> slot_len q (j - 1) = slot_len p1 j"
    using Suc.hyps(1) [of "Suc i" p1] k Suc.prems(2) agree_on_length [OF a1] by auto
  have "agree_on (- {slot_base (i - 1)..<slot_base n}) p q"
    using slot_base_mono [OF \<open>i < n\<close>] im
    by (intro agree_on_mono [OF agree_on_trans [OF a1 a2]]) auto
  moreover have "slot_off q (j - 1) = slot_off p j \<and> slot_len q (j - 1) = slot_len p j"
    if j: "i \<le> j" "j < n" for j
  proof (cases "j = i")
    case True
    then show ?thesis
      using slot_frame [OF a2, of "i - 1"] v1 im by auto
  next
    case False
    then show ?thesis
      using slot_frame [OF a1, of j] v2 [of j] j slot_base_le [of i j] im by auto
  qed
  ultimately show ?case
    using w q bi \<open>i < n\<close> by (auto simp: slot_at_ok upt_conv_Cons)
qed

section \<open>Insertion\<close>

definition same_header :: "page \<Rightarrow> page \<Rightarrow> bool" where
  "same_header p q \<longleftrightarrow> length q = length p \<and> q ! 12 = p ! 12 \<and> extra q = extra p"

lemma same_header_refl [simp]: "same_header p p"
  by (simp add: same_header_def)

lemma same_header_trans: "same_header p q \<Longrightarrow> same_header q r \<Longrightarrow> same_header p r"
  by (simp add: same_header_def)

lemma same_header_agree:
  "agree_on A p q \<Longrightarrow> insert 12 {20..<24} \<subseteq> A \<Longrightarrow> 24 \<le> length p \<Longrightarrow> same_header p q"
  by (auto simp: same_header_def agree_on_length agree_on_nth extra_agree)

lemma same_header_kind: "same_header p q \<Longrightarrow> kind q = kind p" "same_header p q \<Longrightarrow> kind_ok q = kind_ok p"
  by (simp_all add: same_header_def kind_def kind_ok_def)

text \<open>Slot \<open>j\<close> after inserting a slot at \<open>index\<close>.\<close>

definition shifted :: "nat \<Rightarrow> nat \<Rightarrow> nat" where
  "shifted index j = (if j < index then j else j - 1)"

lemma insert_item_raw:
  assumes inv: "layout_ok p" and idx: "index \<le> slot_count p"
    and fits: "item_cost (length d) \<le> free_space p"
  obtains q where "insert_item index d p = Inr (True, q)"
    and "slot_count q = Suc (slot_count p)" and "free_end q = free_end p - length d"
    and "slot_off q index = free_end p - length d" and "slot_len q index = length d"
    and "\<And>j. j \<le> slot_count p \<Longrightarrow> j \<noteq> index \<Longrightarrow>
      slot_off q j = slot_off p (shifted index j) \<and> slot_len q j = slot_len p (shifted index j)"
    and "agree_on {free_end p..} p q"
    and "take (length d) (drop (free_end p - length d) q) = d"
    and "same_header p q"
proof -
  let ?n = "slot_count p" and ?off = "free_end p - length d"
  let ?p0 = "overwrite ?off d p"
  let ?p1 = "set_free_end (word_of_nat ?off) ?p0"
  have len: "length p = 8192" and fe: "free_end p \<le> 8192"
    and room: "slot_base ?n + 4 + length d \<le> free_end p"
    using inv fits by (auto simp: layout_ok_def layout item_cost_def free_space_eq)
  have b: "slot_base index + 4 \<le> slot_base ?n + 4" "24 \<le> slot_base index"
    using slot_base_le [OF idx] slot_base_ge by auto
  have a0: "agree_on (- {?off..<free_end p}) p ?p0"
    using agree_on_overwrite [of ?off d p] room len fe by simp
  have a1: "agree_on (- {16..<18}) ?p0 ?p1" and l1: "length ?p1 = 8192"
    using agree_on_put_u16 [of 16 ?p0] room len fe by (simp_all add: set_free_end_def)
  obtain p2 where s2: "shift_right index ?n ?p1 = Inr p2"
    and a2: "agree_on (- {slot_base index + 4..<slot_base ?n + 4}) ?p1 p2"
    and v2: "\<And>j. index < j \<Longrightarrow> j \<le> ?n \<Longrightarrow>
      slot_off p2 j = slot_off ?p1 (j - 1) \<and> slot_len p2 j = slot_len ?p1 (j - 1)"
    using shift_right_spec [OF idx, of ?p1] l1 room fe by auto
  have l2: "length p2 = 8192"
    using agree_on_length [OF a2] l1 by simp
  have off: "?off < 65536"
    using fe by simp
  obtain p3 where s3: "write_slot index ?off (length d) p2 = Inr p3"
    and a3: "agree_on (- {slot_base index..<slot_base index + 4}) p2 p3"
    and v3: "slot_off p3 index = ?off" "slot_len p3 index = length d"
    using write_slot_spec [of index p2 ?off "length d"] l2 b room fe off by auto
  have l3: "length p3 = 8192"
    using agree_on_length [OF a3] l2 by simp
  let ?q = "set_slot_count (word_of_nat (?n + 1)) p3"
  have a4: "agree_on (- {14..<16}) p3 ?q"
    using agree_on_put_u16 [of 14 p3] l3 by (simp add: set_slot_count_def)
  have n: "?n + 1 < 65536"
    using room fe by (simp add: slot_base_def layout)
  have a13: "agree_on (- {slot_base index..<slot_base ?n + 4}) ?p1 p3"
    using b by (intro agree_on_mono [OF agree_on_trans [OF a2 a3]]) auto
  have a14: "agree_on (- ({14..<16} \<union> {slot_base index..<slot_base ?n + 4})) ?p1 ?q"
    by (intro agree_on_mono [OF agree_on_trans [OF a13 a4]]) auto
  have a04: "agree_on (- ({14..<18} \<union> {slot_base index..<slot_base ?n + 4})) ?p0 ?q"
    by (intro agree_on_mono [OF agree_on_trans [OF a1 a14]]) auto
  have a: "agree_on (- ({14..<18} \<union> {slot_base index..<slot_base ?n + 4} \<union> {?off..<free_end p})) p ?q"
    by (intro agree_on_mono [OF agree_on_trans [OF a0 a04]]) auto
  have p1_slot: "slot_off ?p1 j = slot_off p j \<and> slot_len ?p1 j = slot_len p j" if "j < ?n" for j
  proof -
    have "slot_base j + 4 \<le> ?off" "18 \<le> slot_base j"
      using slot_base_mono [OF that] room slot_base_ge [of j] by auto
    then show ?thesis
      using slot_frame [OF a0, of j] slot_frame [OF a1, of j] by auto
  qed
  show thesis
  proof (rule that)
    show "insert_item index d p = Inr (True, ?q)"
      using fits s2 s3 room len fe by (simp add: insert_item_def Let_def)
    show "slot_count ?q = Suc ?n"
      using unat_u16 [OF n] l3 by (simp add: slot_count_def set_slot_count_def del: of_nat_add)
    have "get_u16 16 ?q = get_u16 16 ?p1"
      using b by (intro get_u16_agree [OF a14]) auto
    also have "\<dots> = unat (word_of_nat ?off :: u16)"
      unfolding set_free_end_def using len fe room by (intro get_put_u16) simp
    finally show "free_end ?q = ?off"
      unfolding free_end_def [of ?q] using unat_u16 [OF off] by simp
    show "slot_off ?q index = ?off" "slot_len ?q index = length d"
      using slot_frame [OF a4, of index] v3 b by auto
    show "slot_off ?q j = slot_off p (shifted index j) \<and> slot_len ?q j = slot_len p (shifted index j)"
      if j: "j \<le> ?n" "j \<noteq> index" for j
    proof (cases "j < index")
      case True
      have "slot_base j + 4 \<le> slot_base index" "24 \<le> slot_base j"
        using slot_base_mono [OF True] slot_base_ge by auto
      then have "slot_off ?q j = slot_off ?p1 j \<and> slot_len ?q j = slot_len ?p1 j"
        using b by (intro conjI slot_agree [OF a14]) auto
      with p1_slot [of j] True idx show ?thesis by (simp add: shifted_def)
    next
      case False
      then have "index < j" using j by simp
      then have "slot_base index + 4 \<le> slot_base j" "24 \<le> slot_base j"
        using slot_base_mono slot_base_ge by auto
      then have "slot_off ?q j = slot_off p2 j \<and> slot_len ?q j = slot_len p2 j"
        using slot_frame [OF a3, of j] slot_frame [OF a4, of j] by auto
      with v2 [OF \<open>index < j\<close> j(1)] p1_slot [of "j - 1"] \<open>index < j\<close> j show ?thesis
        by (simp add: shifted_def)
    qed
    show "agree_on {free_end p..} p ?q"
      using room b by (intro agree_on_mono [OF a]) auto
    have "take (length d) (drop ?off ?q) = take (length d) (drop ?off ?p0)"
      using room b by (intro agree_on_slice [OF a04]) auto
    also have "\<dots> = d"
      using room len fe by (intro take_drop_overwrite_same) simp
    finally show "take (length d) (drop ?off ?q) = d" .
    show "same_header p ?q"
      using b room len by (intro same_header_agree [OF a]) auto
  qed
qed

lemma nth_map_insert_at:
  "i \<le> length xs \<Longrightarrow> j \<le> length xs \<Longrightarrow>
     insert_at i x xs ! j = (if j = i then x else xs ! shifted i j)"
  by (auto simp: nth_insert_at shifted_def)

lemma insert_item_spec:
  assumes inv: "page_inv p" and idx: "index \<le> slot_count p"
    and fits: "item_cost (length d) \<le> free_space p"
  obtains q where "insert_item index d p = Inr (True, q)" and "page_inv q"
    and "page_items q = insert_at index d (page_items p)" and "same_header p q"
    and "free_space q = free_space p - item_cost (length d)"
proof -
  let ?n = "slot_count p" and ?fe = "free_end p"
  have lay: "layout_ok p" and dis: "slots_disjoint p" and k: "kind_ok p"
    using inv by (simp_all add: page_inv_def)
  have len: "length p = PAGE_SIZE" and fe: "?fe \<le> PAGE_SIZE"
    and room: "slot_base ?n + 4 + length d \<le> ?fe"
    and old: "\<And>i. i < ?n \<Longrightarrow> ?fe \<le> slot_off p i \<and> slot_off p i + slot_len p i \<le> PAGE_SIZE"
    using lay fits by (auto simp: layout_ok_def item_cost_def SLOT_SIZE_def free_space_eq)
  obtain q where ins: "insert_item index d p = Inr (True, q)"
    and n: "slot_count q = Suc ?n" and fq: "free_end q = ?fe - length d"
    and new: "slot_off q index = ?fe - length d" "slot_len q index = length d"
    and mv: "\<And>j. j \<le> ?n \<Longrightarrow> j \<noteq> index \<Longrightarrow>
      slot_off q j = slot_off p (shifted index j) \<and> slot_len q j = slot_len p (shifted index j)"
    and fr: "agree_on {?fe..} p q" and dat: "take (length d) (drop (?fe - length d) q) = d"
    and hd: "same_header p q"
    using insert_item_raw [OF lay idx fits] by metis
  have sh: "shifted index j < ?n" if "j \<le> ?n" "j \<noteq> index" for j
    using that idx by (auto simp: shifted_def)
  have ext: "?fe - length d \<le> slot_off q j \<and> slot_off q j + slot_len q j \<le> PAGE_SIZE" if "j \<le> ?n" for j
    using that mv [of j] old [OF sh, of j] new fe room by (cases "j = index") auto
  have "slots_disjoint q"
    unfolding slots_disjoint_def
  proof (intro allI impI)
    fix i j
    assume "i < slot_count q" "j < slot_count q" "i \<noteq> j"
    then have ij: "i \<le> ?n" "j \<le> ?n" "i \<noteq> j"
      using n by auto
    show "slot_off q i + slot_len q i \<le> slot_off q j \<or> slot_off q j + slot_len q j \<le> slot_off q i"
    proof (cases "i = index \<or> j = index")
      case True
      then show ?thesis
        using ij new mv [of i] mv [of j] old [OF sh, of i] old [OF sh, of j] room by auto
    next
      case False
      then have "shifted index i \<noteq> shifted index j"
        using ij by (auto simp: shifted_def)
      then show ?thesis
        using False ij mv [of i] mv [of j] sh dis by (auto simp: slots_disjoint_def)
    qed
  qed
  moreover have "layout_ok q"
    using ext n fq room fe len same_header_def [of p q] hd
    by (auto simp: layout_ok_def slot_base_Suc less_Suc_eq_le)
  moreover have "slot_item q j = insert_at index d (page_items p) ! j" if "j \<le> ?n" for j
  proof (cases "j = index")
    case True
    then show ?thesis
      using that new dat idx by (simp add: slot_item_def nth_map_insert_at)
  next
    case False
    have "take (slot_len q j) (drop (slot_off q j) q) = take (slot_len q j) (drop (slot_off q j) p)"
      using old [OF sh [OF that False]] mv [OF that False] by (intro agree_on_slice [OF fr]) auto
    then show ?thesis
      using that False idx mv [OF that False] sh [OF that False]
      by (simp add: slot_item_def nth_map_insert_at)
  qed
  then have "page_items q = insert_at index d (page_items p)"
    using n idx by (intro nth_equalityI) auto
  ultimately show thesis
    using that ins hd k n fq room same_header_kind [OF hd]
    by (auto simp: page_inv_def free_space_eq item_cost_def SLOT_SIZE_def slot_base_Suc)
qed

section \<open>Fresh pages\<close>

lemma agree_on_set_kind: "agree_on (- {12}) p (set_kind k p)"
  unfolding set_kind_def by (rule agree_on_update)

lemma page_new_fields:
  "length (page_new k) = PAGE_SIZE" "slot_count (page_new k) = 0"
  "free_end (page_new k) = PAGE_SIZE" "kind (page_new k) = Inr k" "extra (page_new k) = 0"
  "page_new k ! 12 = kind_to_u8 k"
proof -
  let ?z = "replicate PAGE_SIZE 0 :: page"
  let ?p = "set_kind k ?z"
  have l: "length ?p = PAGE_SIZE"
    by (simp add: set_kind_def)
  have a1: "agree_on (- {12}) ?z ?p"
    by (rule agree_on_set_kind)
  have a2: "agree_on (- {16..<18}) ?p (page_new k)"
    unfolding page_new_def set_free_end_def using agree_on_put_u16 [of 16 ?p] l
    by (simp add: PAGE_SIZE_def)
  have a: "agree_on (- ({12} \<union> {16..<18})) ?z (page_new k)"
    by (rule agree_on_mono [OF agree_on_trans [OF a1 a2]]) auto
  show "length (page_new k) = PAGE_SIZE"
    using agree_on_length [OF a] by simp
  have "get_u16 14 (page_new k) = get_u16 14 ?z"
    by (rule get_u16_agree [OF a]) auto
  then show "slot_count (page_new k) = 0"
    by (simp add: slot_count_def get_u16_def PAGE_SIZE_def from_le_bytes_def numeral_2_eq_2)
  have "extra (page_new k) = extra ?z"
    by (rule extra_agree [OF a]) auto
  then show "extra (page_new k) = 0"
    by (simp add: extra_def PAGE_SIZE_def from_le_bytes_def numeral_eq_Suc)
  show "free_end (page_new k) = PAGE_SIZE"
    using l by (simp add: free_end_def page_new_def set_free_end_def PAGE_SIZE_def)
  show b: "page_new k ! 12 = kind_to_u8 k"
    using agree_on_nth [OF a2, of 12] l by (simp add: set_kind_def PAGE_SIZE_def)
  then show "kind (page_new k) = Inr k"
    by (simp add: kind_def)
qed

lemma page_new_inv: "page_inv (page_new k)"
  by (simp add: page_inv_def layout_ok_def slots_disjoint_def kind_ok_def page_new_fields
      slot_base_def layout)

lemma page_new_items [simp]: "page_items (page_new k) = []"
  by (simp add: page_items_def page_new_fields)

lemma page_new_space: "free_space (page_new k) = PAGE_SIZE - HEADER_SIZE"
  by (simp add: free_space_def page_new_fields)

section \<open>Removal\<close>

lemma remove_item_raw:
  assumes inv: "layout_ok p" and idx: "index < slot_count p"
  obtains q where "remove_item index p = Inr q"
    and "slot_count q = slot_count p - 1" and "free_end q = free_end p"
    and "\<And>j. j < index \<Longrightarrow> slot_off q j = slot_off p j \<and> slot_len q j = slot_len p j"
    and "\<And>j. index \<le> j \<Longrightarrow> Suc j < slot_count p \<Longrightarrow>
      slot_off q j = slot_off p (Suc j) \<and> slot_len q j = slot_len p (Suc j)"
    and "agree_on {free_end p..} p q" and "same_header p q"
proof -
  let ?n = "slot_count p"
  have len: "length p = 8192" and fe: "slot_base ?n \<le> free_end p" "free_end p \<le> 8192"
    using inv by (auto simp: layout_ok_def layout)
  have b: "24 \<le> slot_base index" "slot_base index + 4 \<le> slot_base ?n"
    using slot_base_mono [OF idx] slot_base_ge by auto
  obtain p1 where s1: "shift_left [index + 1..<?n] p = Inr p1"
    and a1: "agree_on (- {slot_base index..<slot_base ?n}) p p1"
    and v1: "\<And>j. index + 1 \<le> j \<Longrightarrow> j < ?n \<Longrightarrow>
      slot_off p1 (j - 1) = slot_off p j \<and> slot_len p1 (j - 1) = slot_len p j"
    using shift_left_spec [of "index + 1" ?n p] len fe by auto
  let ?q = "set_slot_count (word_of_nat ?n - 1) p1"
  have l1: "length p1 = 8192"
    using agree_on_length [OF a1] len by simp
  have a2: "agree_on (- {14..<16}) p1 ?q"
    using agree_on_put_u16 [of 14 p1] l1 by (simp add: set_slot_count_def)
  have a: "agree_on (- ({14..<16} \<union> {slot_base index..<slot_base ?n})) p ?q"
    by (rule agree_on_mono [OF agree_on_trans [OF a1 a2]]) auto
  have "(word_of_nat ?n - 1 :: u16) = word_of_nat (?n - 1)"
    using idx by simp
  moreover have "unat (word_of_nat (?n - 1) :: u16) = ?n - 1"
    using u16_bound [of 14 p] by (intro unat_u16) (simp add: slot_count_def)
  ultimately have cnt: "unat (word_of_nat ?n - 1 :: u16) = ?n - 1"
    by metis
  show thesis
  proof (rule that)
    show "remove_item index p = Inr ?q"
      using s1 by (simp add: remove_item_def Let_def)
    show "slot_count ?q = ?n - 1"
      using cnt l1 by simp
    show "free_end ?q = free_end p"
      unfolding free_end_def using b by (intro get_u16_agree [OF a]) auto
    show "slot_off ?q j = slot_off p j \<and> slot_len ?q j = slot_len p j" if "j < index" for j
      using slot_base_mono [OF that] slot_base_ge [of j] by (intro conjI slot_agree [OF a]) auto
    show "slot_off ?q j = slot_off p (Suc j) \<and> slot_len ?q j = slot_len p (Suc j)"
      if "index \<le> j" "Suc j < ?n" for j
      using slot_frame [OF a2, of j] slot_base_ge [of j] v1 [of "Suc j"] that by auto
    show "agree_on {free_end p..} p ?q"
      using b fe by (intro agree_on_mono [OF a]) auto
    show "same_header p ?q"
      using b len by (intro same_header_agree [OF a]) auto
  qed
qed

text \<open>Slot \<open>j\<close> after the slot at \<open>index\<close> went away.\<close>

definition unshifted :: "nat \<Rightarrow> nat \<Rightarrow> nat" where
  "unshifted index j = (if j < index then j else Suc j)"

lemma remove_item_spec:
  assumes inv: "page_inv p" and idx: "index < slot_count p"
  obtains q where "remove_item index p = Inr q" and "page_inv q"
    and "page_items q = remove_at index (page_items p)" and "same_header p q"
    and "free_space q = free_space p + SLOT_SIZE"
proof -
  let ?n = "slot_count p"
  have lay: "layout_ok p" and dis: "slots_disjoint p" and k: "kind_ok p"
    using inv by (simp_all add: page_inv_def)
  have len: "length p = PAGE_SIZE" and fe: "free_end p \<le> PAGE_SIZE" "slot_base ?n \<le> free_end p"
    and old: "\<And>i. i < ?n \<Longrightarrow> free_end p \<le> slot_off p i \<and> slot_off p i + slot_len p i \<le> PAGE_SIZE"
    using lay by (auto simp: layout_ok_def)
  obtain q where rem: "remove_item index p = Inr q" and n: "slot_count q = ?n - 1"
    and fq: "free_end q = free_end p"
    and lo: "\<And>j. j < index \<Longrightarrow> slot_off q j = slot_off p j \<and> slot_len q j = slot_len p j"
    and hi: "\<And>j. index \<le> j \<Longrightarrow> Suc j < ?n \<Longrightarrow>
      slot_off q j = slot_off p (Suc j) \<and> slot_len q j = slot_len p (Suc j)"
    and fr: "agree_on {free_end p..} p q" and hd: "same_header p q"
    using remove_item_raw [OF lay idx] by metis
  have mv: "slot_off q j = slot_off p (unshifted index j)" "slot_len q j = slot_len p (unshifted index j)"
    and un: "unshifted index j < ?n" if "j < ?n - 1" for j
    using that idx lo [of j] hi [of j] by (auto simp: unshifted_def)
  have "slot_item q j = remove_at index (page_items p) ! j" if "j < ?n - 1" for j
  proof -
    have "slot_item q j = slot_item p (unshifted index j)"
      unfolding slot_item_def mv [OF that] using old [OF un [OF that]]
      by (intro agree_on_slice [OF fr]) auto
    with that idx un [OF that] show ?thesis
      by (simp add: nth_remove_at unshifted_def)
  qed
  then have "page_items q = remove_at index (page_items p)"
    using n idx by (intro nth_equalityI) auto
  moreover have "slots_disjoint q"
    using dis n mv un by (auto simp: slots_disjoint_def unshifted_def)
  moreover have bn: "slot_base ?n = slot_base (?n - 1) + 4"
    using slot_base_Suc [of "?n - 1"] idx by simp
  then have "layout_ok q"
    using n fq mv un old len fe hd by (auto simp: layout_ok_def same_header_def)
  ultimately show thesis
    using that rem hd k n fq fe bn same_header_kind [OF hd]
    by (auto simp: page_inv_def free_space_eq SLOT_SIZE_def)
qed

end
