(* ===== verification/File_Io.thy ===== *)
theory File_Io
  imports Prelude
begin

text \<open>
  What the storage crate uses of \<open>std::fs::File\<close>: contents and a cursor. System calls are taken
  to succeed; a write beyond the end fills the gap with zeros, as a sparse file reads.
  \<open>f_durable\<close> is what a power loss leaves, brought up to date by \<open>sync_data\<close>.
\<close>

record os_file =
  f_data :: bytes
  f_cursor :: nat
  f_durable :: bytes

definition file_open :: "bytes \<Rightarrow> os_file" where
  "file_open bs = \<lparr>f_data = bs, f_cursor = 0, f_durable = bs\<rparr>"

definition seek_start :: "nat \<Rightarrow> os_file \<Rightarrow> os_file" where
  "seek_start n f = f\<lparr>f_cursor := n\<rparr>"

definition write_at :: "nat \<Rightarrow> bytes \<Rightarrow> bytes \<Rightarrow> bytes" where
  "write_at n d bs = overwrite n d (bs @ replicate (n + length d - length bs) 0)"

definition write_all :: "bytes \<Rightarrow> os_file \<Rightarrow> os_file" where
  "write_all d f =
     f\<lparr>f_data := write_at (f_cursor f) d (f_data f), f_cursor := f_cursor f + length d\<rparr>"

text \<open>Seek to \<open>n\<close> and read \<open>len\<close> bytes in a loop; \<open>None\<close> is an end of file on the way.\<close>

definition read_exact_at :: "nat \<Rightarrow> nat \<Rightarrow> os_file \<Rightarrow> bytes option \<times> os_file" where
  "read_exact_at n len f =
     (if n + len \<le> length (f_data f)
      then (Some (take len (drop n (f_data f))), f\<lparr>f_cursor := n + len\<rparr>)
      else (None, f\<lparr>f_cursor := max n (length (f_data f))\<rparr>))"

definition set_len :: "nat \<Rightarrow> os_file \<Rightarrow> os_file" where
  "set_len n f = f\<lparr>f_data := take n (f_data f) @ replicate (n - length (f_data f)) 0\<rparr>"

definition sync_data :: "os_file \<Rightarrow> os_file" where
  "sync_data f = f\<lparr>f_durable := f_data f\<rparr>"

lemma length_write_at: "length (write_at n d bs) = max (length bs) (n + length d)"
  by (simp add: write_at_def max_def)

lemma write_at_end [simp]: "write_at (length bs) d bs = bs @ d"
  by (simp add: write_at_def overwrite_def)

lemma write_at_same: "take (length d) (drop n (write_at n d bs)) = d"
  unfolding write_at_def by (rule take_drop_overwrite_same) simp

lemma write_at_other:
  assumes "m + k \<le> n \<or> n + length d \<le> m" and "m + k \<le> length bs"
  shows "take k (drop m (write_at n d bs)) = take k (drop m bs)"
proof -
  have "take k (drop m (write_at n d bs)) =
      take k (drop m (bs @ replicate (n + length d - length bs) 0))"
    unfolding write_at_def using assms(1) by (intro take_drop_overwrite_other) auto
  also have "\<dots> = take k (drop m bs)"
    using assms(2) by simp
  finally show ?thesis .
qed

end
