(* ===== verification/Wal.thy ===== *)
theory Wal
  imports Codec Page File_Io
begin

text \<open>
  \<open>ferrite-storage/src/wal.rs\<close>: the physical redo journal. A record is framed by its length
  and the CRC of its payload; \<open>replay\<close> hands every intact record to a visitor and stops at
  the first torn, corrupt or unknown one.
\<close>

section \<open>Definitions\<close>

definition KIND_PAGE_IMAGE :: u8 where "KIND_PAGE_IMAGE = 1"
definition KIND_COMMIT :: u8 where "KIND_COMMIT = 2"
definition KIND_ABORT :: u8 where "KIND_ABORT = 3"
definition KIND_CHECKPOINT :: u8 where "KIND_CHECKPOINT = 4"

lemmas kind_defs = KIND_PAGE_IMAGE_def KIND_COMMIT_def KIND_ABORT_def KIND_CHECKPOINT_def

datatype jrecord =
    PageImage u64 page_id bytes
  | Commit u64
  | Abort u64
  | Checkpoint

record journal =
  j_file :: os_file
  j_next_lsn :: u64
  j_sync_on_commit :: bool
  j_bytes :: u64

definition journal_open :: "bytes \<Rightarrow> bool \<Rightarrow> journal" where
  "journal_open content sync =
     \<lparr>j_file = file_open content, j_next_lsn = 1, j_sync_on_commit = sync,
      j_bytes = word_of_nat (length content)\<rparr>"

definition next_lsn :: "journal \<Rightarrow> u64 \<times> journal" where
  "next_lsn j = (j_next_lsn j, j\<lparr>j_next_lsn := j_next_lsn j + 1\<rparr>)"

definition set_next_lsn :: "u64 \<Rightarrow> journal \<Rightarrow> journal" where
  "set_next_lsn l j = j\<lparr>j_next_lsn := max (j_next_lsn j) l\<rparr>"

definition frame :: "bytes \<Rightarrow> bytes" where
  "frame payload =
     to_le_bytes (word_of_nat (length payload) :: u32) @ to_le_bytes (crc32c payload) @ payload"

definition append :: "bytes \<Rightarrow> journal \<Rightarrow> journal" where
  "append payload j =
     j\<lparr>j_file := write_all (frame payload) (j_file j),
       j_bytes := j_bytes j + word_of_nat (length (frame payload))\<rparr>"

definition journal_len :: "journal \<Rightarrow> u64" where
  "journal_len j = j_bytes j"

definition page_image_payload :: "u64 \<Rightarrow> page_id \<Rightarrow> bytes \<Rightarrow> bytes" where
  "page_image_payload l pid bs = wr_bytes bs (wr_u32 pid (wr_u64 l (wr_u8 KIND_PAGE_IMAGE [])))"

definition log_page_image :: "u64 \<Rightarrow> page_id \<Rightarrow> bytes \<Rightarrow> journal \<Rightarrow> journal" where
  "log_page_image l pid bs = append (page_image_payload l pid bs)"

definition log_commit :: "u64 \<Rightarrow> journal \<Rightarrow> journal" where
  "log_commit txn = append (wr_u64 txn (wr_u8 KIND_COMMIT []))"

definition log_abort :: "u64 \<Rightarrow> journal \<Rightarrow> journal" where
  "log_abort txn = append (wr_u64 txn (wr_u8 KIND_ABORT []))"

definition log_checkpoint :: "journal \<Rightarrow> journal" where
  "log_checkpoint = append (wr_u8 KIND_CHECKPOINT [])"

definition journal_sync :: "journal \<Rightarrow> journal" where
  "journal_sync j = (if j_sync_on_commit j then j\<lparr>j_file := sync_data (j_file j)\<rparr> else j)"

definition journal_truncate :: "journal \<Rightarrow> journal" where
  "journal_truncate j =
     j\<lparr>j_file := sync_data (seek_start 0 (set_len 0 (j_file j))), j_bytes := 0\<rparr>"

definition decode :: "bytes \<Rightarrow> jrecord option res" where
  "decode payload = fst (bind_op rd_u8 (\<lambda>k.
     if k = KIND_PAGE_IMAGE then
       bind_op rd_u64 (\<lambda>l. bind_op rd_u32 (\<lambda>pid. bind_op (rd_take PAGE_SIZE) (\<lambda>raw.
         ret_op (Some (PageImage l pid raw)))))
     else if k = KIND_COMMIT then bind_op rd_u64 (\<lambda>t. ret_op (Some (Commit t)))
     else if k = KIND_ABORT then bind_op rd_u64 (\<lambda>t. ret_op (Some (Abort t)))
     else if k = KIND_CHECKPOINT then ret_op (Some Checkpoint)
     else ret_op None) (rd_new payload))"

text \<open>
  The replay loop over the bytes not yet read. The result is the \<open>torn\<close> flag.
\<close>

function replay_from ::
  "(jrecord \<Rightarrow> ('s, failure, unit) op) \<Rightarrow> bytes \<Rightarrow> ('s, failure, bool) op" where
  "replay_from visit bs =
     (if length bs < 8 then ret_op False
      else
        let len = unat (from_le_bytes (take 4 bs) :: u32);
            expected_crc = from_le_bytes (take 4 (drop 4 bs)) :: u32;
            more = drop 8 bs
        in if len = 0 \<or> len > PAGE_SIZE + 64 then ret_op True
           else if length more < len then ret_op True
           else if crc32c (take len more) \<noteq> expected_crc then ret_op True
           else case decode (take len more) of
             Inl e \<Rightarrow> lift_op (Inl e)
           | Inr None \<Rightarrow> ret_op True
           | Inr (Some r) \<Rightarrow> bind_op (visit r) (\<lambda>_. replay_from visit (drop len more)))"
  by pat_completeness auto
termination
  by (relation "measure (\<lambda>(visit, bs). length bs)") auto

declare replay_from.simps [simp del]

text \<open>\<open>Journal::replay\<close>: \<open>None\<close> is a journal file that does not exist.\<close>

definition replay ::
  "bytes option \<Rightarrow> (jrecord \<Rightarrow> ('s, failure, unit) op) \<Rightarrow> ('s, failure, bool) op" where
  "replay file visit = (case file of None \<Rightarrow> ret_op False | Some bs \<Rightarrow> replay_from visit bs)"

section \<open>Records as bytes\<close>

fun payload :: "jrecord \<Rightarrow> bytes" where
  "payload (PageImage l pid bs) = page_image_payload l pid bs"
| "payload (Commit t) = wr_u64 t (wr_u8 KIND_COMMIT [])"
| "payload (Abort t) = wr_u64 t (wr_u8 KIND_ABORT [])"
| "payload Checkpoint = wr_u8 KIND_CHECKPOINT []"

fun record_ok :: "jrecord \<Rightarrow> bool" where
  "record_ok (PageImage l pid bs) = (length bs = PAGE_SIZE)"
| "record_ok _ = True"

lemma payload_length: "record_ok r \<Longrightarrow> 0 < length (payload r) \<and> length (payload r) \<le> PAGE_SIZE + 64"
  by (cases r) (simp_all add: page_image_payload_def writer_defs PAGE_SIZE_def)

lemma decode_payload:
  assumes "record_ok r"
  shows "decode (payload r) = Inr (Some r)"
proof -
  let ?r0 = "rd_new (payload r)"
  obtain k b where kb: "payload r = k # b"
    by (cases r) (auto simp: page_image_payload_def writer_defs)
  have k: "rd_u8 ?r0 = (Inr k, skip 1 ?r0)" and b: "rest (skip 1 ?r0) = b"
    using kb by (auto simp: reader_simps)
  show ?thesis
  proof (cases r)
    case (PageImage l pid bs)
    then have 1: "rest (skip 1 ?r0) = to_le_bytes l @ to_le_bytes pid @ bs"
      using kb b by (simp add: page_image_payload_def writer_defs)
    moreover have "skip 9 ?r0 = skip 8 (skip 1 ?r0)" "skip 13 ?r0 = skip 12 (skip 1 ?r0)"
      by (simp_all add: reader_simps)
    ultimately have 2: "rest (skip 9 ?r0) = to_le_bytes pid @ bs"
      and 3: "rest (skip 13 ?r0) = bs @ []"
      by (simp_all only: rest_skip [of 8] rest_skip [of 12]) simp_all
    show ?thesis
      using PageImage kb k assms rd_le_append(3) [OF 1] rd_le_append(2) [OF 2] rd_take_append [OF 3]
      by (simp add: decode_def bind_op_def page_image_payload_def writer_defs reader_simps)
  next
    case (Commit t)
    then have "rest (skip 1 ?r0) = to_le_bytes t @ []"
      using kb b by (simp add: writer_defs)
    from rd_le_append(3) [OF this] show ?thesis
      using Commit kb k by (simp add: decode_def bind_op_def writer_defs kind_defs)
  next
    case (Abort t)
    then have "rest (skip 1 ?r0) = to_le_bytes t @ []"
      using kb b by (simp add: writer_defs)
    from rd_le_append(3) [OF this] show ?thesis
      using Abort kb k by (simp add: decode_def bind_op_def writer_defs kind_defs)
  next
    case Checkpoint
    then show ?thesis
      using kb k by (simp add: decode_def bind_op_def writer_defs kind_defs)
  qed
qed

lemma length_frame: "length (frame bs) = 8 + length bs"
  by (simp add: frame_def)

section \<open>Replay\<close>

lemma replay_intact_record:
  assumes "record_ok r"
  shows "replay_from visit (frame (payload r) @ tail) =
     bind_op (visit r) (\<lambda>_. replay_from visit tail)"
proof -
  let ?p = "payload r"
  have len: "0 < length ?p" "length ?p \<le> PAGE_SIZE + 64"
    using payload_length [OF assms] by auto
  then have "unat (word_of_nat (length ?p) :: u32) = length ?p"
    by (simp add: unat_of_nat PAGE_SIZE_def)
  then show ?thesis
    using len decode_payload [OF assms]
    by (subst replay_from.simps) (simp add: frame_def Let_def)
qed

lemma replay_intact_records:
  "list_all record_ok rs \<Longrightarrow>
     replay_from visit (concat (map (\<lambda>r. frame (payload r)) rs) @ tail) =
       bind_op (for_each rs visit) (\<lambda>_. replay_from visit tail)"
  by (induction rs) (simp_all add: replay_intact_record bind_op_assoc)

lemma replay_torn_record:
  assumes "record_ok r" and "n < length (frame (payload r))"
  shows "\<exists>torn. replay_from visit (take n (frame (payload r))) = ret_op torn"
proof (cases "n < 8")
  case True
  then show ?thesis
    by (subst replay_from.simps) auto
next
  case False
  let ?p = "payload r"
  have len: "0 < length ?p" "length ?p \<le> PAGE_SIZE + 64"
    using payload_length [OF assms(1)] by auto
  then have u: "unat (word_of_nat (length ?p) :: u32) = length ?p"
    by (simp add: unat_of_nat PAGE_SIZE_def)
  have "take n (frame ?p) = to_le_bytes (word_of_nat (length ?p) :: u32) @
      to_le_bytes (crc32c ?p) @ take (n - 8) ?p"
    using False by (simp add: frame_def)
  then show ?thesis
    using len u False assms(2) by (subst replay_from.simps) (auto simp: Let_def frame_def)
qed

text \<open>
  C25: replaying a journal whose last record was cut anywhere by a power loss visits exactly
  the intact records before it, in order, and ends without an error of its own.
\<close>

theorem replay_survives_torn_tail:
  assumes "list_all record_ok rs" and "record_ok r" and "n < length (frame (payload r))"
  shows "\<exists>torn. replay (Some (concat (map (\<lambda>r. frame (payload r)) rs) @ take n (frame (payload r)))) visit
    = bind_op (for_each rs visit) (\<lambda>_. ret_op torn)"
  using replay_torn_record [OF assms(2,3), of visit] replay_intact_records [OF assms(1), of visit]
  by (auto simp: replay_def)

theorem replay_survives_torn_tail_witness:
  "\<exists>torn. replay (Some (concat (map (\<lambda>r. frame (payload r)) [Commit 7, Checkpoint]) @
        take 9 (frame (payload (Commit 8))))) (\<lambda>r. modify_op (\<lambda>s. s @ [r]))
    = bind_op (for_each [Commit 7, Checkpoint] (\<lambda>r. modify_op (\<lambda>s. s @ [r])))
        (\<lambda>_. (ret_op torn :: (jrecord list, failure, bool) op))"
  by (rule replay_survives_torn_tail) (simp_all add: length_frame writer_defs)

end
