(* ===== verification/Page_Items.thy ===== *)
theory Page_Items
  imports Page
begin

text \<open>
  A page as a list of items: capacity, compaction, replacement, and the way to and from
  disk. These are the facts the B-tree builds on.
\<close>

section \<open>Capacity\<close>

definition items_cost :: "bytes list \<Rightarrow> nat" where
  "items_cost xs = sum_list (map (item_cost \<circ> length) xs)"

lemma items_cost_simps [simp]:
  "items_cost [] = 0"
  "items_cost (x # xs) = item_cost (length x) + items_cost xs"
  "items_cost (xs @ ys) = items_cost xs + items_cost ys"
  by (simp_all add: items_cost_def)

lemma items_cost_insert_at: "items_cost (insert_at i x xs) = item_cost (length x) + items_cost xs"
proof -
  have "items_cost xs = items_cost (take i xs) + items_cost (drop i xs)"
    by (metis append_take_drop_id items_cost_simps(3))
  then show ?thesis
    by (simp add: insert_at_def)
qed

lemma items_cost_remove_at:
  assumes "i < length xs"
  shows "items_cost xs = item_cost (length (xs ! i)) + items_cost (remove_at i xs)"
proof -
  have "items_cost xs = items_cost (take i xs @ xs ! i # drop (Suc i) xs)"
    using id_take_nth_drop [OF assms] by simp
  then show ?thesis
    by (simp add: remove_at_def)
qed

lemma items_cost_update:
  assumes "i < length xs"
  shows "items_cost (xs[i := x]) = item_cost (length x) + items_cost (remove_at i xs)"
  using assms by (simp add: upd_conv_take_nth_drop remove_at_def)

lemma slot_item_length:
  "layout_ok p \<Longrightarrow> i < slot_count p \<Longrightarrow> length (slot_item p i) = slot_len p i"
  by (auto simp: layout_ok_def slot_item_def)

text \<open>Disjoint extents inside the item area cannot be longer than it.\<close>

lemma sum_slot_len:
  assumes "layout_ok p" and "slots_disjoint p"
  shows "(\<Sum>i < slot_count p. slot_len p i) \<le> PAGE_SIZE - free_end p"
proof -
  let ?ext = "\<lambda>i. {slot_off p i..<slot_off p i + slot_len p i}"
  have "(\<Sum>i < slot_count p. slot_len p i) = (\<Sum>i < slot_count p. card (?ext i))"
    by simp
  also have "\<dots> = card (\<Union>i < slot_count p. ?ext i)"
    using assms(2) by (subst card_UN_disjoint) (auto simp: slots_disjoint_def disjoint_iff, fastforce)
  also have "\<dots> \<le> card {free_end p..<PAGE_SIZE}"
  proof (rule card_mono)
    show "(\<Union>i < slot_count p. ?ext i) \<subseteq> {free_end p..<PAGE_SIZE}"
      using assms(1) by (fastforce simp: layout_ok_def)
  qed simp
  finally show ?thesis by simp
qed

lemma items_cost_page:
  assumes "page_inv p"
  shows "items_cost (page_items p) + free_space p \<le> PAGE_SIZE - HEADER_SIZE"
proof -
  have lay: "layout_ok p" and dis: "slots_disjoint p"
    using assms by (simp_all add: page_inv_def)
  have "items_cost (page_items p) = (\<Sum>i < slot_count p. slot_len p i + SLOT_SIZE)"
    unfolding items_cost_def page_items_def
    by (simp add: sum_list_sum_nth item_cost_def slot_item_length [OF lay] atLeast0LessThan)
  also have "\<dots> = (\<Sum>i < slot_count p. slot_len p i) + slot_count p * SLOT_SIZE"
    by (simp add: sum.distrib)
  finally show ?thesis
    using sum_slot_len [OF lay dis] lay by (auto simp: layout_ok_def free_space_def slot_base_def)
qed

section \<open>Compaction and replacement\<close>

lemma insert_all_spec:
  assumes "page_inv p" and "i = slot_count p" and "items_cost xs \<le> free_space p"
  shows "\<exists>q. insert_all i xs p = Inr q \<and> page_inv q \<and> page_items q = page_items p @ xs \<and>
     same_header p q \<and> free_space q = free_space p - items_cost xs"
  using assms
proof (induction xs arbitrary: i p)
  case Nil
  then show ?case by simp
next
  case (Cons x xs)
  obtain p1 where ins: "insert_item i x p = Inr (True, p1)" and inv: "page_inv p1"
    and it: "page_items p1 = insert_at i x (page_items p)" and hd: "same_header p p1"
    and fs: "free_space p1 = free_space p - item_cost (length x)"
    using insert_item_spec [OF Cons.prems(1), of i x] Cons.prems(2,3) by auto
  have it': "page_items p1 = page_items p @ [x]"
    using it Cons.prems(2) by (simp add: insert_at_def)
  then have "Suc i = slot_count p1"
    using Cons.prems(2) by (metis length_append_singleton length_page_items)
  moreover have "items_cost xs \<le> free_space p1"
    using Cons.prems(3) fs by simp
  ultimately obtain q where "insert_all (Suc i) xs p1 = Inr q" "page_inv q"
    "page_items q = page_items p1 @ xs" "same_header p1 q" "free_space q = free_space p1 - items_cost xs"
    using Cons.IH [OF inv, of "Suc i"] by auto
  then show ?case
    using ins it' fs same_header_trans [OF hd] by auto
qed

lemma compact_spec:
  assumes "page_inv p"
  obtains q where "compact p = Inr q" and "page_inv q" and "page_items q = page_items p"
    and "same_header p q" and "free_space q = PAGE_SIZE - HEADER_SIZE - items_cost (page_items p)"
proof -
  have lay: "layout_ok p" and k: "kind_ok p" and len: "length p = 8192"
    using assms by (auto simp: page_inv_def layout_ok_def layout)
  let ?e1 = "set_free_end (word_of_nat PAGE_SIZE) p"
  let ?e = "set_slot_count 0 ?e1"
  have a1: "agree_on (- {16..<18}) p ?e1"
    using agree_on_put_u16 [of 16 p] len by (simp add: set_free_end_def)
  have a2: "agree_on (- {14..<16}) ?e1 ?e"
    using agree_on_put_u16 [of 14 ?e1] agree_on_length [OF a1] len by (simp add: set_slot_count_def)
  have hd: "same_header p ?e"
    using len by (intro same_header_agree [OF agree_on_trans [OF a1 a2]]) auto
  have cnt: "slot_count ?e = 0"
    using agree_on_length [OF a1] len by simp
  have "get_u16 16 ?e = get_u16 16 ?e1"
    by (rule get_u16_agree [OF a2]) auto
  then have fe: "free_end ?e = 8192"
    using len by (simp add: free_end_def set_free_end_def PAGE_SIZE_def)
  have inv: "page_inv ?e"
    using cnt fe hd len k same_header_kind [OF hd]
    by (simp add: page_inv_def layout_ok_def slots_disjoint_def same_header_def slot_base_def layout)
  have fs: "free_space ?e = PAGE_SIZE - HEADER_SIZE"
    using cnt fe by (simp add: free_space_def PAGE_SIZE_def)
  have "items_cost (page_items p) \<le> free_space ?e"
    using items_cost_page [OF assms] fs by simp
  then obtain q where "insert_all 0 (page_items p) ?e = Inr q" "page_inv q"
    "page_items q = page_items ?e @ page_items p" "same_header ?e q"
    "free_space q = free_space ?e - items_cost (page_items p)"
    using insert_all_spec [OF inv, of 0] cnt by auto
  then show thesis
    using that fs cnt same_header_trans [OF hd] collect_all_items [OF lay]
    by (auto simp: compact_def page_items_def [of ?e])
qed

lemma overwrite_slot_spec:
  assumes inv: "page_inv p" and idx: "index < slot_count p" and len: "length d = slot_len p index"
  shows "page_inv (overwrite (slot_off p index) d p)"
    and "page_items (overwrite (slot_off p index) d p) = (page_items p)[index := d]"
    and "same_header p (overwrite (slot_off p index) d p)"
proof -
  let ?o = "slot_off p index"
  let ?q = "overwrite ?o d p"
  have lay: "layout_ok p" and dis: "slots_disjoint p" and k: "kind_ok p"
    using inv by (simp_all add: page_inv_def)
  have l: "length p = PAGE_SIZE" and o: "slot_base (slot_count p) \<le> ?o" "?o + length d \<le> PAGE_SIZE"
    using lay idx len by (auto simp: layout_ok_def)
  have b: "24 \<le> ?o"
    using slot_base_ge [of "slot_count p"] o by simp
  have a: "agree_on (- {?o..<?o + length d}) p ?q"
    using o l by (intro agree_on_overwrite) simp
  show hd: "same_header p ?q"
    using b l by (intro same_header_agree [OF a]) (auto simp: PAGE_SIZE_def)
  have cnt: "slot_count ?q = slot_count p" and fe: "free_end ?q = free_end p"
    unfolding slot_count_def free_end_def using b by (auto intro!: get_u16_agree [OF a])
  have sl: "slot_off ?q j = slot_off p j" "slot_len ?q j = slot_len p j" if "j < slot_count p" for j
    using slot_frame [OF a, of j] slot_base_mono [OF that] o by auto
  show "page_inv ?q"
    using lay dis k cnt fe sl hd same_header_kind [OF hd]
    by (auto simp: page_inv_def layout_ok_def slots_disjoint_def same_header_def)
  have "slot_item ?q j = (page_items p)[index := d] ! j" if "j < slot_count p" for j
  proof (cases "j = index")
    case True
    then show ?thesis
      using take_drop_overwrite_same [of ?o d p] o l idx len sl [OF that] by (simp add: slot_item_def)
  next
    case False
    then have "slot_off p j + slot_len p j \<le> ?o \<or> ?o + length d \<le> slot_off p j"
      using dis idx that len by (auto simp: slots_disjoint_def)
    then have "take (slot_len p j) (drop (slot_off p j) ?q) = take (slot_len p j) (drop (slot_off p j) p)"
      by (intro agree_on_slice [OF a]) auto
    then show ?thesis
      using sl [OF that] False that by (simp add: slot_item_def)
  qed
  then show "page_items ?q = (page_items p)[index := d]"
    using cnt by (intro nth_equalityI) auto
qed

text \<open>Replacing an item succeeds exactly when the items would fit a compacted page.\<close>

lemma replace_item_spec:
  assumes inv: "page_inv p" and idx: "index < slot_count p"
  shows "if items_cost ((page_items p)[index := d]) \<le> PAGE_SIZE - HEADER_SIZE
     then \<exists>q. replace_item index d p = Inr (True, q) \<and> page_inv q \<and>
            page_items q = (page_items p)[index := d] \<and> same_header p q
     else replace_item index d p = Inr (False, p)"
proof -
  let ?others = "remove_at index (page_items p)"
  have lay: "layout_ok p"
    using inv by (simp add: page_inv_def)
  have at: "slot_at p index = Inr (slot_off p index, slot_len p index)"
    by (rule slot_at_ok [OF layout_slot_range [OF lay idx]])
  have cost: "items_cost ((page_items p)[index := d]) = item_cost (length d) + items_cost ?others"
    using idx by (simp add: items_cost_update)
  show ?thesis
  proof (cases "length d = slot_len p index")
    case True
    have "items_cost ((page_items p)[index := d]) = items_cost (page_items p)"
      using True idx items_cost_remove_at [of index "page_items p"] cost
      by (simp add: slot_item_length [OF lay])
    moreover have "slot_off p index + length d \<le> length p"
      using lay idx True by (auto simp: layout_ok_def)
    ultimately show ?thesis
      using items_cost_page [OF inv] overwrite_slot_spec [OF inv idx True] True at
      by (auto simp: replace_item_def)
  next
    case False
    obtain p1 where r1: "remove_item index p = Inr p1" and i1: "page_inv p1"
      and it1: "page_items p1 = ?others" and h1: "same_header p p1"
      using remove_item_spec [OF inv idx] by metis
    obtain pc where rc: "compact p1 = Inr pc" and ic: "page_inv pc" and itc: "page_items pc = ?others"
      and hc: "same_header p1 pc" and fc: "free_space pc = PAGE_SIZE - HEADER_SIZE - items_cost ?others"
      using compact_spec [OF i1] it1 by metis
    define p2 where "p2 = (if item_cost (length d) > free_space p1 then pc else p1)"
    have r2: "(if item_cost (length d) > free_space p1 then compact p1 else Inr p1) = Inr p2"
      using rc by (simp add: p2_def)
    have i2: "page_inv p2" and it2: "page_items p2 = ?others" and h2: "same_header p p2"
      using i1 ic it1 itc h1 same_header_trans [OF h1 hc] by (auto simp: p2_def)
    have f2: "item_cost (length d) \<le> free_space p2 \<longleftrightarrow>
        item_cost (length d) + items_cost ?others \<le> PAGE_SIZE - HEADER_SIZE"
      using items_cost_page [OF i1] it1 fc items_cost_page [OF ic] itc by (auto simp: p2_def)
    have "slot_count p2 = slot_count p - 1"
      using arg_cong [OF it2, of length] idx by simp
    then have ix: "index \<le> slot_count p2"
      using idx by simp
    have upd: "insert_at index d ?others = (page_items p)[index := d]"
      using idx by (simp add: insert_at_def remove_at_def upd_conv_take_nth_drop)
    show ?thesis
    proof (cases "item_cost (length d) \<le> free_space p2")
      case True
      then obtain q where "insert_item index d p2 = Inr (True, q)" "page_inv q"
        "page_items q = insert_at index d (page_items p2)" "same_header p2 q"
        using insert_item_spec [OF i2 ix] by metis
      then show ?thesis
        using True f2 cost False at r1 r2 it2 upd same_header_trans [OF h2]
        by (auto simp: replace_item_def simp del: length_list_update)
    next
      case no: False
      then have "insert_item index d p2 = Inr (False, p2)"
        by (simp add: insert_item_def)
      then show ?thesis
        using no f2 cost False at r1 r2 by (auto simp: replace_item_def)
    qed
  qed
qed

section \<open>To disk and back\<close>

lemma length_to_bytes [simp]: "4 \<le> length p \<Longrightarrow> length (to_bytes p) = length p"
  by (simp add: to_bytes_def)

lemma agree_on_to_bytes: "4 \<le> length p \<Longrightarrow> agree_on {4..} p (to_bytes p)"
  unfolding to_bytes_def
  by (rule agree_on_mono [OF agree_on_overwrite]) auto

lemma drop_to_bytes: "4 \<le> length p \<Longrightarrow> drop 4 (to_bytes p) = drop 4 p"
  by (simp add: to_bytes_def drop_overwrite_after)

lemma take_to_bytes: "4 \<le> length p \<Longrightarrow> take 4 (to_bytes p) = to_le_bytes (crc32c (drop 4 p))"
  by (simp add: to_bytes_def overwrite_def)

lemma page_agree:
  assumes "agree_on {12..} p q" and "length p = PAGE_SIZE"
  shows "page_inv q = page_inv p" and "same_header p q"
    and "layout_ok q = layout_ok p" and "body q = body p" and "free_space q = free_space p"
    and "layout_ok p \<Longrightarrow> page_items q = page_items p"
proof -
  have len: "length q = PAGE_SIZE"
    using assms by (simp add: agree_on_length)
  show hd: "same_header p q"
    using assms(2) by (intro same_header_agree [OF assms(1)]) (auto simp: PAGE_SIZE_def)
  have u: "get_u16 a q = get_u16 a p" if "12 \<le> a" for a
    using that by (intro get_u16_agree [OF assms(1)]) auto
  then have f: "slot_count q = slot_count p" "free_end q = free_end p"
    and sl: "slot_off q i = slot_off p i" "slot_len q i = slot_len p i" for i
    using slot_base_ge [of i] by (simp_all add: slot_count_def free_end_def slot_off_def slot_len_def)
  show lay: "layout_ok q = layout_ok p"
    using f sl len assms(2) by (simp add: layout_ok_def)
  show "page_inv q = page_inv p"
    using f sl lay same_header_kind [OF hd] by (simp add: page_inv_def slots_disjoint_def)
  show "body q = body p"
  proof -
    have "take (length p) (drop 24 q) = take (length p) (drop 24 p)"
      by (rule agree_on_slice [OF assms(1)]) auto
    then show ?thesis
      using assms(2) len by (simp add: body_def HEADER_SIZE_def)
  qed
  show "free_space q = free_space p"
    using f by (simp add: free_space_def)
  show "page_items q = page_items p" if "layout_ok p"
  proof -
    have "slot_item q i = slot_item p i" if "i < slot_count p" for i
    proof -
      have "12 \<le> slot_off p i"
        using that \<open>layout_ok p\<close> slot_base_ge [of "slot_count p"] by (fastforce simp: layout_ok_def)
      then show ?thesis
        unfolding slot_item_def sl by (intro agree_on_slice [OF assms(1)]) auto
    qed
    then show ?thesis
      by (simp add: page_items_def f)
  qed
qed

lemma from_bytes_to_bytes:
  assumes "page_ok p"
  shows "from_bytes (to_bytes p) pid = Inr (to_bytes p)"
proof -
  have len: "length p = PAGE_SIZE" and lay: "layout_ok p"
    using assms by (simp_all add: page_ok_def layout_ok_def)
  have l4: "4 \<le> length p" and lb: "length (to_bytes p) = PAGE_SIZE"
    using len by (simp_all add: PAGE_SIZE_def)
  have a: "agree_on {12..} p (to_bytes p)"
    by (rule agree_on_mono [OF agree_on_to_bytes [OF l4]]) auto
  have "layout_ok (to_bytes p)" and k: "kind_ok (to_bytes p)"
    using assms page_agree(2,3) [OF a len] same_header_kind by (auto simp: page_ok_def)
  then have "validate_layout pid (to_bytes p) = Inr ()"
    using validate_layout_iff [OF lb] by simp
  with k show ?thesis
    by (auto simp: from_bytes_def kind_ok_def drop_to_bytes [OF l4] take_to_bytes [OF l4])
qed

lemma from_bytes_InrD:
  assumes "from_bytes bs pid = Inr p" and "length bs = PAGE_SIZE"
  shows "p = bs" and "page_ok p"
    and "(from_le_bytes (take 4 bs) :: u32) = crc32c (drop 4 bs)"
  using assms validate_layout_iff [OF assms(2)]
  by (auto simp: from_bytes_def bind_res_Inr_iff kind_ok_def page_ok_def split: if_splits)

text \<open>A hole of zeros in the data file is never taken for a page.\<close>

lemma zero_page_rejected: "from_bytes (replicate PAGE_SIZE 0) pid \<noteq> Inr p"
proof
  let ?z = "replicate PAGE_SIZE 0 :: bytes"
  assume "from_bytes ?z pid = Inr p"
  then have "layout_ok ?z"
    using from_bytes_InrD [of ?z pid p] by (simp add: page_ok_def)
  then have "slot_base (slot_count ?z) \<le> free_end ?z"
    by (simp add: layout_ok_def)
  moreover have "free_end ?z = 0"
    by (simp add: free_end_def get_u16_def PAGE_SIZE_def from_le_bytes_def numeral_2_eq_2)
  ultimately show False
    using slot_base_ge [of "slot_count ?z"] by simp
qed

end
