(* ===== verification/Pager.thy ===== *)
theory Pager
  imports Wal Page_Items "HOL-Library.AList"
begin

text \<open>
  \<open>ferrite-storage/src/pager.rs\<close>: the data file, the bounded page cache, the page allocator,
  the write ordering between journal and data file, checkpoint and recovery.

  The \<open>HashMap\<close> of cached pages is an association list without duplicate keys; its order
  stands for the map's iteration order, which no lemma depends on.
\<close>

section \<open>The meta page\<close>

definition MAGIC :: bytes where
  "MAGIC = [0x46, 0x45, 0x52, 0x52, 0x49, 0x54, 0x45, 0x31]"

definition FORMAT_VERSION :: u32 where
  "FORMAT_VERSION = 1"

definition META_CLOG_BASE :: nat where [layout]: "META_CLOG_BASE = 40"

definition CLOG_DIRECTORY_CAPACITY :: nat where
  "CLOG_DIRECTORY_CAPACITY = (PAGE_SIZE - HEADER_SIZE - META_CLOG_BASE) div 4"

record meta =
  page_count :: u32
  free_list_head :: page_id
  next_txn_id :: u64
  catalog_root :: page_id
  clog_pages :: "page_id list"

definition meta_fresh :: meta where
  "meta_fresh = \<lparr>page_count = 1, free_list_head = NO_PAGE, next_txn_id = 1,
     catalog_root = NO_PAGE, clog_pages = []\<rparr>"

text \<open>The fields are written back to back from the start of the body.\<close>

definition meta_fields :: "meta \<Rightarrow> bytes" where
  "meta_fields m = MAGIC @ to_le_bytes FORMAT_VERSION @ to_le_bytes (word_of_nat PAGE_SIZE :: u32) @
     to_le_bytes (page_count m) @ to_le_bytes (free_list_head m) @ to_le_bytes (next_txn_id m) @
     to_le_bytes (catalog_root m) @ to_le_bytes (word_of_nat (length (clog_pages m)) :: u32) @
     concat (map to_le_bytes (clog_pages m))"

definition meta_encode :: "meta \<Rightarrow> page \<Rightarrow> page res" where
  "meta_encode m p =
     (if length (clog_pages m) > CLOG_DIRECTORY_CAPACITY
      then Inl (Err (Storage ''commit-log directory is full''))
      else put_body 0 (meta_fields m) p)"

definition body_u32 :: "nat \<Rightarrow> page \<Rightarrow> u32" where
  "body_u32 a p = from_le_bytes (take 4 (drop a (body p)))"

definition body_u64 :: "nat \<Rightarrow> page \<Rightarrow> u64" where
  "body_u64 a p = from_le_bytes (take 8 (drop a (body p)))"

definition meta_decode :: "page \<Rightarrow> meta res" where
  "meta_decode p =
     (if take 8 (body p) \<noteq> MAGIC
      then Inl (Err (Storage ''not a Ferrite database file (bad magic)''))
      else if body_u32 8 p \<noteq> FORMAT_VERSION
      then Inl (Err (Storage ''unsupported storage format version''))
      else if unat (body_u32 12 p) \<noteq> PAGE_SIZE
      then Inl (Err (Storage ''database was created with another page size''))
      else if unat (body_u32 36 p) > CLOG_DIRECTORY_CAPACITY
      then Inl (Err (Storage ''corrupt meta page: commit-log directory length out of range''))
      else Inr \<lparr>page_count = body_u32 16 p, free_list_head = body_u32 20 p,
                next_txn_id = body_u64 24 p, catalog_root = body_u32 32 p,
                clog_pages = map (\<lambda>i. body_u32 (META_CLOG_BASE + i * 4) p)
                  [0..<unat (body_u32 36 p)]\<rparr>)"

section \<open>The pager\<close>

record entry =
  e_page :: page
  dirty_vs_file :: bool
  dirty_vs_journal :: bool
  e_used :: u64

record pager =
  p_file :: os_file
  p_journal :: journal
  p_cache :: "(page_id \<times> entry) list"
  p_capacity :: nat
  p_clock :: u64
  p_meta :: meta
  meta_dirty_vs_journal :: bool

type_synonym 'a pager_op = "(pager, failure, 'a) op"

definition page_offset :: "page_id \<Rightarrow> nat" where
  "page_offset pid = unat pid * PAGE_SIZE"

definition meta_mut :: "(meta \<Rightarrow> meta) \<Rightarrow> pager \<Rightarrow> pager" where
  "meta_mut f s = s\<lparr>meta_dirty_vs_journal := True, p_meta := f (p_meta s)\<rparr>"

definition load_from_file :: "page_id \<Rightarrow> page pager_op" where
  "load_from_file pid s =
     (case read_exact_at (page_offset pid) PAGE_SIZE (p_file s) of
        (None, f) \<Rightarrow>
          (Inl (Err (Storage (''page '' @ dec_string (unat pid) @ '' is past the end of the data file''))),
           s\<lparr>p_file := f\<rparr>)
      | (Some bs, f) \<Rightarrow> (from_bytes bs pid, s\<lparr>p_file := f\<rparr>))"

definition write_page_to_file :: "page_id \<Rightarrow> page \<Rightarrow> pager \<Rightarrow> pager" where
  "write_page_to_file pid p s =
     s\<lparr>p_file := write_all (to_bytes p) (seek_start (page_offset pid) (p_file s))\<rparr>"

definition tick :: "pager \<Rightarrow> u64 \<times> pager" where
  "tick s = (p_clock s + 1, s\<lparr>p_clock := p_clock s + 1\<rparr>)"

definition encoded_meta_page :: "pager \<Rightarrow> page res" where
  "encoded_meta_page s = meta_encode (p_meta s) (page_new PK_Meta)"

definition flush_meta_to_journal :: "unit pager_op" where
  "flush_meta_to_journal s =
     (if \<not> meta_dirty_vs_journal s then (Inr (), s)
      else case encoded_meta_page s of
        Inl e \<Rightarrow> (Inl e, s)
      | Inr p \<Rightarrow>
          let (l, j) = next_lsn (p_journal s);
              bs = to_bytes (set_lsn l p)
          in (Inr (), s\<lparr>p_journal := log_page_image l META_PAGE bs j, meta_dirty_vs_journal := False\<rparr>))"

text \<open>One iteration of the loop over the pages the journal has not seen.\<close>

definition journal_one :: "page_id \<Rightarrow> unit pager_op" where
  "journal_one pid s =
     (let (l, j) = next_lsn (p_journal s)
      in case map_of (p_cache s) pid of
           None \<Rightarrow> (Inl Panic, s\<lparr>p_journal := j\<rparr>)
         | Some e \<Rightarrow>
             let e' = e\<lparr>e_page := set_lsn l (e_page e), dirty_vs_journal := False\<rparr>
             in (Inr (), s\<lparr>p_cache := AList.update pid e' (p_cache s),
                           p_journal := log_page_image l pid (to_bytes (e_page e')) j\<rparr>))"

definition journal_dirty_pages :: "unit pager_op" where
  "journal_dirty_pages = bind_op flush_meta_to_journal (\<lambda>_ s.
     for_each (map fst (filter (\<lambda>(_, e). dirty_vs_journal e) (p_cache s))) journal_one s)"

subsection \<open>Eviction\<close>

text \<open>\<open>min_by_key\<close> returns the first of the least recently used entries.\<close>

fun min_by_used :: "(page_id \<times> entry) list \<Rightarrow> (page_id \<times> entry) option" where
  "min_by_used [] = None"
| "min_by_used (x # xs) =
     (case min_by_used xs of
        None \<Rightarrow> Some x
      | Some y \<Rightarrow> if e_used (snd x) \<le> e_used (snd y) then Some x else Some y)"

definition evict_one :: "page_id \<Rightarrow> unit pager_op" where
  "evict_one victim = bind_op
     (\<lambda>s. if (case map_of (p_cache s) victim of None \<Rightarrow> False | Some e \<Rightarrow> dirty_vs_journal e)
          then journal_dirty_pages s else (Inr (), s))
     (\<lambda>_ s. case map_of (p_cache s) victim of
        None \<Rightarrow> (Inl Panic, s)
      | Some e \<Rightarrow>
          let s' = s\<lparr>p_cache := AList.delete victim (p_cache s)\<rparr>
          in (Inr (), if dirty_vs_file e then write_page_to_file victim (e_page e) s' else s'))"

lemma keys_update_present:
  "map_of al k = Some v \<Longrightarrow> map fst (AList.update k w al) = map fst al"
  by (simp add: AList.update_keys) (metis fst_conv image_eqI map_of_SomeD)

lemma journal_one_keys: "map fst (p_cache (snd (journal_one pid s))) = map fst (p_cache s)"
  by (auto simp: journal_one_def next_lsn_def keys_update_present Let_def split: option.splits)

lemma for_each_keys:
  "map fst (p_cache (snd (for_each ids journal_one s))) = map fst (p_cache s)"
proof (induction ids arbitrary: s)
  case Nil
  show ?case by simp
next
  case (Cons i ids)
  then show ?case
    using journal_one_keys [of i s] by (auto simp: bind_op_def split: prod.splits sum.splits)
qed

lemma flush_meta_cache: "p_cache (snd (flush_meta_to_journal s)) = p_cache s"
  by (auto simp: flush_meta_to_journal_def next_lsn_def split: sum.splits)

lemma journal_dirty_pages_keys: "map fst (p_cache (snd (journal_dirty_pages s))) = map fst (p_cache s)"
proof -
  obtain r t where ft: "flush_meta_to_journal s = (r, t)"
    by fastforce
  then have "p_cache t = p_cache s"
    using flush_meta_cache [of s] by simp
  then show ?thesis
    using ft for_each_keys by (cases r) (simp_all add: journal_dirty_pages_def bind_op_def)
qed

lemma length_delete_present:
  assumes "map_of al k = Some v"
  shows "length (AList.delete k al) < length al"
proof -
  have "(k, v) \<in> set al"
    using assms by (rule map_of_SomeD)
  then have "length (filter (\<lambda>(k', _). k \<noteq> k') al) < length al"
    by (intro length_filter_less) auto
  then show ?thesis
    by (simp add: AList.delete_eq)
qed

lemma evict_one_length:
  assumes "evict_one victim s = (Inr u, s')"
  shows "length (p_cache s') < length (p_cache s)"
proof -
  let ?dirty = "case map_of (p_cache s) victim of None \<Rightarrow> False | Some e \<Rightarrow> dirty_vs_journal e"
  obtain v t where j: "(if ?dirty then journal_dirty_pages s else (Inr (), s)) = (Inr v, t)"
    and t: "(case map_of (p_cache t) victim of
        None \<Rightarrow> (Inl Panic, t)
      | Some e \<Rightarrow>
          let s' = t\<lparr>p_cache := AList.delete victim (p_cache t)\<rparr>
          in (Inr (), if dirty_vs_file e then write_page_to_file victim (e_page e) s' else s')) = (Inr u, s')"
    using assms by (auto simp: evict_one_def bind_op_Inr_iff)
  have "map fst (p_cache t) = map fst (p_cache s)"
    using j journal_dirty_pages_keys [of s] by (cases ?dirty) auto
  then have len: "length (p_cache t) = length (p_cache s)"
    by (rule map_eq_imp_length_eq)
  obtain e where e: "map_of (p_cache t) victim = Some e"
    using t by (auto split: option.splits)
  then have "p_cache s' = AList.delete victim (p_cache t)"
    using t by (auto simp: Let_def write_page_to_file_def split: if_splits)
  with length_delete_present [OF e] len show ?thesis
    by simp
qed

function evict_if_needed :: "unit pager_op" where
  "evict_if_needed s =
     (if length (p_cache s) < p_capacity s then (Inr (), s)
      else case min_by_used (p_cache s) of
        None \<Rightarrow> (Inr (), s)
      | Some (victim, _) \<Rightarrow>
          (case evict_one victim s of
             (Inl e, s') \<Rightarrow> (Inl e, s')
           | (Inr _, s') \<Rightarrow> evict_if_needed s'))"
  by pat_completeness auto
termination
  by (relation "measure (\<lambda>s. length (p_cache s))") (auto dest: evict_one_length [OF sym])

declare evict_if_needed.simps [simp del]

subsection \<open>Page access\<close>

definition cache_insert :: "page_id \<Rightarrow> entry \<Rightarrow> pager \<Rightarrow> pager" where
  "cache_insert pid e s = s\<lparr>p_cache := AList.update pid e (p_cache s)\<rparr>"

definition ensure_cached :: "page_id \<Rightarrow> unit pager_op" where
  "ensure_cached pid s =
     (case map_of (p_cache s) pid of
        Some _ \<Rightarrow> (Inr (), s)
      | None \<Rightarrow>
          bind_op evict_if_needed (\<lambda>_. bind_op (load_from_file pid) (\<lambda>p s1.
            let (used, s2) = tick s1
            in (Inr (), cache_insert pid \<lparr>e_page = p, dirty_vs_file = False,
                  dirty_vs_journal = False, e_used = used\<rparr> s2))) s)"

text \<open>
  \<open>with_page\<close> and \<open>with_page_mut\<close> run a closure on the cached page. A closure that fails
  leaves the page as it was, which holds of every closure the crate passes.
\<close>

definition with_page :: "page_id \<Rightarrow> (page \<Rightarrow> 'r res) \<Rightarrow> 'r pager_op" where
  "with_page pid f = bind_op (ensure_cached pid) (\<lambda>_ s.
     let (used, s1) = tick s
     in case map_of (p_cache s1) pid of
          None \<Rightarrow> (Inl Panic, s1)
        | Some e \<Rightarrow> (f (e_page e), cache_insert pid (e\<lparr>e_used := used\<rparr>) s1))"

definition with_page_mut :: "page_id \<Rightarrow> (page \<Rightarrow> ('r \<times> page) res) \<Rightarrow> 'r pager_op" where
  "with_page_mut pid f = bind_op (ensure_cached pid) (\<lambda>_ s.
     let (used, s1) = tick s
     in case map_of (p_cache s1) pid of
          None \<Rightarrow> (Inl Panic, s1)
        | Some e \<Rightarrow>
            let e' = e\<lparr>e_used := used, dirty_vs_file := True, dirty_vs_journal := True\<rparr>
            in (case f (e_page e) of
                  Inl err \<Rightarrow> (Inl err, cache_insert pid e' s1)
                | Inr (r, p) \<Rightarrow> (Inr r, cache_insert pid (e'\<lparr>e_page := p\<rparr>) s1)))"

definition write_page :: "page_id \<Rightarrow> page \<Rightarrow> unit pager_op" where
  "write_page pid p = with_page_mut pid (\<lambda>_. Inr ((), p))"

definition take_page_id :: "page_id pager_op" where
  "take_page_id s =
     (let head = free_list_head (p_meta s)
      in if head \<noteq> NO_PAGE then
           bind_op (with_page head (\<lambda>p. Inr (extra p))) (\<lambda>next s1.
             (Inr head, meta_mut (\<lambda>m. m\<lparr>free_list_head := next\<rparr>) s1)) s
         else
           (Inr (page_count (p_meta s)), meta_mut (\<lambda>m. m\<lparr>page_count := page_count m + 1\<rparr>) s))"

definition insert_fresh :: "page_kind \<Rightarrow> page_id \<Rightarrow> page_id pager_op" where
  "insert_fresh k pid = bind_op evict_if_needed (\<lambda>_ s.
     let (used, s1) = tick s
     in (Inr pid, cache_insert pid \<lparr>e_page = page_new k, dirty_vs_file = True,
           dirty_vs_journal = True, e_used = used\<rparr> s1))"

definition alloc_page :: "page_kind \<Rightarrow> page_id pager_op" where
  "alloc_page k = bind_op take_page_id (insert_fresh k)"

definition free_page :: "page_id \<Rightarrow> unit pager_op" where
  "free_page pid s =
     (let head = free_list_head (p_meta s)
      in bind_op (write_page pid (set_extra head (page_new PK_Free))) (\<lambda>_ s1.
           (Inr (), meta_mut (\<lambda>m. m\<lparr>free_list_head := pid\<rparr>) s1)) s)"

subsection \<open>Commit, abort, checkpoint\<close>

definition commit_to_journal :: "u64 \<Rightarrow> unit pager_op" where
  "commit_to_journal txn = bind_op journal_dirty_pages (\<lambda>_ s.
     (Inr (), s\<lparr>p_journal := journal_sync (log_commit txn (p_journal s))\<rparr>))"

definition pager_journal_len :: "pager \<Rightarrow> u64" where
  "pager_journal_len s = journal_len (p_journal s)"

definition abort_to_journal :: "u64 \<Rightarrow> unit pager_op" where
  "abort_to_journal txn s = (Inr (), s\<lparr>p_journal := log_abort txn (p_journal s)\<rparr>)"

definition checkpoint_one :: "page_id \<Rightarrow> unit pager_op" where
  "checkpoint_one pid s =
     (case map_of (p_cache s) pid of
        None \<Rightarrow> (Inl Panic, s)
      | Some e \<Rightarrow>
          (Inr (), cache_insert pid (e\<lparr>dirty_vs_file := False, dirty_vs_journal := False\<rparr>)
             (write_page_to_file pid (e_page e) s)))"

definition checkpoint :: "unit pager_op" where
  "checkpoint = bind_op
     (\<lambda>s. for_each (map fst (filter (\<lambda>(_, e). dirty_vs_file e) (p_cache s))) checkpoint_one s)
     (\<lambda>_ s. case encoded_meta_page s of
        Inl e \<Rightarrow> (Inl e, s)
      | Inr p \<Rightarrow>
          let s1 = write_page_to_file META_PAGE p s
          in (Inr (), s1\<lparr>meta_dirty_vs_journal := False, p_file := sync_data (p_file s1),
                p_journal := journal_truncate (journal_sync (log_checkpoint (p_journal s1)))\<rparr>))"

subsection \<open>Recovery and opening\<close>

record recovery =
  rec_pages :: nat
  rec_commits :: nat
  rec_aborts :: nat
  rec_max_lsn :: u64
  rec_torn_tail :: bool

definition recovery_default :: recovery where
  "recovery_default = \<lparr>rec_pages = 0, rec_commits = 0, rec_aborts = 0, rec_max_lsn = 0,
     rec_torn_tail = False\<rparr>"

fun recover_visit :: "jrecord \<Rightarrow> (os_file \<times> recovery, failure, unit) op" where
  "recover_visit (PageImage l pid bs) (f, st) =
     (Inr (), write_all bs (seek_start (page_offset pid) f),
      st\<lparr>rec_pages := rec_pages st + 1, rec_max_lsn := max (rec_max_lsn st) l\<rparr>)"
| "recover_visit (Commit t) (f, st) = (Inr (), f, st\<lparr>rec_commits := rec_commits st + 1\<rparr>)"
| "recover_visit (Abort t) (f, st) = (Inr (), f, st\<lparr>rec_aborts := rec_aborts st + 1\<rparr>)"
| "recover_visit Checkpoint (f, st) = (Inr (), f, st)"

definition recover :: "os_file \<Rightarrow> bytes option \<Rightarrow> recovery res \<times> os_file" where
  "recover f journal =
     (case replay journal recover_visit (f, recovery_default) of
        (Inl e, f', st) \<Rightarrow> (Inl e, f')
      | (Inr torn, f', st) \<Rightarrow>
          (Inr (st\<lparr>rec_torn_tail := torn\<rparr>), if rec_pages st > 0 then sync_data f' else f'))"

text \<open>
  \<open>data\<close> is the data file's contents, empty when it did not exist; \<open>journal\<close> the journal's.
\<close>

definition pager_open :: "bytes \<Rightarrow> bytes option \<Rightarrow> nat \<Rightarrow> bool \<Rightarrow> pager res" where
  "pager_open data journal capacity sync =
     (case recover (file_open data) journal of
        (Inl e, _) \<Rightarrow> Inl e
      | (Inr st, f) \<Rightarrow>
          let j = set_next_lsn (rec_max_lsn st + 1) (journal_truncate
                    (journal_open (case journal of None \<Rightarrow> [] | Some bs \<Rightarrow> bs) sync));
              s = \<lparr>p_file = f, p_journal = j, p_cache = [], p_capacity = max capacity 8, p_clock = 0,
                   p_meta = meta_fresh, meta_dirty_vs_journal = False\<rparr>
          in if f_data f = [] then
               bind_res (meta_encode (p_meta s) (page_new PK_Meta)) (\<lambda>p.
                 let s1 = write_page_to_file META_PAGE p s
                 in Inr (s1\<lparr>p_file := sync_data (p_file s1)\<rparr>))
             else
               (case load_from_file META_PAGE s of
                  (Inl e, _) \<Rightarrow> Inl e
                | (Inr p, s1) \<Rightarrow> bind_res (meta_decode p) (\<lambda>m. Inr (s1\<lparr>p_meta := m\<rparr>))))"

end
