(* ===== verification/Pager_View.thy ===== *)
theory Pager_View
  imports Pager
begin

text \<open>
  The pager as a map from page ids to page contents. A page's content is everything behind
  its checksum and LSN, the two fields the pager rewrites on its own. Caching, eviction,
  journalling and reloading leave this view unchanged; \<open>with_page_mut\<close> updates one entry
  and \<open>alloc_page\<close> and \<open>free_page\<close> keep the free list outside the pages in use.
\<close>

section \<open>Contents\<close>

definition content :: "page \<Rightarrow> bytes" where
  "content p = drop 12 p"

lemma content_eq_agree:
  assumes "content q = content p" and "length q = PAGE_SIZE" and "length p = PAGE_SIZE"
  shows "agree_on {12..} p q"
  unfolding agree_on_def
proof (intro conjI allI impI)
  fix i
  assume "i < length p" and "i \<in> {12..}"
  then have "q ! i = content q ! (i - 12)" and "p ! i = content p ! (i - 12)"
    using assms(2,3) by (simp_all add: content_def)
  then show "q ! i = p ! i"
    by (simp only: assms(1))
qed (use assms in simp)

lemma agree_content: "agree_on {12..} p q \<Longrightarrow> content q = content p"
proof -
  assume a: "agree_on {12..} p q"
  have "take (length p) (drop 12 q) = take (length p) (drop 12 p)"
    by (rule agree_on_slice [OF a]) auto
  then show ?thesis
    using agree_on_length [OF a] by (simp add: content_def)
qed

text \<open>Everything a client reads of a page is determined by its content.\<close>

lemma content_determines:
  assumes "content q = content p" and "length q = PAGE_SIZE" and "length p = PAGE_SIZE"
  shows "kind q = kind p" and "extra q = extra p" and "body q = body p"
    and "page_inv q = page_inv p" and "page_ok q = page_ok p" and "free_space q = free_space p"
    and "layout_ok p \<Longrightarrow> page_items q = page_items p" and "slot_count q = slot_count p"
proof -
  have a: "agree_on {12..} p q"
    using assms by (rule content_eq_agree)
  note pa = page_agree [OF a assms(3)]
  show "kind q = kind p" "extra q = extra p" "body q = body p" "page_inv q = page_inv p"
    "free_space q = free_space p"
    using pa same_header_kind [OF pa(2)] by (simp_all add: same_header_def)
  show "page_ok q = page_ok p"
    using pa same_header_kind [OF pa(2)] by (simp add: page_ok_def)
  show "layout_ok p \<Longrightarrow> page_items q = page_items p"
    by (rule pa(6))
  show "slot_count q = slot_count p"
    unfolding slot_count_def by (rule get_u16_agree [OF a]) auto
qed

lemma content_set_lsn:
  assumes "length p = PAGE_SIZE"
  shows "content (set_lsn l p) = content p" and "length (set_lsn l p) = PAGE_SIZE"
  using assms by (simp_all add: content_def set_lsn_def drop_overwrite_after PAGE_SIZE_def)

lemma content_to_bytes:
  assumes "length p = PAGE_SIZE"
  shows "content (to_bytes p) = content p" and "length (to_bytes p) = PAGE_SIZE"
  using assms by (simp_all add: content_def to_bytes_def drop_overwrite_after PAGE_SIZE_def)

section \<open>The data file as pages\<close>

definition file_page :: "bytes \<Rightarrow> page_id \<Rightarrow> page option" where
  "file_page data pid =
     (if page_offset pid + PAGE_SIZE \<le> length data
      then case from_bytes (take PAGE_SIZE (drop (page_offset pid) data)) pid of
             Inl _ \<Rightarrow> None | Inr p \<Rightarrow> Some p
      else None)"

lemma file_page_ok:
  assumes "file_page data pid = Some p"
  shows "page_ok p" and "p = take PAGE_SIZE (drop (page_offset pid) data)"
proof -
  let ?bs = "take PAGE_SIZE (drop (page_offset pid) data)"
  from assms have "from_bytes ?bs pid = Inr p" and "length ?bs = PAGE_SIZE"
    by (auto simp: file_page_def split: if_splits sum.splits)
  then show "page_ok p" and "p = ?bs"
    using from_bytes_InrD by blast+
qed

lemma page_offset_disjoint:
  "pid \<noteq> pid' \<Longrightarrow> page_offset pid' + PAGE_SIZE \<le> page_offset pid \<or> page_offset pid + PAGE_SIZE \<le> page_offset pid'"
proof -
  assume "pid \<noteq> pid'"
  then have "unat pid < unat pid' \<or> unat pid' < unat pid"
    by (metis nat_neq_iff word_unat_eq_iff)
  then show ?thesis
    unfolding page_offset_def
    by (metis Suc_leI add.commute mult.commute mult_Suc_right mult_le_mono2)
qed

lemma file_page_write_same:
  assumes "page_ok p"
  shows "file_page (write_at (page_offset pid) (to_bytes p) data) pid = Some (to_bytes p)"
proof -
  have len: "length (to_bytes p) = PAGE_SIZE"
    using content_to_bytes [OF page_ok_length [OF assms]] by simp
  have "take PAGE_SIZE (drop (page_offset pid) (write_at (page_offset pid) (to_bytes p) data)) = to_bytes p"
    using write_at_same [of "to_bytes p"] len by simp
  then show ?thesis
    using from_bytes_to_bytes [OF assms] len by (simp add: file_page_def length_write_at)
qed

lemma file_page_write_other:
  assumes "pid \<noteq> pid'" and "length bs = PAGE_SIZE" and "PAGE_SIZE dvd length data"
  shows "file_page (write_at (page_offset pid) bs data) pid' = file_page data pid'"
proof (cases "page_offset pid' + PAGE_SIZE \<le> length data")
  case True
  then show ?thesis
    using write_at_other [of "page_offset pid'" PAGE_SIZE "page_offset pid" bs data]
      page_offset_disjoint [OF assms(1)] assms(2)
    by (simp add: file_page_def length_write_at le_max_iff_disj)
next
  case False
  then have none: "file_page data pid' = None"
    by (simp add: file_page_def)
  have beyond: "length data \<le> page_offset pid'"
  proof -
    obtain k where k: "length data = PAGE_SIZE * k"
      using assms(3) by auto
    with False have "PAGE_SIZE * k < PAGE_SIZE * Suc (unat pid')"
      by (simp add: page_offset_def mult.commute)
    then have "k \<le> unat pid'"
      by (simp add: PAGE_SIZE_def)
    then show ?thesis
      by (simp add: k page_offset_def mult.commute)
  qed
  show ?thesis
  proof (cases "page_offset pid' + PAGE_SIZE \<le> length (write_at (page_offset pid) bs data)")
    case True
    then have before: "page_offset pid' + PAGE_SIZE \<le> page_offset pid"
      using page_offset_disjoint [OF assms(1)] beyond False assms(2) by (auto simp: length_write_at)
    have "take PAGE_SIZE (drop (page_offset pid') (write_at (page_offset pid) bs data)) =
        take PAGE_SIZE (drop (page_offset pid') (data @ replicate (page_offset pid + length bs - length data) 0))"
      unfolding write_at_def using before by (intro take_drop_overwrite_other) auto
    also have "\<dots> = replicate PAGE_SIZE 0"
      using beyond before assms(2) by (simp add: min_def)
    finally show ?thesis
      using none zero_page_rejected by (auto simp: file_page_def split: sum.splits)
  next
    case False
    then show ?thesis
      using none by (simp add: file_page_def)
  qed
qed

section \<open>View and invariant\<close>

definition page_at :: "pager \<Rightarrow> page_id \<Rightarrow> page option" where
  "page_at s pid =
     (if pid = META_PAGE then None
      else case map_of (p_cache s) pid of
             Some e \<Rightarrow> Some (e_page e)
           | None \<Rightarrow> file_page (f_data (p_file s)) pid)"

definition view :: "pager \<Rightarrow> page_id \<Rightarrow> bytes option" where
  "view s pid = map_option content (page_at s pid)"

text \<open>A cached page is well-formed, and a clean one is what the data file holds.\<close>

definition entry_ok :: "bytes \<Rightarrow> page_id \<Rightarrow> entry \<Rightarrow> bool" where
  "entry_ok data pid e \<longleftrightarrow> page_ok (e_page e) \<and>
     (\<not> dirty_vs_file e \<longrightarrow> map_option content (file_page data pid) = Some (content (e_page e)))"

definition pager_inv :: "pager \<Rightarrow> bool" where
  "pager_inv s \<longleftrightarrow>
     distinct (map fst (p_cache s)) \<and> map_of (p_cache s) META_PAGE = None \<and>
     (\<forall>pid e. map_of (p_cache s) pid = Some e \<longrightarrow> entry_ok (f_data (p_file s)) pid e) \<and>
     PAGE_SIZE dvd length (f_data (p_file s)) \<and>
     length (clog_pages (p_meta s)) \<le> CLOG_DIRECTORY_CAPACITY \<and> 0 < p_capacity s"

text \<open>A step the clients cannot see.\<close>

definition unseen :: "pager \<Rightarrow> pager \<Rightarrow> bool" where
  "unseen s s' \<longleftrightarrow> pager_inv s' \<and> view s' = view s \<and> p_meta s' = p_meta s \<and>
     p_capacity s' = p_capacity s"

lemma unseen_refl: "pager_inv s \<Longrightarrow> unseen s s"
  by (simp add: unseen_def)

lemma unseen_trans: "unseen s t \<Longrightarrow> unseen t u \<Longrightarrow> unseen s u"
  by (simp add: unseen_def)

lemma view_not_meta: "view s pid = Some c \<Longrightarrow> pid \<noteq> META_PAGE"
  by (auto simp: view_def page_at_def)

lemma page_at_ok:
  assumes "pager_inv s" and "page_at s pid = Some p"
  shows "page_ok p"
  using assms file_page_ok
  by (auto simp: page_at_def pager_inv_def entry_ok_def split: option.splits if_splits)

lemma cached_ok: "pager_inv s \<Longrightarrow> map_of (p_cache s) pid = Some e \<Longrightarrow> page_ok (e_page e)"
  by (simp add: pager_inv_def entry_ok_def)

text \<open>Rewriting a cache entry without changing its content.\<close>

lemma update_entry_unseen:
  assumes inv: "pager_inv s" and e: "map_of (p_cache s) pid = Some e"
    and c: "content (e_page e') = content (e_page e)" "length (e_page e') = PAGE_SIZE"
    and d: "dirty_vs_file e' = dirty_vs_file e"
    and s': "p_cache s' = AList.update pid e' (p_cache s)" "f_data (p_file s') = f_data (p_file s)"
      "p_meta s' = p_meta s" "p_capacity s' = p_capacity s"
  shows "unseen s s'"
proof -
  have eok: "entry_ok (f_data (p_file s)) pid e"
    using inv e by (simp add: pager_inv_def)
  then have ok: "page_ok (e_page e)"
    by (simp add: entry_ok_def)
  then have "page_ok (e_page e')"
    using content_determines(5) [OF c page_ok_length [OF ok]] by simp
  with eok c d have "entry_ok (f_data (p_file s)) pid e'"
    by (simp add: entry_ok_def)
  moreover have "pid \<noteq> META_PAGE"
    using inv e by (auto simp: pager_inv_def)
  ultimately have "pager_inv s'"
    using inv e by (simp add: pager_inv_def s' update_conv' distinct_update keys_update_present)
  moreover have "view s' = view s"
    using e c by (auto simp: fun_eq_iff view_def page_at_def s' update_conv' split: option.splits)
  ultimately show ?thesis
    by (simp add: unseen_def s')
qed

section \<open>Journalling is unseen\<close>

lemma length_concat_le: "length (concat (map to_le_bytes (xs :: u32 list))) = 4 * length xs"
  by (induction xs) simp_all

lemma length_meta_fields: "length (meta_fields m) = 40 + 4 * length (clog_pages m)"
  by (simp add: meta_fields_def MAGIC_def length_concat_le)

lemma encoded_meta_page_ok:
  assumes "pager_inv s"
  shows "encoded_meta_page s = Inr (overwrite HEADER_SIZE (meta_fields (p_meta s)) (page_new PK_Meta))"
  using assms
  by (simp add: encoded_meta_page_def meta_encode_def put_body_def pager_inv_def length_meta_fields
      page_new_fields CLOG_DIRECTORY_CAPACITY_def layout)

lemma flush_meta_unseen:
  assumes "pager_inv s"
  obtains s' where "flush_meta_to_journal s = (Inr (), s')" and "unseen s s'"
    and "p_cache s' = p_cache s" and "p_file s' = p_file s"
proof (cases "meta_dirty_vs_journal s")
  case True
  then obtain j where "flush_meta_to_journal s =
      (Inr (), s\<lparr>p_journal := j, meta_dirty_vs_journal := False\<rparr>)"
    using encoded_meta_page_ok [OF assms] by (simp add: flush_meta_to_journal_def next_lsn_def Let_def)
  moreover have "unseen s (s\<lparr>p_journal := j, meta_dirty_vs_journal := False\<rparr>)"
    using assms by (auto simp: unseen_def pager_inv_def view_def page_at_def fun_eq_iff split: option.splits)
  ultimately show ?thesis
    using that by simp
next
  case False
  then show ?thesis
    using that unseen_refl [OF assms] by (simp add: flush_meta_to_journal_def)
qed

lemma journal_one_unseen:
  assumes "pager_inv s" and "map_of (p_cache s) pid = Some e"
  obtains s' where "journal_one pid s = (Inr (), s')" and "unseen s s'"
    and "map fst (p_cache s') = map fst (p_cache s)" and "p_file s' = p_file s"
proof -
  let ?l = "j_next_lsn (p_journal s)"
  let ?e = "e\<lparr>e_page := set_lsn ?l (e_page e), dirty_vs_journal := False\<rparr>"
  obtain j where j: "journal_one pid s =
      (Inr (), s\<lparr>p_cache := AList.update pid ?e (p_cache s), p_journal := j\<rparr>)" (is "_ = (_, ?s)")
    using assms(2) by (auto simp: journal_one_def next_lsn_def Let_def)
  have "length (e_page e) = PAGE_SIZE"
    by (rule page_ok_length [OF cached_ok [OF assms]])
  then have "unseen s ?s"
    using content_set_lsn by (intro update_entry_unseen [OF assms]) simp_all
  then show ?thesis
    using that j assms(2) by (simp add: keys_update_present)
qed

lemma journal_all_unseen:
  assumes "pager_inv s" and "set ids \<subseteq> fst ` set (p_cache s)"
  shows "\<exists>s'. for_each ids journal_one s = (Inr (), s') \<and> unseen s s' \<and>
     map fst (p_cache s') = map fst (p_cache s) \<and> p_file s' = p_file s"
  using assms
proof (induction ids arbitrary: s)
  case Nil
  then show ?case by (simp add: unseen_refl)
next
  case (Cons pid ids)
  then obtain e where "map_of (p_cache s) pid = Some e"
    by (metis insert_subset list.simps(15) map_of_eq_None_iff not_Some_eq)
  then obtain s1 where s1: "journal_one pid s = (Inr (), s1)" "unseen s s1"
    "map fst (p_cache s1) = map fst (p_cache s)" "p_file s1 = p_file s"
    using journal_one_unseen [OF Cons.prems(1)] by metis
  moreover have "set ids \<subseteq> fst ` set (p_cache s1)"
    using Cons.prems(2) s1(3) by (metis insert_subset list.set_map list.simps(15))
  ultimately obtain s2 where "for_each ids journal_one s1 = (Inr (), s2)" "unseen s1 s2"
    "map fst (p_cache s2) = map fst (p_cache s1)" "p_file s2 = p_file s1"
    using Cons.IH [of s1] by (auto simp: unseen_def)
  then show ?case
    using s1 unseen_trans by (auto simp: bind_op_def)
qed

lemma journal_dirty_pages_unseen:
  assumes "pager_inv s"
  obtains s' where "journal_dirty_pages s = (Inr (), s')" and "unseen s s'"
    and "map fst (p_cache s') = map fst (p_cache s)" and "p_file s' = p_file s"
proof -
  obtain s1 where s1: "flush_meta_to_journal s = (Inr (), s1)" "unseen s s1"
    "p_cache s1 = p_cache s" "p_file s1 = p_file s"
    using flush_meta_unseen [OF assms] by metis
  let ?ids = "map fst (filter (\<lambda>(_, e). dirty_vs_journal e) (p_cache s1))"
  have "pager_inv s1" and "set ?ids \<subseteq> fst ` set (p_cache s1)"
    using s1(2) by (auto simp: unseen_def)
  then obtain s2 where "for_each ?ids journal_one s1 = (Inr (), s2)" "unseen s1 s2"
    "map fst (p_cache s2) = map fst (p_cache s1)" "p_file s2 = p_file s1"
    using journal_all_unseen by blast
  then show ?thesis
    using that s1 unseen_trans by (simp add: journal_dirty_pages_def bind_op_def)
qed

section \<open>Eviction is unseen\<close>

lemma file_length_write:
  assumes "PAGE_SIZE dvd length data" and "length bs = PAGE_SIZE"
  shows "PAGE_SIZE dvd length (write_at (page_offset pid) bs data)"
proof -
  have "PAGE_SIZE dvd page_offset pid + length bs"
    using assms(2) by (simp add: page_offset_def)
  then show ?thesis
    using assms(1) by (simp add: length_write_at max_def)
qed

lemma file_data_write_page:
  "f_data (p_file (write_page_to_file pid p s)) = write_at (page_offset pid) (to_bytes p) (f_data (p_file s))"
  by (simp add: write_page_to_file_def write_all_def seek_start_def)

text \<open>Dropping a cache entry after the data file has caught up with it.\<close>

lemma drop_entry_unseen:
  assumes inv: "pager_inv s" and e: "map_of (p_cache s) pid = Some e"
    and s': "p_cache s' = AList.delete pid (p_cache s)"
      "f_data (p_file s') = (if dirty_vs_file e
         then write_at (page_offset pid) (to_bytes (e_page e)) (f_data (p_file s)) else f_data (p_file s))"
      "p_meta s' = p_meta s" "p_capacity s' = p_capacity s"
  shows "unseen s s'"
proof -
  let ?d = "f_data (p_file s)" and ?d' = "f_data (p_file s')"
  have ok: "page_ok (e_page e)" and dvd: "PAGE_SIZE dvd length ?d"
    using inv e by (auto simp: cached_ok) (simp add: pager_inv_def)
  have len: "length (e_page e) = PAGE_SIZE"
    by (rule page_ok_length [OF ok])
  have same: "map_option content (file_page ?d' pid) = Some (content (e_page e))"
    using inv e file_page_write_same [OF ok] content_to_bytes [OF len]
    by (auto simp: s' pager_inv_def entry_ok_def)
  have other: "file_page ?d' q = file_page ?d q" if "q \<noteq> pid" for q
    using file_page_write_other [of pid q "to_bytes (e_page e)" ?d] that dvd content_to_bytes [OF len]
    by (simp add: s')
  have "pager_inv s'"
    using inv other dvd content_to_bytes [OF len] file_length_write
    by (auto simp: pager_inv_def s' delete_conv' distinct_delete entry_ok_def split: if_splits)
  moreover have "view s' q = view s q" for q
    using same other [of q] e by (cases "q = pid") (auto simp: view_def page_at_def s' delete_conv' split: option.splits)
  ultimately show ?thesis
    by (simp add: unseen_def fun_eq_iff s')
qed

lemma evict_one_unseen:
  assumes "pager_inv s" and "map_of (p_cache s) victim = Some e"
  obtains s' where "evict_one victim s = (Inr (), s')" and "unseen s s'"
proof -
  obtain t where t: "(if dirty_vs_journal e then journal_dirty_pages s else (Inr (), s)) = (Inr (), t)"
    and u: "unseen s t" and k: "map fst (p_cache t) = map fst (p_cache s)"
    using journal_dirty_pages_unseen [OF assms(1)] unseen_refl [OF assms(1)] by (metis (full_types))
  have "victim \<in> fst ` set (p_cache t)"
    using assms(2) k by (metis list.set_map map_of_SomeD fst_conv image_eqI)
  then obtain e2 where e2: "map_of (p_cache t) victim = Some e2"
    by (metis map_of_eq_None_iff not_Some_eq)
  let ?s1 = "t\<lparr>p_cache := AList.delete victim (p_cache t)\<rparr>"
  let ?s' = "if dirty_vs_file e2 then write_page_to_file victim (e_page e2) ?s1 else ?s1"
  have "unseen t ?s'"
    using u by (intro drop_entry_unseen [OF _ e2])
      (auto simp: unseen_def file_data_write_page write_page_to_file_def write_all_def seek_start_def)
  moreover have "evict_one victim s = (Inr (), ?s')"
    using assms(2) t e2 by (simp add: evict_one_def bind_op_def Let_def split: if_splits)
  ultimately show ?thesis
    using that unseen_trans [OF u] by blast
qed

lemma min_by_used_mem: "min_by_used xs = Some x \<Longrightarrow> x \<in> set xs"
  by (induction xs arbitrary: x) (auto split: option.splits if_splits)

lemma min_by_used_None: "min_by_used xs = None \<longleftrightarrow> xs = []"
  by (cases xs) (auto split: option.splits)

lemma evict_if_needed_unseen:
  assumes "pager_inv s"
  shows "\<exists>s'. evict_if_needed s = (Inr (), s') \<and> unseen s s' \<and> length (p_cache s') < p_capacity s'"
  using assms
proof (induction s rule: evict_if_needed.induct)
  case (1 s)
  show ?case
  proof (cases "length (p_cache s) < p_capacity s")
    case True
    then show ?thesis
      using unseen_refl [OF 1(2)] by (simp add: evict_if_needed.simps [of s])
  next
    case False
    then have "p_cache s \<noteq> []"
      using 1(2) by (auto simp: pager_inv_def)
    then obtain victim e where m: "min_by_used (p_cache s) = Some (victim, e)"
      by (metis min_by_used_None not_Some_eq surj_pair)
    then have "map_of (p_cache s) victim = Some e"
      using 1(2) min_by_used_mem by (auto simp: pager_inv_def)
    then obtain s1 where s1: "evict_one victim s = (Inr (), s1)" "unseen s s1"
      using evict_one_unseen [OF 1(2)] by metis
    obtain s2 where "evict_if_needed s1 = (Inr (), s2)" "unseen s1 s2" "length (p_cache s2) < p_capacity s2"
      using 1(1) [OF False m refl s1(1) [symmetric] refl] s1(2) by (auto simp: unseen_def)
    then show ?thesis
      using False m s1 unseen_trans by (auto simp: evict_if_needed.simps [of s])
  qed
qed

section \<open>Page access\<close>

lemma evict_one_keys: "fst ` set (p_cache (snd (evict_one victim s))) \<subseteq> fst ` set (p_cache s)"
proof -
  let ?dirty = "case map_of (p_cache s) victim of None \<Rightarrow> False | Some e \<Rightarrow> dirty_vs_journal e"
  obtain r t where t: "(if ?dirty then journal_dirty_pages s else (Inr (), s)) = (r, t)"
    by (meson surj_pair)
  then have "map fst (p_cache t) = map fst (p_cache s)"
    using journal_dirty_pages_keys [of s] by (cases ?dirty) auto
  then have keys: "fst ` set (p_cache t) = fst ` set (p_cache s)"
    by (metis list.set_map)
  moreover have "set (AList.delete victim xs) \<subseteq> set xs" for xs :: "(page_id \<times> entry) list"
    by (auto simp: AList.delete_eq)
  ultimately have sub: "fst ` set (AList.delete victim (p_cache t)) \<subseteq> fst ` set (p_cache s)"
    by (metis image_mono)
  show ?thesis
  proof (cases r)
    case (Inl err)
    then have "evict_one victim s = (Inl err, t)"
      using t by (simp add: evict_one_def bind_op_def)
    then show ?thesis
      using keys by simp
  next
    case (Inr u)
    then have "p_cache (snd (evict_one victim s)) \<in> {p_cache t, AList.delete victim (p_cache t)}"
      using t by (simp add: evict_one_def bind_op_def Let_def write_page_to_file_def split: option.split)
    then consider "p_cache (snd (evict_one victim s)) = p_cache t"
      | "p_cache (snd (evict_one victim s)) = AList.delete victim (p_cache t)"
      by blast
    then show ?thesis
      by cases (simp_all only: keys sub order_refl)
  qed
qed

lemma evict_if_needed_keys:
  "fst ` set (p_cache (snd (evict_if_needed s))) \<subseteq> fst ` set (p_cache s)"
proof (induction s rule: evict_if_needed.induct)
  case (1 s)
  show ?case
  proof (cases "length (p_cache s) < p_capacity s \<or> min_by_used (p_cache s) = None")
    case True
    then show ?thesis
      by (auto simp: evict_if_needed.simps [of s])
  next
    case False
    then obtain victim e where m: "min_by_used (p_cache s) = Some (victim, e)"
      and c: "\<not> length (p_cache s) < p_capacity s"
      by auto
    obtain r t where t: "evict_one victim s = (r, t)"
      by fastforce
    then show ?thesis
      using 1 [OF c m refl t [symmetric]] evict_one_keys [of victim s] c m
      by (cases r) (auto simp: evict_if_needed.simps [of s])
  qed
qed

lemma load_present:
  assumes "file_page (f_data (p_file s)) pid = Some p"
  obtains c where "load_from_file pid s = (Inr p, s\<lparr>p_file := (p_file s)\<lparr>f_cursor := c\<rparr>\<rparr>)"
  using assms
  by (auto simp: file_page_def load_from_file_def read_exact_at_def split: if_splits sum.splits)

lemma load_absent:
  assumes "file_page (f_data (p_file s)) pid = None"
  obtains e c where "load_from_file pid s = (Inl e, s\<lparr>p_file := (p_file s)\<lparr>f_cursor := c\<rparr>\<rparr>)"
  using assms
  by (auto simp: file_page_def load_from_file_def read_exact_at_def split: if_splits sum.splits)

text \<open>State components the view does not depend on.\<close>

lemma unseen_frame:
  assumes "pager_inv s" and "p_cache s' = p_cache s" and "f_data (p_file s') = f_data (p_file s)"
    and "p_meta s' = p_meta s" and "p_capacity s' = p_capacity s"
  shows "unseen s s'"
  using assms by (auto simp: unseen_def pager_inv_def view_def page_at_def fun_eq_iff split: option.splits)

lemma ensure_cached_present:
  assumes inv: "pager_inv s" and v: "view s pid = Some c"
  obtains s' e where "ensure_cached pid s = (Inr (), s')" and "unseen s s'"
    and "map_of (p_cache s') pid = Some e" and "content (e_page e) = c"
proof (cases "map_of (p_cache s) pid")
  case (Some e)
  then show ?thesis
    using that v unseen_refl [OF inv] by (auto simp: ensure_cached_def view_def page_at_def split: if_splits)
next
  case None
  obtain s1 where s1: "evict_if_needed s = (Inr (), s1)" "unseen s s1"
    using evict_if_needed_unseen [OF inv] by blast
  then have "pid \<notin> fst ` set (p_cache s1)"
    using evict_if_needed_keys [of s] None by (auto simp: map_of_eq_None_iff)
  then have none: "map_of (p_cache s1) pid = None"
    by (simp add: map_of_eq_None_iff)
  have "view s1 pid = Some c" and inv1: "pager_inv s1"
    using s1(2) v by (simp_all add: unseen_def)
  then obtain p where p: "file_page (f_data (p_file s1)) pid = Some p" and pc: "content p = c"
    using none by (auto simp: view_def page_at_def split: if_splits)
  obtain k where ld: "load_from_file pid s1 = (Inr p, s1\<lparr>p_file := (p_file s1)\<lparr>f_cursor := k\<rparr>\<rparr>)"
    using load_present [OF p] by metis
  let ?e = "\<lparr>e_page = p, dirty_vs_file = False, dirty_vs_journal = False, e_used = p_clock s1 + 1\<rparr>"
  let ?s' = "cache_insert pid ?e (s1\<lparr>p_file := (p_file s1)\<lparr>f_cursor := k\<rparr>, p_clock := p_clock s1 + 1\<rparr>)"
  have "entry_ok (f_data (p_file s1)) pid ?e"
    using p file_page_ok [OF p] by (simp add: entry_ok_def)
  then have "pager_inv ?s'"
    using inv1 view_not_meta [OF v] by (auto simp: pager_inv_def cache_insert_def update_conv' distinct_update)
  moreover have "view ?s' = view s1"
    using p none
    by (auto simp: fun_eq_iff view_def page_at_def cache_insert_def update_conv' split: option.splits)
  ultimately have "unseen s1 ?s'"
    by (simp add: unseen_def cache_insert_def)
  moreover have "ensure_cached pid s = (Inr (), ?s')"
    using None s1(1) ld by (simp add: ensure_cached_def bind_op_def tick_def)
  ultimately show ?thesis
    using that unseen_trans [OF s1(2)] pc by (simp add: cache_insert_def update_conv')
qed

lemma ensure_cached_absent:
  assumes inv: "pager_inv s" and v: "view s pid = None" and meta: "pid \<noteq> META_PAGE"
  obtains s' err where "ensure_cached pid s = (Inl err, s')" and "unseen s s'"
proof -
  have none0: "map_of (p_cache s) pid = None"
    using v meta by (auto simp: view_def page_at_def split: option.splits)
  obtain s1 where s1: "evict_if_needed s = (Inr (), s1)" "unseen s s1"
    using evict_if_needed_unseen [OF inv] by blast
  then have "pid \<notin> fst ` set (p_cache s1)"
    using evict_if_needed_keys [of s] none0 by (auto simp: map_of_eq_None_iff)
  then have none: "map_of (p_cache s1) pid = None"
    by (simp add: map_of_eq_None_iff)
  have "view s1 pid = None" and inv1: "pager_inv s1"
    using s1(2) v by (simp_all add: unseen_def)
  then have "file_page (f_data (p_file s1)) pid = None"
    using none meta by (auto simp: view_def page_at_def)
  then obtain err k where ld: "load_from_file pid s1 = (Inl err, s1\<lparr>p_file := (p_file s1)\<lparr>f_cursor := k\<rparr>\<rparr>)"
    using load_absent by metis
  have "unseen s1 (s1\<lparr>p_file := (p_file s1)\<lparr>f_cursor := k\<rparr>\<rparr>)"
    by (rule unseen_frame [OF inv1]) simp_all
  moreover have "ensure_cached pid s = (Inl err, s1\<lparr>p_file := (p_file s1)\<lparr>f_cursor := k\<rparr>\<rparr>)"
    using none0 s1(1) ld by (simp add: ensure_cached_def bind_op_def)
  ultimately show ?thesis
    using that unseen_trans [OF s1(2)] by blast
qed

lemma with_page_present:
  assumes "pager_inv s" and "view s pid = Some c"
  obtains s' p where "with_page pid f s = (f p, s')" and "unseen s s'"
    and "content p = c" and "page_ok p"
proof -
  obtain s1 e where s1: "ensure_cached pid s = (Inr (), s1)" "unseen s s1"
    "map_of (p_cache s1) pid = Some e" "content (e_page e) = c"
    using ensure_cached_present [OF assms] by metis
  have inv1: "pager_inv s1"
    using s1(2) by (simp add: unseen_def)
  let ?s' = "cache_insert pid (e\<lparr>e_used := p_clock s1 + 1\<rparr>) (s1\<lparr>p_clock := p_clock s1 + 1\<rparr>)"
  have ok: "page_ok (e_page e)"
    by (rule cached_ok [OF inv1 s1(3)])
  have "unseen s1 ?s'"
    using page_ok_length [OF ok] by (intro update_entry_unseen [OF inv1 s1(3)]) (auto simp: cache_insert_def)
  moreover have "with_page pid f s = (f (e_page e), ?s')"
    using s1 by (simp add: with_page_def bind_op_def tick_def)
  ultimately show ?thesis
    using that unseen_trans [OF s1(2)] s1(4) ok by blast
qed

lemma with_page_absent:
  assumes "pager_inv s" and "view s pid = None" and "pid \<noteq> META_PAGE"
  obtains s' err where "with_page pid f s = (Inl err, s')" and "unseen s s'"
proof -
  obtain s1 err where "ensure_cached pid s = (Inl err, s1)" and "unseen s s1"
    using ensure_cached_absent [OF assms] by metis
  then show ?thesis
    using that [of err s1] by (simp add: with_page_def bind_op_def)
qed

text \<open>The effect of a write as the clients see it.\<close>

definition wrote :: "page_id \<Rightarrow> bytes \<Rightarrow> pager \<Rightarrow> pager \<Rightarrow> bool" where
  "wrote pid c s s' \<longleftrightarrow> pager_inv s' \<and> view s' = (view s)(pid \<mapsto> c) \<and> p_meta s' = p_meta s \<and>
     p_capacity s' = p_capacity s"

lemma insert_entry_wrote:
  assumes inv: "pager_inv s" and ok: "page_ok (e_page e)" and d: "dirty_vs_file e"
    and pid: "pid \<noteq> META_PAGE"
    and s': "p_cache s' = AList.update pid e (p_cache s)" "f_data (p_file s') = f_data (p_file s)"
      "p_meta s' = p_meta s" "p_capacity s' = p_capacity s"
  shows "wrote pid (content (e_page e)) s s'"
proof -
  have "pager_inv s'"
    using inv ok d pid by (auto simp: pager_inv_def entry_ok_def s' update_conv' distinct_update)
  moreover have "view s' = (view s)(pid \<mapsto> content (e_page e))"
    using pid by (auto simp: fun_eq_iff view_def page_at_def s' update_conv' split: option.splits)
  ultimately show ?thesis
    by (simp add: wrote_def s')
qed

lemma with_page_mut_present:
  assumes "pager_inv s" and "view s pid = Some c"
  obtains s' p where "content p = c" and "page_ok p"
    and "\<And>err. f p = Inl err \<Longrightarrow> with_page_mut pid f s = (Inl err, s') \<and> wrote pid c s s'"
    and "\<And>r q. f p = Inr (r, q) \<Longrightarrow> page_ok q \<Longrightarrow>
      with_page_mut pid f s = (Inr r, s') \<and> wrote pid (content q) s s'"
proof -
  obtain s1 e where s1: "ensure_cached pid s = (Inr (), s1)" "unseen s s1"
    "map_of (p_cache s1) pid = Some e" "content (e_page e) = c"
    using ensure_cached_present [OF assms] by metis
  have inv1: "pager_inv s1"
    using s1(2) by (simp add: unseen_def)
  have ok: "page_ok (e_page e)"
    by (rule cached_ok [OF inv1 s1(3)])
  let ?e = "e\<lparr>e_used := p_clock s1 + 1, dirty_vs_file := True, dirty_vs_journal := True\<rparr>"
  let ?t = "s1\<lparr>p_clock := p_clock s1 + 1\<rparr>"
  let ?q = "case f (e_page e) of Inl _ \<Rightarrow> e_page e | Inr (r, q) \<Rightarrow> q"
  let ?s' = "cache_insert pid (?e\<lparr>e_page := ?q\<rparr>) ?t"
  have w: "wrote pid (content ?q) s ?s'" if "page_ok ?q"
  proof -
    have "wrote pid (content (e_page (?e\<lparr>e_page := ?q\<rparr>))) s1 ?s'"
      using that view_not_meta [OF assms(2)]
      by (intro insert_entry_wrote [OF inv1]) (auto simp: cache_insert_def)
    then show ?thesis
      using s1(2) by (simp add: wrote_def unseen_def)
  qed
  show ?thesis
  proof (rule that [of "e_page e" ?s'])
    show "content (e_page e) = c" "page_ok (e_page e)"
      using s1(4) ok by auto
    show "with_page_mut pid f s = (Inl err, ?s') \<and> wrote pid c s ?s'" if "f (e_page e) = Inl err" for err
      using s1 that w ok by (auto simp: with_page_mut_def bind_op_def tick_def)
    show "with_page_mut pid f s = (Inr r, ?s') \<and> wrote pid (content q) s ?s'"
      if "f (e_page e) = Inr (r, q)" "page_ok q" for r q
      using s1 that w by (auto simp: with_page_mut_def bind_op_def tick_def)
  qed
qed

section \<open>Checkpoints are unseen\<close>

lemma checkpoint_one_unseen:
  assumes inv: "pager_inv s" and e: "map_of (p_cache s) pid = Some e"
  obtains s' where "checkpoint_one pid s = (Inr (), s')" and "unseen s s'"
    and "map fst (p_cache s') = map fst (p_cache s)"
proof -
  let ?e = "e\<lparr>dirty_vs_file := False, dirty_vs_journal := False\<rparr>"
  let ?s' = "cache_insert pid ?e (write_page_to_file pid (e_page e) s)"
  let ?data = "write_at (page_offset pid) (to_bytes (e_page e)) (f_data (p_file s))"
  have ok: "page_ok (e_page e)" and pid: "pid \<noteq> META_PAGE" and dvd: "PAGE_SIZE dvd length (f_data (p_file s))"
    using inv e by (auto simp: pager_inv_def entry_ok_def)
  note len = page_ok_length [OF ok]
  have c: "p_cache ?s' = AList.update pid ?e (p_cache s)" "f_data (p_file ?s') = ?data"
    "p_meta ?s' = p_meta s" "p_capacity ?s' = p_capacity s"
    by (simp_all add: cache_insert_def write_page_to_file_def write_all_def seek_start_def)
  have same: "map_option content (file_page ?data pid) = Some (content (e_page e))"
    using file_page_write_same [OF ok] content_to_bytes(1) [OF len] by simp
  have other: "file_page ?data q = file_page (f_data (p_file s)) q" if "q \<noteq> pid" for q
    using file_page_write_other [OF that [symmetric] content_to_bytes(2) [OF len] dvd] .
  have "pager_inv ?s'"
    using inv ok pid same other file_length_write [OF dvd content_to_bytes(2) [OF len], of pid]
    unfolding pager_inv_def c by (auto simp: entry_ok_def update_conv' distinct_update)
  moreover have "view ?s' = view s"
    using e other unfolding view_def page_at_def c
    by (auto simp: fun_eq_iff update_conv' split: option.splits)
  moreover have "checkpoint_one pid s = (Inr (), ?s')"
    using e by (simp add: checkpoint_one_def)
  ultimately show ?thesis
    using that [of ?s'] c e by (simp add: unseen_def keys_update_present)
qed

lemma checkpoint_all_unseen:
  assumes "pager_inv s" and "set ids \<subseteq> fst ` set (p_cache s)"
  shows "\<exists>s'. for_each ids checkpoint_one s = (Inr (), s') \<and> unseen s s'"
  using assms
proof (induction ids arbitrary: s)
  case Nil
  then show ?case by (simp add: unseen_refl)
next
  case (Cons pid ids)
  then obtain e where e: "map_of (p_cache s) pid = Some e"
    by (metis insert_subset list.simps(15) map_of_eq_None_iff not_Some_eq)
  obtain s1 where s1: "checkpoint_one pid s = (Inr (), s1)" "unseen s s1"
    "map fst (p_cache s1) = map fst (p_cache s)"
    by (rule checkpoint_one_unseen [OF Cons.prems(1) e])
  have "set ids \<subseteq> fst ` set (p_cache s1)"
    using Cons.prems(2) s1(3) by (metis insert_subset list.set_map list.simps(15))
  then obtain s2 where "for_each ids checkpoint_one s1 = (Inr (), s2)" "unseen s1 s2"
    using Cons.IH [of s1] s1(2) by (auto simp: unseen_def)
  then show ?case
    using s1 unseen_trans by (auto simp: bind_op_def)
qed

lemma checkpoint_unseen:
  assumes "pager_inv s"
  obtains s' where "checkpoint s = (Inr (), s')" and "unseen s s'"
proof -
  let ?ids = "map fst (filter (\<lambda>(_, e). dirty_vs_file e) (p_cache s))"
  have "set ?ids \<subseteq> fst ` set (p_cache s)"
    by auto
  then obtain s1 where s1: "for_each ?ids checkpoint_one s = (Inr (), s1)" "unseen s s1"
    using checkpoint_all_unseen [OF assms] by blast
  then have inv1: "pager_inv s1"
    by (simp add: unseen_def)
  let ?p = "overwrite HEADER_SIZE (meta_fields (p_meta s1)) (page_new PK_Meta)"
  let ?s2 = "write_page_to_file META_PAGE ?p s1"
  let ?s' = "?s2\<lparr>meta_dirty_vs_journal := False, p_file := sync_data (p_file ?s2),
    p_journal := journal_truncate (journal_sync (log_checkpoint (p_journal ?s2)))\<rparr>"
  have eq: "checkpoint s = (Inr (), ?s')"
    using s1(1) encoded_meta_page_ok [OF inv1]
    by (simp add: checkpoint_def bind_op_def Let_def)
  have dvd: "PAGE_SIZE dvd length (f_data (p_file s1))"
    using inv1 by (simp add: pager_inv_def)
  have "length ?p = PAGE_SIZE"
    using inv1 by (simp add: pager_inv_def length_meta_fields page_new_fields layout CLOG_DIRECTORY_CAPACITY_def)
  note len = content_to_bytes(2) [OF this]
  let ?data = "write_at (page_offset META_PAGE) (to_bytes ?p) (f_data (p_file s1))"
  have d: "f_data (p_file ?s') = ?data" "p_cache ?s' = p_cache s1" "p_meta ?s' = p_meta s1"
    "p_capacity ?s' = p_capacity s1"
    by (simp_all add: write_page_to_file_def write_all_def seek_start_def sync_data_def)
  have other: "file_page ?data q = file_page (f_data (p_file s1)) q" if "q \<noteq> META_PAGE" for q
    using file_page_write_other [OF that [symmetric] len dvd] .
  have "entry_ok ?data q e" if "map_of (p_cache s1) q = Some e" for q e
  proof -
    have "q \<noteq> META_PAGE" "entry_ok (f_data (p_file s1)) q e"
      using inv1 that by (auto simp: pager_inv_def)
    then show ?thesis
      using other [of q] by (simp add: entry_ok_def)
  qed
  then have "pager_inv ?s'"
    using inv1 file_length_write [OF dvd len, of META_PAGE] unfolding pager_inv_def d by simp
  moreover have "view ?s' = view s1"
    using other unfolding view_def page_at_def d by (auto simp: fun_eq_iff split: option.splits)
  ultimately have "unseen s1 ?s'"
    by (simp add: unseen_def d)
  then show ?thesis
    using that eq unseen_trans [OF s1(2)] by blast
qed

lemma commit_to_journal_unseen:
  assumes "pager_inv s"
  obtains s' where "commit_to_journal txn s = (Inr (), s')" and "unseen s s'"
proof -
  obtain s1 where s1: "journal_dirty_pages s = (Inr (), s1)" "unseen s s1"
    using journal_dirty_pages_unseen [OF assms] by metis
  let ?s' = "s1\<lparr>p_journal := journal_sync (log_commit txn (p_journal s1))\<rparr>"
  have "unseen s1 ?s'"
    by (rule unseen_frame) (use s1(2) in \<open>simp_all add: unseen_def\<close>)
  then show ?thesis
    using that [of ?s'] s1 unseen_trans by (simp add: commit_to_journal_def bind_op_def)
qed

lemma abort_to_journal_unseen:
  assumes "pager_inv s"
  obtains s' where "abort_to_journal txn s = (Inr (), s')" and "unseen s s'"
proof -
  have "unseen s (s\<lparr>p_journal := log_abort txn (p_journal s)\<rparr>)"
    by (rule unseen_frame [OF assms]) simp_all
  then show ?thesis
    using that by (simp add: abort_to_journal_def)
qed

end
