(* ===== verification/Page_Store.thy ===== *)
theory Page_Store
  imports Pager_View
begin

text \<open>
  The pager as a store of pages: the list of free pages, and the laws of reading, writing, \<open>alloc_page\<close> and
  \<open>free_page\<close> that the commit log and the B-tree rely on.
\<close>

section \<open>Reading a page from its content\<close>

definition page_of :: "bytes \<Rightarrow> page" where
  "page_of c = replicate 12 0 @ c"

lemma length_content: "length p = PAGE_SIZE \<Longrightarrow> length (content p) = PAGE_SIZE - 12"
  by (simp add: content_def)

lemma length_page_of: "length c = PAGE_SIZE - 12 \<Longrightarrow> length (page_of c) = PAGE_SIZE"
  by (simp add: page_of_def PAGE_SIZE_def)

lemma content_page_of [simp]: "content (page_of c) = c"
  by (simp add: content_def page_of_def)

lemma page_of_content:
  assumes "length p = PAGE_SIZE"
  shows "kind (page_of (content p)) = kind p" and "extra (page_of (content p)) = extra p"
    and "body (page_of (content p)) = body p" and "page_inv (page_of (content p)) = page_inv p"
    and "page_ok (page_of (content p)) = page_ok p"
    and "free_space (page_of (content p)) = free_space p"
    and "layout_ok p \<Longrightarrow> page_items (page_of (content p)) = page_items p"
    and "slot_count (page_of (content p)) = slot_count p"
  using content_determines [of "page_of (content p)" p] assms
  by (simp_all add: length_page_of length_content)

lemma with_page_mut_ok:
  assumes "pager_inv s" and "view s pid = Some c"
    and f: "\<And>p. content p = c \<Longrightarrow> page_ok p \<Longrightarrow> f p = Inr (r p, g p) \<and> page_ok (g p)"
  obtains p s' where "content p = c" and "page_ok p" and "with_page_mut pid f s = (Inr (r p), s')"
    and "wrote pid (content (g p)) s s'"
proof (rule with_page_mut_present [OF assms(1,2), of f])
  fix s' p
  assume p: "content p = c" "page_ok p"
    and upd: "\<And>x q. f p = Inr (x, q) \<Longrightarrow> page_ok q \<Longrightarrow>
      with_page_mut pid f s = (Inr x, s') \<and> wrote pid (content q) s s'"
  show thesis
    using that [OF p] upd f [OF p] by blast
qed

section \<open>The free list\<close>

fun free_list :: "(page_id \<Rightarrow> bytes option) \<Rightarrow> page_id \<Rightarrow> page_id list \<Rightarrow> bool" where
  "free_list v h [] \<longleftrightarrow> h = NO_PAGE"
| "free_list v h (x # xs) \<longleftrightarrow>
     h = x \<and> x \<noteq> NO_PAGE \<and> (\<exists>c. v x = Some c \<and> free_list v (extra (page_of c)) xs)"

lemma free_list_update:
  "pid \<notin> set xs \<Longrightarrow> free_list (v(pid \<mapsto> c)) h xs = free_list v h xs"
  by (induction xs arbitrary: h) auto

text \<open>
  \<open>owns s U\<close>: the pages \<open>U\<close> are in use, disjoint from the free list, and every page of either
  kind has been allocated from the file.
\<close>

definition owns :: "pager \<Rightarrow> page_id set \<Rightarrow> bool" where
  "owns s U \<longleftrightarrow> pager_inv s \<and> NO_PAGE \<notin> U \<and> NO_PAGE < page_count (p_meta s) \<and>
     U \<subseteq> dom (view s) \<and> (\<forall>pid\<in>U. pid < page_count (p_meta s)) \<and>
     (\<exists>xs. free_list (view s) (free_list_head (p_meta s)) xs \<and> distinct xs \<and> set xs \<inter> U = {} \<and>
        (\<forall>pid\<in>set xs. pid < page_count (p_meta s)))"

lemma owns_inv: "owns s U \<Longrightarrow> pager_inv s"
  by (simp add: owns_def)

lemma inv_clog: "pager_inv s \<Longrightarrow> length (clog_pages (p_meta s)) \<le> CLOG_DIRECTORY_CAPACITY"
  by (simp add: pager_inv_def)

lemma owns_add:
  assumes o: "owns s U" and "pager_inv s'" and "view s' = (view s)(pid \<mapsto> c)" and "pid \<noteq> NO_PAGE"
    and cnt: "page_count (p_meta s) \<le> page_count (p_meta s')" and "pid < page_count (p_meta s')"
    and "free_list (view s') (free_list_head (p_meta s')) xs" and "distinct xs"
    and "set xs \<inter> insert pid U = {}" and below: "\<And>x. x \<in> set xs \<Longrightarrow> x < page_count (p_meta s)"
  shows "owns s' (insert pid U)"
proof -
  have mono: "x < page_count (p_meta s) \<Longrightarrow> x < page_count (p_meta s')" for x
    using less_le_trans [OF _ cnt] .
  have "\<forall>x\<in>insert pid U. x < page_count (p_meta s')" "U \<subseteq> dom (view s)" "NO_PAGE \<notin> U"
    "NO_PAGE < page_count (p_meta s')"
    using o mono assms(6) by (auto simp: owns_def)
  moreover have "\<forall>x\<in>set xs. x < page_count (p_meta s')"
    using below mono by blast
  ultimately show ?thesis
    unfolding owns_def using assms by (intro conjI exI [of _ xs]) auto
qed

lemma owns_view: "owns s U \<Longrightarrow> pid \<in> U \<Longrightarrow> \<exists>c. view s pid = Some c"
  by (auto simp: owns_def)

lemma owns_unseen: "owns s U \<Longrightarrow> unseen s s' \<Longrightarrow> owns s' U"
  by (simp add: owns_def unseen_def)

lemma owns_wrote:
  assumes o: "owns s U" and w: "wrote pid c s s'" and pid: "pid \<in> U"
  shows "owns s' U"
proof -
  obtain xs where xs: "free_list (view s) (free_list_head (p_meta s)) xs" "distinct xs"
    "set xs \<inter> U = {}" "\<forall>pid\<in>set xs. pid < page_count (p_meta s)"
    using o by (auto simp: owns_def)
  then have "pid \<notin> set xs"
    using pid by auto
  then have "free_list (view s') (free_list_head (p_meta s')) xs"
    using xs(1) w by (simp add: wrote_def free_list_update)
  then have "\<exists>xs. free_list (view s') (free_list_head (p_meta s')) xs \<and> distinct xs \<and>
      set xs \<inter> U = {} \<and> (\<forall>pid\<in>set xs. pid < page_count (p_meta s'))"
    using xs w by (auto simp: wrote_def)
  moreover have "p_meta s' = p_meta s" "pager_inv s'"
    using w by (simp_all add: wrote_def)
  moreover have "U \<subseteq> dom (view s')"
    using o w by (auto simp: owns_def wrote_def)
  ultimately show ?thesis
    using o by (simp add: owns_def)
qed

section \<open>Allocation\<close>

text \<open>The new page is not one in use, and it reads as a fresh page.\<close>

definition allocated :: "page_kind \<Rightarrow> page_id \<Rightarrow> pager \<Rightarrow> pager \<Rightarrow> bool" where
  "allocated k pid s s' \<longleftrightarrow> pid \<noteq> NO_PAGE \<and> view s' = (view s)(pid \<mapsto> content (page_new k)) \<and>
     clog_pages (p_meta s') = clog_pages (p_meta s) \<and> next_txn_id (p_meta s') = next_txn_id (p_meta s) \<and>
     catalog_root (p_meta s') = catalog_root (p_meta s) \<and>
     page_count (p_meta s') \<in> {page_count (p_meta s), page_count (p_meta s) + 1}"

lemma meta_mut_view [simp]: "view (meta_mut f s) = view s"
  by (simp add: meta_mut_def view_def page_at_def fun_eq_iff split: option.split)

lemma meta_mut_meta [simp]: "p_meta (meta_mut f s) = f (p_meta s)"
  by (simp add: meta_mut_def)

lemma meta_mut_inv:
  "pager_inv s \<Longrightarrow> length (clog_pages (f (p_meta s))) \<le> CLOG_DIRECTORY_CAPACITY \<Longrightarrow>
   pager_inv (meta_mut f s)"
  by (simp add: pager_inv_def meta_mut_def)

lemma page_new_ok: "page_ok (page_new k)"
  using page_new_inv [of k] by (simp add: page_inv_def page_ok_def)

lemma insert_fresh_wrote:
  assumes "pager_inv s" and "pid \<noteq> NO_PAGE"
  obtains s' where "insert_fresh k pid s = (Inr pid, s')"
    and "wrote pid (content (page_new k)) s s'"
proof -
  obtain s1 where s1: "evict_if_needed s = (Inr (), s1)" "unseen s s1"
    using evict_if_needed_unseen [OF assms(1)] by blast
  let ?e = "\<lparr>e_page = page_new k, dirty_vs_file = True, dirty_vs_journal = True,
     e_used = p_clock s1 + 1\<rparr>"
  let ?s' = "cache_insert pid ?e (s1\<lparr>p_clock := p_clock s1 + 1\<rparr>)"
  have "wrote pid (content (e_page ?e)) s1 ?s'"
    by (rule insert_entry_wrote) 
      (use s1(2) assms(2) in \<open>auto simp: unseen_def cache_insert_def page_new_ok META_PAGE_def NO_PAGE_def\<close>)
  then have "wrote pid (content (page_new k)) s ?s'"
    using s1(2) by (simp add: wrote_def unseen_def)
  then show ?thesis
    using that [of ?s'] s1(1) by (simp add: insert_fresh_def bind_op_def tick_def)
qed

lemma word_less_Suc: "(w :: u32) \<noteq> -1 \<Longrightarrow> w < w + 1"
proof -
  assume "w \<noteq> -1"
  then have "1 + w \<noteq> 0"
    by (metis add.commute add_eq_0_iff2)
  then show ?thesis
    using unatSuc [of w] by (simp add: word_less_nat_alt add.commute)
qed

lemma alloc_page_fresh:
  assumes o: "owns s U" and h: "free_list_head (p_meta s) = NO_PAGE"
    and room: "page_count (p_meta s) \<noteq> -1"
  shows "\<exists>pid s'. alloc_page k s = (Inr pid, s') \<and> allocated k pid s s' \<and> pid \<notin> U \<and>
    owns s' (insert pid U)"
proof -
  let ?pid = "page_count (p_meta s)"
  let ?s1 = "meta_mut (\<lambda>m. m\<lparr>page_count := page_count m + 1\<rparr>) s"
  have pid: "?pid \<noteq> NO_PAGE"
    using o by (auto simp: owns_def NO_PAGE_def)
  have lt: "?pid < ?pid + 1"
    by (rule word_less_Suc [OF room])
  have inv1: "pager_inv ?s1"
    using owns_inv [OF o] inv_clog [OF owns_inv [OF o]] by (intro meta_mut_inv) simp_all
  obtain s' where s': "insert_fresh k ?pid ?s1 = (Inr ?pid, s')"
    and w: "wrote ?pid (content (page_new k)) ?s1 s'"
    by (rule insert_fresh_wrote [OF inv1 pid])
  have "alloc_page k s = (Inr ?pid, s')"
    using s' h by (simp add: alloc_page_def take_page_id_def bind_op_def)
  moreover have "allocated k ?pid s s'"
    using w pid by (simp add: allocated_def wrote_def)
  moreover have "?pid \<notin> U"
    using o by (auto simp: owns_def)
  moreover have "free_list (view s') (free_list_head (p_meta s')) []"
    using w h by (simp add: wrote_def)
  then have "owns s' (insert ?pid U)"
    using w lt pid 
    by (intro owns_add [OF o, where xs = "[]" and c = "content (page_new k)"])
      (simp_all add: wrote_def less_imp_le)
  ultimately show ?thesis
    by blast
qed

lemma alloc_page_recycled:
  assumes o: "owns s U" and h: "free_list_head (p_meta s) \<noteq> NO_PAGE"
  shows "\<exists>pid s'. alloc_page k s = (Inr pid, s') \<and> allocated k pid s s' \<and> pid \<notin> U \<and>
    owns s' (insert pid U)"
proof -
  let ?pid = "free_list_head (p_meta s)"
  obtain xs where xs: "free_list (view s) ?pid (?pid # xs)" "distinct (?pid # xs)"
    "set (?pid # xs) \<inter> U = {}" "\<forall>pid\<in>set (?pid # xs). pid < page_count (p_meta s)"
    using o h unfolding owns_def by (metis free_list.elims(2))
  then obtain c where c: "view s ?pid = Some c" "free_list (view s) (extra (page_of c)) xs"
    by auto
  obtain s1 p where s1: "with_page ?pid (\<lambda>p. Inr (extra p)) s = (Inr (extra p), s1)" "unseen s s1"
    "content p = c" "page_ok p"
    by (rule with_page_present [OF owns_inv [OF o] c(1), of "\<lambda>p. Inr (extra p)"])
  let ?s2 = "meta_mut (\<lambda>m. m\<lparr>free_list_head := extra p\<rparr>) s1"
  have ep: "extra p = extra (page_of c)"
    using page_of_content(2) [OF page_ok_length [OF s1(4)]] s1(3) by simp
  have inv2: "pager_inv ?s2"
    using s1(2) inv_clog [OF owns_inv [OF o]] by (intro meta_mut_inv) (simp_all add: unseen_def)
  obtain s' where s': "insert_fresh k ?pid ?s2 = (Inr ?pid, s')"
    and w: "wrote ?pid (content (page_new k)) ?s2 s'"
    by (rule insert_fresh_wrote [OF inv2 h])
  have "alloc_page k s = (Inr ?pid, s')"
    using s' h s1(1) by (simp add: alloc_page_def take_page_id_def bind_op_def)
  moreover have "allocated k ?pid s s'"
    using w h s1(2) by (simp add: allocated_def wrote_def unseen_def)
  moreover have "?pid \<notin> U"
    using xs(3) by auto
  moreover have "free_list (view s') (free_list_head (p_meta s')) xs"
    using w s1(2) c(2) ep xs(2) by (simp add: wrote_def unseen_def free_list_update)
  then have "owns s' (insert ?pid U)"
    using w s1(2) h xs 
    by (intro owns_add [OF o, where xs = xs and c = "content (page_new k)"])
      (simp_all add: wrote_def unseen_def)
  ultimately show ?thesis
    by blast
qed

lemmas alloc_page_spec = alloc_page_fresh alloc_page_recycled

lemma alloc_page_owns:
  assumes "owns s U" and "page_count (p_meta s) \<noteq> -1"
  obtains pid s' where "alloc_page k s = (Inr pid, s')" and "allocated k pid s s'"
    and "pid \<notin> U" and "owns s' (insert pid U)"
  using alloc_page_spec [OF assms(1)] assms(2) by blast

section \<open>Release\<close>

lemma set_extra_frame:
  assumes "length p = PAGE_SIZE"
  shows "agree_on (- {20..<24}) p (set_extra v p)" and "extra (set_extra v p) = v"
    and "length (set_extra v p) = PAGE_SIZE"
proof -
  show "agree_on (- {20..<24}) p (set_extra v p)"
    unfolding set_extra_def using agree_on_overwrite [of 20 "to_le_bytes v" p] assms
    by (simp add: PAGE_SIZE_def)
  show "extra (set_extra v p) = v"
    using assms take_drop_overwrite_same [of 20 "to_le_bytes v" p]
    by (simp add: extra_def set_extra_def PAGE_SIZE_def)
  show "length (set_extra v p) = PAGE_SIZE"
    using assms agree_on_length [OF \<open>agree_on _ p (set_extra v p)\<close>] by simp
qed

lemma set_extra_ok:
  assumes "page_ok p"
  shows "page_ok (set_extra v p)"
proof -
  have len: "length p = PAGE_SIZE"
    by (rule page_ok_length [OF assms])
  note a = set_extra_frame(1) [OF len, of v]
  have u16: "get_u16 n (set_extra v p) = get_u16 n p" if "n + 2 \<le> 20 \<or> 24 \<le> n" for n
    by (rule get_u16_agree [OF a]) (use that in auto)
  have fields: "set_extra v p ! 12 = p ! 12" "slot_count (set_extra v p) = slot_count p"
    "free_end (set_extra v p) = free_end p"
    using len agree_on_nth [OF a, of 12] by (simp_all add: slot_count_def free_end_def PAGE_SIZE_def u16)
  have "slot_off (set_extra v p) i = slot_off p i" "slot_len (set_extra v p) i = slot_len p i" for i
    by (simp_all add: slot_off_def slot_len_def slot_base_def layout u16)
  then show ?thesis
    using assms fields set_extra_frame(3) [OF len]
    by (simp add: page_ok_def layout_ok_def kind_ok_def)
qed

lemma free_page_owns:
  assumes o: "owns s U" and pid: "pid \<in> U"
  obtains s' where "free_page pid s = (Inr (), s')" and "owns s' (U - {pid})"
    and "\<And>x. x \<noteq> pid \<Longrightarrow> view s' x = view s x"
    and "p_meta s' = (p_meta s)\<lparr>free_list_head := pid\<rparr>"
proof -
  let ?h = "free_list_head (p_meta s)"
  let ?q = "set_extra ?h (page_new PK_Free)"
  have ok: "page_ok ?q"
    by (rule set_extra_ok [OF page_new_ok])
  obtain c where c: "view s pid = Some c"
    using owns_view [OF o pid] by blast
  obtain s1 where s1: "write_page pid ?q s = (Inr (), s1)" "wrote pid (content ?q) s s1"
    unfolding write_page_def
    by (rule with_page_mut_present [OF owns_inv [OF o] c, of "\<lambda>_. Inr ((), ?q)"]) (use ok in blast)
  let ?s' = "meta_mut (\<lambda>m. m\<lparr>free_list_head := pid\<rparr>) s1"
  have eq: "free_page pid s = (Inr (), ?s')"
    using s1(1) by (simp add: free_page_def bind_op_def Let_def)
  obtain xs where xs: "free_list (view s) ?h xs" "distinct xs" "set xs \<inter> U = {}"
    "\<forall>x\<in>set xs. x < page_count (p_meta s)"
    using o by (auto simp: owns_def)
  have "pid \<notin> set xs"
    using xs(3) pid by auto
  have "extra (page_of (content ?q)) = ?h"
    using page_of_content(2) [of ?q] set_extra_frame [OF page_new_fields(1)] by simp
  then have fl: "free_list (view ?s') (free_list_head (p_meta ?s')) (pid # xs)"
    using s1(2) xs(1) o pid \<open>pid \<notin> set xs\<close> by (auto simp: wrote_def free_list_update owns_def)
  have inv: "pager_inv ?s'"
    using s1(2) inv_clog [OF owns_inv [OF o]] by (intro meta_mut_inv) (simp_all add: wrote_def)
  have "U - {pid} \<subseteq> dom (view ?s')" "\<forall>x\<in>U. x < page_count (p_meta s)" "NO_PAGE \<notin> U"
    "NO_PAGE < page_count (p_meta s)"
    using o s1(2) by (auto simp: owns_def wrote_def)
  then have "owns ?s' (U - {pid})"
    unfolding owns_def using fl inv xs pid \<open>pid \<notin> set xs\<close> s1(2)
    by (intro conjI exI [of _ "pid # xs"]) (auto simp: wrote_def)
  then show ?thesis
    using that eq s1(2) by (simp add: wrote_def)
qed

section \<open>Page access leaves the meta page alone\<close>

lemma keeps_meta_journal: "keeps p_meta journal_dirty_pages"
proof -
  have "keeps p_meta flush_meta_to_journal" "keeps p_meta (journal_one pid)" for pid
    by (auto simp: keeps_def flush_meta_to_journal_def journal_one_def next_lsn_def Let_def
        split: sum.splits option.splits)
  then show ?thesis
    unfolding journal_dirty_pages_def
    by (intro keeps_bind keeps_read [where g = "\<lambda>s. map fst (filter (\<lambda>(_, e). dirty_vs_journal e) (p_cache s))"
        and k = "\<lambda>ids. for_each ids journal_one"] keeps_for_each)
qed

lemma keeps_meta_evict_one: "keeps p_meta (evict_one victim)"
  unfolding evict_one_def
proof (rule keeps_bind)
  show "keeps p_meta (\<lambda>s. if (case map_of (p_cache s) victim of None \<Rightarrow> False
      | Some e \<Rightarrow> dirty_vs_journal e) then journal_dirty_pages s else (Inr (), s))"
    using keeps_meta_journal by (simp add: keeps_def)
qed (auto simp: keeps_def write_page_to_file_def Let_def split: option.splits)

lemma keeps_meta_evict: "keeps p_meta evict_if_needed"
proof -
  have "p_meta (snd (evict_if_needed s)) = p_meta s" for s
  proof (induction s rule: evict_if_needed.induct)
    case (1 s)
    show ?case
    proof (cases "length (p_cache s) < p_capacity s \<or> min_by_used (p_cache s) = None")
      case True
      then show ?thesis
        by (auto simp: evict_if_needed.simps [of s])
    next
      case False
      then obtain victim e where m: "min_by_used (p_cache s) = Some (victim, e)"
        and c: "\<not> length (p_cache s) < p_capacity s"
        by auto
      obtain r t where t: "evict_one victim s = (r, t)"
        by fastforce
      then show ?thesis
        using 1 [OF c m refl t [symmetric]] keepsD [OF keeps_meta_evict_one t] c m
        by (cases r) (auto simp: evict_if_needed.simps [of s])
    qed
  qed
  then show ?thesis
    by (simp add: keeps_def)
qed

lemma keeps_meta_ensure: "keeps p_meta (ensure_cached pid)"
proof -
  have "keeps p_meta (load_from_file pid)"
    by (auto simp: keeps_def load_from_file_def split: prod.splits option.splits)
  moreover have "keeps p_meta (\<lambda>s. let (used, s2) = tick s in (Inr (), cache_insert pid (e used) s2))" for e
    by (simp add: keeps_def tick_def cache_insert_def)
  ultimately have "keeps p_meta (bind_op evict_if_needed (\<lambda>_. bind_op (load_from_file pid) (\<lambda>p s1.
      let (used, s2) = tick s1 in (Inr (), cache_insert pid (e p used) s2))))" for e
    by (intro keeps_bind keeps_meta_evict)
  then show ?thesis
    by (simp add: keeps_def ensure_cached_def split: option.split)
qed

lemma keeps_meta_with_page: "keeps p_meta (with_page pid f)"
  unfolding with_page_def
  by (intro keeps_bind keeps_meta_ensure)
    (auto simp: keeps_def tick_def cache_insert_def split: option.splits)

lemma keeps_meta_with_page_mut: "keeps p_meta (with_page_mut pid f)"
  unfolding with_page_mut_def
  by (intro keeps_bind keeps_meta_ensure)
    (auto simp: keeps_def tick_def cache_insert_def Let_def split: option.splits sum.splits)

lemma keeps_clog_alloc: "keeps (\<lambda>s. clog_pages (p_meta s)) (alloc_page k)"
proof -
  have "clog_pages (p_meta (snd (take_page_id s))) = clog_pages (p_meta s)" for s
    using keepsD [OF keeps_meta_with_page, of "free_list_head (p_meta s)" "\<lambda>p. Inr (extra p)" s]
    by (auto simp: take_page_id_def bind_op_def Let_def split: prod.split sum.split)
  then have "keeps (\<lambda>s. clog_pages (p_meta s)) take_page_id"
    by (simp add: keeps_def)
  moreover have "keeps (\<lambda>s. clog_pages (p_meta s)) evict_if_needed"
    using keeps_meta_evict by (simp add: keeps_def)
  ultimately show ?thesis
    unfolding alloc_page_def insert_fresh_def
    by (intro keeps_bind) (auto simp: keeps_def tick_def cache_insert_def)
qed

end
