(* ===== verification/Clog.thy ===== *)
theory Clog
  imports Page_Store
begin

text \<open>
  Commit status (clog.rs): one bit per transaction, in pages listed by the meta page's directory.
  The component refines a set of committed transactions.
\<close>

unbundle bit_operations_syntax

section \<open>Operations\<close>

definition TXNS_PER_CLOG_PAGE :: nat where
  [layout]: "TXNS_PER_CLOG_PAGE = (PAGE_SIZE - HEADER_SIZE) * 8"

definition locate :: "u64 \<Rightarrow> nat \<times> nat \<times> u8" where
  "locate txn =
     (let segment = unat (txn div word_of_nat TXNS_PER_CLOG_PAGE);
          bit = unat (txn mod word_of_nat TXNS_PER_CLOG_PAGE)
      in (segment, bit div 8, push_bit (bit mod 8) 1))"

definition get_index :: "'a list \<Rightarrow> nat \<Rightarrow> 'a option" where
  "get_index xs i = (if i < length xs then Some (xs ! i) else None)"

definition is_committed :: "u64 \<Rightarrow> bool pager_op" where
  "is_committed txn s =
     (let (segment, byte, mask) = locate txn
      in case get_index (clog_pages (p_meta s)) segment of
           None \<Rightarrow> (Inr False, s)
         | Some page_id \<Rightarrow>
             with_page page_id (\<lambda>p. bind_res (checked (get_index (body p) byte))
               (\<lambda>b. Inr (b AND mask \<noteq> 0))) s)"

text \<open>The loop that grows the directory; it ends since \<open>alloc_page\<close> leaves the directory alone.\<close>

function grow_directory :: "nat \<Rightarrow> unit pager_op" where
  "grow_directory segment s =
     (if length (clog_pages (p_meta s)) \<le> segment then
        (case alloc_page PK_Clog s of
           (Inl e, s1) \<Rightarrow> (Inl e, s1)
         | (Inr page_id, s1) \<Rightarrow>
             grow_directory segment (meta_mut (\<lambda>m. m\<lparr>clog_pages := clog_pages m @ [page_id]\<rparr>) s1))
      else (Inr (), s))"
  by pat_completeness auto
termination
proof (relation "measure (\<lambda>(segment, s). Suc segment - length (clog_pages (p_meta s)))", goal_cases)
  case (2 segment s r s1 page_id)
  then show ?case
    using keepsD [OF keeps_clog_alloc, of PK_Clog s r s1] by auto
qed simp

declare grow_directory.simps [simp del]

definition mark_committed :: "u64 \<Rightarrow> unit pager_op" where
  "mark_committed txn =
     (let (segment, byte, mask) = locate txn
      in bind_op (grow_directory segment) (\<lambda>_ s.
           case get_index (clog_pages (p_meta s)) segment of
             None \<Rightarrow> (Inl Panic, s)
           | Some page_id \<Rightarrow>
               with_page_mut page_id (\<lambda>p. bind_res (checked (get_index (body p) byte)) (\<lambda>b.
                 bind_res (put_body byte [b OR mask] p) (\<lambda>q. Inr ((), q)))) s))"

section \<open>Positions of the status bits\<close>

lemma locate_eq:
  "locate txn = (unat txn div 65344, unat txn mod 65344 div 8, 2 ^ (unat txn mod 65344 mod 8))"
  by (simp add: locate_def layout unat_div unat_mod Let_def)

lemma and_exp_bit: "n < 8 \<Longrightarrow> ((b :: u8) AND 2 ^ n \<noteq> 0) = bit b n"
  by (simp add: and_exp_eq_0_iff_not_bit)

lemma bit_or_exp: "n < 8 \<Longrightarrow> bit ((b :: u8) OR 2 ^ n) m = (bit b m \<or> m = n)"
  by (auto simp: bit_or_iff bit_exp_iff)

lemma same_position:
  fixes t u :: u64
  assumes "unat t div 65344 = unat u div 65344"
    and "unat t mod 65344 div 8 = unat u mod 65344 div 8" and "unat t mod 65344 mod 8 = unat u mod 65344 mod 8"
  shows "t = u"
proof -
  have "unat t mod 65344 = unat u mod 65344"
    using assms(2,3) by (metis div_mult_mod_eq)
  then have "unat t = unat u"
    using assms(1) by (metis div_mult_mod_eq)
  then show ?thesis
    by (simp add: word_unat_eq_iff)
qed

section \<open>The set of committed transactions\<close>

text \<open>\<open>status s t\<close>: the bit of transaction \<open>t\<close> is set.\<close>

definition status :: "pager \<Rightarrow> u64 \<Rightarrow> bool" where
  "status s txn =
     (case get_index (clog_pages (p_meta s)) (unat txn div 65344) of
        None \<Rightarrow> False
      | Some page_id \<Rightarrow>
          (case view s page_id of
             None \<Rightarrow> False
           | Some c \<Rightarrow> bit (body (page_of c) ! (unat txn mod 65344 div 8)) (unat txn mod 65344 mod 8)))"

definition clog_inv :: "pager \<Rightarrow> page_id set \<Rightarrow> bool" where
  "clog_inv s U \<longleftrightarrow> owns s U \<and> set (clog_pages (p_meta s)) \<subseteq> U \<and> distinct (clog_pages (p_meta s)) \<and>
     (\<forall>pid\<in>set (clog_pages (p_meta s)). \<forall>c. view s pid = Some c \<longrightarrow> slot_count (page_of c) = 0)"

lemma body_index:
  fixes txn :: u64
  assumes "length p = PAGE_SIZE"
  shows "get_index (body p) (unat txn mod 65344 div 8) = Some (body p ! (unat txn mod 65344 div 8))"
proof -
  have "unat txn mod 65344 div 8 < 8168"
    by (rule less_mult_imp_div_less) simp
  then show ?thesis
    using assms by (simp add: get_index_def body_def layout)
qed

lemma is_committed_status:
  assumes inv: "clog_inv s U"
  obtains s' where "is_committed txn s = (Inr (status s txn), s')" and "unseen s s'"
proof (cases "get_index (clog_pages (p_meta s)) (unat txn div 65344)")
  case None
  then have "is_committed txn s = (Inr (status s txn), s)"
    by (simp add: is_committed_def locate_eq status_def)
  then show ?thesis
    using that unseen_refl inv by (auto simp: clog_inv_def owns_def)
next
  case (Some pid)
  then have "pid \<in> U"
    using inv by (auto simp: clog_inv_def get_index_def split: if_splits)
  then obtain c where c: "view s pid = Some c" and pinv: "pager_inv s"
    using inv owns_view owns_inv by (metis clog_inv_def)
  let ?f = "\<lambda>p. bind_res (checked (get_index (body p) (unat txn mod 65344 div 8)))
     (\<lambda>b. Inr (b AND 2 ^ (unat txn mod 65344 mod 8) \<noteq> 0)) :: bool res"
  obtain s' p where s': "with_page pid ?f s = (?f p, s')" "unseen s s'" "content p = c" "page_ok p"
    by (rule with_page_present [OF pinv c])
  have len: "length p = PAGE_SIZE"
    by (rule page_ok_length [OF s'(4)])
  have "?f p = Inr (bit (body p ! (unat txn mod 65344 div 8)) (unat txn mod 65344 mod 8))"
    using body_index [OF len] by (simp add: checked_def and_exp_bit)
  moreover have "body p = body (page_of c)"
    using page_of_content(3) [OF len] s'(3) by simp
  ultimately have "is_committed txn s = (Inr (status s txn), s')"
    using s'(1) Some c by (simp add: is_committed_def locate_eq status_def)
  then show ?thesis
    using that s'(2) by blast
qed

section \<open>Growing the directory\<close>

lemma body_page_new: "body (page_new k) = replicate 8168 0"
proof (rule nth_equalityI)
  have len: "length (page_new k) = 8192"
    by (simp add: page_new_fields PAGE_SIZE_def)
  then show "length (body (page_new k)) = length (replicate 8168 (0 :: u8))"
    by (simp add: body_def layout)
  fix i
  assume "i < length (body (page_new k))"
  then have i: "i < 8168"
    using len by (simp add: body_def layout)
  then have "page_new k ! (24 + i) = 0"
    by (simp add: page_new_def set_free_end_def put_u16_def set_kind_def nth_overwrite PAGE_SIZE_def
        nth_list_update)
  then show "body (page_new k) ! i = replicate 8168 0 ! i"
    using i len by (simp add: body_def layout)
qed

lemma page_of_new:
  "body (page_of (content (page_new k))) = replicate 8168 0"
  "slot_count (page_of (content (page_new k))) = 0"
  using page_of_content [of "page_new k"] by (simp_all add: page_new_fields body_page_new)

definition grown :: "pager \<Rightarrow> page_id set \<Rightarrow> pager \<Rightarrow> page_id set \<Rightarrow> bool" where
  "grown s U s' U' \<longleftrightarrow> clog_inv s' U' \<and> U \<subseteq> U' \<and> status s' = status s \<and>
     (\<forall>pid\<in>U. view s' pid = view s pid) \<and>
     set (clog_pages (p_meta s')) \<inter> U = set (clog_pages (p_meta s)) \<and>
     catalog_root (p_meta s') = catalog_root (p_meta s) \<and>
     next_txn_id (p_meta s') = next_txn_id (p_meta s)"

lemma grown_refl: "clog_inv s U \<Longrightarrow> grown s U s U"
  by (auto simp: grown_def clog_inv_def)

lemma grown_trans:
  assumes "grown s U t V" and "grown t V u X"
  shows "grown s U u X"
proof -
  have "set (clog_pages (p_meta u)) \<inter> U = set (clog_pages (p_meta s))" "U \<subseteq> X"
    using assms unfolding grown_def by blast+
  then show ?thesis
    using assms by (auto simp: grown_def)
qed

lemma grow_step:
  assumes inv: "clog_inv s U" and room: "page_count (p_meta s) \<noteq> -1"
    and cap: "length (clog_pages (p_meta s)) < CLOG_DIRECTORY_CAPACITY"
  obtains page_id s1 U' where "alloc_page PK_Clog s = (Inr page_id, s1)"
    and "grown s U (meta_mut (\<lambda>m. m\<lparr>clog_pages := clog_pages m @ [page_id]\<rparr>) s1) U'"
    and "clog_pages (p_meta s1) = clog_pages (p_meta s)"
    and "page_count (p_meta s1) \<in> {page_count (p_meta s), page_count (p_meta s) + 1}"
proof -
  have o: "owns s U"
    using inv by (simp add: clog_inv_def)
  obtain pid s1 where s1: "alloc_page PK_Clog s = (Inr pid, s1)" "allocated PK_Clog pid s s1"
    "pid \<notin> U" "owns s1 (insert pid U)"
    using alloc_page_owns [OF o room] by metis
  let ?s' = "meta_mut (\<lambda>m. m\<lparr>clog_pages := clog_pages m @ [pid]\<rparr>) s1"
  let ?dir = "clog_pages (p_meta s)"
  have v: "view ?s' = (view s)(pid \<mapsto> content (page_new PK_Clog))"
    and dir: "clog_pages (p_meta ?s') = ?dir @ [pid]" and other: "catalog_root (p_meta ?s') = catalog_root (p_meta s)"
      "next_txn_id (p_meta ?s') = next_txn_id (p_meta s)"
    using s1(2) by (simp_all add: allocated_def)
  have pinv: "pager_inv ?s'"
    using owns_inv [OF s1(4)] s1(2) cap by (intro meta_mut_inv) (simp_all add: allocated_def)
  have "owns ?s' (insert pid U)"
    using s1(4) pinv by (simp add: owns_def)
  then have inv': "clog_inv ?s' (insert pid U)"
    using inv s1(3) unfolding clog_inv_def dir v by (auto simp: page_of_new)
  have "status ?s' = status s"
  proof
    fix txn
    show "status ?s' txn = status s txn"
    proof (cases "unat txn div 65344 < length ?dir")
      case True
      then have "?dir ! (unat txn div 65344) \<in> U"
        using inv by (auto simp: clog_inv_def)
      then have "?dir ! (unat txn div 65344) \<noteq> pid"
        using s1(3) by auto
      then show ?thesis
        using True unfolding status_def dir v by (simp add: get_index_def nth_append)
    next
      case False
      have "unat txn mod 65344 div 8 < 8168"
        by (rule less_mult_imp_div_less) simp
      then show ?thesis
        using False unfolding status_def dir v
        by (cases "unat txn div 65344 = length ?dir") (simp_all add: get_index_def page_of_new)
    qed
  qed
  then have "grown s U ?s' (insert pid U)"
    using inv' inv s1(3) v other dir by (auto simp: grown_def clog_inv_def)
  then show ?thesis
    using that [OF s1(1)] s1(2) by (simp add: allocated_def)
qed

lemma grow_directory_grown:
  assumes "clog_inv s U" and "segment < CLOG_DIRECTORY_CAPACITY"
    and "unat (page_count (p_meta s)) + (Suc segment - length (clog_pages (p_meta s))) < 2 ^ 32"
  shows "\<exists>s' U'. grow_directory segment s = (Inr (), s') \<and> grown s U s' U' \<and>
    segment < length (clog_pages (p_meta s'))"
  using assms
proof (induction "Suc segment - length (clog_pages (p_meta s))" arbitrary: s U)
  case 0
  then show ?case
    using grown_refl by (auto simp: grow_directory.simps [of segment s])
next
  case (Suc n)
  then have le: "length (clog_pages (p_meta s)) \<le> segment"
    by simp
  then have cap: "length (clog_pages (p_meta s)) < CLOG_DIRECTORY_CAPACITY"
    using Suc.prems(2) by simp
  have small: "unat (page_count (p_meta s)) + 1 < 2 ^ 32"
    using Suc.prems(3) le by simp
  then have room: "page_count (p_meta s) \<noteq> -1"
    by (auto simp: unsigned_minus_1_eq_mask mask_eq_exp_minus_1)
  obtain pid s1 V where s1: "alloc_page PK_Clog s = (Inr pid, s1)"
    and g: "grown s U (meta_mut (\<lambda>m. m\<lparr>clog_pages := clog_pages m @ [pid]\<rparr>) s1) V" (is "grown s U ?t V")
    and d: "clog_pages (p_meta s1) = clog_pages (p_meta s)"
    and c: "page_count (p_meta s1) \<in> {page_count (p_meta s), page_count (p_meta s) + 1}"
    by (rule grow_step [OF Suc.prems(1) room cap])
  have "unat (page_count (p_meta s) + 1) = unat (page_count (p_meta s)) + 1"
    using small unat_add_lem [of "page_count (p_meta s)" 1] by simp
  then have "unat (page_count (p_meta s1)) \<le> unat (page_count (p_meta s)) + 1"
    using c by auto
  then have "\<exists>s' U'. grow_directory segment ?t = (Inr (), s') \<and> grown ?t V s' U' \<and>
      segment < length (clog_pages (p_meta s'))"
    using Suc.hyps(2) Suc.prems(2,3) g d le by (intro Suc.hyps(1)) (auto simp: grown_def)
  moreover have "grow_directory segment s = grow_directory segment ?t"
    using le s1 by (simp add: grow_directory.simps [of segment s])
  ultimately show ?case
    using grown_trans [OF g] by auto
qed

section \<open>Marking a transaction committed\<close>

lemma put_body_plain:
  assumes ok: "page_ok p" and plain: "slot_count p = 0" and i: "i < 8168"
  shows "put_body i [b] p = Inr (overwrite (24 + i) [b] p)"
    and "page_ok (overwrite (24 + i) [b] p)" and "slot_count (overwrite (24 + i) [b] p) = 0"
    and "body (overwrite (24 + i) [b] p) = (body p)[i := b]"
proof -
  let ?q = "overwrite (24 + i) [b] p"
  have len: "length p = 8192"
    using page_ok_length [OF ok] by (simp add: PAGE_SIZE_def)
  show "put_body i [b] p = Inr ?q"
    using i len by (simp add: put_body_def layout)
  have a: "agree_on (- {24 + i..<24 + i + 1}) p ?q"
    using agree_on_overwrite [of "24 + i" "[b]" p] i len by simp
  have fields: "slot_count ?q = slot_count p" "free_end ?q = free_end p" "?q ! 12 = p ! 12"
    using len agree_on_nth [OF a, of 12] by (auto simp: slot_count_def free_end_def intro!: get_u16_agree [OF a])
  then show "page_ok ?q" "slot_count ?q = 0"
    using ok plain len i by (simp_all add: page_ok_def layout_ok_def kind_ok_def layout)
  show "body ?q = (body p)[i := b]"
    using i len by (intro nth_equalityI) (auto simp: body_def layout nth_overwrite nth_list_update)
qed

lemma mark_bit:
  assumes inv: "clog_inv s U" and seg: "unat txn div 65344 < length (clog_pages (p_meta s))"
  obtains s' where "with_page_mut (clog_pages (p_meta s) ! (unat txn div 65344))
      (\<lambda>p. bind_res (checked (get_index (body p) (unat txn mod 65344 div 8))) (\<lambda>b.
         bind_res (put_body (unat txn mod 65344 div 8) [b OR 2 ^ (unat txn mod 65344 mod 8)] p)
           (\<lambda>q. Inr ((), q)))) s = (Inr (), s')"
    and "clog_inv s' U" and "status s' = (status s)(txn := True)" and "p_meta s' = p_meta s"
    and "\<forall>pid. pid \<notin> set (clog_pages (p_meta s)) \<longrightarrow> view s' pid = view s pid"
proof -
  let ?dir = "clog_pages (p_meta s)" and ?i = "unat txn mod 65344 div 8" and ?n = "unat txn mod 65344 mod 8"
  let ?pid = "?dir ! (unat txn div 65344)"
  let ?f = "\<lambda>p. bind_res (checked (get_index (body p) ?i)) (\<lambda>b.
         bind_res (put_body ?i [b OR 2 ^ ?n] p) (\<lambda>q. Inr ((), q))) :: (unit \<times> page) res"
  have o: "owns s U" and mem: "?pid \<in> set ?dir" and pU: "?pid \<in> U"
    using inv seg by (auto simp: clog_inv_def)
  then obtain c where c: "view s ?pid = Some c"
    using owns_view by metis
  have i: "?i < 8168"
    by (rule less_mult_imp_div_less) simp
  let ?g = "\<lambda>p. overwrite (24 + ?i) [body p ! ?i OR 2 ^ ?n] p"
  have plain: "length p = PAGE_SIZE" "slot_count p = 0" if "content p = c" "page_ok p" for p
    using page_of_content(8) [of p] page_ok_length [of p] that inv mem c by (auto simp: clog_inv_def)
  have f: "?f p = Inr ((), ?g p) \<and> page_ok (?g p)" if "content p = c" "page_ok p" for p
    using put_body_plain [OF that(2) plain(2) [OF that] i] body_index [OF plain(1) [OF that]]
    by (simp add: checked_def)
  obtain s' p where p: "content p = c" "page_ok p"
    and s': "with_page_mut ?pid ?f s = (Inr (), s')" and w: "wrote ?pid (content (?g p)) s s'"
    by (rule with_page_mut_ok [OF owns_inv [OF o] c f])
  let ?q = "?g p"
  note len = plain(1) [OF p] and q = put_body_plain [OF p(2) plain(2) [OF p] i, of "body p ! ?i OR 2 ^ ?n"]
  have bp: "body (page_of c) = body p"
    using page_of_content(3) [OF len] p(1) by simp
  have lenq: "length ?q = PAGE_SIZE"
    by (rule page_ok_length [OF q(2)])
  have v: "view s' = (view s)(?pid \<mapsto> content ?q)" and m: "p_meta s' = p_meta s"
    using w by (simp_all add: wrote_def)
  have bq: "body (page_of (content ?q)) = (body p)[?i := body p ! ?i OR 2 ^ ?n]"
    and sq: "slot_count (page_of (content ?q)) = 0"
    using page_of_content(3,8) [OF lenq] q(3,4) by simp_all
  have inv': "clog_inv s' U"
    using inv owns_wrote [OF o w pU] sq unfolding clog_inv_def m v by auto
  have "status s' u = ((status s)(txn := True)) u" for u
  proof (cases "unat u div 65344 = unat txn div 65344")
    case True
    have "bit ((body p)[?i := body p ! ?i OR 2 ^ ?n] ! (unat u mod 65344 div 8)) (unat u mod 65344 mod 8)
      = (u = txn \<or> bit (body p ! (unat u mod 65344 div 8)) (unat u mod 65344 mod 8))"
      using same_position [OF True] i len
      by (cases "unat u mod 65344 div 8 = ?i") (auto simp: bit_or_exp body_def layout)
    then show ?thesis
      using True seg c unfolding status_def m v by (auto simp: get_index_def bq bp)
  next
    case False
    moreover have "?dir ! (unat u div 65344) \<noteq> ?pid" if "unat u div 65344 < length ?dir"
      using inv False seg that by (simp add: clog_inv_def nth_eq_iff_index_eq)
    ultimately show ?thesis
      unfolding status_def m v by (auto simp: get_index_def)
  qed
  then have st: "status s' = (status s)(txn := True)" ..
  have "\<forall>x. x \<notin> set ?dir \<longrightarrow> view s' x = view s x"
    using mem unfolding v by auto
  then show ?thesis
    by (rule that [OF s' inv' st m])
qed

text \<open>Every transaction id the directory has room for.\<close>

lemma mark_committed_status:
  assumes inv: "clog_inv s U" and seg: "unat txn div 65344 < CLOG_DIRECTORY_CAPACITY"
    and room: "unat (page_count (p_meta s)) + (Suc (unat txn div 65344) - length (clog_pages (p_meta s)))
      < 2 ^ 32"
  obtains s' U' where "mark_committed txn s = (Inr (), s')" and "clog_inv s' U'" and "U \<subseteq> U'"
    and "status s' = (status s)(txn := True)"
    and "\<And>pid. pid \<in> U \<Longrightarrow> pid \<notin> set (clog_pages (p_meta s)) \<Longrightarrow> view s' pid = view s pid"
    and "catalog_root (p_meta s') = catalog_root (p_meta s)"
    and "next_txn_id (p_meta s') = next_txn_id (p_meta s)"
proof -
  let ?seg = "unat txn div 65344"
  obtain s1 V where s1: "grow_directory ?seg s = (Inr (), s1)" and g: "grown s U s1 V"
    and len: "?seg < length (clog_pages (p_meta s1))"
    using grow_directory_grown [OF inv seg room] by auto
  have inv1: "clog_inv s1 V"
    using g by (simp add: grown_def)
  obtain s' where upd: "with_page_mut (clog_pages (p_meta s1) ! ?seg)
      (\<lambda>p. bind_res (checked (get_index (body p) (unat txn mod 65344 div 8))) (\<lambda>b.
         bind_res (put_body (unat txn mod 65344 div 8) [b OR 2 ^ (unat txn mod 65344 mod 8)] p)
           (\<lambda>q. Inr ((), q)))) s1 = (Inr (), s')"
    and s': "clog_inv s' V" "status s' = (status s1)(txn := True)" "p_meta s' = p_meta s1"
      "\<forall>pid. pid \<notin> set (clog_pages (p_meta s1)) \<longrightarrow> view s' pid = view s1 pid"
    by (rule mark_bit [OF inv1 len])
  have eq: "mark_committed txn s = (Inr (), s')"
    using s1 len upd by (simp add: mark_committed_def locate_eq bind_op_def get_index_def)
  have frame: "view s' pid = view s pid" if "pid \<in> U" "pid \<notin> set (clog_pages (p_meta s))" for pid
    using that g s'(4) by (auto simp: grown_def)
  show ?thesis
    by (rule that [OF eq s'(1)]) (use g s'(2,3) frame in \<open>auto simp: grown_def\<close>)
qed

section \<open>A new database\<close>

lemma pager_open_new:
  obtains s where "pager_open [] None capacity sync = Inr s" and "clog_inv s {}"
    and "p_meta s = meta_fresh"
proof -
  let ?p = "overwrite HEADER_SIZE (meta_fields meta_fresh) (page_new PK_Meta)"
  have enc: "meta_encode meta_fresh (page_new PK_Meta) = Inr ?p"
    by (simp add: meta_encode_def put_body_def length_meta_fields meta_fresh_def page_new_fields layout
        CLOG_DIRECTORY_CAPACITY_def)
  have len: "length (to_bytes ?p) = PAGE_SIZE"
    using content_to_bytes(2) [of ?p]
    by (simp add: length_meta_fields meta_fresh_def page_new_fields layout)
  obtain j where o: "pager_open [] None capacity sync = Inr \<lparr>p_file = sync_data (write_all (to_bytes ?p)
       (seek_start (page_offset META_PAGE) (file_open []))), p_journal = j, p_cache = [],
       p_capacity = max capacity 8, p_clock = 0, p_meta = meta_fresh, meta_dirty_vs_journal = False\<rparr>"
      (is "_ = Inr ?s")
    by (simp add: pager_open_def recover_def replay_def ret_op_def recovery_default_def file_open_def
        enc write_page_to_file_def Let_def)
  have "pager_inv ?s"
    using file_length_write [of "[]" "to_bytes ?p" META_PAGE] len
    by (simp add: pager_inv_def sync_data_def write_all_def seek_start_def file_open_def meta_fresh_def)
  then have "clog_inv ?s {}"
    by (auto simp: clog_inv_def owns_def meta_fresh_def NO_PAGE_def intro!: exI [of _ "[]"])
  then show ?thesis
    using that o by simp
qed

end
