(* ===== verification/Btree.thy ===== *)
theory Btree
  imports Clog
begin

text \<open>
  The B+-tree (btree.rs) that maps 64-bit keys to byte strings, for the catalog and for every table:
  items, search in a node, descent, overflow chains, insertion with splits, removal, sequential
  access and destruction. A loop over a chain of pages carries as fuel the number of page ids:
  a longer walk has met the same page twice and, since reading leaves the pages alone, never ends.
\<close>

section \<open>Items\<close>

definition KEY_LEN :: nat where [layout]: "KEY_LEN = 8"
definition FLAG_INLINE :: u8 where [layout]: "FLAG_INLINE = 0"
definition FLAG_OVERFLOW :: u8 where [layout]: "FLAG_OVERFLOW = 1"
definition LEAF_HEADER :: nat where [layout]: "LEAF_HEADER = KEY_LEN + 1"
definition OVERFLOW_DESCRIPTOR :: nat where [layout]: "OVERFLOW_DESCRIPTOR = LEAF_HEADER + 8"
definition MAX_INLINE :: nat where [layout]: "MAX_INLINE = 2000"
definition OVERFLOW_CHUNK :: nat where [layout]: "OVERFLOW_CHUNK = PAGE_SIZE - HEADER_SIZE - 4"

definition btree_corrupt :: "string \<Rightarrow> failure" where
  "btree_corrupt msg = Err (Storage (''btree: '' @ msg))"

text \<open>
  \<open>item[at..at + available]\<close> is out of bounds when \<open>at\<close> is past the end, even for no bytes at all.
\<close>

definition le_field :: "nat \<Rightarrow> bytes \<Rightarrow> nat \<Rightarrow> bytes res" where
  "le_field n it at =
     (if at \<le> length it then Inr (take n (drop at it @ replicate n 0)) else Inl Panic)"

definition item_key :: "bytes \<Rightarrow> u64" where
  "item_key it = from_le_bytes (take 8 (it @ replicate 8 0))"

definition le_u32 :: "bytes \<Rightarrow> nat \<Rightarrow> u32 res" where
  "le_u32 it at = bind_res (le_field 4 it at) (\<lambda>b. Inr (from_le_bytes b))"

definition internal_child :: "bytes \<Rightarrow> page_id res" where
  "internal_child it = le_u32 it KEY_LEN"

definition make_internal_item :: "u64 \<Rightarrow> page_id \<Rightarrow> bytes" where
  "make_internal_item key child = to_le_bytes key @ to_le_bytes child"

section \<open>Search in a node\<close>

text \<open>\<open>Inr i\<close> is \<open>Ok(i)\<close>, the slot that holds the key, and \<open>Inl i\<close> is \<open>Err(i)\<close>, where it would go.\<close>

function search_between :: "page \<Rightarrow> u64 \<Rightarrow> nat \<Rightarrow> nat \<Rightarrow> (nat + nat) res" where
  "search_between p key lo hi =
     (if lo < hi then
        bind_res (item p ((lo + hi) div 2)) (\<lambda>it.
          if item_key it < key then search_between p key ((lo + hi) div 2 + 1) hi
          else if key < item_key it then search_between p key lo ((lo + hi) div 2)
          else Inr (Inr ((lo + hi) div 2)))
      else Inr (Inl lo))"
  by pat_completeness auto
termination
  by (relation "measure (\<lambda>(p, key, lo, hi). hi - lo)") auto

declare search_between.simps [simp del]

definition slot_search :: "page \<Rightarrow> u64 \<Rightarrow> (nat + nat) res" where
  "slot_search p key = search_between p key 0 (slot_count p)"

definition child_for :: "page \<Rightarrow> u64 \<Rightarrow> page_id res" where
  "child_for p key =
     bind_res (slot_search p key) (\<lambda>r.
       case r of
         Inr i \<Rightarrow> bind_res (item p i) internal_child
       | Inl 0 \<Rightarrow> Inr (extra p)
       | Inl (Suc i) \<Rightarrow> bind_res (item p i) internal_child)"

definition find_item :: "u64 \<Rightarrow> page \<Rightarrow> (nat \<times> bytes) option res" where
  "find_item key p =
     bind_res (slot_search p key) (\<lambda>r.
       case r of
         Inr i \<Rightarrow> bind_res (item p i) (\<lambda>it. Inr (Some (i, it)))
       | Inl _ \<Rightarrow> Inr None)"

definition items_of :: "page \<Rightarrow> bytes list res" where
  "items_of p = collect_items p [0..<slot_count p]"

section \<open>Creation and descent\<close>

definition create :: "page_id pager_op" where
  "create = bind_op (alloc_page PK_Leaf) (\<lambda>pid.
     bind_op (with_page_mut pid (\<lambda>p. Inr ((), set_extra NO_PAGE p))) (\<lambda>_. ret_op pid))"

definition descend_step :: "u64 \<Rightarrow> page \<Rightarrow> page_id option res" where
  "descend_step key p =
     bind_res (kind p) (\<lambda>k.
       case k of
         PK_Leaf \<Rightarrow> Inr None
       | PK_Internal \<Rightarrow> bind_res (child_for p key) (\<lambda>c. Inr (Some c))
       | _ \<Rightarrow> Inl (btree_corrupt ''expected a node page''))"

fun descend_from :: "nat \<Rightarrow> page_id \<Rightarrow> u64 \<Rightarrow> page_id list \<Rightarrow> (page_id \<times> page_id list) pager_op" where
  "descend_from 0 pid key path = lift_op (Inl (btree_corrupt ''tree depth exceeded 64 levels''))"
| "descend_from (Suc n) pid key path =
     bind_op (with_page pid (descend_step key)) (\<lambda>step.
       case step of
         None \<Rightarrow> ret_op (pid, path)
       | Some child \<Rightarrow> descend_from n child key (path @ [pid]))"

definition descend :: "page_id \<Rightarrow> u64 \<Rightarrow> (page_id \<times> page_id list) pager_op" where
  "descend root key = descend_from 64 root key []"

section \<open>Overflow chains\<close>

definition PAGE_IDS :: nat where
  "PAGE_IDS = 2 ^ 32"

function chunks :: "nat \<Rightarrow> 'a list \<Rightarrow> 'a list list" where
  "chunks n xs = (if n = 0 \<or> xs = [] then [] else take n xs # chunks n (drop n xs))"
  by pat_completeness auto
termination
  by (relation "measure (\<lambda>(n, xs). length xs)") auto

declare chunks.simps [simp del]

definition fill_overflow :: "page_id \<Rightarrow> bytes \<Rightarrow> page \<Rightarrow> (unit \<times> page) res" where
  "fill_overflow next chunk p =
     bind_res (put_body 0 (to_le_bytes (word_of_nat (length chunk) :: u32)) (set_extra next p)) (\<lambda>p1.
       bind_res (put_body 4 chunk p1) (\<lambda>p2. Inr ((), p2)))"

fun write_chunks :: "bytes list \<Rightarrow> page_id \<Rightarrow> page_id pager_op" where
  "write_chunks [] next = ret_op next"
| "write_chunks (chunk # cs) next =
     bind_op (alloc_page PK_Overflow) (\<lambda>pid.
       bind_op (with_page_mut pid (fill_overflow next chunk)) (\<lambda>_. write_chunks cs pid))"

definition write_overflow :: "bytes \<Rightarrow> page_id pager_op" where
  "write_overflow data =
     (let cs = chunks OVERFLOW_CHUNK data
      in write_chunks (rev (if cs = [] then [[]] else cs)) NO_PAGE)"

definition overflow_part :: "page \<Rightarrow> (bytes \<times> page_id) res" where
  "overflow_part p =
     bind_res (kind p) (\<lambda>k.
       if k \<noteq> PK_Overflow
       then Inl (btree_corrupt ''overflow chain points at a non-overflow page'')
       else bind_res (le_u32 (body p) 0) (\<lambda>n.
         let len = unat n
         in if len > OVERFLOW_CHUNK
            then Inl (btree_corrupt ''overflow chunk length out of range'')
            else bind_res (checked (slice (body p) 4 (4 + len))) (\<lambda>chunk. Inr (chunk, extra p))))"

fun read_chain :: "nat \<Rightarrow> page_id \<Rightarrow> bytes \<Rightarrow> bytes pager_op" where
  "read_chain fuel pid out =
     (if pid = NO_PAGE then ret_op out
      else if fuel = 0 then lift_op (Inl Diverge)
      else bind_op (with_page pid overflow_part) (\<lambda>(chunk, next).
        read_chain (fuel - 1) next (out @ chunk)))"

declare read_chain.simps [simp del]

definition read_overflow :: "page_id \<Rightarrow> nat \<Rightarrow> bytes pager_op" where
  "read_overflow first total_len =
     bind_op (read_chain PAGE_IDS first []) (\<lambda>out.
       if length out \<noteq> total_len
       then lift_op (Inl (btree_corrupt ''overflow chain length does not match its descriptor''))
       else ret_op out)"

fun free_chain :: "nat \<Rightarrow> page_id \<Rightarrow> unit pager_op" where
  "free_chain fuel pid =
     (if pid = NO_PAGE then ret_op ()
      else if fuel = 0 then lift_op (Inl Diverge)
      else bind_op (with_page pid (\<lambda>p. Inr (extra p))) (\<lambda>next.
        bind_op (free_page pid) (\<lambda>_. free_chain (fuel - 1) next)))"

declare free_chain.simps [simp del]

definition free_overflow :: "page_id \<Rightarrow> unit pager_op" where
  "free_overflow first = free_chain PAGE_IDS first"

definition release_item :: "bytes \<Rightarrow> unit pager_op" where
  "release_item it =
     (if OVERFLOW_DESCRIPTOR \<le> length it \<and> it ! KEY_LEN = FLAG_OVERFLOW
      then bind_op (lift_op (le_u32 it (KEY_LEN + 5))) free_overflow
      else ret_op ())"

definition build_item :: "u64 \<Rightarrow> bytes \<Rightarrow> bytes pager_op" where
  "build_item key data =
     (if length data \<le> MAX_INLINE then ret_op (to_le_bytes key @ [FLAG_INLINE] @ data)
      else bind_op (write_overflow data) (\<lambda>first.
        ret_op (to_le_bytes key @ [FLAG_OVERFLOW] @
          to_le_bytes (word_of_nat (length data) :: u32) @ to_le_bytes first)))"

definition payload_of :: "bytes \<Rightarrow> bytes pager_op" where
  "payload_of it =
     (if length it < LEAF_HEADER then lift_op (Inl (btree_corrupt ''leaf item shorter than its header''))
      else if it ! KEY_LEN = FLAG_INLINE then ret_op (drop LEAF_HEADER it)
      else if it ! KEY_LEN = FLAG_OVERFLOW then
        (if length it < OVERFLOW_DESCRIPTOR
         then lift_op (Inl (btree_corrupt ''truncated overflow descriptor''))
         else bind_op (lift_op (le_u32 it LEAF_HEADER)) (\<lambda>total_len.
           bind_op (lift_op (le_u32 it (LEAF_HEADER + 4))) (\<lambda>first.
             read_overflow first (unat total_len))))
      else lift_op (Inl (btree_corrupt (''unknown leaf item flag '' @ dec_string (unat (it ! KEY_LEN))))))"

section \<open>Lookup\<close>

definition lookup :: "page_id \<Rightarrow> u64 \<Rightarrow> bytes option pager_op" where
  "lookup root key =
     bind_op (descend root key) (\<lambda>(leaf, _).
       bind_op (with_page leaf (find_item key)) (\<lambda>found.
         case found of
           None \<Rightarrow> ret_op None
         | Some (_, it) \<Rightarrow> bind_op (payload_of it) (\<lambda>data. ret_op (Some data))))"

section \<open>Insertion\<close>

definition vec_insert :: "nat \<Rightarrow> 'a \<Rightarrow> 'a list \<Rightarrow> 'a list res" where
  "vec_insert i x xs = (if i \<le> length xs then Inr (insert_at i x xs) else Inl Panic)"

fun fill_items :: "failure \<Rightarrow> nat \<Rightarrow> bytes list \<Rightarrow> page \<Rightarrow> page res" where
  "fill_items err i [] p = Inr p"
| "fill_items err i (it # its) p =
     bind_res (insert_item i it p) (\<lambda>(fits, q).
       if fits then fill_items err (i + 1) its q else Inl err)"

definition fill_leaf :: "page_id \<Rightarrow> bytes list \<Rightarrow> page_id \<Rightarrow> unit pager_op" where
  "fill_leaf pid its sibling = with_page_mut pid (\<lambda>_.
     bind_res (fill_items (btree_corrupt ''split produced a half that does not fit in a page'') 0 its
         (set_extra sibling (page_new PK_Leaf)))
       (\<lambda>fresh. Inr ((), fresh)))"

definition fill_internal :: "page_id \<Rightarrow> bytes list \<Rightarrow> page_id \<Rightarrow> unit pager_op" where
  "fill_internal pid its leftmost = with_page_mut pid (\<lambda>_.
     bind_res (fill_items (btree_corrupt ''internal split produced an oversized half'') 0 its
         (set_extra leftmost (page_new PK_Internal)))
       (\<lambda>fresh. Inr ((), fresh)))"

text \<open>The first index at which half of the bytes have been seen; 0 when the loop ends without one.\<close>

fun half_point :: "nat \<Rightarrow> nat \<Rightarrow> nat \<Rightarrow> bytes list \<Rightarrow> nat" where
  "half_point total_cost i running [] = 0"
| "half_point total_cost i running (it # its) =
     (let running' = running + item_cost (length it)
      in if running' * 2 \<ge> total_cost then max i 1
         else half_point total_cost (i + 1) running' its)"

definition split_point :: "bytes list \<Rightarrow> nat" where
  "split_point its =
     (let at = half_point (sum_list (map (\<lambda>it. item_cost (length it)) its)) 0 0 its
      in if at = 0 \<or> length its \<le> at then length its div 2 else at)"

definition node_items :: "page \<Rightarrow> (bytes list \<times> page_id) res" where
  "node_items p = bind_res (items_of p) (\<lambda>its. Inr (its, extra p))"

definition split_leaf :: "page_id \<Rightarrow> nat \<Rightarrow> bytes \<Rightarrow> (u64 \<times> page_id) pager_op" where
  "split_leaf leaf index it =
     bind_op (with_page leaf node_items) (\<lambda>(its0, right_sibling).
       bind_op (lift_op (vec_insert index it its0)) (\<lambda>its.
         if length its < 2
         then lift_op (Inl (btree_corrupt ''a single entry does not fit in an empty leaf''))
         else
           let at = split_point its; left_items = take at its; right_items = drop at its
           in bind_op (alloc_page PK_Leaf) (\<lambda>right_id.
             bind_op (lift_op (checked (get_index right_items 0))) (\<lambda>first.
               bind_op (fill_leaf leaf left_items right_id) (\<lambda>_.
                 bind_op (fill_leaf right_id right_items right_sibling) (\<lambda>_.
                   ret_op (item_key first, right_id)))))))"

definition split_internal :: "page_id \<Rightarrow> nat \<Rightarrow> bytes \<Rightarrow> (u64 \<times> page_id) pager_op" where
  "split_internal node index it =
     bind_op (with_page node node_items) (\<lambda>(its0, leftmost).
       bind_op (lift_op (vec_insert index it its0)) (\<lambda>its.
         if length its < 3 then lift_op (Inl (btree_corrupt ''internal node too small to split''))
         else
           let middle = length its div 2; right_items = drop (middle + 1) its;
               left_items = take middle its; promoted = its ! middle
           in bind_op (lift_op (internal_child promoted)) (\<lambda>right_leftmost.
             bind_op (alloc_page PK_Internal) (\<lambda>right_id.
               bind_op (fill_internal node left_items leftmost) (\<lambda>_.
                 bind_op (fill_internal right_id right_items right_leftmost) (\<lambda>_.
                   ret_op (item_key promoted, right_id)))))))"

text \<open>The nodes on the way up, the last one first.\<close>

fun propagate_up :: "page_id \<Rightarrow> page_id list \<Rightarrow> u64 \<Rightarrow> page_id \<Rightarrow> page_id pager_op" where
  "propagate_up root [] sep right =
     bind_op (alloc_page PK_Internal) (\<lambda>new_root.
       bind_op (with_page_mut new_root (\<lambda>p.
           bind_res (insert_item 0 (make_internal_item sep right) (set_extra root p))
             (\<lambda>(inserted, q). Inr ((), q))))
         (\<lambda>_. ret_op new_root))"
| "propagate_up root (parent # rest_path) sep right =
     bind_op (with_page parent (\<lambda>p. slot_search p sep)) (\<lambda>r.
       case r of
         Inr _ \<Rightarrow> lift_op (Inl (btree_corrupt ''duplicate separator key in an internal node''))
       | Inl index \<Rightarrow>
           bind_op (with_page_mut parent (insert_item index (make_internal_item sep right))) (\<lambda>done.
             if done then ret_op root
             else bind_op (split_internal parent index (make_internal_item sep right))
               (\<lambda>(up_sep, up_right). propagate_up root rest_path up_sep up_right)))"

definition propagate :: "page_id \<Rightarrow> page_id list \<Rightarrow> u64 \<Rightarrow> page_id \<Rightarrow> page_id pager_op" where
  "propagate root path sep right = propagate_up root (rev path) sep right"

text \<open>Where the new item still has to go, or \<open>None\<close> when it is in the leaf.\<close>

definition place_item :: "page_id \<Rightarrow> u64 \<Rightarrow> bytes \<Rightarrow> nat option pager_op" where
  "place_item leaf key it =
     bind_op (with_page leaf (find_item key)) (\<lambda>existing.
       case existing of
         Some (i, old) \<Rightarrow>
           bind_op (release_item old) (\<lambda>_.
             bind_op (with_page_mut leaf (replace_item i it)) (\<lambda>done.
               if done then ret_op None
               else bind_op (with_page_mut leaf (\<lambda>p. bind_res (remove_item i p) (\<lambda>q. Inr ((), q))))
                 (\<lambda>_. ret_op (Some i))))
       | None \<Rightarrow>
           bind_op (with_page leaf (\<lambda>p. slot_search p key)) (\<lambda>r.
             case r of
               Inr _ \<Rightarrow> lift_op (Inl Panic)
             | Inl i \<Rightarrow>
                 bind_op (with_page_mut leaf (insert_item i it)) (\<lambda>done.
                   ret_op (if done then None else Some i))))"

definition upsert :: "page_id \<Rightarrow> u64 \<Rightarrow> bytes \<Rightarrow> page_id pager_op" where
  "upsert root key data =
     bind_op (descend root key) (\<lambda>(leaf, path).
       bind_op (build_item key data) (\<lambda>it.
         bind_op (place_item leaf key it) (\<lambda>index.
           case index of
             None \<Rightarrow> ret_op root
           | Some i \<Rightarrow>
               bind_op (split_leaf leaf i it) (\<lambda>(sep, right). propagate root path sep right))))"

section \<open>Removal, sequential access, destruction\<close>

definition remove :: "page_id \<Rightarrow> u64 \<Rightarrow> bool pager_op" where
  "remove root key =
     bind_op (descend root key) (\<lambda>(leaf, _).
       bind_op (with_page leaf (find_item key)) (\<lambda>found.
         case found of
           None \<Rightarrow> ret_op False
         | Some (index, it) \<Rightarrow>
             bind_op (release_item it) (\<lambda>_.
               bind_op (with_page_mut leaf (\<lambda>p. bind_res (remove_item index p) (\<lambda>q. Inr ((), q))))
                 (\<lambda>_. ret_op True))))"

definition first_from :: "u64 \<Rightarrow> page \<Rightarrow> (u64 \<times> bytes) option res" where
  "first_from from p =
     bind_res (slot_search p from) (\<lambda>r.
       let start = (case r of Inr i \<Rightarrow> i | Inl i \<Rightarrow> i)
       in if start < slot_count p
          then bind_res (item p start) (\<lambda>it. Inr (Some (item_key it, it)))
          else Inr None)"

fun seek_leaf :: "nat \<Rightarrow> page_id \<Rightarrow> u64 \<Rightarrow> (u64 \<times> bytes) option pager_op" where
  "seek_leaf fuel leaf from =
     (if fuel = 0 then lift_op (Inl Diverge)
      else bind_op (with_page leaf (first_from from)) (\<lambda>hit.
        case hit of
          Some (key, it) \<Rightarrow> bind_op (payload_of it) (\<lambda>data. ret_op (Some (key, data)))
        | None \<Rightarrow>
            bind_op (with_page leaf (\<lambda>p. Inr (extra p))) (\<lambda>next.
              if next = NO_PAGE then ret_op None else seek_leaf (fuel - 1) next from)))"

declare seek_leaf.simps [simp del]

definition seek :: "page_id \<Rightarrow> u64 \<Rightarrow> (u64 \<times> bytes) option pager_op" where
  "seek root from = bind_op (descend root from) (\<lambda>(leaf, _). seek_leaf PAGE_IDS leaf from)"

fun children_of :: "page \<Rightarrow> nat list \<Rightarrow> page_id list res" where
  "children_of p [] = Inr []"
| "children_of p (i # is) =
     bind_res (bind_res (item p i) internal_child) (\<lambda>c.
       bind_res (children_of p is) (\<lambda>cs. Inr (c # cs)))"

text \<open>The stack has its top first; the children are pushed in order.\<close>

fun destroy_all :: "nat \<Rightarrow> page_id list \<Rightarrow> unit pager_op" where
  "destroy_all fuel [] = ret_op ()"
| "destroy_all fuel (pid # stack) =
     (if fuel = 0 then lift_op (Inl Diverge)
      else bind_op (with_page pid kind) (\<lambda>k.
        bind_op
          (case k of
             PK_Leaf \<Rightarrow>
               bind_op (with_page pid items_of) (\<lambda>its.
                 bind_op (for_each its release_item) (\<lambda>_. ret_op []))
           | PK_Internal \<Rightarrow>
               with_page pid (\<lambda>p. bind_res (children_of p [0..<slot_count p]) (\<lambda>cs. Inr (extra p # cs)))
           | _ \<Rightarrow> lift_op (Inl (btree_corrupt ''unexpected page in a tree'')))
          (\<lambda>children. bind_op (free_page pid) (\<lambda>_. destroy_all (fuel - 1) (rev children @ stack)))))"

definition destroy :: "page_id \<Rightarrow> unit pager_op" where
  "destroy root = destroy_all PAGE_IDS [root]"

end
