(* ===== verification/Version.thy ===== *)
theory Version
  imports Codec
begin

text \<open>
  \<open>ferrite-storage/src/version.rs\<close>: all MVCC versions of a row, newest first, as one B-tree
  payload. The chain's length is written as a \<open>u16\<close>; the lemmas give the round trip below
  \<open>2^16\<close> versions and what happens at \<open>2^16\<close>.
\<close>

definition NO_TXN :: u64 where
  "NO_TXN = 0"

record version =
  v_xmin :: u64
  v_xmax :: u64
  v_bytes :: bytes

definition live :: "u64 \<Rightarrow> bytes \<Rightarrow> version" where
  "live xmin bs = \<lparr>v_xmin = xmin, v_xmax = NO_TXN, v_bytes = bs\<rparr>"

definition encode_version :: "version \<Rightarrow> writer \<Rightarrow> writer" where
  "encode_version v w = wr_len_prefixed (v_bytes v) (wr_u64 (v_xmax v) (wr_u64 (v_xmin v) w))"

definition encode_chain :: "version list \<Rightarrow> bytes" where
  "encode_chain vs = fold encode_version vs (wr_u16 (word_of_nat (length vs)) [])"

definition decode_version :: "(reader, failure, version) op" where
  "decode_version = bind_op rd_u64 (\<lambda>xmin. bind_op rd_u64 (\<lambda>xmax. bind_op rd_u32 (\<lambda>len.
     bind_op (rd_take (unat len)) (\<lambda>bs.
       ret_op \<lparr>v_xmin = xmin, v_xmax = xmax, v_bytes = bs\<rparr>))))"

fun decode_versions :: "nat \<Rightarrow> (reader, failure, version list) op" where
  "decode_versions 0 = ret_op []"
| "decode_versions (Suc n) =
     bind_op decode_version (\<lambda>v. bind_op (decode_versions n) (\<lambda>vs. ret_op (v # vs)))"

definition decode_chain :: "bytes \<Rightarrow> version list res" where
  "decode_chain bs = fst (bind_op rd_u16 (\<lambda>count. bind_op (decode_versions (unat count)) (\<lambda>vs.
     bind_op (get_op rd_is_empty) (\<lambda>e.
       if \<not> e then lift_op (Inl (Err (Storage ''corrupt version chain: trailing bytes'')))
       else ret_op vs))) (rd_new bs))"

section \<open>Round trip\<close>

definition version_ok :: "version \<Rightarrow> bool" where
  "version_ok v \<longleftrightarrow> length (v_bytes v) < 2 ^ 32"

abbreviation version_bytes :: "version \<Rightarrow> bytes" where
  "version_bytes v \<equiv> encode_version v []"

lemma encode_version_append: "encode_version v w = w @ version_bytes v"
  by (simp add: encode_version_def writer_defs)

lemma length_version_bytes: "length (version_bytes v) = 20 + length (v_bytes v)"
  by (simp add: encode_version_def writer_defs)

lemma encode_versions_append:
  "fold encode_version vs w = w @ concat (map version_bytes vs)"
proof (induction vs arbitrary: w)
  case Nil
  show ?case by simp
next
  case (Cons v vs)
  then show ?case by (simp add: encode_version_append [of v w])
qed

lemma encode_chain_eq:
  "encode_chain vs = to_le_bytes (word_of_nat (length vs) :: u16) @ concat (map version_bytes vs)"
  by (simp add: encode_chain_def encode_versions_append writer_defs)

lemma decode_version_append:
  assumes "rest r = version_bytes v @ ys" and "version_ok v"
  shows "decode_version r = (Inr v, skip (length (version_bytes v)) r)"
proof -
  let ?n = "length (v_bytes v)"
  have len: "unat (word_of_nat ?n :: u32) = ?n"
    using assms(2) by (simp add: version_ok_def unat_of_nat)
  have 0: "rest r = to_le_bytes (v_xmin v) @ to_le_bytes (v_xmax v) @
      to_le_bytes (word_of_nat ?n :: u32) @ v_bytes v @ ys"
    using assms(1) by (simp add: encode_version_def writer_defs)
  then have 1: "rest (skip 8 r) = to_le_bytes (v_xmax v) @
      to_le_bytes (word_of_nat ?n :: u32) @ v_bytes v @ ys"
    and 2: "rest (skip 16 r) = to_le_bytes (word_of_nat ?n :: u32) @ v_bytes v @ ys"
    and 3: "rest (skip 20 r) = v_bytes v @ ys"
    by (simp_all add: reader_simps)
  show ?thesis
    using rd_le_append(3) [OF 0] rd_le_append(3) [OF 1] rd_le_append(2) [OF 2]
      rd_take_append [OF 3] len
    by (simp add: decode_version_def bind_op_def reader_simps encode_version_def writer_defs
        add.commute)
qed

lemma decode_versions_append:
  assumes "list_all version_ok vs" and "rest r = concat (map version_bytes vs) @ ys"
  shows "\<exists>n. decode_versions (length vs) r = (Inr vs, skip n r) \<and> rest (skip n r) = ys"
  using assms
proof (induction vs arbitrary: r)
  case Nil
  then show ?case by (intro exI [of _ 0]) simp
next
  case (Cons v vs)
  let ?n = "length (version_bytes v)"
  have v: "decode_version r = (Inr v, skip ?n r)"
    using Cons.prems by (intro decode_version_append) auto
  have "rest (skip ?n r) = concat (map version_bytes vs) @ ys"
    using Cons.prems by (simp add: reader_simps)
  then obtain m where "decode_versions (length vs) (skip ?n r) = (Inr vs, skip m (skip ?n r))"
    and "rest (skip m (skip ?n r)) = ys"
    using Cons by auto
  with v show ?case
    by (intro exI [of _ "?n + m"]) (simp add: bind_op_def reader_simps)
qed

lemma chain_roundtrip:
  assumes "list_all version_ok vs" and "length vs < 2 ^ 16"
  shows "decode_chain (encode_chain vs) = Inr vs"
proof -
  let ?r0 = "rd_new (encode_chain vs)"
  have len: "unat (word_of_nat (length vs) :: u16) = length vs"
    using assms(2) by (simp add: unat_of_nat)
  have rest: "rest ?r0 = to_le_bytes (word_of_nat (length vs) :: u16) @ concat (map version_bytes vs)"
    by (simp add: reader_simps encode_chain_eq)
  then have "rest (skip 2 ?r0) = concat (map version_bytes vs) @ []"
    by (simp add: reader_simps)
  then obtain n where "decode_versions (length vs) (skip 2 ?r0) = (Inr vs, skip n (skip 2 ?r0))"
    and "rest (skip n (skip 2 ?r0)) = []"
    using decode_versions_append [OF assms(1)] by blast
  then show ?thesis
    using len by (simp add: decode_chain_def bind_op_def rd_le_append(1) [OF rest] rd_is_empty_rest)
qed

text \<open>
  A chain of fewer than \<open>2^16\<close> versions reads back exactly as it was stored.
\<close>

theorem decode_encode_chain:
  "list_all version_ok vs \<Longrightarrow> length vs < 2 ^ 16 \<Longrightarrow> decode_chain (encode_chain vs) = Inr vs"
  by (rule chain_roundtrip)

theorem decode_encode_chain_witness:
  "decode_chain (encode_chain [\<lparr>v_xmin = 9, v_xmax = 0, v_bytes = [1, 2, 3]\<rparr>,
      \<lparr>v_xmin = 4, v_xmax = 9, v_bytes = []\<rparr>])
    = Inr [\<lparr>v_xmin = 9, v_xmax = 0, v_bytes = [1, 2, 3]\<rparr>,
      \<lparr>v_xmin = 4, v_xmax = 9, v_bytes = []\<rparr>]"
  by (rule decode_encode_chain) (simp_all add: version_ok_def)

text \<open>
  C24: the chain of exactly \<open>2^16\<close> versions, which a row reaches when that many transactions
  update it while an older snapshot stays open, is written with a count of zero and does not
  read back: the row becomes unreadable.
\<close>

theorem encode_chain_overflows:
  assumes "length vs = 2 ^ 16"
  shows "decode_chain (encode_chain vs)
    = Inl (Err (Storage ''corrupt version chain: trailing bytes''))"
proof -
  let ?r0 = "rd_new (encode_chain vs)"
  have zero: "(word_of_nat (length vs) :: u16) = 0"
    by (simp add: assms word_of_nat_eq_0_iff)
  then have rest: "rest ?r0 = to_le_bytes (0 :: u16) @ concat (map version_bytes vs)"
    by (simp add: reader_simps encode_chain_eq)
  obtain v vs' where "vs = v # vs'"
    using assms by (cases vs) auto
  then have "length (rest (skip 2 ?r0)) \<noteq> 0"
    using rest by (simp add: reader_simps length_version_bytes del: length_0_conv)
  then have "rest (skip 2 ?r0) \<noteq> []"
    by simp
  then show ?thesis
    by (simp add: decode_chain_def bind_op_def rd_le_append(1) [OF rest] rd_is_empty_rest)
qed

theorem encode_chain_overflows_witness:
  "decode_chain (encode_chain (replicate (2 ^ 16) (live 1 [])))
    = Inl (Err (Storage ''corrupt version chain: trailing bytes''))"
  by (rule encode_chain_overflows) (rule length_replicate)

end
