(* ===== verification/Unique.thy ===== *)
theory Unique
  imports Common "HOL-Library.AList"
begin

text \<open>
  The negative cache for unique keys (unique.rs): per table and key columns, a set of hashes meant
  to include the hash of every live key, so that an absent hash proves an absent key.
\<close>

section \<open>Hashing a key\<close>

text \<open>
  What \<open>hash_key\<close> feeds to the standard library's hasher, value by value. The hasher itself, which
  only promises to be a function of what it is fed, is the parameter \<open>finish\<close>.
\<close>

datatype hash_event =
    HDiscriminant nat
  | HBool bool
  | HI32 u32
  | HI64 u64
  | HBits u64
  | HStr bytes
  | HU128 u128

fun hash_events :: "val \<Rightarrow> hash_event list" where
  "hash_events VNull = [HDiscriminant 0]"
| "hash_events (VBoolean b) = [HDiscriminant 1, HBool b]"
| "hash_events (VInt4 i) = [HDiscriminant 2, HI32 i]"
| "hash_events (VInt8 i) = [HDiscriminant 3, HI64 i]"
| "hash_events (VFloat8 f) = [HDiscriminant 4, HBits f]"
| "hash_events (VText t) = [HDiscriminant 5, HStr t]"
| "hash_events (VTimestamp t) = [HDiscriminant 6, HI64 t]"
| "hash_events (VUuid u) = [HDiscriminant 7, HU128 u]"
| "hash_events (VJson j) = [HDiscriminant 8, HStr j]"

type_synonym hasher = "hash_event list \<Rightarrow> u64"

definition hash_key :: "hasher \<Rightarrow> val list \<Rightarrow> u64" where
  "hash_key finish key = finish (concat (map hash_events key))"

section \<open>Filters\<close>

record key_filter =
  hashes :: "u64 list"
  saturated :: bool

definition filter_add :: "u64 \<Rightarrow> nat \<Rightarrow> key_filter \<Rightarrow> key_filter" where
  "filter_add hash capacity f =
     (if saturated f then f
      else if capacity \<le> length (hashes f) then f\<lparr>hashes := [], saturated := True\<rparr>
      else f\<lparr>hashes := List.insert hash (hashes f)\<rparr>)"

definition filter_may_contain :: "u64 \<Rightarrow> key_filter \<Rightarrow> bool" where
  "filter_may_contain hash f \<longleftrightarrow> saturated f \<or> hash \<in> set (hashes f)"

type_synonym table_id = u32

record key_filters =
  filters :: "((table_id \<times> nat list) \<times> key_filter) list"
  capacity :: nat

definition key_filters_new :: "nat \<Rightarrow> key_filters" where
  "key_filters_new cap = \<lparr>filters = [], capacity = cap\<rparr>"

definition is_built :: "table_id \<Rightarrow> nat list \<Rightarrow> key_filters \<Rightarrow> bool" where
  "is_built table columns k \<longleftrightarrow> map_of (filters k) (table, columns) \<noteq> None"

definition build :: "table_id \<Rightarrow> nat list \<Rightarrow> u64 list \<Rightarrow> key_filters \<Rightarrow> key_filters" where
  "build table columns hs k =
     (let sat = capacity k \<le> length hs
      in k\<lparr>filters := AList.update (table, columns)
           \<lparr>hashes = if sat then [] else hs, saturated = sat\<rparr> (filters k)\<rparr>)"

definition may_contain :: "table_id \<Rightarrow> nat list \<Rightarrow> u64 \<Rightarrow> key_filters \<Rightarrow> bool" where
  "may_contain table columns hash k =
     (case map_of (filters k) (table, columns) of
        Some f \<Rightarrow> filter_may_contain hash f
      | None \<Rightarrow> True)"

definition note_key :: "table_id \<Rightarrow> nat list \<Rightarrow> u64 \<Rightarrow> key_filters \<Rightarrow> key_filters" where
  "note_key table columns hash k =
     (case map_of (filters k) (table, columns) of
        Some f \<Rightarrow> k\<lparr>filters := AList.update (table, columns) (filter_add hash (capacity k) f) (filters k)\<rparr>
      | None \<Rightarrow> k)"

definition invalidate :: "table_id \<Rightarrow> key_filters \<Rightarrow> key_filters" where
  "invalidate table k = k\<lparr>filters := filter (\<lambda>((t, _), _). t \<noteq> table) (filters k)\<rparr>"

section \<open>The superset contract\<close>

text \<open>
  What the engine relies on: a key set that a filter covers stays covered by every operation, a
  built filter covers the hashes it was built from, and a hash the filter denies is in no covered set.
\<close>

definition covers :: "key_filters \<Rightarrow> table_id \<Rightarrow> nat list \<Rightarrow> u64 set \<Rightarrow> bool" where
  "covers k table columns H \<longleftrightarrow> (\<forall>h\<in>H. may_contain table columns h k)"

locale negative_cache =
  fixes may :: "'k \<Rightarrow> 'h \<Rightarrow> 'f \<Rightarrow> bool"
    and built :: "'k \<Rightarrow> 'f \<Rightarrow> bool"
    and install :: "'k \<Rightarrow> 'h list \<Rightarrow> 'f \<Rightarrow> 'f"
    and learn :: "'k \<Rightarrow> 'h \<Rightarrow> 'f \<Rightarrow> 'f"
    and forget :: "'t \<Rightarrow> 'f \<Rightarrow> 'f"
    and of_table :: "'k \<Rightarrow> 't"
  assumes unbuilt: "\<not> built k f \<Longrightarrow> may k h f"
    and install_covers: "h \<in> set hs \<Longrightarrow> may k h (install k hs f)"
    and install_built: "built k (install k hs f)"
    and install_other: "k' \<noteq> k \<Longrightarrow> may k' h (install k hs f) = may k' h f"
    and learn_self: "may k h (learn k h f)"
    and learn_mono: "may k' h' f \<Longrightarrow> may k' h' (learn k h f)"
    and learn_built: "built k' (learn k h f) = built k' f"
    and forget_drops: "of_table k = t \<Longrightarrow> \<not> built k (forget t f)"
    and forget_keeps: "of_table k \<noteq> t \<Longrightarrow> may k h (forget t f) = may k h f"
begin

text \<open>The state of the cache between a write that builds it and a write that consults it.\<close>

lemma may_fold_learn: "may k' h f \<Longrightarrow> may k' h (fold (\<lambda>(k, h). learn k h) later f)"
  by (induction later arbitrary: f) (auto intro: learn_mono)

lemma learnt_covered: "(k, h) \<in> set later \<Longrightarrow> may k h (fold (\<lambda>(k, h). learn k h) later f)"
  by (induction later arbitrary: f) (auto intro: may_fold_learn learn_self)

lemma build_then_learn_covers:
  assumes "h \<in> set hs \<or> (k, h) \<in> set later"
  shows "may k h (fold (\<lambda>(k, h). learn k h) later (install k hs f))"
  using assms learnt_covered may_fold_learn install_covers by blast

lemma forget_never_denies:
  assumes "may k h f"
  shows "may k h (forget t f)"
  using assms unbuilt forget_drops forget_keeps by (cases "of_table k = t") auto

end

lemma map_of_filter_keys: "map_of (filter (\<lambda>(k, _). P k) xs) k = (if P k then map_of xs k else None)"
  by (induction xs) auto

interpretation kf: negative_cache
  "\<lambda>(t, c) h k. may_contain t c h k" "\<lambda>(t, c) k. is_built t c k" "\<lambda>(t, c) hs k. build t c hs k"
  "\<lambda>(t, c) h k. note_key t c h k" invalidate fst
proof (unfold_locales, goal_cases)
  case (8 k t f)
  then show ?case
    using map_of_filter_keys [of "\<lambda>(t', _). t' \<noteq> t" "filters f" k]
    by (auto simp: invalidate_def is_built_def case_prod_unfold)
next
  case (9 k t h f)
  then show ?case
    using map_of_filter_keys [of "\<lambda>(t', _). t' \<noteq> t" "filters f" k]
    by (auto simp: invalidate_def may_contain_def case_prod_unfold)
qed (auto simp: is_built_def may_contain_def build_def note_key_def filter_may_contain_def filter_add_def
    update_conv' Let_def split: option.splits prod.splits)

end
