(* ===== verification/Engine.thy ===== *)
theory Engine
  imports Btree Version Unique
begin

text \<open>
  The MVCC engine (engine.rs) over the pager, the B-tree, the commit log and the key filters. The
  state joins \<open>Inner\<close> with the fields of \<open>FerriteStorage\<close>; the mutex is the poison flag that a panic
  under the lock sets and every later call reports. The directory lock file is not part of the state.
\<close>

section \<open>State\<close>

definition MAX_TXN_ID :: u64 where
  "MAX_TXN_ID = word_of_nat (CLOG_DIRECTORY_CAPACITY * TXNS_PER_CLOG_PAGE)"

definition DEFAULT_CHECKPOINT_JOURNAL_BYTES :: u64 where
  "DEFAULT_CHECKPOINT_JOURNAL_BYTES = 64 * 1024 * 1024"

record storage_config =
  cache_pages :: nat
  fsync :: bool
  unique_filter_capacity :: nat
  cfg_checkpoint_bytes :: u64

definition storage_config_default :: storage_config where
  "storage_config_default = \<lparr>cache_pages = 1024, fsync = True, unique_filter_capacity = 2 ^ 20,
     cfg_checkpoint_bytes = DEFAULT_CHECKPOINT_JOURNAL_BYTES\<rparr>"

record table_ref_rec =
  tr_header :: page_id
  tr_root :: page_id

record txn_state =
  ts_snapshot :: snapshot
  ts_dropped :: "page_id list"
  ts_started :: nat

record engine =
  eng_pager :: pager
  eng_active :: "(u64 \<times> txn_state) list"
  eng_filters :: key_filters
  checkpoint_journal_bytes :: u64
  eng_poisoned :: bool

type_synonym 'a engine_op = "(engine, failure, 'a) op"

definition on_pager :: "'a pager_op \<Rightarrow> 'a engine_op" where
  "on_pager m s = (case m (eng_pager s) of (r, p) \<Rightarrow> (r, s\<lparr>eng_pager := p\<rparr>))"

definition set_filters :: "(key_filters \<Rightarrow> key_filters) \<Rightarrow> unit engine_op" where
  "set_filters f s = (Inr (), s\<lparr>eng_filters := f (eng_filters s)\<rparr>)"

text \<open>\<open>lock()\<close> around a whole call.\<close>

definition locked :: "'a engine_op \<Rightarrow> 'a engine_op" where
  "locked m s =
     (if eng_poisoned s then (Inl (Err (Storage ''storage lock poisoned by a previous panic'')), s)
      else case m s of
             (Inl Panic, s') \<Rightarrow> (Inl Panic, s'\<lparr>eng_poisoned := True\<rparr>)
           | (r, s') \<Rightarrow> (r, s'))"

definition open_with :: "bytes \<Rightarrow> bytes option \<Rightarrow> storage_config \<Rightarrow> engine res" where
  "open_with data journal config =
     bind_res (pager_open data journal (cache_pages config) (fsync config)) (\<lambda>pg.
       let engine = (\<lambda>p. \<lparr>eng_pager = p, eng_active = [],
             eng_filters = key_filters_new (unique_filter_capacity config),
             checkpoint_journal_bytes = cfg_checkpoint_bytes config, eng_poisoned = False\<rparr>)
       in if catalog_root (p_meta pg) = NO_PAGE then
            (case create pg of
               (Inl e, _) \<Rightarrow> Inl e
             | (Inr root, pg1) \<Rightarrow> Inr (engine (meta_mut (\<lambda>m. m\<lparr>catalog_root := root\<rparr>) pg1)))
          else Inr (engine pg))"

section \<open>Snapshots and visibility\<close>

definition snapshot_of :: "u64 \<Rightarrow> snapshot engine_op" where
  "snapshot_of txn s =
     (case map_of (eng_active s) txn of
        Some st \<Rightarrow> (Inr (ts_snapshot st), s)
      | None \<Rightarrow> (Inl (Err (TxnNotActive txn)), s))"

definition take_snapshot :: "u64 \<Rightarrow> engine \<Rightarrow> snapshot" where
  "take_snapshot txn s =
     \<lparr>snap_txn_id = txn, snap_xmin = next_txn_id (p_meta (eng_pager s)),
      active_at_start = sort (filter (\<lambda>t. t \<noteq> txn) (map fst (eng_active s)))\<rparr>"

text \<open>\<open>binary_search\<close> is membership: \<open>take_snapshot\<close> sorts the list.\<close>

definition visible_txn :: "snapshot \<Rightarrow> u64 \<Rightarrow> bool engine_op" where
  "visible_txn snap xid =
     (if xid = NO_TXN then ret_op False
      else if xid = snap_txn_id snap then ret_op True
      else if snap_xmin snap \<le> xid \<or> xid \<in> set (active_at_start snap) then ret_op False
      else on_pager (is_committed xid))"

definition is_aborted :: "u64 \<Rightarrow> bool engine_op" where
  "is_aborted xid s =
     (if xid = NO_TXN \<or> map_of (eng_active s) xid \<noteq> None then (Inr False, s)
      else bind_op (on_pager (is_committed xid)) (\<lambda>c. ret_op (\<not> c)) s)"

fun visible_version :: "snapshot \<Rightarrow> version list \<Rightarrow> bytes option engine_op" where
  "visible_version snap [] = ret_op None"
| "visible_version snap (v # vs) =
     bind_op (visible_txn snap (v_xmin v)) (\<lambda>created.
       if \<not> created then visible_version snap vs
       else bind_op (if v_xmax v \<noteq> NO_TXN then visible_txn snap (v_xmax v) else ret_op False) (\<lambda>deleted.
         if deleted then visible_version snap vs else ret_op (Some (v_bytes v))))"

definition oldest_of :: "snapshot \<Rightarrow> u64" where
  "oldest_of snap =
     min (case active_at_start snap of [] \<Rightarrow> snap_xmin snap | t # _ \<Rightarrow> t) (snap_xmin snap)"

definition prune_horizon :: "engine \<Rightarrow> u64" where
  "prune_horizon s =
     fold (\<lambda>(_, st) horizon. min horizon (oldest_of (ts_snapshot st))) (eng_active s)
       (next_txn_id (p_meta (eng_pager s)))"

fun prune_versions :: "u64 \<Rightarrow> version list \<Rightarrow> version list engine_op" where
  "prune_versions horizon [] = ret_op []"
| "prune_versions horizon (v # vs) =
     bind_op (is_aborted (v_xmin v)) (\<lambda>gone.
       if gone then prune_versions horizon vs
       else bind_op (if v_xmax v \<noteq> NO_TXN then is_aborted (v_xmax v) else ret_op False) (\<lambda>undone.
         let v' = (if undone then v\<lparr>v_xmax := NO_TXN\<rparr> else v)
         in bind_op (if v_xmax v' \<noteq> NO_TXN \<and> v_xmax v' < horizon
                     then on_pager (is_committed (v_xmax v')) else ret_op False) (\<lambda>dead.
           if dead then prune_versions horizon vs
           else bind_op (prune_versions horizon vs) (\<lambda>out. ret_op (v' # out)))))"

definition prune :: "version list \<Rightarrow> version list engine_op" where
  "prune chain s = prune_versions (prune_horizon s) chain s"

section \<open>Tables\<close>

definition eng_catalog_root :: "engine \<Rightarrow> page_id" where
  "eng_catalog_root s = catalog_root (p_meta (eng_pager s))"

definition read_table_ref :: "page_id \<Rightarrow> table_ref_rec engine_op" where
  "read_table_ref header =
     bind_op (on_pager (with_page header (\<lambda>p. bind_res (kind p) (\<lambda>k.
         if k \<noteq> PK_TableHeader
         then Inl (Err (Storage ''catalog entry does not point at a table header''))
         else bind_res (checked (slice (body p) 0 4)) (\<lambda>b. Inr (from_le_bytes b :: u32))))))
       (\<lambda>root. ret_op \<lparr>tr_header = header, tr_root = root\<rparr>)"

definition set_root :: "page_id \<Rightarrow> page_id \<Rightarrow> unit engine_op" where
  "set_root header root =
     on_pager (with_page_mut header (\<lambda>p. bind_res (put_body 0 (to_le_bytes root) p) (\<lambda>q. Inr ((), q))))"

definition alloc_row_id :: "page_id \<Rightarrow> u64 engine_op" where
  "alloc_row_id header =
     on_pager (with_page_mut header (\<lambda>p. bind_res (checked (slice (body p) 4 12)) (\<lambda>b.
       let next = (from_le_bytes b :: u64)
       in bind_res (put_body 4 (to_le_bytes (next + 1)) p) (\<lambda>q. Inr (next, q)))))"

definition table_not_found :: "table_id \<Rightarrow> failure" where
  "table_not_found table = Err (TableNotFound (dec_string (unat table)))"

definition table_ref :: "snapshot \<Rightarrow> table_id \<Rightarrow> table_ref_rec engine_op" where
  "table_ref snap table =
     bind_op (get_op eng_catalog_root) (\<lambda>root.
       bind_op (on_pager (lookup root (ucast table))) (\<lambda>found.
         case found of
           None \<Rightarrow> lift_op (Inl (table_not_found table))
         | Some data \<Rightarrow>
             bind_op (lift_op (decode_chain data)) (\<lambda>chain.
               bind_op (visible_version snap chain) (\<lambda>seen.
                 case seen of
                   None \<Rightarrow> lift_op (Inl (table_not_found table))
                 | Some bytes \<Rightarrow>
                     if length bytes \<noteq> 4 then lift_op (Inl (Err (Storage ''corrupt catalog entry'')))
                     else read_table_ref (from_le_bytes bytes)))))"

definition load_chain :: "page_id \<Rightarrow> u64 \<Rightarrow> version list engine_op" where
  "load_chain root key =
     bind_op (on_pager (lookup root key)) (\<lambda>found.
       case found of
         Some data \<Rightarrow> lift_op (decode_chain data)
       | None \<Rightarrow> ret_op [])"

definition store_chain :: "page_id option \<Rightarrow> page_id \<Rightarrow> u64 \<Rightarrow> version list \<Rightarrow> unit engine_op" where
  "store_chain owner root key chain =
     (if chain = [] then bind_op (on_pager (remove root key)) (\<lambda>_. ret_op ())
      else bind_op (on_pager (upsert root key (encode_chain chain))) (\<lambda>new_root.
        if new_root \<noteq> root then
          (case owner of
             Some header \<Rightarrow> set_root header new_root
           | None \<Rightarrow> on_pager (\<lambda>p. (Inr (), meta_mut (\<lambda>m. m\<lparr>catalog_root := new_root\<rparr>) p)))
        else ret_op ()))"

section \<open>Unique keys\<close>

fun constraint_version :: "u64 \<Rightarrow> version list \<Rightarrow> bytes option engine_op" where
  "constraint_version txn [] = ret_op None"
| "constraint_version txn (v # vs) =
     bind_op (is_aborted (v_xmin v)) (\<lambda>gone.
       if gone then constraint_version txn vs
       else bind_op (if v_xmax v = NO_TXN then ret_op True else is_aborted (v_xmax v)) (\<lambda>alive.
         if alive then ret_op (Some (v_bytes v))
         else bind_op (get_op (\<lambda>s. map_of (eng_active s) (v_xmax v) \<noteq> None)) (\<lambda>running.
           ret_op (if v_xmax v = txn \<or> \<not> running then None else Some (v_bytes v)))))"

definition checked_add_one :: "u64 \<Rightarrow> u64 option" where
  "checked_add_one k = (if k = -1 then None else Some (k + 1))"

definition ROW_IDS :: nat where
  "ROW_IDS = 2 ^ 64"

text \<open>
  The walk threads the variables the closure captures. Its fuel is the number of row ids: a longer
  walk has come back to a cursor it had before, on a tree that the walk does not change.
\<close>

fun walk_from ::
  "nat \<Rightarrow> u64 \<Rightarrow> page_id \<Rightarrow> (u64 \<Rightarrow> row \<Rightarrow> 'v \<Rightarrow> bool \<times> 'v) \<Rightarrow> u64 \<Rightarrow> 'v \<Rightarrow> 'v engine_op" where
  "walk_from fuel txn root visit cursor acc =
     (if fuel = 0 then lift_op (Inl Diverge)
      else bind_op (on_pager (seek root cursor)) (\<lambda>hit.
        case hit of
          None \<Rightarrow> ret_op acc
        | Some (key, data) \<Rightarrow>
            bind_op (lift_op (decode_chain data)) (\<lambda>chain.
              bind_op (constraint_version txn chain) (\<lambda>seen.
                bind_op
                  (case seen of
                     None \<Rightarrow> ret_op (True, acc)
                   | Some bytes \<Rightarrow> bind_op (lift_op (decode_row bytes)) (\<lambda>r. ret_op (visit key r acc)))
                  (\<lambda>(more, acc').
                    if \<not> more then ret_op acc'
                    else case checked_add_one key of
                           Some next \<Rightarrow> walk_from (fuel - 1) txn root visit next acc'
                         | None \<Rightarrow> ret_op acc')))))"

declare walk_from.simps [simp del]

definition walk_for_constraints ::
  "u64 \<Rightarrow> page_id \<Rightarrow> (u64 \<Rightarrow> row \<Rightarrow> 'v \<Rightarrow> bool \<times> 'v) \<Rightarrow> 'v \<Rightarrow> 'v engine_op" where
  "walk_for_constraints txn root visit acc = walk_from ROW_IDS txn root visit 0 acc"

definition collect_hash :: "hasher \<Rightarrow> unique_key \<Rightarrow> u64 \<Rightarrow> row \<Rightarrow> u64 list \<Rightarrow> bool \<times> u64 list" where
  "collect_hash finish k rid existing hs =
     (True, case extract_key k existing of
              Some key \<Rightarrow> List.insert (hash_key finish key) hs
            | None \<Rightarrow> hs)"

definition find_clash :: "unique_key \<Rightarrow> val list \<Rightarrow> u64 option \<Rightarrow> u64 \<Rightarrow> row \<Rightarrow> bool \<Rightarrow> bool \<times> bool" where
  "find_clash k wanted exclude rid existing clash =
     (if Some rid \<noteq> exclude \<and> key_matches k existing wanted then (False, True) else (True, clash))"

definition enforce_one ::
  "hasher \<Rightarrow> u64 \<Rightarrow> table_id \<Rightarrow> page_id \<Rightarrow> row \<Rightarrow> u64 option \<Rightarrow> unique_key \<Rightarrow> unit engine_op" where
  "enforce_one finish txn table root r exclude k =
     (case extract_key k r of
        None \<Rightarrow> ret_op ()
      | Some wanted \<Rightarrow>
          let hash = hash_key finish wanted
          in bind_op (\<lambda>s. if is_built table (uk_columns k) (eng_filters s) then (Inr (), s)
               else bind_op (walk_for_constraints txn root (collect_hash finish k) []) (\<lambda>hs.
                 set_filters (build table (uk_columns k) hs)) s) (\<lambda>_.
             bind_op (\<lambda>s. if may_contain table (uk_columns k) hash (eng_filters s)
                 then walk_for_constraints txn root (find_clash k wanted exclude) False s
                 else (Inr False, s)) (\<lambda>clash.
               if clash then lift_op (Inl (violation k wanted))
               else set_filters (note_key table (uk_columns k) hash))))"

definition enforce_unique ::
  "hasher \<Rightarrow> u64 \<Rightarrow> table_id \<Rightarrow> page_id \<Rightarrow> unique_key list \<Rightarrow> row \<Rightarrow> u64 option \<Rightarrow> unit engine_op" where
  "enforce_unique finish txn table root unique r exclude =
     for_each unique (enforce_one finish txn table root r exclude)"

section \<open>Write conflicts\<close>

definition writable_version :: "snapshot \<Rightarrow> version list \<Rightarrow> nat engine_op" where
  "writable_version snap chain =
     (case chain of
        [] \<Rightarrow> lift_op (Inl (Err RowNotFound))
      | newest # _ \<Rightarrow>
          bind_op (visible_txn snap (v_xmin newest)) (\<lambda>created.
            if \<not> created then lift_op (Inl (Err SerializationFailure))
            else if v_xmax newest = NO_TXN then ret_op 0
            else if v_xmax newest = snap_txn_id snap then lift_op (Inl (Err RowNotFound))
            else bind_op (visible_txn snap (v_xmax newest)) (\<lambda>deleted.
              if deleted then lift_op (Inl (Err RowNotFound))
              else bind_op (is_aborted (v_xmax newest)) (\<lambda>undone.
                if \<not> undone then lift_op (Inl (Err SerializationFailure)) else ret_op 0))))"

section \<open>Transactions\<close>

definition begin_txn :: "nat \<Rightarrow> u64 engine_op" where
  "begin_txn now = locked (\<lambda>s.
     let txn = next_txn_id (p_meta (eng_pager s));
         s1 = s\<lparr>eng_pager := meta_mut (\<lambda>m. m\<lparr>next_txn_id := txn + 1\<rparr>) (eng_pager s)\<rparr>
     in (Inr txn, s1\<lparr>eng_active := AList.update txn
           \<lparr>ts_snapshot = take_snapshot txn s1, ts_dropped = [], ts_started = now\<rparr> (eng_active s1)\<rparr>))"

definition reclaim_table :: "page_id \<Rightarrow> unit engine_op" where
  "reclaim_table header =
     bind_op (read_table_ref header) (\<lambda>r.
       bind_op (on_pager (destroy (tr_root r))) (\<lambda>_. on_pager (free_page header)))"

definition auto_checkpoint :: "unit engine_op" where
  "auto_checkpoint s =
     (if 0 < checkpoint_journal_bytes s \<and> checkpoint_journal_bytes s \<le> pager_journal_len (eng_pager s)
      then on_pager checkpoint s else (Inr (), s))"

definition commit :: "u64 \<Rightarrow> unit engine_op" where
  "commit txn = locked (\<lambda>s.
     case map_of (eng_active s) txn of
       None \<Rightarrow> (Inl (Err (TxnNotActive txn)), s)
     | Some state \<Rightarrow>
         bind_op (on_pager (mark_committed txn)) (\<lambda>_.
           bind_op (on_pager (commit_to_journal txn)) (\<lambda>_.
             bind_op (modify_op (\<lambda>s. s\<lparr>eng_active := AList.delete txn (eng_active s)\<rparr>)) (\<lambda>_.
               bind_op auto_checkpoint (\<lambda>_ s.
                 if ts_dropped state \<noteq> [] \<and> eng_active s = []
                 then for_each (ts_dropped state) reclaim_table s
                 else (Inr (), s))))) s)"

definition abort :: "u64 \<Rightarrow> unit engine_op" where
  "abort txn = locked (\<lambda>s.
     case map_of (eng_active s) txn of
       None \<Rightarrow> (Inl (Err (TxnNotActive txn)), s)
     | Some _ \<Rightarrow>
         on_pager (abort_to_journal txn) (s\<lparr>eng_active := AList.delete txn (eng_active s)\<rparr>))"

definition retake_snapshot :: "u64 \<Rightarrow> snapshot engine_op" where
  "retake_snapshot txn = locked (\<lambda>s.
     case map_of (eng_active s) txn of
       None \<Rightarrow> (Inl (Err (TxnNotActive txn)), s)
     | Some state \<Rightarrow>
         let snap = take_snapshot txn s
         in (Inr snap, s\<lparr>eng_active := AList.update txn (state\<lparr>ts_snapshot := snap\<rparr>) (eng_active s)\<rparr>))"

definition engine_checkpoint :: "unit engine_op" where
  "engine_checkpoint = locked (on_pager checkpoint)"

text \<open>The counters; \<open>now\<close> is the clock reading, and \<open>max_by_key\<close> keeps the last maximum.\<close>

record storage_stats =
  st_next_txn_id :: u64
  st_active_txns :: nat
  st_page_count :: u32
  st_oldest_txn :: "(u64 \<times> nat) option"

fun oldest_txn :: "nat \<Rightarrow> (u64 \<times> txn_state) list \<Rightarrow> (u64 \<times> nat) option" where
  "oldest_txn now [] = None"
| "oldest_txn now ((t, st) # xs) =
     (case oldest_txn now xs of
        None \<Rightarrow> Some (t, now - ts_started st)
      | Some (t', age) \<Rightarrow> if age < now - ts_started st then Some (t, now - ts_started st) else Some (t', age))"

definition stats :: "nat \<Rightarrow> storage_stats engine_op" where
  "stats now = locked (\<lambda>s.
     (Inr \<lparr>st_next_txn_id = next_txn_id (p_meta (eng_pager s)), st_active_txns = length (eng_active s),
       st_page_count = page_count (p_meta (eng_pager s)), st_oldest_txn = oldest_txn now (eng_active s)\<rparr>, s))"

section \<open>Rows\<close>

definition guard_unique ::
  "hasher \<Rightarrow> u64 \<Rightarrow> table_id \<Rightarrow> page_id \<Rightarrow> unique_key list \<Rightarrow> row \<Rightarrow> u64 option \<Rightarrow> unit engine_op" where
  "guard_unique finish txn table root unique r exclude =
     (if unique = [] then set_filters (invalidate table)
      else enforce_unique finish txn table root unique r exclude)"

definition insert_unique :: "hasher \<Rightarrow> u64 \<Rightarrow> table_id \<Rightarrow> row \<Rightarrow> unique_key list \<Rightarrow> u64 engine_op" where
  "insert_unique finish txn table r unique = locked (
     bind_op (snapshot_of txn) (\<lambda>snap.
       bind_op (table_ref snap table) (\<lambda>t.
         bind_op (guard_unique finish txn table (tr_root t) unique r None) (\<lambda>_.
           bind_op (alloc_row_id (tr_header t)) (\<lambda>row_id.
             bind_op (store_chain (Some (tr_header t)) (tr_root t) row_id [live txn (encode_row r)])
               (\<lambda>_. ret_op row_id))))))"

definition insert_row :: "hasher \<Rightarrow> u64 \<Rightarrow> table_id \<Rightarrow> row \<Rightarrow> u64 engine_op" where
  "insert_row finish txn table r = insert_unique finish txn table r []"

text \<open>\<open>chain[0]\<close> panics on an empty chain, which \<open>writable_version\<close> has refused.\<close>

definition superseded :: "u64 \<Rightarrow> bytes \<Rightarrow> version list \<Rightarrow> version list res" where
  "superseded txn bytes chain =
     (case chain of
        [] \<Rightarrow> Inl Panic
      | v # vs \<Rightarrow>
          if v_xmin v = txn then Inr (v\<lparr>v_bytes := bytes\<rparr> # vs)
          else Inr (live txn bytes # v\<lparr>v_xmax := txn\<rparr> # vs))"

definition deleted_by :: "u64 \<Rightarrow> version list \<Rightarrow> version list res" where
  "deleted_by txn chain = (case chain of [] \<Rightarrow> Inl Panic | v # vs \<Rightarrow> Inr (v\<lparr>v_xmax := txn\<rparr> # vs))"

definition update_unique :: "hasher \<Rightarrow> u64 \<Rightarrow> table_id \<Rightarrow> u64 \<Rightarrow> row \<Rightarrow> unique_key list \<Rightarrow> unit engine_op" where
  "update_unique finish txn table row_id new unique = locked (
     bind_op (snapshot_of txn) (\<lambda>snap.
       bind_op (table_ref snap table) (\<lambda>t.
         bind_op (guard_unique finish txn table (tr_root t) unique new (Some row_id)) (\<lambda>_.
           bind_op (load_chain (tr_root t) row_id) (\<lambda>chain0.
             bind_op (prune chain0) (\<lambda>chain.
               bind_op (writable_version snap chain) (\<lambda>_.
                 bind_op (lift_op (superseded txn (encode_row new) chain)) (\<lambda>chain'.
                   store_chain (Some (tr_header t)) (tr_root t) row_id chain'))))))))"

definition update_row :: "hasher \<Rightarrow> u64 \<Rightarrow> table_id \<Rightarrow> u64 \<Rightarrow> row \<Rightarrow> unit engine_op" where
  "update_row finish txn table row_id new = update_unique finish txn table row_id new []"

definition delete_row :: "u64 \<Rightarrow> table_id \<Rightarrow> u64 \<Rightarrow> unit engine_op" where
  "delete_row txn table row_id = locked (
     bind_op (snapshot_of txn) (\<lambda>snap.
       bind_op (table_ref snap table) (\<lambda>t.
         bind_op (load_chain (tr_root t) row_id) (\<lambda>chain0.
           bind_op (prune chain0) (\<lambda>chain.
             bind_op (writable_version snap chain) (\<lambda>_.
               bind_op (lift_op (deleted_by txn chain)) (\<lambda>chain'.
                 store_chain (Some (tr_header t)) (tr_root t) row_id chain')))))))"

definition get_row :: "u64 \<Rightarrow> table_id \<Rightarrow> u64 \<Rightarrow> row engine_op" where
  "get_row txn table row_id = locked (
     bind_op (snapshot_of txn) (\<lambda>snap.
       bind_op (table_ref snap table) (\<lambda>t.
         bind_op (load_chain (tr_root t) row_id) (\<lambda>chain.
           bind_op (visible_version snap chain) (\<lambda>seen.
             case seen of
               Some bytes \<Rightarrow> lift_op (decode_row bytes)
             | None \<Rightarrow> lift_op (Inl (Err RowNotFound)))))))"

section \<open>Scans\<close>

fun scan_from :: "nat \<Rightarrow> snapshot \<Rightarrow> page_id \<Rightarrow> u64 \<Rightarrow> (u64 \<times> row) option engine_op" where
  "scan_from fuel snap root cursor =
     (if fuel = 0 then lift_op (Inl Diverge)
      else bind_op (on_pager (seek root cursor)) (\<lambda>hit.
        case hit of
          None \<Rightarrow> ret_op None
        | Some (key, data) \<Rightarrow>
            bind_op (lift_op (decode_chain data)) (\<lambda>chain.
              bind_op (visible_version snap chain) (\<lambda>seen.
                case seen of
                  Some bytes \<Rightarrow> bind_op (lift_op (decode_row bytes)) (\<lambda>r. ret_op (Some (key, r)))
                | None \<Rightarrow>
                    (case checked_add_one key of
                       Some next \<Rightarrow> scan_from (fuel - 1) snap root next
                     | None \<Rightarrow> ret_op None)))))"

declare scan_from.simps [simp del]

definition scan_step :: "u64 \<Rightarrow> table_id \<Rightarrow> u64 \<Rightarrow> (u64 \<times> row) option engine_op" where
  "scan_step txn table from = locked (
     bind_op (snapshot_of txn) (\<lambda>snap.
       bind_op (table_ref snap table) (\<lambda>t. scan_from ROW_IDS snap (tr_root t) from)))"

record scan_state =
  sc_txn :: u64
  sc_table :: table_id
  next_key :: "u64 option"

definition scan :: "u64 \<Rightarrow> table_id \<Rightarrow> scan_state engine_op" where
  "scan txn table = locked (
     bind_op (snapshot_of txn) (\<lambda>snap.
       bind_op (table_ref snap table) (\<lambda>_.
         ret_op \<lparr>sc_txn = txn, sc_table = table, next_key = Some 0\<rparr>)))"

text \<open>\<open>Iterator::next\<close>: \<open>None\<close> ends the iteration.\<close>

definition scan_next :: "scan_state \<Rightarrow> engine \<Rightarrow> ((u64 \<times> row) res option \<times> scan_state) \<times> engine" where
  "scan_next sc s =
     (case next_key sc of
        None \<Rightarrow> ((None, sc), s)
      | Some from \<Rightarrow>
          (case scan_step (sc_txn sc) (sc_table sc) from s of
             (Inr (Some (key, r)), s') \<Rightarrow> ((Some (Inr (key, r)), sc\<lparr>next_key := checked_add_one key\<rparr>), s')
           | (Inr None, s') \<Rightarrow> ((None, sc\<lparr>next_key := None\<rparr>), s')
           | (Inl e, s') \<Rightarrow> ((Some (Inl e), sc\<lparr>next_key := None\<rparr>), s')))"

section \<open>Table creation and removal\<close>

definition creatable :: "snapshot \<Rightarrow> u64 \<Rightarrow> table_id \<Rightarrow> version list \<Rightarrow> unit engine_op" where
  "creatable snap txn table chain =
     (case chain of
        [] \<Rightarrow> ret_op ()
      | newest # _ \<Rightarrow>
          bind_op (visible_txn snap (v_xmin newest)) (\<lambda>created.
            if \<not> created then lift_op (Inl (Err SerializationFailure))
            else if v_xmax newest = NO_TXN
            then lift_op (Inl (Err (Storage (''table '' @ dec_string (unat table) @ '' already exists''))))
            else if v_xmax newest = txn then ret_op ()
            else bind_op (visible_txn snap (v_xmax newest)) (\<lambda>deleted.
              if \<not> deleted then lift_op (Inl (Err SerializationFailure)) else ret_op ())))"

definition init_header :: "page_id \<Rightarrow> page \<Rightarrow> (unit \<times> page) res" where
  "init_header root p =
     bind_res (put_body 0 (to_le_bytes root) p) (\<lambda>p1.
       bind_res (put_body 4 (to_le_bytes (1 :: u64)) p1) (\<lambda>p2. Inr ((), p2)))"

definition create_table :: "u64 \<Rightarrow> table_id \<Rightarrow> unit engine_op" where
  "create_table txn table = locked (
     bind_op (snapshot_of txn) (\<lambda>snap.
       bind_op (get_op eng_catalog_root) (\<lambda>root0.
         bind_op (load_chain root0 (ucast table)) (\<lambda>existing.
           bind_op (prune existing) (\<lambda>chain.
             bind_op (creatable snap txn table chain) (\<lambda>_.
               bind_op (set_filters (invalidate table)) (\<lambda>_.
                 bind_op (on_pager (alloc_page PK_TableHeader)) (\<lambda>header.
                   bind_op (on_pager create) (\<lambda>root.
                     bind_op (on_pager (with_page_mut header (init_header root))) (\<lambda>_.
                       bind_op (get_op eng_catalog_root) (\<lambda>root1.
                         store_chain None root1 (ucast table)
                           (live txn (to_le_bytes header) # chain))))))))))))"

definition not_found_as_table :: "table_id \<Rightarrow> 'a engine_op \<Rightarrow> 'a engine_op" where
  "not_found_as_table table m s =
     (case m s of
        (Inl (Err RowNotFound), s') \<Rightarrow> (Inl (table_not_found table), s')
      | (r, s') \<Rightarrow> (r, s'))"

definition drop_table :: "u64 \<Rightarrow> table_id \<Rightarrow> unit engine_op" where
  "drop_table txn table = locked (
     bind_op (snapshot_of txn) (\<lambda>snap.
       bind_op (get_op eng_catalog_root) (\<lambda>root.
         bind_op (load_chain root (ucast table)) (\<lambda>existing.
           bind_op (prune existing) (\<lambda>chain.
             if chain = [] then lift_op (Inl (table_not_found table))
             else bind_op (not_found_as_table table (writable_version snap chain)) (\<lambda>_.
               bind_op (lift_op (deleted_by txn chain)) (\<lambda>chain'.
                 bind_op (lift_op (case slice (v_bytes (hd chain')) 0 4 of
                       None \<Rightarrow> Inl (Err (Storage ''corrupt catalog entry''))
                     | Some b \<Rightarrow> Inr (from_le_bytes b :: u32))) (\<lambda>header.
                   bind_op (store_chain None root (ucast table) chain') (\<lambda>_.
                     bind_op (set_filters (invalidate table)) (\<lambda>_.
                       modify_op (\<lambda>s. case map_of (eng_active s) txn of
                           None \<Rightarrow> s
                         | Some st \<Rightarrow> s\<lparr>eng_active := AList.update txn
                             (st\<lparr>ts_dropped := ts_dropped st @ [header]\<rparr>) (eng_active s)\<rparr>)))))))))))"

end
