(* ===== verification/Mvcc.thy ===== *)
theory Mvcc
  imports Engine
begin

text \<open>
  Snapshot isolation. The engine's visibility, pruning and conflict checks, which read commit bits
  through the page cache, refine pure functions of the set of committed transactions; the pure
  functions give what each snapshot sees, and what writers, commits and aborts change of it.
\<close>

section \<open>Visibility as a function of the committed transactions\<close>

definition sees :: "(u64 \<Rightarrow> bool) \<Rightarrow> snapshot \<Rightarrow> u64 \<Rightarrow> bool" where
  "sees com snap xid \<longleftrightarrow> xid \<noteq> NO_TXN \<and>
     (xid = snap_txn_id snap \<or>
      xid < snap_xmin snap \<and> xid \<notin> set (active_at_start snap) \<and> com xid)"

definition sees_version :: "(u64 \<Rightarrow> bool) \<Rightarrow> snapshot \<Rightarrow> version \<Rightarrow> bool" where
  "sees_version com snap v \<longleftrightarrow> sees com snap (v_xmin v) \<and> \<not> sees com snap (v_xmax v)"

fun seen :: "(u64 \<Rightarrow> bool) \<Rightarrow> snapshot \<Rightarrow> version list \<Rightarrow> bytes option" where
  "seen com snap [] = None"
| "seen com snap (v # vs) = (if sees_version com snap v then Some (v_bytes v) else seen com snap vs)"

text \<open>A transaction that has ended without committing.\<close>

definition gone :: "(u64 \<Rightarrow> bool) \<Rightarrow> u64 set \<Rightarrow> u64 \<Rightarrow> bool" where
  "gone com act xid \<longleftrightarrow> xid \<noteq> NO_TXN \<and> xid \<notin> act \<and> \<not> com xid"

definition revived :: "(u64 \<Rightarrow> bool) \<Rightarrow> u64 set \<Rightarrow> version \<Rightarrow> version" where
  "revived com act v = (if gone com act (v_xmax v) then v\<lparr>v_xmax := NO_TXN\<rparr> else v)"

definition dead :: "(u64 \<Rightarrow> bool) \<Rightarrow> u64 \<Rightarrow> version \<Rightarrow> bool" where
  "dead com horizon v \<longleftrightarrow> v_xmax v \<noteq> NO_TXN \<and> v_xmax v < horizon \<and> com (v_xmax v)"

definition pruned :: "(u64 \<Rightarrow> bool) \<Rightarrow> u64 set \<Rightarrow> u64 \<Rightarrow> version list \<Rightarrow> version list" where
  "pruned com act horizon chain =
     filter (\<lambda>v. \<not> dead com horizon v) (map (revived com act) (filter (\<lambda>v. \<not> gone com act (v_xmin v)) chain))"

definition verdict :: "(u64 \<Rightarrow> bool) \<Rightarrow> u64 set \<Rightarrow> snapshot \<Rightarrow> version list \<Rightarrow> nat res" where
  "verdict com act snap chain =
     (case chain of
        [] \<Rightarrow> Inl (Err RowNotFound)
      | v # _ \<Rightarrow>
          if \<not> sees com snap (v_xmin v) then Inl (Err SerializationFailure)
          else if v_xmax v = NO_TXN then Inr 0
          else if sees com snap (v_xmax v) then Inl (Err RowNotFound)
          else if gone com act (v_xmax v) then Inr 0
          else Inl (Err SerializationFailure))"

section \<open>Refinement by the engine\<close>

abbreviation committed :: "engine \<Rightarrow> u64 \<Rightarrow> bool" where
  "committed s \<equiv> status (eng_pager s)"

abbreviation active :: "engine \<Rightarrow> u64 set" where
  "active s \<equiv> fst ` set (eng_active s)"

definition eng_ok :: "engine \<Rightarrow> bool" where
  "eng_ok s \<longleftrightarrow> (\<exists>U. clog_inv (eng_pager s) U)"

text \<open>A step that only moves pages between the cache and the files.\<close>

definition quiet :: "engine \<Rightarrow> engine \<Rightarrow> bool" where
  "quiet s s' \<longleftrightarrow> unseen (eng_pager s) (eng_pager s') \<and> eng_active s' = eng_active s \<and>
     eng_filters s' = eng_filters s \<and> checkpoint_journal_bytes s' = checkpoint_journal_bytes s \<and>
     eng_poisoned s' = eng_poisoned s"

lemma clog_inv_unseen: "clog_inv s U \<Longrightarrow> unseen s s' \<Longrightarrow> clog_inv s' U"
  using owns_unseen by (auto simp: clog_inv_def unseen_def)

lemma status_unseen:
  assumes "unseen s s'"
  shows "status s' = status s"
proof -
  have v: "view s' = view s" and m: "p_meta s' = p_meta s"
    using assms by (simp_all add: unseen_def)
  show ?thesis
    unfolding status_def fun_eq_iff v m by (rule allI, rule refl)
qed

lemma quiet_refl: "eng_ok s \<Longrightarrow> quiet s s"
  by (auto simp: quiet_def eng_ok_def clog_inv_def owns_def intro: unseen_refl)

lemma quiet_trans: "quiet s t \<Longrightarrow> quiet t u \<Longrightarrow> quiet s u"
  unfolding quiet_def using unseen_trans by auto

lemma quiet_ok: "quiet s s' \<Longrightarrow> eng_ok s \<Longrightarrow> eng_ok s'"
  unfolding quiet_def eng_ok_def using clog_inv_unseen by blast

lemma quiet_same:
  assumes "quiet s s'"
  shows "committed s' = committed s" and "eng_active s' = eng_active s"
    and "p_meta (eng_pager s') = p_meta (eng_pager s)" and "eng_filters s' = eng_filters s"
    and "view (eng_pager s') = view (eng_pager s)"
  using assms status_unseen by (simp_all add: quiet_def unseen_def)

text \<open>
  \<open>replies s m r\<close>: from \<open>s\<close>, and from every state it quietly leads to, \<open>m\<close> returns \<open>r\<close> and moves pages
  at most.
\<close>

definition replies :: "engine \<Rightarrow> 'a engine_op \<Rightarrow> 'a res \<Rightarrow> bool" where
  "replies s m r \<longleftrightarrow> (\<forall>t. quiet s t \<longrightarrow> (\<exists>u. m t = (r, u) \<and> quiet t u))"

named_theorems reply

lemma repliesD: "replies s m r \<Longrightarrow> eng_ok s \<Longrightarrow> \<exists>u. m s = (r, u) \<and> quiet s u"
  using quiet_refl by (auto simp: replies_def)

lemma replies_quiet: "replies s m r \<Longrightarrow> quiet s t \<Longrightarrow> replies t m r"
  using quiet_trans by (auto simp: replies_def)

lemma replies_fst: "replies s m r \<Longrightarrow> quiet s t \<Longrightarrow> fst (m t) = r"
  unfolding replies_def by (metis fst_conv)

lemma replies_lift [reply]: "eng_ok s \<Longrightarrow> replies s (lift_op r) r"
  using quiet_refl quiet_ok by (auto simp: replies_def lift_op_def)

lemma replies_ret [reply]: "eng_ok s \<Longrightarrow> replies s (ret_op x) (Inr x)"
  using quiet_refl quiet_ok by (auto simp: replies_def ret_op_def)

lemma replies_bind:
  assumes "replies s m (Inr x)" and "replies s (f x) r"
  shows "replies s (bind_op m f) r"
  unfolding replies_def
proof (intro allI impI)
  fix t
  assume t: "quiet s t"
  then obtain u where u: "m t = (Inr x, u)" "quiet t u"
    using assms(1) by (auto simp: replies_def)
  then obtain w where "f x u = (r, w)" "quiet u w"
    using assms(2) quiet_trans [OF t] by (auto simp: replies_def)
  then show "\<exists>u. bind_op m f t = (r, u) \<and> quiet t u"
    using u quiet_trans by (auto simp: bind_op_def)
qed

lemma replies_if [reply]:
  "(b \<Longrightarrow> replies s m r) \<Longrightarrow> (\<not> b \<Longrightarrow> replies s n q) \<Longrightarrow>
   replies s (if b then m else n) (if b then r else q)"
  by simp

lemma replies_status [reply]:
  assumes "eng_ok s"
  shows "replies s (on_pager (is_committed xid)) (Inr (committed s xid))"
  unfolding replies_def
proof (intro allI impI)
  fix t
  assume t: "quiet s t"
  obtain U where U: "clog_inv (eng_pager t) U"
    using quiet_ok [OF t assms] by (auto simp: eng_ok_def)
  obtain p where "is_committed xid (eng_pager t) = (Inr (committed t xid), p)" "unseen (eng_pager t) p"
    by (rule is_committed_status [OF U])
  then show "\<exists>u. on_pager (is_committed xid) t = (Inr (committed s xid), u) \<and> quiet t u"
    using quiet_same(1) [OF t] by (auto simp: on_pager_def quiet_def)
qed

lemma replies_visible_txn [reply]:
  assumes "eng_ok s"
  shows "replies s (visible_txn snap xid) (Inr (sees (committed s) snap xid))"
  using replies_ret [OF assms] replies_status [OF assms, of xid]
  by (auto simp: visible_txn_def sees_def leD not_le)

lemma active_mem: "map_of (eng_active s) t = Some st \<Longrightarrow> t \<in> active s"
  by (force dest: map_of_SomeD)

lemma map_of_active: "(map_of (eng_active s) xid \<noteq> None) = (xid \<in> active s)"
  by (simp add: map_of_eq_None_iff)

lemma replies_is_aborted [reply]:
  assumes "eng_ok s"
  shows "replies s (is_aborted xid) (Inr (gone (committed s) (active s) xid))"
  unfolding replies_def
proof (intro allI impI)
  fix t
  assume t: "quiet s t"
  have "replies s (bind_op (on_pager (is_committed xid)) (\<lambda>c. ret_op (\<not> c))) (Inr (\<not> committed s xid))"
    by (rule replies_bind [OF replies_status [OF assms] replies_ret [OF assms]])
  then obtain u where
    "bind_op (on_pager (is_committed xid)) (\<lambda>c. ret_op (\<not> c)) t = (Inr (\<not> committed s xid), u)" "quiet t u"
    using t by (auto simp: replies_def)
  then show "\<exists>u. is_aborted xid t = (Inr (gone (committed s) (active s) xid), u) \<and> quiet t u"
    using quiet_refl [OF quiet_ok [OF t assms]] map_of_active [of s xid] quiet_same(2) [OF t]
    by (auto simp: is_aborted_def gone_def)
qed

lemma replies_visible_version:
  assumes "eng_ok s"
  shows "replies s (visible_version snap chain) (Inr (seen (committed s) snap chain))"
proof (induction chain)
  case Nil
  show ?case
    unfolding visible_version.simps seen.simps by (rule replies_ret [OF assms])
next
  case (Cons v vs)
  have xmax: "replies s (if v_xmax v \<noteq> NO_TXN then visible_txn snap (v_xmax v) else ret_op False)
      (Inr (sees (committed s) snap (v_xmax v)))"
    using replies_visible_txn [OF assms, of snap "v_xmax v"] replies_ret [OF assms, of False]
    by (auto simp: sees_def)
  have rest: "replies s (if sees (committed s) snap (v_xmax v) then visible_version snap vs
      else ret_op (Some (v_bytes v))) (Inr (if sees (committed s) snap (v_xmax v)
        then seen (committed s) snap vs else Some (v_bytes v)))"
    using Cons replies_ret [OF assms, of "Some (v_bytes v)"] by simp
  have "replies s (bind_op (if v_xmax v \<noteq> NO_TXN then visible_txn snap (v_xmax v) else ret_op False)
      (\<lambda>deleted. if deleted then visible_version snap vs else ret_op (Some (v_bytes v))))
      (Inr (if sees (committed s) snap (v_xmax v) then seen (committed s) snap vs else Some (v_bytes v)))"
    by (rule replies_bind [OF xmax]) (rule rest)
  then show ?case
    unfolding visible_version.simps using Cons
    by (intro replies_bind [OF replies_visible_txn [OF assms]]) (auto simp: sees_version_def split: if_splits)
qed

lemma replies_prune_versions:
  assumes "eng_ok s"
  shows "replies s (prune_versions horizon chain) (Inr (pruned (committed s) (active s) horizon chain))"
proof (induction chain)
  case Nil
  show ?case
    unfolding prune_versions.simps using replies_ret [OF assms, of "[]"] by (simp only: pruned_def list.simps filter.simps)
next
  case (Cons v vs)
  let ?com = "committed s" and ?act = "active s"
  let ?v = "revived ?com ?act v" and ?out = "pruned ?com ?act horizon vs"
  have undone: "replies s (if v_xmax v \<noteq> NO_TXN then is_aborted (v_xmax v) else ret_op False)
      (Inr (gone ?com ?act (v_xmax v)))"
    using replies_is_aborted [OF assms, of "v_xmax v"] replies_ret [OF assms, of False]
    by (auto simp: gone_def)
  have dead: "replies s (if v_xmax ?v \<noteq> NO_TXN \<and> v_xmax ?v < horizon then on_pager (is_committed (v_xmax ?v))
      else ret_op False) (Inr (dead ?com horizon ?v))"
    using replies_status [OF assms, of "v_xmax ?v"] replies_ret [OF assms, of False]
    by (auto simp: dead_def)
  have "replies s (bind_op (prune_versions horizon vs) (\<lambda>out. ret_op (?v # out))) (Inr (?v # ?out))"
    by (rule replies_bind [OF Cons replies_ret [OF assms]])
  then have next_op: "replies s (if dead ?com horizon ?v then prune_versions horizon vs
      else bind_op (prune_versions horizon vs) (\<lambda>out. ret_op (?v # out)))
      (Inr (if dead ?com horizon ?v then ?out else ?v # ?out))"
    using Cons by simp
  have keep: "replies s (bind_op (if v_xmax ?v \<noteq> NO_TXN \<and> v_xmax ?v < horizon
        then on_pager (is_committed (v_xmax ?v)) else ret_op False) (\<lambda>dead.
      if dead then prune_versions horizon vs
      else bind_op (prune_versions horizon vs) (\<lambda>out. ret_op (?v # out))))
      (Inr (if dead ?com horizon ?v then ?out else ?v # ?out))"
    by (rule replies_bind [OF dead]) (rule next_op)
  have live: "replies s (bind_op (if v_xmax v \<noteq> NO_TXN then is_aborted (v_xmax v) else ret_op False) (\<lambda>undone.
         let v' = (if undone then v\<lparr>v_xmax := NO_TXN\<rparr> else v)
         in bind_op (if v_xmax v' \<noteq> NO_TXN \<and> v_xmax v' < horizon
                     then on_pager (is_committed (v_xmax v')) else ret_op False) (\<lambda>dead.
           if dead then prune_versions horizon vs
           else bind_op (prune_versions horizon vs) (\<lambda>out. ret_op (v' # out)))))
      (Inr (if dead ?com horizon ?v then ?out else ?v # ?out))"
  proof (rule replies_bind [OF undone])
  qed (unfold Let_def revived_def [symmetric], rule keep)
  show ?case
    unfolding prune_versions.simps
    by (rule replies_bind [OF replies_is_aborted [OF assms]])
      (use live Cons in \<open>auto simp: pruned_def\<close>)
qed

lemma replies_prune:
  assumes "eng_ok s"
  shows "replies s (prune chain) (Inr (pruned (committed s) (active s) (prune_horizon s) chain))"
proof -
  have "prune_horizon t = prune_horizon s" if "quiet s t" for t
    using quiet_same(2,3) [OF that] by (simp add: prune_horizon_def)
  then show ?thesis
    using replies_prune_versions [OF assms] by (simp add: prune_def replies_def)
qed

lemma replies_writable_version:
  assumes "eng_ok s"
  shows "replies s (writable_version snap chain) (verdict (committed s) (active s) snap chain)"
proof (cases chain)
  case Nil
  then show ?thesis
    using replies_lift [OF assms] by (simp add: writable_version_def verdict_def)
next
  case (Cons v vs)
  let ?com = "committed s" and ?act = "active s" and ?x = "v_xmax v"
  have last: "replies s (bind_op (is_aborted ?x) (\<lambda>undone.
      if \<not> undone then lift_op (Inl (Err SerializationFailure)) else ret_op 0))
      (if \<not> gone ?com ?act ?x then Inl (Err SerializationFailure) else Inr 0)"
    by (rule replies_bind [OF replies_is_aborted [OF assms] replies_if])
      (simp_all only: replies_lift [OF assms] replies_ret [OF assms])
  have del: "replies s (bind_op (visible_txn snap ?x) (\<lambda>deleted.
      if deleted then lift_op (Inl (Err RowNotFound)) else bind_op (is_aborted ?x) (\<lambda>undone.
        if \<not> undone then lift_op (Inl (Err SerializationFailure)) else ret_op 0)))
      (if sees ?com snap ?x then Inl (Err RowNotFound)
       else if \<not> gone ?com ?act ?x then Inl (Err SerializationFailure) else Inr 0)"
    by (rule replies_bind [OF replies_visible_txn [OF assms] replies_if])
      (simp_all only: replies_lift [OF assms] last)
  have own: "?x = snap_txn_id snap \<Longrightarrow> ?x \<noteq> NO_TXN \<Longrightarrow> sees ?com snap ?x"
    by (simp add: sees_def)
  show ?thesis
    unfolding writable_version_def Cons list.case
    by (rule replies_bind [OF replies_visible_txn [OF assms]])
      (use own del replies_lift [OF assms] replies_ret [OF assms] in \<open>auto simp: verdict_def\<close>)
qed

section \<open>What pruning keeps\<close>

lemma sees_gone: "gone com act xid \<Longrightarrow> snap_txn_id snap \<in> act \<Longrightarrow> \<not> sees com snap xid"
  by (auto simp: gone_def sees_def)

lemma sees_dead:
  assumes "dead com horizon v" and "horizon \<le> oldest_of snap" and "sorted (active_at_start snap)"
  shows "sees com snap (v_xmax v)"
proof -
  have lt: "v_xmax v < oldest_of snap"
    using assms(1,2) by (auto simp: dead_def)
  have "v_xmax v < t" if "t \<in> set (active_at_start snap)" for t
  proof (cases "active_at_start snap")
    case (Cons a as)
    then have "a \<le> t"
      using that assms(3) by auto
    moreover have "v_xmax v < a"
      using lt Cons by (auto simp: oldest_of_def)
    ultimately show ?thesis
      by simp
  qed (use that in simp)
  moreover have "v_xmax v < snap_xmin snap"
    using lt by (auto simp: oldest_of_def)
  ultimately show ?thesis
    using assms(1) by (auto simp: sees_def dead_def)
qed

lemma seen_pruned:
  assumes own: "snap_txn_id snap \<in> act" and "sorted (active_at_start snap)" and "horizon \<le> oldest_of snap"
  shows "seen com snap (pruned com act horizon chain) = seen com snap chain"
proof (induction chain)
  case Nil
  show ?case
    by (simp add: pruned_def)
next
  case (Cons v vs)
  have rev: "sees_version com snap (revived com act v) = sees_version com snap v"
    using sees_gone [OF _ own] by (auto simp: sees_version_def revived_def sees_def)
  have bytes: "v_bytes (revived com act v) = v_bytes v"
    by (simp add: revived_def)
  have "\<not> sees_version com snap v" if "gone com act (v_xmin v)"
    using sees_gone [OF that own] by (simp add: sees_version_def)
  moreover have "\<not> sees_version com snap v" if "dead com horizon (revived com act v)"
    using sees_dead [OF that assms(3,2)] rev by (simp add: sees_version_def)
  ultimately show ?case
    using Cons rev bytes by (auto simp: pruned_def)
qed

lemma fold_min_le:
  fixes h :: "'a \<Rightarrow> u64"
  shows "fold (\<lambda>x m. min m (h x)) xs a \<le> a \<and> (\<forall>x\<in>set xs. fold (\<lambda>x m. min m (h x)) xs a \<le> h x)"
proof (induction xs arbitrary: a)
  case (Cons x xs)
  then show ?case
    using Cons [of "min a (h x)"] by auto
qed simp

lemma prune_horizon_le:
  assumes "(t, st) \<in> set (eng_active s)"
  shows "prune_horizon s \<le> oldest_of (ts_snapshot st)"
proof -
  have "prune_horizon s = fold (\<lambda>x m. min m (oldest_of (ts_snapshot (snd x)))) (eng_active s)
      (next_txn_id (p_meta (eng_pager s)))"
    by (simp add: prune_horizon_def case_prod_unfold)
  then show ?thesis
    using fold_min_le [of "\<lambda>x. oldest_of (ts_snapshot (snd x))" "eng_active s"] assms by fastforce
qed

section \<open>The transactions of an engine\<close>

text \<open>
  Every open transaction has a snapshot of its own, taken when every other open transaction was
  either running, hence listed in it, or not yet begun, hence at or above its upper bound.
\<close>

definition snapshot_ok :: "engine \<Rightarrow> u64 \<Rightarrow> snapshot \<Rightarrow> bool" where
  "snapshot_ok s t snap \<longleftrightarrow> snap_txn_id snap = t \<and> sorted (active_at_start snap) \<and>
     snap_xmin snap \<le> next_txn_id (p_meta (eng_pager s)) \<and>
     (\<forall>u\<in>active s. u \<noteq> t \<longrightarrow> u \<in> set (active_at_start snap) \<or> snap_xmin snap \<le> u)"

definition txns_ok :: "engine \<Rightarrow> bool" where
  "txns_ok s \<longleftrightarrow> eng_ok s \<and> distinct (map fst (eng_active s)) \<and>
     NO_TXN < next_txn_id (p_meta (eng_pager s)) \<and>
     (\<forall>t\<in>active s. t \<noteq> NO_TXN \<and> t < next_txn_id (p_meta (eng_pager s)) \<and> \<not> committed s t) \<and>
     (\<forall>t. next_txn_id (p_meta (eng_pager s)) \<le> t \<longrightarrow> \<not> committed s t) \<and>
     (\<forall>t st. map_of (eng_active s) t = Some st \<longrightarrow> snapshot_ok s t (ts_snapshot st))"

lemma txns_okD:
  assumes "txns_ok s" and "map_of (eng_active s) t = Some st"
  shows "eng_ok s" and "snapshot_ok s t (ts_snapshot st)" and "t \<in> active s"
  using assms by (auto simp: txns_ok_def dest: map_of_SomeD intro: rev_image_eqI)

text \<open>
  C2: pruning a version chain, which every write does, changes nothing for any open transaction:
  each reads the same version from the pruned chain as from the original one.
\<close>

theorem prune_preserves_reads:
  assumes "txns_ok s" and "map_of (eng_active s) t = Some st"
  shows "\<exists>chain' s'. prune chain s = (Inr chain', s') \<and>
    fst (visible_version (ts_snapshot st) chain' s') = fst (visible_version (ts_snapshot st) chain s)"
proof -
  let ?snap = "ts_snapshot st" and ?chain = "pruned (committed s) (active s) (prune_horizon s) chain"
  have ok: "eng_ok s" and "snap_txn_id ?snap \<in> active s" and "sorted (active_at_start ?snap)"
    using txns_okD [OF assms] by (auto simp: snapshot_ok_def)
  then have same: "seen (committed s) ?snap ?chain = seen (committed s) ?snap chain"
    using prune_horizon_le [OF map_of_SomeD [OF assms(2)]] by (intro seen_pruned)
  obtain s' where s': "prune chain s = (Inr ?chain, s')" "quiet s s'"
    using repliesD [OF replies_prune [OF ok] ok] by blast
  have "fst (visible_version ?snap c u) = Inr (seen (committed s) ?snap c)" if "quiet s u" for c u
    by (rule replies_fst [OF replies_visible_version [OF ok] that])
  then show ?thesis
    using s' same quiet_refl [OF ok] by auto
qed

section \<open>Begin, abort, commit\<close>

lemma keys_update_new: "k \<notin> fst ` set al \<Longrightarrow> fst ` set (AList.update k v al) = insert k (fst ` set al)"
  by (induction al) auto

lemma keys_delete: "fst ` set (AList.delete k al) = fst ` set al - {k}"
  by (auto simp: AList.delete_eq)

lemma clog_inv_next_txn: "clog_inv p U \<Longrightarrow> clog_inv (meta_mut (\<lambda>m. m\<lparr>next_txn_id := n\<rparr>) p) U"
  using inv_clog [of p] by (auto simp: clog_inv_def owns_def intro: meta_mut_inv)

lemma status_next_txn [simp]: "status (meta_mut (\<lambda>m. m\<lparr>next_txn_id := n\<rparr>) p) = status p"
  unfolding status_def fun_eq_iff meta_mut_view meta_mut_meta by simp

lemma status_catalog_root [simp]: "status (meta_mut (\<lambda>m. m\<lparr>catalog_root := n\<rparr>) p) = status p"
  unfolding status_def fun_eq_iff meta_mut_view meta_mut_meta by simp

lemma u64_less_Suc: "(w :: u64) \<noteq> -1 \<Longrightarrow> w < w + 1"
proof -
  assume "w \<noteq> -1"
  then have "1 + w \<noteq> 0"
    by (metis add.commute add_eq_0_iff2)
  then show ?thesis
    using unatSuc [of w] by (simp add: word_less_nat_alt add.commute)
qed

lemma begin_txn_effect:
  assumes ok: "txns_ok s" and "\<not> eng_poisoned s" and room: "next_txn_id (p_meta (eng_pager s)) \<noteq> -1"
  obtains s' where "begin_txn now s = (Inr (next_txn_id (p_meta (eng_pager s))), s')" and "txns_ok s'"
    and "committed s' = committed s"
    and "\<forall>t. t \<noteq> next_txn_id (p_meta (eng_pager s)) \<longrightarrow> map_of (eng_active s') t = map_of (eng_active s) t"
proof -
  let ?n = "next_txn_id (p_meta (eng_pager s))"
  let ?s1 = "s\<lparr>eng_pager := meta_mut (\<lambda>m. m\<lparr>next_txn_id := ?n + 1\<rparr>) (eng_pager s)\<rparr>"
  let ?st = "\<lparr>ts_snapshot = take_snapshot ?n ?s1, ts_dropped = [], ts_started = now\<rparr>"
  let ?s' = "?s1\<lparr>eng_active := AList.update ?n ?st (eng_active s)\<rparr>"
  have eq: "begin_txn now s = (Inr ?n, ?s')"
    using assms(2) by (simp add: begin_txn_def locked_def Let_def)
  have lt: "?n < ?n + 1"
    by (rule u64_less_Suc [OF room])
  have below: "t < ?n" "t \<noteq> NO_TXN" "\<not> committed s t" if "t \<in> active s" for t
    using ok that by (auto simp: txns_ok_def)
  have fresh: "?n \<notin> active s"
    using below(1) by blast
  have act: "active ?s' = insert ?n (active s)"
    using keys_update_new [OF fresh] by simp
  have eok: "eng_ok ?s'"
    using ok clog_inv_next_txn by (fastforce simp: txns_ok_def eng_ok_def)
  have snaps: "snapshot_ok ?s' t (ts_snapshot st)" if "map_of (eng_active ?s') t = Some st" for t st
  proof (cases "t = ?n")
    case True
    then have "st = ?st"
      using that by (simp add: update_conv')
    then show ?thesis
      using True act by (auto simp: snapshot_ok_def take_snapshot_def)
  next
    case False
    then have old: "snapshot_ok s t (ts_snapshot st)"
      using that ok by (simp add: update_conv' txns_ok_def)
    then have le: "snap_xmin (ts_snapshot st) \<le> ?n"
      by (simp add: snapshot_ok_def)
    then show ?thesis
      using old less_imp_le [OF lt] act unfolding snapshot_ok_def by (auto intro: order_trans)
  qed
  have "txns_ok ?s'"
    unfolding txns_ok_def
  proof (intro conjI)
    show "\<forall>t\<in>active ?s'. t \<noteq> NO_TXN \<and> t < next_txn_id (p_meta (eng_pager ?s')) \<and> \<not> committed ?s' t"
      using below lt ok unfolding act by (auto simp: txns_ok_def intro: less_trans)
    show "\<forall>t. next_txn_id (p_meta (eng_pager ?s')) \<le> t \<longrightarrow> \<not> committed ?s' t"
      using ok lt by (auto simp: txns_ok_def)
  qed (use ok eok snaps lt in \<open>auto simp: txns_ok_def distinct_update\<close>)
  then show ?thesis
    by (intro that [OF eq]) (simp_all add: update_conv')
qed

lemma snapshot_ok_fewer:
  assumes "snapshot_ok s t snap" and "active s' \<subseteq> active s"
    and "next_txn_id (p_meta (eng_pager s)) \<le> next_txn_id (p_meta (eng_pager s'))"
  shows "snapshot_ok s' t snap"
  using assms unfolding snapshot_ok_def by (blast intro: order_trans)

text \<open>Ending transaction \<open>t\<close>, with or without a commit.\<close>

lemma txns_ok_ended:
  assumes ok: "txns_ok s" and t: "t \<in> active s" and "eng_ok s'"
    and act: "eng_active s' = AList.delete t (eng_active s)"
    and n: "next_txn_id (p_meta (eng_pager s')) = next_txn_id (p_meta (eng_pager s))"
    and com: "\<And>x. x \<noteq> t \<Longrightarrow> committed s' x = committed s x"
  shows "txns_ok s'"
proof -
  have sub: "active s' = active s - {t}"
    using keys_delete act by metis
  have "snapshot_ok s' u (ts_snapshot st)" if "map_of (eng_active s') u = Some st" for u st
  proof -
    have "map_of (eng_active s) u = Some st"
      using that by (simp add: act delete_conv' split: if_splits)
    then have "snapshot_ok s u (ts_snapshot st)"
      using ok by (simp add: txns_ok_def)
    then show ?thesis
      by (rule snapshot_ok_fewer) (simp_all add: sub n Diff_subset)
  qed
  moreover have "\<not> committed s' u" if "u \<in> active s'" for u
    using that ok com [of u] by (auto simp: sub txns_ok_def)
  moreover have "\<not> committed s' u" if "next_txn_id (p_meta (eng_pager s)) \<le> u" for u
  proof -
    have "u \<noteq> t"
      using that ok t by (auto simp: txns_ok_def)
    then show ?thesis
      using that ok com [of u] by (simp add: txns_ok_def)
  qed
  moreover have "u \<noteq> NO_TXN \<and> u < next_txn_id (p_meta (eng_pager s))" if "u \<in> active s'" for u
    using that ok unfolding sub by (auto simp: txns_ok_def)
  moreover have "distinct (map fst (eng_active s'))" "NO_TXN < next_txn_id (p_meta (eng_pager s))"
    using ok by (simp_all add: txns_ok_def act distinct_delete)
  ultimately show ?thesis
    using assms(3) unfolding txns_ok_def n by blast
qed

lemma abort_effect:
  assumes ok: "txns_ok s" and "\<not> eng_poisoned s" and t: "map_of (eng_active s) t = Some st"
  obtains s' where "abort t s = (Inr (), s')" and "txns_ok s'" and "committed s' = committed s"
    and "eng_active s' = AList.delete t (eng_active s)"
proof -
  obtain U where U: "clog_inv (eng_pager s) U"
    using ok by (auto simp: txns_ok_def eng_ok_def)
  then have inv: "pager_inv (eng_pager s)"
    by (simp add: clog_inv_def owns_def)
  obtain p where p: "abort_to_journal t (eng_pager s) = (Inr (), p)" "unseen (eng_pager s) p"
    by (rule abort_to_journal_unseen [OF inv])
  let ?s' = "s\<lparr>eng_active := AList.delete t (eng_active s), eng_pager := p\<rparr>"
  have "abort t s = (Inr (), ?s')"
    using assms(2) t p(1) by (simp add: abort_def locked_def on_pager_def)
  moreover have "status p = committed s" "p_meta p = p_meta (eng_pager s)" "clog_inv p U"
    using p(2) status_unseen clog_inv_unseen [OF U] by (auto simp: unseen_def)
  moreover from this have "txns_ok ?s'"
    using t by (intro txns_ok_ended [OF ok, of t]) (auto simp: eng_ok_def dest: map_of_SomeD intro: rev_image_eqI)
  ultimately show ?thesis
    using that by simp
qed

lemma max_txn_segment:
  assumes "t < MAX_TXN_ID"
  shows "unat t div 65344 < CLOG_DIRECTORY_CAPACITY"
proof -
  have "unat t < 2032 * 65344"
    using assms by (simp add: MAX_TXN_ID_def CLOG_DIRECTORY_CAPACITY_def layout word_less_nat_alt)
  then have "unat t div 65344 < 2032"
    by (rule less_mult_imp_div_less)
  then show ?thesis
    by (simp add: CLOG_DIRECTORY_CAPACITY_def layout)
qed

text \<open>Room in the file for every segment of the commit log.\<close>

definition clog_room :: "engine \<Rightarrow> bool" where
  "clog_room s \<longleftrightarrow> unat (page_count (p_meta (eng_pager s))) + CLOG_DIRECTORY_CAPACITY < 2 ^ 32"

lemma auto_checkpoint_quiet:
  assumes "pager_inv (eng_pager s)"
  obtains s' where "auto_checkpoint s = (Inr (), s')" and "quiet s s'"
proof -
  obtain p where "checkpoint (eng_pager s) = (Inr (), p)" "unseen (eng_pager s) p"
    by (rule checkpoint_unseen [OF assms])
  then have "\<exists>s'. auto_checkpoint s = (Inr (), s') \<and> quiet s s'"
    using unseen_refl [OF assms] by (simp add: auto_checkpoint_def on_pager_def quiet_def)
  then show ?thesis
    using that by blast
qed

lemma commit_effect:
  assumes ok: "txns_ok s" and np: "\<not> eng_poisoned s" and t: "map_of (eng_active s) t = Some st"
    and "t < MAX_TXN_ID" and "clog_room s" and drop: "ts_dropped st = []"
  obtains s' where "commit t s = (Inr (), s')" and "txns_ok s'"
    and "committed s' = (committed s)(t := True)" and "eng_active s' = AList.delete t (eng_active s)"
proof -
  obtain U where U: "clog_inv (eng_pager s) U"
    using ok by (auto simp: txns_ok_def eng_ok_def)
  note seg = max_txn_segment [OF assms(4)]
  have room: "unat (page_count (p_meta (eng_pager s))) +
      (Suc (unat t div 65344) - length (clog_pages (p_meta (eng_pager s)))) < 2 ^ 32"
    using seg assms(5) by (simp add: clog_room_def)
  obtain p1 V where p1: "mark_committed t (eng_pager s) = (Inr (), p1)" and V: "clog_inv p1 V"
    and st1: "status p1 = (committed s)(t := True)"
    and n1: "next_txn_id (p_meta p1) = next_txn_id (p_meta (eng_pager s))"
    by (rule mark_committed_status [OF U seg room]) blast
  have inv1: "pager_inv p1"
    using V by (simp add: clog_inv_def owns_def)
  obtain p2 where p2: "commit_to_journal t p1 = (Inr (), p2)" "unseen p1 p2"
    by (rule commit_to_journal_unseen [OF inv1])
  let ?s2 = "s\<lparr>eng_pager := p2, eng_active := AList.delete t (eng_active s)\<rparr>"
  have inv2: "pager_inv (eng_pager ?s2)"
    using p2(2) by (simp add: unseen_def)
  obtain s' where s': "auto_checkpoint ?s2 = (Inr (), s')" "quiet ?s2 s'"
    by (rule auto_checkpoint_quiet [OF inv2])
  have "commit t s = (Inr (), s')"
    using np t p1 p2(1) s'(1) drop
    by (simp add: commit_def locked_def bind_op_def on_pager_def modify_op_def)
  moreover have com: "committed s' = (committed s)(t := True)"
    using quiet_same(1) [OF s'(2)] status_unseen [OF p2(2)] st1 by simp
  moreover have act: "eng_active s' = AList.delete t (eng_active s)"
    using quiet_same(2) [OF s'(2)] by simp
  moreover have "txns_ok s'"
  proof (rule txns_ok_ended [OF ok _ _ act])
    show "t \<in> active s"
      using t by (auto dest: map_of_SomeD intro: rev_image_eqI)
    have "eng_ok ?s2"
      using clog_inv_unseen [OF V p2(2)] by (auto simp: eng_ok_def)
    then show "eng_ok s'"
      by (rule quiet_ok [OF s'(2)])
    show "next_txn_id (p_meta (eng_pager s')) = next_txn_id (p_meta (eng_pager s))"
      using quiet_same(3) [OF s'(2)] p2(2) n1 by (simp add: unseen_def)
  qed (simp add: com)
  ultimately show ?thesis
    using that by blast
qed

lemma retake_snapshot_effect:
  assumes ok: "txns_ok s" and "\<not> eng_poisoned s" and t: "map_of (eng_active s) t = Some st"
  obtains s' where "retake_snapshot t s = (Inr (take_snapshot t s), s')" and "txns_ok s'"
    and "committed s' = committed s"
    and "map_of (eng_active s') = (map_of (eng_active s))(t \<mapsto> st\<lparr>ts_snapshot := take_snapshot t s\<rparr>)"
proof -
  let ?s' = "s\<lparr>eng_active := AList.update t (st\<lparr>ts_snapshot := take_snapshot t s\<rparr>) (eng_active s)\<rparr>"
  have act: "active ?s' = active s"
    using t by (metis (no_types, lifting) engine.select_convs(2) engine.surjective engine.update_convs(2)
        keys_update_present list.set_map)
  have "snapshot_ok ?s' u (ts_snapshot v)" if "map_of (eng_active ?s') u = Some v" for u v
  proof (cases "u = t")
    case True
    then have "ts_snapshot v = take_snapshot t s"
      using that by (auto simp: update_conv')
    then show ?thesis
      using True act by (auto simp: snapshot_ok_def take_snapshot_def)
  next
    case False
    then have "snapshot_ok s u (ts_snapshot v)"
      using ok that by (simp add: update_conv' txns_ok_def)
    then show ?thesis
      using act by (simp add: snapshot_ok_def)
  qed
  then have "txns_ok ?s'"
    using ok act unfolding txns_ok_def by (simp add: distinct_update eng_ok_def)
  moreover have "retake_snapshot t s = (Inr (take_snapshot t s), ?s')"
    using assms(2) t by (simp add: retake_snapshot_def locked_def Let_def)
  ultimately show ?thesis
    using that by (simp add: update_conv')
qed

section \<open>Interleavings of transactions\<close>

text \<open>
  The steps that open transactions take between two reads of another one. A quiet step stands for
  any read. A commit is one of a transaction that dropped no table.
\<close>

inductive txn_step :: "engine \<Rightarrow> engine \<Rightarrow> bool" where
  Begin: "begin_txn now s = (Inr t, s') \<Longrightarrow> next_txn_id (p_meta (eng_pager s)) < MAX_TXN_ID \<Longrightarrow> txn_step s s'"
| Abort: "abort t s = (Inr (), s') \<Longrightarrow> txn_step s s'"
| Commit: "commit t s = (Inr (), s') \<Longrightarrow> map_of (eng_active s) t = Some st \<Longrightarrow> ts_dropped st = [] \<Longrightarrow>
    t < MAX_TXN_ID \<Longrightarrow> clog_room s \<Longrightarrow> txn_step s s'"
| Snapshot: "retake_snapshot t s = (Inr snap, s') \<Longrightarrow> txn_step s s'"
| Read: "quiet s s' \<Longrightarrow> txn_step s s'"

inductive_cases txn_stepE: "txn_step s s'"

lemma locked_Inr: "locked m s = (Inr x, s') \<Longrightarrow> \<not> eng_poisoned s"
  by (auto simp: locked_def split: if_splits)

lemma abort_active: "abort t s = (Inr (), s') \<Longrightarrow> \<exists>st. map_of (eng_active s) t = Some st"
  by (auto simp: abort_def locked_def split: if_splits option.splits)

lemma retake_active: "retake_snapshot t s = (Inr snap, s') \<Longrightarrow> \<exists>st. map_of (eng_active s) t = Some st"
  by (auto simp: retake_snapshot_def locked_def split: if_splits option.splits)

lemma txns_ok_quiet:
  assumes ok: "txns_ok s" and q: "quiet s s'"
  shows "txns_ok s'"
proof -
  have "eng_ok s'"
    using ok quiet_ok [OF q] by (simp add: txns_ok_def)
  then show ?thesis
    using ok quiet_same(1,2,3) [OF q] by (simp add: txns_ok_def snapshot_ok_def)
qed

text \<open>What one step does to the committed transactions and to the open ones.\<close>

lemma txn_step_effect:
  assumes ok: "txns_ok s" and step: "txn_step s s'"
  shows "txns_ok s'"
    and "committed s' = committed s \<or>
      (\<exists>t\<in>active s. committed s' = (committed s)(t := True) \<and> t \<notin> active s')"
proof -
  have "txns_ok s' \<and> (committed s' = committed s \<or>
      (\<exists>t\<in>active s. committed s' = (committed s)(t := True) \<and> t \<notin> active s'))"
    using step
  proof cases
    case (Begin now t)
    have np: "\<not> eng_poisoned s"
      using Begin(1) unfolding begin_txn_def by (rule locked_Inr)
    have room: "next_txn_id (p_meta (eng_pager s)) \<noteq> -1"
      using Begin(2) by (metis word_order.extremum_strict)
    show ?thesis
      by (rule begin_txn_effect [OF ok np room, of now]) (use Begin(1) in auto)
  next
    case (Abort t)
    then obtain st where st: "map_of (eng_active s) t = Some st" and np: "\<not> eng_poisoned s"
      using abort_active locked_Inr by (fastforce simp: abort_def)
    show ?thesis
      by (rule abort_effect [OF ok np st]) (use Abort in auto)
  next
    case (Commit t st)
    have np: "\<not> eng_poisoned s"
      using Commit(1) unfolding commit_def by (rule locked_Inr)
    have act: "t \<in> active s"
      by (rule active_mem [OF Commit(2)])
    show ?thesis
      by (rule commit_effect [OF ok np Commit(2,4,5,3)])
        (use Commit(1) act keys_delete [of t "eng_active s"] in auto)
  next
    case (Snapshot t snap)
    then obtain st where st: "map_of (eng_active s) t = Some st" and np: "\<not> eng_poisoned s"
      using retake_active locked_Inr by (fastforce simp: retake_snapshot_def)
    show ?thesis
      by (rule retake_snapshot_effect [OF ok np st]) (use Snapshot in auto)
  next
    case Read
    then show ?thesis
      using txns_ok_quiet [OF ok] quiet_same(1) by auto
  qed
  then show "txns_ok s'" "committed s' = committed s \<or>
      (\<exists>t\<in>active s. committed s' = (committed s)(t := True) \<and> t \<notin> active s')"
    by auto
qed

lemma seen_commit_other:
  assumes "snapshot_ok s t snap" and "u \<in> active s" and "u \<noteq> t"
  shows "seen (com(u := True)) snap chain = seen com snap chain"
proof -
  have "u \<in> set (active_at_start snap) \<or> snap_xmin snap \<le> u" "snap_txn_id snap = t"
    using assms by (auto simp: snapshot_ok_def)
  then have "sees (com(u := True)) snap x = sees com snap x" for x
    using assms(3) by (auto simp: sees_def)
  then show ?thesis
    by (induction chain) (auto simp: sees_version_def)
qed

lemma seen_txn_step:
  assumes ok: "txns_ok s" and "txn_step s s'" and t: "map_of (eng_active s) t = Some st" and "t \<in> active s'"
  shows "seen (committed s') (ts_snapshot st) chain = seen (committed s) (ts_snapshot st) chain"
  using txn_step_effect(2) [OF ok assms(2)]
proof
  assume "\<exists>u\<in>active s. committed s' = (committed s)(u := True) \<and> u \<notin> active s'"
  then obtain u where "u \<in> active s" "committed s' = (committed s)(u := True)" "u \<noteq> t"
    using assms(4) by blast
  then show ?thesis
    using seen_commit_other [OF txns_okD(2) [OF ok t]] by simp
qed simp

text \<open>Runs during which transaction \<open>t\<close> stays open with the same snapshot.\<close>

definition pinned_step :: "u64 \<Rightarrow> snapshot \<Rightarrow> engine \<Rightarrow> engine \<Rightarrow> bool" where
  "pinned_step t snap s s' \<longleftrightarrow> txn_step s s' \<and>
     (\<exists>st. map_of (eng_active s) t = Some st \<and> ts_snapshot st = snap) \<and>
     (\<exists>st. map_of (eng_active s') t = Some st \<and> ts_snapshot st = snap)"

lemma pinned_run:
  assumes "(pinned_step t snap)\<^sup>*\<^sup>* s s'" and "txns_ok s"
  shows "txns_ok s' \<and> seen (committed s') snap chain = seen (committed s) snap chain"
  using assms
proof (induction rule: rtranclp_induct)
  case base
  then show ?case by simp
next
  case (step s1 s2)
  then obtain st where st: "map_of (eng_active s1) t = Some st" "ts_snapshot st = snap"
    and "t \<in> active s2" and "txn_step s1 s2"
    using active_mem unfolding pinned_step_def by blast
  then show ?case
    using step txn_step_effect(1) [of s1 s2] seen_txn_step [of s1 s2 t st chain] by auto
qed


section \<open>Writes\<close>

text \<open>A version chain is written by \<open>t\<close> when its newest version is one that \<open>t\<close> created or deleted.\<close>

lemma not_sees_active:
  assumes ok: "txns_ok s" and u: "map_of (eng_active s) u = Some su" and "t \<in> active s" and "t \<noteq> u"
  shows "\<not> sees (committed s) (ts_snapshot su) t"
proof -
  have "snap_txn_id (ts_snapshot su) = u" "\<not> committed s t"
    using txns_okD(2) [OF ok u] assms(3) ok by (auto simp: snapshot_ok_def txns_ok_def)
  then show ?thesis
    using assms(4) by (simp add: sees_def)
qed

lemma verdict_InrD:
  assumes "verdict com act snap chain = Inr i"
  obtains v vs where "chain = v # vs" and "sees com snap (v_xmin v)"
    and "v_xmax v = NO_TXN \<or> gone com act (v_xmax v)"
  using assms by (auto simp: verdict_def split: list.splits if_splits)

lemma seen_superseded:
  assumes v: "verdict com act snap chain = Inr i" and c: "superseded t bytes chain = Inr chain'"
    and t: "t \<noteq> NO_TXN" and other: "\<not> sees com snap' t" "snap_txn_id snap' \<in> act"
  shows "seen com snap' chain' = seen com snap' chain"
proof -
  obtain w ws where w: "chain = w # ws" "v_xmax w = NO_TXN \<or> gone com act (v_xmax w)"
    by (rule verdict_InrD [OF v])
  have "\<not> sees com snap' (v_xmax w)"
    using w(2) sees_gone [OF _ other(2)] by (auto simp: sees_def)
  then show ?thesis
    using c other(1) by (auto simp: w(1) superseded_def live_def sees_version_def split: if_splits)
qed

lemma seen_own_superseded:
  assumes v: "verdict com act snap chain = Inr i" and c: "superseded t bytes chain = Inr chain'"
    and t: "t \<noteq> NO_TXN" "snap_txn_id snap = t" "t \<in> act"
  shows "seen com snap chain' = Some bytes"
proof -
  obtain w ws where w: "chain = w # ws" "v_xmax w = NO_TXN \<or> gone com act (v_xmax w)"
    by (rule verdict_InrD [OF v])
  have "\<not> sees com snap (v_xmax w)"
    using w(2) sees_gone [of com act _ snap] t by (auto simp: sees_def)
  moreover have "sees com snap t" "\<not> sees com snap NO_TXN"
    using t by (simp_all add: sees_def)
  ultimately show ?thesis
    using c by (auto simp: w(1) superseded_def live_def sees_version_def split: if_splits)
qed

text \<open>
  C3: when the conflict check of \<open>update\<close> lets transaction \<open>t\<close> write a row, the new chain shows \<open>t\<close> its
  own value, and shows every other open transaction what the old chain showed it.
\<close>

theorem update_is_isolated:
  assumes ok: "txns_ok s" and t: "map_of (eng_active s) t = Some st" and u: "map_of (eng_active s) u = Some su"
    and "t \<noteq> u" and w: "writable_version (ts_snapshot st) chain s = (Inr i, s1)"
    and c: "superseded t bytes chain = Inr chain'"
  shows "fst (visible_version (ts_snapshot st) chain' s1) = Inr (Some bytes) \<and>
    fst (visible_version (ts_snapshot su) chain' s1) = fst (visible_version (ts_snapshot su) chain s)"
proof -
  have eok: "eng_ok s" and tn: "t \<noteq> NO_TXN" and own: "snap_txn_id (ts_snapshot st) = t"
    "snap_txn_id (ts_snapshot su) = u"
    using ok txns_okD [OF ok t] txns_okD [OF ok u] by (auto simp: txns_ok_def snapshot_ok_def)
  have v: "verdict (committed s) (active s) (ts_snapshot st) chain = Inr i" and q: "quiet s s1"
    using repliesD [OF replies_writable_version [OF eok] eok] w by (metis prod.inject)+
  have vis: "fst (visible_version sn ch x) = Inr (seen (committed s) sn ch)" if "quiet s x" for sn ch x
    by (rule replies_fst [OF replies_visible_version [OF eok] that])
  show ?thesis
    using vis [OF q] vis [OF quiet_refl [OF eok]] seen_own_superseded [OF v c tn own(1) active_mem [OF t]]
      seen_superseded [OF v c tn not_sees_active [OF ok u active_mem [OF t] assms(4)]] own(2) active_mem [OF u]
    by simp
qed

text \<open>A chain whose newest version \<open>t\<close> created or deleted.\<close>

definition touched_by :: "u64 \<Rightarrow> version list \<Rightarrow> bool" where
  "touched_by t chain \<longleftrightarrow> (\<exists>v vs. chain = v # vs \<and> (v_xmin v = t \<or> v_xmax v = t))"

lemma superseded_touched: "superseded t bytes chain = Inr chain' \<Longrightarrow> touched_by t chain'"
  by (auto simp: superseded_def touched_by_def live_def split: list.splits if_splits)

lemma deleted_touched: "deleted_by t chain = Inr chain' \<Longrightarrow> touched_by t chain'"
  by (auto simp: deleted_by_def touched_by_def split: list.splits)

lemma verdict_touched:
  assumes "touched_by t chain" and "t \<noteq> NO_TXN" and "\<not> sees com snap t" and "t \<in> act \<or> com t"
  shows "verdict com act snap chain = Inl (Err SerializationFailure)"
  using assms by (auto simp: touched_by_def verdict_def gone_def)

text \<open>A concurrent transaction stays invisible to a snapshot taken while it ran.\<close>

lemma not_sees_later:
  assumes "(pinned_step u snap)\<^sup>*\<^sup>* s s'" and ok: "txns_ok s" and "map_of (eng_active s) u = Some su"
    and snap: "ts_snapshot su = snap" and t: "t \<in> active s" "t \<noteq> u"
  shows "\<not> sees (committed s') snap t"
proof -
  have "snapshot_ok s u snap"
    using txns_okD(2) [OF ok assms(3)] snap by simp
  then have "snap_txn_id snap = u" "t \<in> set (active_at_start snap) \<or> snap_xmin snap \<le> t"
    using t by (auto simp: snapshot_ok_def)
  then show ?thesis
    using t(2) by (auto simp: sees_def)
qed

text \<open>
  C4: no update is lost. While transaction \<open>t\<close> is open, and after it has committed, a transaction
  \<open>u\<close> that was open beside it is refused, with a serialization failure, every row whose newest version
  \<open>t\<close> wrote or deleted.
\<close>

theorem no_lost_update:
  assumes ok: "txns_ok s" and t: "t \<in> active s" and u: "map_of (eng_active s) u = Some su" and "t \<noteq> u"
    and c: "touched_by t chain'"
    and run: "(pinned_step u (ts_snapshot su))\<^sup>*\<^sup>* s s'" and alive: "t \<in> active s' \<or> committed s' t"
  shows "fst (writable_version (ts_snapshot su) chain' s') = Inl (Err SerializationFailure)"
proof -
  have ok': "eng_ok s'" and tn: "t \<noteq> NO_TXN"
    using pinned_run [OF run ok] ok t by (auto simp: txns_ok_def)
  have "verdict (committed s') (active s') (ts_snapshot su) chain' = Inl (Err SerializationFailure)"
    using not_sees_later [OF run ok u refl t assms(4)] alive by (intro verdict_touched [OF c tn]) auto
  then show ?thesis
    using replies_fst [OF replies_writable_version [OF ok'] quiet_refl [OF ok']] by metis
qed


section \<open>A new database\<close>

text \<open>Growing the set of pages in use leaves the commit log alone.\<close>

lemma clog_inv_frame:
  assumes inv: "clog_inv s U" and "owns s' U'" and "U \<subseteq> U'"
    and dir: "clog_pages (p_meta s') = clog_pages (p_meta s)" and v: "\<And>pid. pid \<in> U \<Longrightarrow> view s' pid = view s pid"
  shows "clog_inv s' U'" and "status s' = status s"
proof -
  have same: "view s' pid = view s pid" if "pid \<in> set (clog_pages (p_meta s))" for pid
    using inv that by (intro v) (auto simp: clog_inv_def)
  then show "clog_inv s' U'"
    using inv assms(2,3) unfolding clog_inv_def dir by auto
  show "status s' = status s"
  proof
    fix t
    show "status s' t = status s t"
      using same [of "clog_pages (p_meta s) ! (unat t div 65344)"]
      unfolding status_def dir by (simp add: get_index_def)
  qed
qed

lemma create_new:
  assumes inv: "clog_inv s U" and room: "page_count (p_meta s) \<noteq> -1"
  obtains pid s' where "create s = (Inr pid, s')" and "clog_inv s' (insert pid U)" and "pid \<notin> U"
    and "status s' = status s" and "next_txn_id (p_meta s') = next_txn_id (p_meta s)"
    and "catalog_root (p_meta s') = catalog_root (p_meta s)" and "pid \<noteq> NO_PAGE"
    and "page_count (p_meta s') \<in> {page_count (p_meta s), page_count (p_meta s) + 1}"
proof -
  have o: "owns s U"
    using inv by (simp add: clog_inv_def)
  obtain pid s1 where s1: "alloc_page PK_Leaf s = (Inr pid, s1)" "allocated PK_Leaf pid s s1"
    "pid \<notin> U" "owns s1 (insert pid U)"
    by (rule alloc_page_owns [OF o room])
  have v1: "view s1 pid = Some (content (page_new PK_Leaf))" and pid: "pid \<noteq> NO_PAGE"
    using s1(2) by (simp_all add: allocated_def)
  obtain p s' where "with_page_mut pid (\<lambda>p. Inr ((), set_extra NO_PAGE p)) s1 = (Inr (), s')"
    and w: "wrote pid (content (set_extra NO_PAGE p)) s1 s'"
    by (rule with_page_mut_ok [OF owns_inv [OF s1(4)] v1, of "\<lambda>p. Inr ((), set_extra NO_PAGE p)"
          "\<lambda>_. ()" "set_extra NO_PAGE"]) (simp_all add: set_extra_ok)
  then have c: "create s = (Inr pid, s')"
    using s1(1) by (simp add: create_def bind_op_def)
  have o': "owns s' (insert pid U)"
    by (rule owns_wrote [OF s1(4) w]) simp
  have m: "clog_pages (p_meta s') = clog_pages (p_meta s)" "next_txn_id (p_meta s') = next_txn_id (p_meta s)"
    "catalog_root (p_meta s') = catalog_root (p_meta s)"
    "page_count (p_meta s') \<in> {page_count (p_meta s), page_count (p_meta s) + 1}"
    and v: "\<And>q. q \<in> U \<Longrightarrow> view s' q = view s q"
    using w s1(2,3) by (auto simp: wrote_def allocated_def)
  show ?thesis
    by (rule that [OF c]) (use clog_inv_frame [OF inv o' _ m(1) v] m s1(3) pid in auto)
qed

lemma open_new:
  obtains e where "open_with [] None cfg = Inr e" and "txns_ok e" and "eng_active e = []"
    and "\<not> eng_poisoned e" and "next_txn_id (p_meta (eng_pager e)) = 1"
    and "committed e = (\<lambda>_. False)" and "clog_room e"
proof -
  obtain pg where pg: "pager_open [] None (cache_pages cfg) (fsync cfg) = Inr pg" "clog_inv pg {}"
    "p_meta pg = meta_fresh"
    by (rule pager_open_new)
  have room: "page_count (p_meta pg) \<noteq> -1"
    by (simp add: pg(3) meta_fresh_def)
  obtain root pg1 where c: "create pg = (Inr root, pg1)" "clog_inv pg1 {root}" "status pg1 = status pg"
    "next_txn_id (p_meta pg1) = next_txn_id (p_meta pg)"
    "page_count (p_meta pg1) \<in> {page_count (p_meta pg), page_count (p_meta pg) + 1}"
    by (rule create_new [OF pg(2) room]) blast
  let ?p = "meta_mut (\<lambda>m. m\<lparr>catalog_root := root\<rparr>) pg1"
  let ?e = "\<lparr>eng_pager = ?p, eng_active = [], eng_filters = key_filters_new (unique_filter_capacity cfg),
    checkpoint_journal_bytes = cfg_checkpoint_bytes cfg, eng_poisoned = False\<rparr>"
  have o: "open_with [] None cfg = Inr ?e"
    using pg c(1) by (simp add: open_with_def meta_fresh_def Let_def)
  have "clog_inv ?p {root}"
    using c(2) inv_clog [of pg1] by (auto simp: clog_inv_def owns_def intro: meta_mut_inv)
  moreover have "status pg = (\<lambda>_. False)"
    by (simp add: status_def pg(3) meta_fresh_def get_index_def fun_eq_iff)
  then have st: "status ?p = (\<lambda>_. False)"
    using c(3) by simp
  ultimately have "txns_ok ?e"
    using c(4) pg(3) by (auto simp: txns_ok_def eng_ok_def meta_fresh_def NO_TXN_def)
  moreover have "clog_room ?e"
    using c(5) pg(3) by (auto simp: clog_room_def meta_fresh_def CLOG_DIRECTORY_CAPACITY_def layout)
  ultimately show ?thesis
    using that o c(4) pg(3) st by (simp add: meta_fresh_def)
qed


section \<open>Instances\<close>

text \<open>A new database in which two transactions have begun.\<close>

definition demo_engine :: engine where
  "demo_engine = projr (open_with [] None storage_config_default)"

definition demo1 :: engine where
  "demo1 = snd (begin_txn 0 demo_engine)"

definition demo2 :: engine where
  "demo2 = snd (begin_txn 0 demo1)"

definition demo_snap :: "u64 \<Rightarrow> u64 list \<Rightarrow> txn_state" where
  "demo_snap t ts = \<lparr>ts_snapshot = \<lparr>snap_txn_id = t, snap_xmin = t + 1, active_at_start = ts\<rparr>,
     ts_dropped = [], ts_started = 0\<rparr>"

lemma demo_engine:
  "open_with [] None storage_config_default = Inr demo_engine" "txns_ok demo_engine"
  "eng_active demo_engine = []" "\<not> eng_poisoned demo_engine"
  "next_txn_id (p_meta (eng_pager demo_engine)) = 1" "committed demo_engine = (\<lambda>_. False)"
  "clog_room demo_engine"
  by (rule open_new [of storage_config_default]; simp add: demo_engine_def)+

lemma demo1:
  "begin_txn 0 demo_engine = (Inr 1, demo1)" "eng_active demo1 = [(1, demo_snap 1 [])]"
  "\<not> eng_poisoned demo1" "next_txn_id (p_meta (eng_pager demo1)) = 2" "committed demo1 = (\<lambda>_. False)"
  "clog_room demo1"
  using demo_engine(3-7)
  by (simp_all add: demo1_def clog_room_def begin_txn_def locked_def Let_def take_snapshot_def demo_snap_def)

lemma demo2:
  "begin_txn 0 demo1 = (Inr 2, demo2)" "eng_active demo2 = [(1, demo_snap 1 []), (2, demo_snap 2 [1])]"
  "\<not> eng_poisoned demo2" "next_txn_id (p_meta (eng_pager demo2)) = 3" "committed demo2 = (\<lambda>_. False)"
  "clog_room demo2"
  using demo1(2-6)
  by (simp_all add: demo2_def clog_room_def begin_txn_def locked_def Let_def take_snapshot_def demo_snap_def)

lemma demo_run:
  shows "txn_step\<^sup>*\<^sup>* demo_engine demo2" and "txns_ok demo2"
proof -
  have m: "1 < MAX_TXN_ID" "2 < MAX_TXN_ID"
    by (simp_all add: MAX_TXN_ID_def CLOG_DIRECTORY_CAPACITY_def layout)
  have "txn_step demo_engine demo1" "txn_step demo1 demo2"
    using Begin [OF demo1(1)] Begin [OF demo2(1)] m demo_engine(5) demo1(4) by auto
  then show "txn_step\<^sup>*\<^sup>* demo_engine demo2" "txns_ok demo2"
    using txn_step_effect(1) demo_engine(2) by (auto intro: rtranclp_trans)
qed

text \<open>A committed row, and the same row rewritten by transaction 1.\<close>

definition demo_chain :: "version list" where
  "demo_chain = [\<lparr>v_xmin = 1, v_xmax = NO_TXN, v_bytes = [7]\<rparr>]"


theorem prune_preserves_reads_witness:
  "\<exists>chain' s'. prune demo_chain demo2 = (Inr chain', s') \<and>
    fst (visible_version (ts_snapshot (demo_snap 2 [1])) chain' s') =
    fst (visible_version (ts_snapshot (demo_snap 2 [1])) demo_chain demo2)"
  by (rule prune_preserves_reads [OF demo_run(2), of 2]) (simp add: demo2(2))

definition demo3 :: engine where
  "demo3 = snd (commit 1 demo2)"

abbreviation snap2 :: snapshot where
  "snap2 \<equiv> ts_snapshot (demo_snap 2 [1])"

lemma demo3:
  shows "commit 1 demo2 = (Inr (), demo3)" and "committed demo3 1"
    and "(pinned_step 2 snap2)\<^sup>*\<^sup>* demo2 demo3"
proof -
  have act: "map_of (eng_active demo2) 1 = Some (demo_snap 1 [])" "ts_dropped (demo_snap 1 []) = []"
    by (simp_all add: demo2(2) demo_snap_def)
  have m: "1 < MAX_TXN_ID"
    by (simp add: MAX_TXN_ID_def CLOG_DIRECTORY_CAPACITY_def layout)
  obtain s' where s': "commit 1 demo2 = (Inr (), s')" "committed s' = (committed demo2)(1 := True)"
    "eng_active s' = AList.delete 1 (eng_active demo2)"
    by (rule commit_effect [OF demo_run(2) demo2(3) act(1) m demo2(6) act(2)])
  then have eq: "s' = demo3"
    by (simp add: demo3_def)
  then show c: "commit 1 demo2 = (Inr (), demo3)" and "committed demo3 1"
    using s' by simp_all
  have "txn_step demo2 demo3"
    by (rule Commit [OF c act m demo2(6)])
  then have "pinned_step 2 snap2 demo2 demo3"
    using s'(3) eq by (simp add: pinned_step_def demo2(2) delete_conv')
  then show "(pinned_step 2 snap2)\<^sup>*\<^sup>* demo2 demo3"
    by blast
qed


theorem no_lost_update_witness:
  "committed demo3 1 \<and> fst (writable_version snap2 demo_chain demo3) = Inl (Err SerializationFailure)"
  using no_lost_update [OF demo_run(2), of 1 2 "demo_snap 2 [1]" demo_chain demo3] demo3(2,3)
  by (simp add: demo2(2) touched_by_def demo_chain_def)

lemma demo_writable:
  obtains s1 where "writable_version (ts_snapshot (demo_snap 1 [])) demo_chain demo2 = (Inr 0, s1)"
proof -
  have ok: "eng_ok demo2"
    using demo_run(2) by (simp add: txns_ok_def)
  have "verdict (committed demo2) (active demo2) (ts_snapshot (demo_snap 1 [])) demo_chain = Inr 0"
    by (simp add: verdict_def demo_chain_def sees_def demo_snap_def NO_TXN_def)
  then show ?thesis
    using repliesD [OF replies_writable_version [OF ok] ok] that by metis
qed

theorem update_is_isolated_witness:
  "\<exists>s1 chain'. writable_version (ts_snapshot (demo_snap 1 [])) demo_chain demo2 = (Inr 0, s1) \<and>
    superseded 1 [9] demo_chain = Inr chain' \<and>
    fst (visible_version (ts_snapshot (demo_snap 1 [])) chain' s1) = Inr (Some [9]) \<and>
    fst (visible_version snap2 chain' s1) = fst (visible_version snap2 demo_chain demo2)"
proof (rule demo_writable)
  fix s1
  assume w: "writable_version (ts_snapshot (demo_snap 1 [])) demo_chain demo2 = (Inr 0, s1)"
  have c: "superseded 1 [9] demo_chain = Inr [\<lparr>v_xmin = 1, v_xmax = NO_TXN, v_bytes = [9]\<rparr>]"
    by (simp add: superseded_def demo_chain_def)
  have act: "map_of (eng_active demo2) 1 = Some (demo_snap 1 [])" "(1 :: u64) \<noteq> 2"
    "map_of (eng_active demo2) 2 = Some (demo_snap 2 [1])"
    by (simp_all add: demo2(2))
  show ?thesis
    using update_is_isolated [OF demo_run(2) act(1,3,2) w c] w c by blast
qed


end
