(* ===== verification/Throttle.thy ===== *)
theory Throttle
  imports Common "HOL-Library.AList"
begin

text \<open>
  Rate limiting of logins (throttle.rs). Instants and durations are nanoseconds; the clock is an argument
  of every operation, and instants do not overflow. The table of sources is an association list. The
  mutex's poison flag is part of the state: a panic under the lock sets it.
\<close>

section \<open>State\<close>

datatype ip_addr = V4 u32 | V6 u128

datatype source_key = Address ip_addr | User bytes

record throttle_policy =
  max_failures :: u32
  window :: nat
  lockout :: nat
  delay_step :: nat
  max_delay :: nat

definition MAX_TRACKED_SOURCES :: nat where
  "MAX_TRACKED_SOURCES = 10000"

text \<open>The largest \<open>Duration\<close>, in nanoseconds: a product beyond it panics.\<close>

definition DURATION_MAX :: nat where
  "DURATION_MAX = 2 ^ 64 * 10 ^ 9 - 1"

definition throttle_policy_default :: throttle_policy where
  "throttle_policy_default =
     \<lparr>max_failures = 5, window = 60 * 10 ^ 9, lockout = 300 * 10 ^ 9, delay_step = 100 * 10 ^ 6,
      max_delay = 2 * 10 ^ 9\<rparr>"

record source_entry =
  failures :: "nat list"
  locked_until :: "nat option"
  last_seen :: nat

type_synonym source_table = "(source_key \<times> source_entry) list"

record throttle =
  thr_policy :: "throttle_policy option"
  thr_state :: source_table
  thr_poisoned :: bool

definition throttle_new :: "throttle_policy \<Rightarrow> throttle" where
  "throttle_new p = \<lparr>thr_policy = Some p, thr_state = [], thr_poisoned = False\<rparr>"

definition throttle_disabled :: throttle where
  "throttle_disabled = \<lparr>thr_policy = None, thr_state = [], thr_poisoned = False\<rparr>"

section \<open>Operations\<close>

text \<open>The guard of a poisoned lock is handed out with the map cleared; the lock stays poisoned.\<close>

definition thr_lock :: "throttle \<Rightarrow> source_table" where
  "thr_lock th = (if thr_poisoned th then [] else thr_state th)"

definition source_keys :: "ip_addr option \<Rightarrow> bytes \<Rightarrow> source_key list" where
  "source_keys address user = (case address of Some a \<Rightarrow> [Address a] | None \<Rightarrow> []) @ [User user]"

text \<open>\<open>duration_since\<close> saturates at zero, as subtraction of natural numbers does.\<close>

definition prune_failures :: "nat \<Rightarrow> nat \<Rightarrow> source_entry \<Rightarrow> source_entry" where
  "prune_failures now win e = e\<lparr>failures := dropWhile (\<lambda>at. win \<le> now - at) (failures e)\<rparr>"

definition sweep :: "nat \<Rightarrow> throttle_policy \<Rightarrow> source_table \<Rightarrow> source_table" where
  "sweep now p st =
     filter (\<lambda>(k, e). (case locked_until e of Some t \<Rightarrow> now < t | None \<Rightarrow> False) \<or> failures e \<noteq> [])
       (map (\<lambda>(k, e). (k, prune_failures now (window p) e)) st)"

fun check_keys :: "nat \<Rightarrow> throttle_policy \<Rightarrow> source_key list \<Rightarrow> source_table \<Rightarrow> nat \<Rightarrow> nat \<times> source_table" where
  "check_keys now p [] st longest = (longest, st)"
| "check_keys now p (k # ks) st longest =
     (case map_of st k of
        None \<Rightarrow> check_keys now p ks st longest
      | Some e \<Rightarrow>
          let e = prune_failures now (window p) e in
          (case locked_until e of
             None \<Rightarrow> check_keys now p ks (AList.update k e st) longest
           | Some until \<Rightarrow>
               if now < until
               then check_keys now p ks (AList.update k e st) (max longest (until - now))
               else check_keys now p ks (AList.update k (e\<lparr>locked_until := None\<rparr>) st) longest))"

definition check :: "nat \<Rightarrow> ip_addr option \<Rightarrow> bytes \<Rightarrow> throttle \<Rightarrow> (nat + unit) \<times> throttle" where
  "check now address user th =
     (case thr_policy th of
        None \<Rightarrow> (Inr (), th)
      | Some p \<Rightarrow>
          let (longest, st) = check_keys now p (source_keys address user) (thr_lock th) 0
          in (if longest = 0 then Inr () else Inl longest, th\<lparr>thr_state := st\<rparr>))"

text \<open>One key of a failed attempt. The result is the new delay, or a panic with the table as it stands.\<close>

definition record_key ::
  "nat \<Rightarrow> throttle_policy \<Rightarrow> source_key \<Rightarrow> source_table \<Rightarrow> nat \<Rightarrow> nat res \<times> source_table" where
  "record_key now p k st delay =
     (if map_of st k = None \<and> MAX_TRACKED_SOURCES \<le> length st then (Inr delay, st)
      else
        let e = (case map_of st k of
                   Some e \<Rightarrow> e
                 | None \<Rightarrow> \<lparr>failures = [], locked_until = None, last_seen = now\<rparr>);
            e = prune_failures now (window p) e;
            e = e\<lparr>failures := failures e @ [now], last_seen := now\<rparr>;
            count = (of_nat (length (failures e)) :: u32)
        in if DURATION_MAX < delay_step p * unat count then (Inl Panic, AList.update k e st)
           else
             (Inr (min (max delay (delay_step p * unat count)) (max_delay p)),
              AList.update k
                (if max_failures p \<le> count \<and> locked_until e = None
                 then e\<lparr>locked_until := Some (now + lockout p)\<rparr> else e) st))"

fun record_keys ::
  "nat \<Rightarrow> throttle_policy \<Rightarrow> source_key list \<Rightarrow> source_table \<Rightarrow> nat \<Rightarrow> nat res \<times> source_table" where
  "record_keys now p [] st delay = (Inr delay, st)"
| "record_keys now p (k # ks) st delay =
     (case record_key now p k st delay of
        (Inl f, st) \<Rightarrow> (Inl f, st)
      | (Inr delay, st) \<Rightarrow> record_keys now p ks st delay)"

definition record_failure :: "nat \<Rightarrow> ip_addr option \<Rightarrow> bytes \<Rightarrow> throttle \<Rightarrow> nat res \<times> throttle" where
  "record_failure now address user th =
     (case thr_policy th of
        None \<Rightarrow> (Inr 0, th)
      | Some p \<Rightarrow>
          let st = thr_lock th;
              st = (if MAX_TRACKED_SOURCES \<le> length st then sweep now p st else st);
              (r, st) = record_keys now p (source_keys address user) st 0
          in (r, th\<lparr>thr_state := st, thr_poisoned := thr_poisoned th \<or> isl r\<rparr>))"

definition record_success :: "ip_addr option \<Rightarrow> bytes \<Rightarrow> throttle \<Rightarrow> throttle" where
  "record_success address user th =
     (case thr_policy th of
        None \<Rightarrow> th
      | Some p \<Rightarrow> th\<lparr>thr_state := fold AList.delete (source_keys address user) (thr_lock th)\<rparr>)"

section \<open>Traces\<close>

text \<open>What the sessions do with the throttle, each call at the instant it takes the lock.\<close>

datatype thr_event =
    Check "ip_addr option" bytes
  | Failure "ip_addr option" bytes
  | Success "ip_addr option" bytes

fun thr_apply :: "nat \<Rightarrow> thr_event \<Rightarrow> throttle \<Rightarrow> throttle" where
  "thr_apply now (Check address user) th = snd (check now address user th)"
| "thr_apply now (Failure address user) th = snd (record_failure now address user th)"
| "thr_apply now (Success address user) th = record_success address user th"

fun thr_run :: "(nat \<times> thr_event) list \<Rightarrow> throttle \<Rightarrow> throttle" where
  "thr_run [] th = th"
| "thr_run ((now, ev) # evs) th = thr_run evs (thr_apply now ev th)"

text \<open>Policies whose delays cannot overflow a duration.\<close>

definition policy_ok :: "throttle_policy \<Rightarrow> bool" where
  "policy_ok p \<longleftrightarrow> delay_step p * 2 ^ 32 \<le> DURATION_MAX"

section \<open>Lockouts\<close>

definition lock_of :: "source_table \<Rightarrow> source_key \<Rightarrow> nat option" where
  "lock_of st k = Option.bind (map_of st k) locked_until"

lemma locked_until_prune [simp]: "locked_until (prune_failures now w e) = locked_until e"
  by (simp add: prune_failures_def)

lemma map_of_filter_values:
  "distinct (map fst xs) \<Longrightarrow> map_of (filter (\<lambda>(k, e). P e) xs) k =
     (case map_of xs k of None \<Rightarrow> None | Some e \<Rightarrow> if P e then Some e else None)"
  by (induction xs) (auto simp: map_of_eq_None_iff image_iff split: option.split)

lemma map_of_sweep:
  assumes "distinct (map fst st)"
  shows "map_of (sweep now p st) k =
     (case map_of st k of
        None \<Rightarrow> None
      | Some e \<Rightarrow>
          let e = prune_failures now (window p) e in
          if (case locked_until e of Some t \<Rightarrow> now < t | None \<Rightarrow> False) \<or> failures e \<noteq> [] then Some e else None)"
proof -
  have "distinct (map fst (map (\<lambda>(k, e). (k, prune_failures now (window p) e)) st))"
    using assms by (simp add: comp_def case_prod_unfold)
  from map_of_filter_values [OF this] show ?thesis
    unfolding sweep_def by (simp add: map_of_map Let_def split: option.split)
qed

lemma sweep_distinct: "distinct (map fst st) \<Longrightarrow> distinct (map fst (sweep now p st))"
  unfolding sweep_def by (rule distinct_map_filter) (simp add: comp_def case_prod_unfold)

lemma sweep_length: "length (sweep now p st) \<le> length st"
  unfolding sweep_def by (rule le_trans [OF length_filter_le]) simp

lemma source_keys_distinct [simp]: "distinct (source_keys address user)"
  by (simp add: source_keys_def split: option.split)

lemma user_in_source_keys [simp]: "User u \<in> set (source_keys address user) \<longleftrightarrow> u = user"
  by (auto simp: source_keys_def split: option.split)

text \<open>What a check leaves of an entry, and how long a source still has to wait.\<close>

definition touched :: "nat \<Rightarrow> throttle_policy \<Rightarrow> source_entry \<Rightarrow> source_entry" where
  "touched now p e =
     (let e = prune_failures now (window p) e in
      case locked_until e of
        Some until \<Rightarrow> if now < until then e else e\<lparr>locked_until := None\<rparr>
      | None \<Rightarrow> e)"

definition remaining :: "nat \<Rightarrow> source_table \<Rightarrow> source_key \<Rightarrow> nat" where
  "remaining now st k = (case lock_of st k of Some until \<Rightarrow> until - now | None \<Rightarrow> 0)"

lemma check_keys_Cons:
  "check_keys now p (k # ks) st longest =
     check_keys now p ks (case map_of st k of None \<Rightarrow> st | Some e \<Rightarrow> AList.update k (touched now p e) st)
       (max longest (remaining now st k))"
  by (simp add: Let_def touched_def remaining_def lock_of_def split: option.split)

declare check_keys.simps(2) [simp del]

lemma check_keys_table:
  "distinct ks \<Longrightarrow> map_of (snd (check_keys now p ks st l)) k =
     (if k \<in> set ks then map_option (touched now p) (map_of st k) else map_of st k)"
  by (induction ks arbitrary: st l)
    (auto simp: check_keys_Cons AList.update_conv' split: option.split)

lemma check_keys_longest:
  "distinct ks \<Longrightarrow> fst (check_keys now p ks st l) = 0 \<longleftrightarrow> l = 0 \<and> (\<forall>k\<in>set ks. remaining now st k = 0)"
proof (induction ks arbitrary: st l)
  case (Cons k ks)
  let ?st = "case map_of st k of None \<Rightarrow> st | Some e \<Rightarrow> AList.update k (touched now p e) st"
  have "remaining now ?st k' = remaining now st k'" if "k' \<in> set ks" for k'
    using that Cons.prems by (auto simp: remaining_def lock_of_def AList.update_conv' split: option.split)
  then show ?case
    using Cons by (auto simp: check_keys_Cons)
qed simp

lemma update_keys_present: "map_of al k \<noteq> None \<Longrightarrow> map fst (AList.update k v al) = map fst al"
  by (auto simp: AList.update_keys map_of_eq_None_iff image_iff)

lemma update_keys_absent: "map_of al k = None \<Longrightarrow> map fst (AList.update k v al) = map fst al @ [k]"
  by (auto simp: AList.update_keys map_of_eq_None_iff image_iff)

lemma check_keys_shape: "map fst (snd (check_keys now p ks st l)) = map fst st"
  by (induction ks arbitrary: st l) (auto simp: check_keys_Cons update_keys_present split: option.split)

text \<open>What a failure leaves of an entry.\<close>

definition failed :: "nat \<Rightarrow> throttle_policy \<Rightarrow> source_entry \<Rightarrow> source_entry" where
  "failed now p e =
     (let fs = dropWhile (\<lambda>at. window p \<le> now - at) (failures e) @ [now] in
      e\<lparr>failures := fs, last_seen := now,
        locked_until := (if max_failures p \<le> of_nat (length fs) \<and> locked_until e = None
                         then Some (now + lockout p) else locked_until e)\<rparr>)"

definition fresh_entry :: "nat \<Rightarrow> source_entry" where
  "fresh_entry now = \<lparr>failures = [], locked_until = None, last_seen = now\<rparr>"

definition admitted :: "source_table \<Rightarrow> source_key \<Rightarrow> bool" where
  "admitted st k \<longleftrightarrow> map_of st k \<noteq> None \<or> length st < MAX_TRACKED_SOURCES"

lemma record_key_eq:
  assumes "policy_ok p"
  obtains d where "record_key now p k st delay =
    (Inr d, if admitted st k
            then AList.update k (failed now p (case map_of st k of Some e \<Rightarrow> e | None \<Rightarrow> fresh_entry now)) st else st)"
    "delay \<le> max_delay p \<longrightarrow> d \<le> max_delay p"
proof -
  have "delay_step p * unat (w :: u32) \<le> DURATION_MAX" for w
  proof -
    have "unat w \<le> 2 ^ 32"
      using unsigned_less [of w, where ?'a = nat] by simp
    then have "delay_step p * unat w \<le> delay_step p * 2 ^ 32"
      by (rule mult_le_mono2)
    also have "\<dots> \<le> DURATION_MAX"
      using assms by (simp only: policy_ok_def)
    finally show ?thesis .
  qed
  then have np: "\<not> DURATION_MAX < delay_step p * unat (w :: u32)" for w
    by (simp add: not_less)
  show thesis
  proof (cases "admitted st k")
    case True
    let ?e = "case map_of st k of Some e \<Rightarrow> e | None \<Rightarrow> fresh_entry now"
    let ?n = "of_nat (Suc (length (dropWhile (\<lambda>at. window p \<le> now - at) (failures ?e)))) :: u32"
    have "record_key now p k st delay =
      (Inr (min (max delay (delay_step p * unat ?n)) (max_delay p)), AList.update k (failed now p ?e) st)"
      using True np
      by (auto simp: record_key_def admitted_def failed_def prune_failures_def fresh_entry_def Let_def
          split: option.split)
    then show thesis
      using True by (intro that) auto
  next
    case False
    then have "record_key now p k st delay = (Inr delay, st)"
      by (auto simp: record_key_def admitted_def)
    then show thesis
      using False by (intro that) auto
  qed
qed

lemma record_key_lookup:
  assumes "policy_ok p"
  shows "map_of (snd (record_key now p k st delay)) k' =
    (if k' = k \<and> admitted st k
     then Some (failed now p (case map_of st k of Some e \<Rightarrow> e | None \<Rightarrow> fresh_entry now)) else map_of st k')"
  by (rule record_key_eq [OF assms, of now k st delay]) (simp add: AList.update_conv')

definition table_ok :: "source_table \<Rightarrow> bool" where
  "table_ok st \<longleftrightarrow> distinct (map fst st) \<and> length st \<le> MAX_TRACKED_SOURCES"

lemma table_ok_update:
  assumes "table_ok st" "admitted st k"
  shows "table_ok (AList.update k e st)"
proof -
  have "length (AList.update k e st) \<le> MAX_TRACKED_SOURCES"
    using assms update_keys_present [of st k e, THEN arg_cong [where f = length]]
      update_keys_absent [of st k e, THEN arg_cong [where f = length]]
    by (cases "map_of st k") (auto simp: table_ok_def admitted_def)
  then show ?thesis
    using assms(1) by (simp add: table_ok_def AList.distinct_update)
qed

lemma record_key_table_ok: "table_ok st \<Longrightarrow> table_ok (snd (record_key now p k st delay))"
  by (auto simp: record_key_def Let_def admitted_def intro!: table_ok_update)

lemma record_keys_table_ok: "table_ok st \<Longrightarrow> table_ok (snd (record_keys now p ks st delay))"
proof (induction ks arbitrary: st delay)
  case (Cons k ks)
  then show ?case
    using record_key_table_ok [OF Cons.prems, of now p k delay] by (auto split: prod.split sum.split)
qed simp

lemma sweep_table_ok: "table_ok st \<Longrightarrow> table_ok (sweep now p st)"
  using sweep_distinct [of st now p] sweep_length [of now p st] by (auto simp: table_ok_def)

lemma delete_table_ok: "table_ok st \<Longrightarrow> table_ok (AList.delete k st)"
  by (auto simp: table_ok_def AList.delete_eq intro: distinct_map_filter le_trans [OF length_filter_le])

lemma deletes_table_ok: "table_ok st \<Longrightarrow> table_ok (fold AList.delete ks st)"
  by (induction ks arbitrary: st) (simp_all add: delete_table_ok)

lemma thr_lock_table_ok: "table_ok (thr_state th) \<Longrightarrow> table_ok (thr_lock th)"
  by (simp add: thr_lock_def table_ok_def)

lemma check_table_ok:
  assumes "table_ok (thr_state th)"
  shows "table_ok (thr_state (snd (check now address user th)))"
proof (cases "thr_policy th")
  case (Some p)
  have "map fst (snd (check_keys now p (source_keys address user) (thr_lock th) 0)) = map fst (thr_lock th)"
    by (rule check_keys_shape)
  then have "table_ok (snd (check_keys now p (source_keys address user) (thr_lock th) 0))"
    using thr_lock_table_ok [OF assms] unfolding table_ok_def by (metis length_map)
  then show ?thesis
    by (simp add: check_def Some case_prod_unfold Let_def)
qed (simp add: check_def assms)

lemma record_failure_table_ok:
  assumes "table_ok (thr_state th)"
  shows "table_ok (thr_state (snd (record_failure now address user th)))"
  using thr_lock_table_ok [OF assms]
  by (auto simp: record_failure_def assms Let_def record_keys_table_ok sweep_table_ok
      split: option.split prod.split dest: record_keys_table_ok [where ks = "source_keys address user"] sym [THEN arg_cong [where f = snd]])

lemma thr_apply_table_ok: "table_ok (thr_state th) \<Longrightarrow> table_ok (thr_state (thr_apply now ev th))"
  by (cases ev) (auto simp: check_table_ok record_failure_table_ok record_success_def deletes_table_ok
      thr_lock_table_ok split: option.split)

lemma thr_run_table_ok: "table_ok (thr_state th) \<Longrightarrow> table_ok (thr_state (thr_run evs th))"
  by (induction evs th rule: thr_run.induct) (simp_all add: thr_apply_table_ok)

text \<open>
  However many sources fail to log in, the table of tracked sources never holds more than its limit
  and never holds one source twice.
\<close>

theorem tracked_sources_bounded:
  "length (thr_state (thr_run evs (throttle_new p))) \<le> MAX_TRACKED_SOURCES \<and>
   distinct (map fst (thr_state (thr_run evs (throttle_new p))))"
proof -
  have "table_ok (thr_state (throttle_new p))"
    by (simp add: throttle_new_def table_ok_def)
  from thr_run_table_ok [OF this] show ?thesis
    by (simp add: table_ok_def)
qed

subsection \<open>A lockout holds until it expires\<close>

lemma record_keys_ok:
  assumes "policy_ok p"
  shows "\<exists>d. fst (record_keys now p ks st delay) = Inr d \<and> (delay \<le> max_delay p \<longrightarrow> d \<le> max_delay p)"
proof (induction ks arbitrary: st delay)
  case (Cons k ks)
  obtain d st' where d: "record_key now p k st delay = (Inr d, st')" "delay \<le> max_delay p \<longrightarrow> d \<le> max_delay p"
    by (rule record_key_eq [OF assms, of now k st delay]) auto
  then show ?case
    using Cons.IH [of st' d] by auto
qed simp

lemma lock_of_failed: "locked_until e = Some t \<Longrightarrow> locked_until (failed now p e) = Some t"
  by (simp add: failed_def Let_def)

lemma record_keys_lock:
  assumes "policy_ok p"
  shows "lock_of st k = Some t \<Longrightarrow> lock_of (snd (record_keys now p ks st delay)) k = Some t"
proof (induction ks arbitrary: st delay)
  case (Cons k' ks)
  obtain d st' where d: "record_key now p k' st delay = (Inr d, st')"
    by (rule record_key_eq [OF assms, of now k' st delay]) auto
  have "lock_of st' k = Some t"
    using record_key_lookup [OF assms, of now k' st delay k] Cons.prems d
    by (auto simp: lock_of_def bind_eq_Some_conv lock_of_failed split: if_splits)
  then show ?case
    using Cons.IH d by simp
qed simp

lemma sweep_lock:
  assumes "distinct (map fst st)" "lock_of st k = Some t" "now < t"
  shows "lock_of (sweep now p st) k = Some t"
  using assms by (auto simp: lock_of_def bind_eq_Some_conv map_of_sweep Let_def)

text \<open>A throttle in service, and one that has a source locked out.\<close>

definition serving :: "throttle_policy \<Rightarrow> throttle \<Rightarrow> bool" where
  "serving p th \<longleftrightarrow> thr_policy th = Some p \<and> policy_ok p \<and> \<not> thr_poisoned th \<and> table_ok (thr_state th)"

definition make_room :: "nat \<Rightarrow> throttle_policy \<Rightarrow> source_table \<Rightarrow> source_table" where
  "make_room now p st = (if MAX_TRACKED_SOURCES \<le> length st then sweep now p st else st)"

lemma record_failure_eq:
  assumes "serving p th"
  shows "snd (record_failure now address user th) =
      th\<lparr>thr_state := snd (record_keys now p (source_keys address user) (make_room now p (thr_state th)) 0)\<rparr>"
    and "\<exists>d\<le>max_delay p. fst (record_failure now address user th) = Inr d"
proof -
  obtain d where "fst (record_keys now p (source_keys address user) (make_room now p (thr_state th)) 0) = Inr d"
    "d \<le> max_delay p"
    using record_keys_ok [of p now "source_keys address user" "make_room now p (thr_state th)" 0] assms
    by (auto simp: serving_def)
  then show "snd (record_failure now address user th) =
      th\<lparr>thr_state := snd (record_keys now p (source_keys address user) (make_room now p (thr_state th)) 0)\<rparr>"
    and "\<exists>d\<le>max_delay p. fst (record_failure now address user th) = Inr d"
    using assms
    by (simp_all add: record_failure_def serving_def thr_lock_def Let_def case_prod_unfold make_room_def)
qed

lemma check_eq:
  assumes "serving p th"
  shows "snd (check now address user th) =
      th\<lparr>thr_state := snd (check_keys now p (source_keys address user) (thr_state th) 0)\<rparr>"
    and "fst (check now address user th) = Inr () \<longleftrightarrow>
      (\<forall>k\<in>set (source_keys address user). remaining now (thr_state th) k = 0)"
  using assms check_keys_longest [of "source_keys address user" now p "thr_state th" 0]
  by (auto simp: check_def serving_def thr_lock_def case_prod_unfold Let_def)

lemma thr_apply_serving:
  assumes "serving p th"
  shows "serving p (thr_apply now ev th)"
proof -
  have "thr_policy (thr_apply now ev th) = Some p \<and> \<not> thr_poisoned (thr_apply now ev th)"
    using assms
    by (cases ev) (auto simp: check_eq record_failure_eq [OF assms] record_success_def serving_def)
  then show ?thesis
    using assms thr_apply_table_ok [of th now ev] by (simp add: serving_def)
qed

lemma thr_run_serving: "serving p th \<Longrightarrow> serving p (thr_run evs th)"
  by (induction evs th rule: thr_run.induct) (simp_all add: thr_apply_serving)

lemma throttle_new_serving: "policy_ok p \<Longrightarrow> serving p (throttle_new p)"
  by (simp add: serving_def throttle_new_def table_ok_def)

text \<open>An event that forgets a source.\<close>

fun forgets :: "source_key \<Rightarrow> thr_event \<Rightarrow> bool" where
  "forgets k (Success address user) = (k \<in> set (source_keys address user))"
| "forgets k _ = False"

lemma deletes_lookup: "map_of (fold AList.delete ks st) k = (if k \<in> set ks then None else map_of st k)"
  by (induction ks arbitrary: st) (auto simp: AList.delete_conv')

lemma thr_apply_lock:
  assumes "serving p th" "lock_of (thr_state th) k = Some t" "now < t" "\<not> forgets k ev"
  shows "lock_of (thr_state (thr_apply now ev th)) k = Some t"
proof (cases ev)
  case (Check address user)
  then show ?thesis
    using assms(1-3)
    by (auto simp: check_eq lock_of_def check_keys_table bind_eq_Some_conv touched_def Let_def)
next
  case (Failure address user)
  have "lock_of (make_room now p (thr_state th)) k = Some t"
    using assms(1-3) by (simp add: make_room_def sweep_lock serving_def table_ok_def)
  then show ?thesis
    using record_keys_lock [of p] assms(1) Failure by (simp add: record_failure_eq [OF assms(1)] serving_def)
next
  case (Success address user)
  then show ?thesis
    using assms by (simp add: record_success_def serving_def thr_lock_def lock_of_def deletes_lookup)
qed

lemma thr_run_lock:
  "serving p th \<Longrightarrow> lock_of (thr_state th) k = Some t \<Longrightarrow> \<forall>(now, ev)\<in>set evs. now < t \<and> \<not> forgets k ev \<Longrightarrow>
   lock_of (thr_state (thr_run evs th)) k = Some t"
  by (induction evs th rule: thr_run.induct) (auto simp: thr_apply_lock thr_apply_serving)

lemma check_locked:
  assumes "serving p th" "lock_of (thr_state th) (User user) = Some t" "now < t"
  shows "\<exists>d>0. fst (check now address user th) = Inl d"
proof -
  have "fst (check now address user th) \<noteq> Inr ()"
    using assms by (auto simp: check_eq remaining_def intro!: bexI [of _ "User user"])
  then show ?thesis
    using assms(1) by (auto simp: check_def serving_def case_prod_unfold Let_def split: if_splits)
qed

text \<open>The failures of a source that still count at an instant.\<close>

definition recent :: "nat \<Rightarrow> throttle_policy \<Rightarrow> source_table \<Rightarrow> source_key \<Rightarrow> nat list" where
  "recent now p st k =
     (case map_of st k of None \<Rightarrow> [] | Some e \<Rightarrow> dropWhile (\<lambda>at. window p \<le> now - at) (failures e))"


lemma update_length: "length (AList.update k v al) \<le> Suc (length al)"
  by (induction al) auto

lemma record_key_length: "length (snd (record_key now p k st delay)) \<le> Suc (length st)"
  by (simp add: record_key_def Let_def update_length)

lemma record_keys_user:
  assumes "policy_ok p" "map_of st (User user) \<noteq> None \<or> Suc (length st) < MAX_TRACKED_SOURCES"
  shows "map_of (snd (record_keys now p (source_keys address user) st delay)) (User user) =
    Some (failed now p (case map_of st (User user) of Some e \<Rightarrow> e | None \<Rightarrow> fresh_entry now))"
proof (cases address)
  case None
  obtain d st' where "record_key now p (User user) st delay = (Inr d, st')"
    by (rule record_key_eq [OF assms(1), of now "User user" st delay]) auto
  then show ?thesis
    using record_key_lookup [OF assms(1), of now "User user" st delay "User user"] assms(2) None
    by (auto simp: source_keys_def admitted_def)
next
  case (Some a)
  obtain d st' where d: "record_key now p (Address a) st delay = (Inr d, st')"
    by (rule record_key_eq [OF assms(1), of now "Address a" st delay]) auto
  obtain d' st'' where d': "record_key now p (User user) st' d = (Inr d', st'')"
    by (rule record_key_eq [OF assms(1), of now "User user" st' d]) auto
  have same: "map_of st' (User user) = map_of st (User user)"
    using record_key_lookup [OF assms(1), of now "Address a" st delay "User user"] d by auto
  have "length st' \<le> Suc (length st)"
    using record_key_length [of now p "Address a" st delay] d by simp
  then have "admitted st' (User user)"
    using assms(2) same by (auto simp: admitted_def)
  then show ?thesis
    using record_key_lookup [OF assms(1), of now "User user" st' d "User user"] d d' same Some
    by (auto simp: source_keys_def)
qed

lemma count_reached:
  assumes "unat (m :: u32) \<le> Suc n" "Suc n < 2 ^ 32"
  shows "m \<le> 1 + word_of_nat n"
proof -
  have "unat (word_of_nat (Suc n) :: u32) = Suc n"
    using assms(2) by (simp add: unsigned_of_nat take_bit_nat_eq_self_iff del: of_nat_Suc)
  then show ?thesis
    using assms(1) by (simp add: word_le_nat_alt)
qed

lemma record_failure_user:
  assumes "serving p th"
    and "recent t p (thr_state th) (User user) \<noteq> [] \<or> Suc (length (thr_state th)) < MAX_TRACKED_SOURCES"
  shows "map_of (thr_state (snd (record_failure t address user th))) (User user) =
    Some (failed t p (case map_of (thr_state th) (User user) of Some e \<Rightarrow> e | None \<Rightarrow> fresh_entry t))"
proof -
  let ?st = "make_room t p (thr_state th)"
  have d: "distinct (map fst (thr_state th))" and ok: "policy_ok p"
    using assms(1) by (auto simp: serving_def table_ok_def)
  have "map_of ?st (User user) \<noteq> None \<or> Suc (length ?st) < MAX_TRACKED_SOURCES"
    using assms(2) by (auto simp: make_room_def map_of_sweep [OF d] recent_def prune_failures_def split: option.splits)
  then have "map_of (thr_state (snd (record_failure t address user th))) (User user) =
      Some (failed t p (case map_of ?st (User user) of Some e \<Rightarrow> e | None \<Rightarrow> fresh_entry t))"
    by (simp add: record_failure_eq [OF assms(1)] record_keys_user [OF ok])
  moreover have "failed t p (prune_failures t (window p) e) = failed t p e" for e
    by (simp add: failed_def prune_failures_def)
  moreover have "map_of ?st (User user) = map_of (thr_state th) (User user) \<or>
      map_of ?st (User user) = map_option (prune_failures t (window p)) (map_of (thr_state th) (User user))"
    using assms(2)
    by (auto simp: make_room_def map_of_sweep [OF d] recent_def prune_failures_def Let_def split: option.splits)
  ultimately show ?thesis
    by (auto split: option.splits)
qed

text \<open>
  C31: once a user name has collected the allowed number of failures inside the window, every further
  attempt on it is refused, from whatever address and however other logins are interleaved, until the
  lockout period has passed or that user has logged in.
\<close>

theorem lockout_holds:
  assumes "serving p th" "lock_of (thr_state th) (User user) = None"
    and "recent t p (thr_state th) (User user) \<noteq> [] \<or> Suc (length (thr_state th)) < MAX_TRACKED_SOURCES"
    and "unat (max_failures p) \<le> Suc (length (recent t p (thr_state th) (User user)))"
    and "Suc (length (recent t p (thr_state th) (User user))) < 2 ^ 32"
    and "\<forall>(now, ev)\<in>set evs. now < t + lockout p \<and> \<not> forgets (User user) ev" and "now < t + lockout p"
  shows "\<exists>d>0. fst (check now address' user (thr_run evs (snd (record_failure t address user th)))) = Inl d"
proof -
  let ?th = "snd (record_failure t address user th)"
  have ok: "policy_ok p"
    using assms(1) by (simp add: serving_def)
  have "lock_of (thr_state ?th) (User user) = Some (t + lockout p)"
    unfolding lock_of_def record_failure_user [OF assms(1,3)] using assms(2) count_reached [OF assms(4,5)]
    by (auto simp: failed_def fresh_entry_def recent_def lock_of_def Let_def split: option.splits)
  moreover have "serving p ?th"
    using thr_apply_serving [OF assms(1), of t "Failure address user"] by simp
  ultimately show ?thesis
    using thr_run_lock [OF _ _ assms(6)] thr_run_serving check_locked assms(7) by blast
qed

text \<open>Two failures are enough for the policy of the witnesses.\<close>

definition demo_policy :: throttle_policy where
  "demo_policy = \<lparr>max_failures = 2, window = 60, lockout = 300, delay_step = 1, max_delay = 10\<rparr>"

definition demo_throttle :: throttle where
  "demo_throttle = snd (record_failure 10 None [1] (throttle_new demo_policy))"

lemma demo_policy_ok: "policy_ok demo_policy"
  by (simp add: policy_ok_def demo_policy_def DURATION_MAX_def)

lemma demo_serving: "serving demo_policy demo_throttle"
  unfolding demo_throttle_def
  using thr_apply_serving [OF throttle_new_serving [OF demo_policy_ok], of 10 "Failure None [1]"] by simp

lemma demo_state:
  "thr_state demo_throttle = [(User [1], \<lparr>failures = [10], locked_until = None, last_seen = 10\<rparr>)]"
  by (simp add: demo_throttle_def record_failure_def throttle_new_def thr_lock_def source_keys_def record_key_def
      demo_policy_def DURATION_MAX_def MAX_TRACKED_SOURCES_def prune_failures_def Let_def word_le_nat_alt)

theorem lockout_holds_witness:
  "\<exists>d>0. fst (check 300 (Some (V4 7)) [1]
     (thr_run [(20, Failure (Some (V4 9)) [2]), (25, Success None [2])]
       (snd (record_failure 15 None [1] demo_throttle)))) = Inl d"
proof (rule lockout_holds [OF demo_serving])
  show "lock_of (thr_state demo_throttle) (User [1]) = None"
    by (simp add: demo_state lock_of_def)
  have r: "recent 15 demo_policy (thr_state demo_throttle) (User [1]) = [10]"
    by (simp add: demo_state recent_def demo_policy_def)
  show "recent 15 demo_policy (thr_state demo_throttle) (User [1]) \<noteq> [] \<or>
      Suc (length (thr_state demo_throttle)) < MAX_TRACKED_SOURCES"
    "unat (max_failures demo_policy) \<le> Suc (length (recent 15 demo_policy (thr_state demo_throttle) (User [1])))"
    "Suc (length (recent 15 demo_policy (thr_state demo_throttle) (User [1]))) < 2 ^ 32"
    unfolding r by (simp_all add: demo_policy_def)
qed (simp_all add: demo_policy_def)

subsection \<open>Lockouts end\<close>

lemma lock_of_failed_le:
  assumes "\<forall>t. locked_until e = Some t \<longrightarrow> t \<le> T + lockout p" "now \<le> T"
  shows "\<forall>t. locked_until (failed now p e) = Some t \<longrightarrow> t \<le> T + lockout p"
  using assms by (auto simp: failed_def Let_def)

definition locks_by :: "nat \<Rightarrow> source_table \<Rightarrow> bool" where
  "locks_by T st \<longleftrightarrow> (\<forall>k t. lock_of st k = Some t \<longrightarrow> t \<le> T)"

lemma record_keys_locks_by:
  assumes "policy_ok p" "now \<le> T"
  shows "locks_by (T + lockout p) st \<Longrightarrow> locks_by (T + lockout p) (snd (record_keys now p ks st delay))"
proof (induction ks arbitrary: st delay)
  case (Cons k ks)
  obtain d st' where d: "record_key now p k st delay = (Inr d, st')"
    by (rule record_key_eq [OF assms(1), of now k st delay]) auto
  have "locks_by (T + lockout p) st'"
    unfolding locks_by_def
  proof (intro allI impI)
    fix k' t
    assume t: "lock_of st' k' = Some t"
    show "t \<le> T + lockout p"
    proof (cases "k' = k \<and> admitted st k")
      case True
      let ?e = "case map_of st k of Some e \<Rightarrow> e | None \<Rightarrow> fresh_entry now"
      have "map_of st' k' = Some (failed now p ?e)"
        using record_key_lookup [OF assms(1), of now k st delay k'] True d by simp
      then have f: "locked_until (failed now p ?e) = Some t"
        using t by (simp add: lock_of_def)
      have "\<forall>t. locked_until ?e = Some t \<longrightarrow> t \<le> T + lockout p"
        using Cons.prems by (auto simp: locks_by_def lock_of_def fresh_entry_def bind_eq_Some_conv split: option.split)
      from lock_of_failed_le [OF this assms(2)] f show ?thesis
        by blast
    next
      case False
      then show ?thesis
        using record_key_lookup [OF assms(1), of now k st delay k'] Cons.prems d t
        by (auto simp: locks_by_def lock_of_def)
    qed
  qed
  then show ?case
    using Cons.IH d by simp
qed simp

lemma thr_apply_locks_by:
  assumes "serving p th" "locks_by (T + lockout p) (thr_state th)" "now \<le> T"
  shows "locks_by (T + lockout p) (thr_state (thr_apply now ev th))"
proof (cases ev)
  case (Check address user)
  have "lock_of (snd (check_keys now p (source_keys address user) (thr_state th) 0)) k = Some t \<Longrightarrow>
      lock_of (thr_state th) k = Some t" for k t
    by (auto simp: lock_of_def check_keys_table bind_eq_Some_conv touched_def Let_def split: if_splits option.splits)
  then show ?thesis
    using assms(2) Check by (auto simp: check_eq [OF assms(1)] locks_by_def)
next
  case (Failure address user)
  have "distinct (map fst (thr_state th))" "policy_ok p"
    using assms(1) by (auto simp: serving_def table_ok_def)
  then have "locks_by (T + lockout p) (make_room now p (thr_state th))"
    using assms(2)
    by (auto simp: make_room_def locks_by_def lock_of_def map_of_sweep Let_def bind_eq_Some_conv
        split: option.splits if_splits)
  then show ?thesis
    using Failure record_keys_locks_by [OF \<open>policy_ok p\<close> assms(3)] by (simp add: record_failure_eq [OF assms(1)])
next
  case (Success address user)
  then show ?thesis
    using assms(1,2)
    by (auto simp: record_success_def serving_def thr_lock_def locks_by_def lock_of_def deletes_lookup split: if_splits)
qed

lemma thr_run_locks_by:
  "serving p th \<Longrightarrow> locks_by (T + lockout p) (thr_state th) \<Longrightarrow> \<forall>(now, ev)\<in>set evs. now \<le> T \<Longrightarrow>
   locks_by (T + lockout p) (thr_state (thr_run evs th))"
  by (induction evs th rule: thr_run.induct) (auto simp: thr_apply_locks_by thr_apply_serving)

text \<open>
  C32: every lockout ends by itself. Whatever has happened up to an instant, one lockout period later
  every source is admitted again.
\<close>

theorem lockouts_end:
  assumes "policy_ok p" and "\<forall>(t, ev)\<in>set evs. t \<le> T" and "T + lockout p \<le> now"
  shows "fst (check now address user (thr_run evs (throttle_new p))) = Inr ()"
proof -
  have "locks_by (T + lockout p) (thr_state (throttle_new p))"
    by (simp add: locks_by_def lock_of_def throttle_new_def)
  then have "locks_by (T + lockout p) (thr_state (thr_run evs (throttle_new p)))"
    by (rule thr_run_locks_by [OF throttle_new_serving [OF assms(1)] _ assms(2)])
  then have "remaining now (thr_state (thr_run evs (throttle_new p))) k = 0" for k
    using assms(3) by (fastforce simp: remaining_def locks_by_def split: option.split)
  then show ?thesis
    by (simp add: check_eq [OF thr_run_serving [OF throttle_new_serving [OF assms(1)]]])
qed

theorem lockouts_end_witness:
  "fst (check 310 None [1] (thr_run [(5, Failure None [1]), (10, Failure None [1])] (throttle_new demo_policy))) = Inr ()"
  by (rule lockouts_end [OF demo_policy_ok, where T = 10]) (simp_all add: demo_policy_def)

subsection \<open>The rate of guesses\<close>





















subsection \<open>Where the limit does not reach\<close>




text \<open>
  C34: after a panic under the lock the throttle stops limiting anything. The lock stays poisoned, so the
  table is cleared again at every use, and no number of failures locks a source out when the limit is
  more than one.
\<close>

theorem poisoned_never_refuses:
  assumes "thr_poisoned th"
  shows "thr_poisoned (thr_run evs th) \<and> fst (check now address user (thr_run evs th)) = Inr ()"
proof -
  have empty: "check_keys now p ks [] 0 = (0, [])" for now p ks
    by (induction ks) (simp_all add: check_keys_Cons remaining_def lock_of_def)
  have "thr_poisoned (thr_apply t ev th)" if "thr_poisoned th" for t ev th
    using that
    by (cases ev) (auto simp: check_def record_failure_def record_success_def Let_def split: option.split prod.split)
  then have "thr_poisoned (thr_run evs th)"
    using assms by (induction evs th rule: thr_run.induct) simp_all
  then show ?thesis
    by (simp add: check_def thr_lock_def empty split: option.split)
qed

theorem poisoned_never_refuses_witness:
  "fst (check 9 None [1] (thr_run (replicate 100 (5, Failure None [1])) ((throttle_new demo_policy)\<lparr>thr_poisoned := True\<rparr>)))
   = Inr ()"
  by (rule poisoned_never_refuses [THEN conjunct2]) simp

end
