(* ===== verification/Wire.thy ===== *)
theory Wire
  imports Codec
begin

text \<open>
  The PostgreSQL wire protocol, version 3: the error type (error.rs), the bounds-checked cursor and the
  message builder (buf.rs), decoding of client messages and encoding of server messages (message.rs), and
  framing over a byte stream (codec.rs). A signed integer is its word. The stream is the bytes the client
  will ever send; reading past them is the end of file.
\<close>

section \<open>Errors (error.rs)\<close>

datatype protocol_error =
    PIo string
  | Malformed string
  | MessageTooLarge nat nat
  | UnsupportedVersion u16 u16
  | AuthFailed bytes
  | TlsRequired
  | PTls string
  | Closed
  | HandlerPanic string
  | PFerrite ferrite_error

text \<open>A call of the protocol layer returns an error or panics.\<close>

datatype pfailure = PErr protocol_error | PPanic

type_synonym 'a pres = "pfailure + 'a"

definition malformed :: "string \<Rightarrow> pfailure" where
  "malformed msg = PErr (Malformed msg)"

fun is_recoverable :: "protocol_error \<Rightarrow> bool" where
  "is_recoverable (PFerrite _) = True"
| "is_recoverable _ = False"

fun ferrite_sqlstate :: "ferrite_error \<Rightarrow> string" where
  "ferrite_sqlstate (TableNotFound _) = ''42P01''"
| "ferrite_sqlstate (ColumnNotFound _) = ''42703''"
| "ferrite_sqlstate (TypeMismatch _ _) = ''42804''"
| "ferrite_sqlstate RowNotFound = ''02000''"
| "ferrite_sqlstate (TxnNotActive _) = ''25P01''"
| "ferrite_sqlstate (PermissionDenied _) = ''42501''"
| "ferrite_sqlstate SerializationFailure = ''40001''"
| "ferrite_sqlstate (Storage _) = ''XX000''"
| "ferrite_sqlstate (Parse _) = ''42601''"
| "ferrite_sqlstate (Plan _) = ''XX000''"
| "ferrite_sqlstate (Exec _) = ''XX000''"
| "ferrite_sqlstate (Protocol _) = ''08P01''"
| "ferrite_sqlstate (ObjectAlreadyExists _) = ''42710''"
| "ferrite_sqlstate (UniqueViolation _ _) = ''23505''"
| "ferrite_sqlstate (Timeout _) = ''57014''"
| "ferrite_sqlstate (ResourceLimit _) = ''54000''"
| "ferrite_sqlstate (InvalidDefinition _) = ''42P16''"

fun sqlstate :: "protocol_error \<Rightarrow> string" where
  "sqlstate (PIo _) = ''08006''"
| "sqlstate Closed = ''08006''"
| "sqlstate (Malformed _) = ''08P01''"
| "sqlstate (MessageTooLarge _ _) = ''08P01''"
| "sqlstate (UnsupportedVersion _ _) = ''0A000''"
| "sqlstate (AuthFailed _) = ''28P01''"
| "sqlstate TlsRequired = ''28000''"
| "sqlstate (PTls _) = ''08006''"
| "sqlstate (HandlerPanic _) = ''XX000''"
| "sqlstate (PFerrite e) = ferrite_sqlstate e"

section \<open>Big-endian integers\<close>

definition to_be_bytes :: "'a::len word \<Rightarrow> bytes" where
  "to_be_bytes w = rev (to_le_bytes w)"

definition from_be_bytes :: "bytes \<Rightarrow> 'a::len word" where
  "from_be_bytes bs = from_le_bytes (rev bs)"

definition int_string :: "int \<Rightarrow> string" where
  "int_string n = (if n < 0 then CHR ''-'' # dec_string (nat (- n)) else dec_string (nat n))"

section \<open>The cursor (buf.rs, Reader)\<close>

record cursor =
  cur_buf :: bytes
  cur_pos :: nat

type_synonym 'a rd = "(cursor, pfailure, 'a) op"

definition cur_new :: "bytes \<Rightarrow> cursor" where
  "cur_new buf = \<lparr>cur_buf = buf, cur_pos = 0\<rparr>"

definition cur_remaining :: "cursor \<Rightarrow> nat" where
  "cur_remaining r = length (cur_buf r) - cur_pos r"

definition cur_is_empty :: "cursor \<Rightarrow> bool" where
  "cur_is_empty r \<longleftrightarrow> cur_remaining r = 0"

definition cur_take :: "nat \<Rightarrow> bytes rd" where
  "cur_take n r =
     (if cur_remaining r < n
      then (Inl (malformed (''need '' @ dec_string n @ '' bytes, only '' @ dec_string (cur_remaining r) @ '' left'')), r)
      else case slice (cur_buf r) (cur_pos r) (cur_pos r + n) of
             None \<Rightarrow> (Inl PPanic, r)
           | Some out \<Rightarrow> (Inr out, r\<lparr>cur_pos := cur_pos r + n\<rparr>))"

definition cur_u8 :: "u8 rd" where
  "cur_u8 = bind_op (cur_take 1) (\<lambda>b. case b of [] \<Rightarrow> lift_op (Inl PPanic) | x # _ \<Rightarrow> ret_op x)"

definition cur_i16 :: "u16 rd" where
  "cur_i16 = bind_op (cur_take 2) (\<lambda>b. ret_op (from_be_bytes b))"

definition cur_i32 :: "u32 rd" where
  "cur_i32 = bind_op (cur_take 4) (\<lambda>b. ret_op (from_be_bytes b))"

definition cur_cstr :: "bytes rd" where
  "cur_cstr r =
     (case slice (cur_buf r) (cur_pos r) (length (cur_buf r)) of
        None \<Rightarrow> (Inl PPanic, r)
      | Some left \<Rightarrow>
          (case position (\<lambda>b. b = 0) left of
             None \<Rightarrow> (Inl (malformed ''unterminated string''), r)
           | Some n \<Rightarrow>
               (case slice (cur_buf r) (cur_pos r) (cur_pos r + n) of
                  None \<Rightarrow> (Inl PPanic, r)
                | Some bs \<Rightarrow>
                    (if valid_utf8 bs then Inr bs else Inl (malformed ''string is not valid UTF-8''),
                     r\<lparr>cur_pos := cur_pos r + n + 1\<rparr>))))"

definition cur_nullable_bytes :: "bytes option rd" where
  "cur_nullable_bytes =
     bind_op cur_i32 (\<lambda>len.
     if len = - 1 then ret_op None
     else if sint len < 0 then lift_op (Inl (malformed (''negative field length '' @ int_string (sint len))))
     else bind_op (cur_take (nat (sint len))) (\<lambda>bs. ret_op (Some bs)))"

definition cur_count :: "nat rd" where
  "cur_count =
     bind_op cur_i16 (\<lambda>n.
     if sint n < 0 then lift_op (Inl (malformed (''negative count '' @ int_string (sint n))))
     else ret_op (nat (sint n)))"

definition cur_finish :: "unit rd" where
  "cur_finish r =
     (if cur_is_empty r then Inr ()
      else Inl (malformed (dec_string (cur_remaining r) @ '' trailing bytes'')), r)"

text \<open>\<open>for _ in 0..n { out.push(f()?) }\<close>\<close>

primrec read_n :: "nat \<Rightarrow> 'a rd \<Rightarrow> 'a list rd" where
  "read_n 0 f = ret_op []"
| "read_n (Suc n) f = bind_op f (\<lambda>x. bind_op (read_n n f) (\<lambda>xs. ret_op (x # xs)))"

section \<open>The message builder (buf.rs, Writer)\<close>

type_synonym builder = bytes

definition wtagged :: "u8 \<Rightarrow> builder" where
  "wtagged tag = tag # [0, 0, 0, 0]"

definition wu8 :: "u8 \<Rightarrow> builder \<Rightarrow> builder" where
  "wu8 v w = w @ [v]"

definition wi16 :: "u16 \<Rightarrow> builder \<Rightarrow> builder" where
  "wi16 v w = w @ to_be_bytes v"

definition wi32 :: "u32 \<Rightarrow> builder \<Rightarrow> builder" where
  "wi32 v w = w @ to_be_bytes v"

definition wbytes :: "bytes \<Rightarrow> builder \<Rightarrow> builder" where
  "wbytes v w = w @ v"

definition wcstr :: "bytes \<Rightarrow> builder \<Rightarrow> builder" where
  "wcstr v w = w @ v @ [0]"

definition wfinish :: "builder \<Rightarrow> bytes" where
  "wfinish w = overwrite 1 (to_be_bytes (of_nat (length w - 1) :: u32)) w"

section \<open>Client messages (message.rs)\<close>

datatype format = TextFormat | BinaryFormat

definition format_from_code :: "u16 \<Rightarrow> format pres" where
  "format_from_code code =
     (if code = 0 then Inr TextFormat else if code = 1 then Inr BinaryFormat
      else Inl (malformed (''unknown format code '' @ int_string (sint code))))"

fun format_code :: "format \<Rightarrow> u16" where
  "format_code TextFormat = 0"
| "format_code BinaryFormat = 1"

definition PROTOCOL_VERSION_3 :: u32 where "PROTOCOL_VERSION_3 = 196608"
definition SSL_REQUEST_CODE :: u32 where "SSL_REQUEST_CODE = 80877103"
definition GSSENC_REQUEST_CODE :: u32 where "GSSENC_REQUEST_CODE = 80877104"
definition CANCEL_REQUEST_CODE :: u32 where "CANCEL_REQUEST_CODE = 80877102"
definition MAX_STARTUP_PACKET_LEN :: nat where "MAX_STARTUP_PACKET_LEN = 10000"

record startup_params =
  sp_user :: bytes
  sp_database :: bytes
  sp_options :: "(bytes \<times> bytes) list"

definition startup_params_get :: "bytes \<Rightarrow> startup_params \<Rightarrow> bytes option" where
  "startup_params_get key ps = map_option snd (List.find (\<lambda>(k, _). k = key) (sp_options ps))"

datatype startup_request =
    Startup startup_params
  | SslRequest
  | GssEncRequest
  | Cancel u32 u32

definition user_key :: bytes where "user_key = [117, 115, 101, 114]"
definition database_key :: bytes where "database_key = [100, 97, 116, 97, 98, 97, 115, 101]"

lemma position_less: "position P xs = Some n \<Longrightarrow> n < length xs"
  by (induction xs arbitrary: n) (auto split: if_splits)

lemma cur_cstr_advances: "cur_cstr r = (Inr k, r') \<Longrightarrow> cur_remaining r' < cur_remaining r"
  by (auto simp: cur_cstr_def cur_remaining_def slice_def dest: position_less
      split: option.splits if_splits prod.splits)

function startup_pairs :: "startup_params \<Rightarrow> startup_params rd" where
  "startup_pairs ps r =
     (if cur_is_empty r then (Inl (malformed ''startup packet is not terminated''), r)
      else
        case cur_cstr r of
          (Inl e, r) \<Rightarrow> (Inl e, r)
        | (Inr key, r1) \<Rightarrow>
            if key = [] then (Inr ps, r1)
            else
              case cur_cstr r1 of
                (Inl e, r2) \<Rightarrow> (Inl e, r2)
              | (Inr v, r2) \<Rightarrow>
                  startup_pairs
                    (if key = user_key then ps\<lparr>sp_user := v\<rparr>
                     else if key = database_key then ps\<lparr>sp_database := v\<rparr>
                     else ps\<lparr>sp_options := sp_options ps @ [(key, v)]\<rparr>) r2)"
  by pat_completeness auto
termination
  by (relation "measure (\<lambda>(ps, r). cur_remaining r)") (auto dest!: cur_cstr_advances [OF sym])

declare startup_pairs.simps [simp del]

definition decode_startup_params :: "startup_params rd" where
  "decode_startup_params =
     bind_op (startup_pairs \<lparr>sp_user = [], sp_database = [], sp_options = []\<rparr>) (\<lambda>ps.
     if sp_user ps = [] then lift_op (Inl (malformed ''startup packet has no user''))
     else ret_op (if sp_database ps = [] then ps\<lparr>sp_database := sp_user ps\<rparr> else ps))"

definition decode_startup :: "bytes \<Rightarrow> startup_request pres" where
  "decode_startup body =
     fst (bind_op cur_i32 (\<lambda>code.
       if code = SSL_REQUEST_CODE then bind_op cur_finish (\<lambda>_. ret_op SslRequest)
       else if code = GSSENC_REQUEST_CODE then bind_op cur_finish (\<lambda>_. ret_op GssEncRequest)
       else if code = CANCEL_REQUEST_CODE then
         bind_op cur_i32 (\<lambda>process_id. bind_op cur_i32 (\<lambda>secret_key.
         bind_op cur_finish (\<lambda>_. ret_op (Cancel process_id secret_key))))
       else if code = PROTOCOL_VERSION_3 then bind_op decode_startup_params (\<lambda>ps. ret_op (Startup ps))
       else lift_op (Inl (PErr (UnsupportedVersion (ucast (signed_drop_bit 16 code)) (ucast (code AND 0xFFFF))))))
     (cur_new body))"

datatype target_kind = StatementTarget | PortalTarget

definition target_kind_from_byte :: "u8 \<Rightarrow> target_kind pres" where
  "target_kind_from_byte b =
     (if b = 83 then Inr StatementTarget else if b = 80 then Inr PortalTarget
      else Inl (malformed ''unknown describe/close target''))"

datatype frontend =
    Query bytes
  | ParseMsg bytes bytes "u32 list"
  | Bind bytes bytes "format list" "bytes option list" "format list"
  | Describe target_kind bytes
  | Execute bytes u32
  | CloseMsg target_kind bytes
  | Sync
  | Flush
  | Terminate
  | Password bytes
  | Unsupported u8

definition decode_formats :: "format list rd" where
  "decode_formats = bind_op cur_count (\<lambda>n. read_n n (bind_op cur_i16 (\<lambda>code. lift_op (format_from_code code))))"

definition decode_body :: "u8 \<Rightarrow> bytes \<Rightarrow> frontend rd" where
  "decode_body tag body =
     (if tag = 81 then bind_op cur_cstr (\<lambda>sql. ret_op (Query sql))
      else if tag = 80 then
        bind_op cur_cstr (\<lambda>name. bind_op cur_cstr (\<lambda>sql. bind_op cur_count (\<lambda>n.
        bind_op (read_n n cur_i32) (\<lambda>param_types. ret_op (ParseMsg name sql param_types)))))
      else if tag = 66 then
        bind_op cur_cstr (\<lambda>portal. bind_op cur_cstr (\<lambda>statement.
        bind_op decode_formats (\<lambda>param_formats. bind_op cur_count (\<lambda>n.
        bind_op (read_n n cur_nullable_bytes) (\<lambda>params. bind_op decode_formats (\<lambda>result_formats.
        ret_op (Bind portal statement param_formats params result_formats)))))))
      else if tag = 68 then
        bind_op cur_u8 (\<lambda>b. bind_op (lift_op (target_kind_from_byte b)) (\<lambda>kind.
        bind_op cur_cstr (\<lambda>name. ret_op (Describe kind name))))
      else if tag = 69 then
        bind_op cur_cstr (\<lambda>portal. bind_op cur_i32 (\<lambda>max_rows.
        if sint max_rows < 0 then lift_op (Inl (malformed ''negative row limit''))
        else ret_op (Execute portal max_rows)))
      else if tag = 67 then
        bind_op cur_u8 (\<lambda>b. bind_op (lift_op (target_kind_from_byte b)) (\<lambda>kind.
        bind_op cur_cstr (\<lambda>name. ret_op (CloseMsg kind name))))
      else if tag = 83 then ret_op Sync
      else if tag = 72 then ret_op Flush
      else if tag = 88 then ret_op Terminate
      else ret_op (Password body))"

definition known_tags :: "u8 list" where
  "known_tags = [81, 80, 66, 68, 69, 67, 83, 72, 88, 112]"

definition decode_frontend :: "u8 \<Rightarrow> bytes \<Rightarrow> frontend pres" where
  "decode_frontend tag body =
     (if tag \<notin> set known_tags then Inr (Unsupported tag)
      else
        fst (bind_op (decode_body tag body) (\<lambda>msg.
          if (case msg of Password _ \<Rightarrow> False | _ \<Rightarrow> True)
          then bind_op cur_finish (\<lambda>_. ret_op msg) else ret_op msg)
        (cur_new body)))"

definition resolve_formats :: "format list \<Rightarrow> nat \<Rightarrow> format list pres" where
  "resolve_formats codes count =
     (case codes of
        [] \<Rightarrow> Inr (replicate count TextFormat)
      | [c] \<Rightarrow> Inr (replicate count c)
      | _ \<Rightarrow> if length codes = count then Inr codes
             else Inl (malformed (dec_string (length codes) @ '' format codes for '' @ dec_string count @ '' values'')))"

section \<open>Server messages (message.rs, backend)\<close>

record field_meta =
  fm_name :: bytes
  fm_type_oid :: u32
  fm_type_size :: u16
  fm_type_modifier :: u32
  fm_table_oid :: u32
  fm_column_id :: u16
  fm_format :: format

datatype transaction_status = Idle | InTransaction | Failed

fun transaction_status_code :: "transaction_status \<Rightarrow> u8" where
  "transaction_status_code Idle = 73"
| "transaction_status_code InTransaction = 84"
| "transaction_status_code Failed = 69"

datatype severity = SevError | SevFatal | SevNotice

fun severity_str :: "severity \<Rightarrow> bytes" where
  "severity_str SevError = [69, 82, 82, 79, 82]"
| "severity_str SevFatal = [70, 65, 84, 65, 76]"
| "severity_str SevNotice = [78, 79, 84, 73, 67, 69]"

definition authentication_ok :: bytes where
  "authentication_ok = wfinish (wi32 0 (wtagged 82))"

definition authentication_cleartext_password :: bytes where
  "authentication_cleartext_password = wfinish (wi32 3 (wtagged 82))"

definition parameter_status :: "bytes \<Rightarrow> bytes \<Rightarrow> bytes" where
  "parameter_status key v = wfinish (wcstr v (wcstr key (wtagged 83)))"

definition backend_key_data :: "u32 \<Rightarrow> u32 \<Rightarrow> bytes" where
  "backend_key_data process_id secret_key = wfinish (wi32 secret_key (wi32 process_id (wtagged 75)))"

definition ready_for_query :: "transaction_status \<Rightarrow> bytes" where
  "ready_for_query status = wfinish (wu8 (transaction_status_code status) (wtagged 90))"

definition put_field :: "field_meta \<Rightarrow> builder \<Rightarrow> builder" where
  "put_field f w =
     wi16 (format_code (fm_format f)) (wi32 (fm_type_modifier f) (wi16 (fm_type_size f) (wi32 (fm_type_oid f)
       (wi16 (fm_column_id f) (wi32 (fm_table_oid f) (wcstr (fm_name f) w))))))"

definition row_description :: "field_meta list \<Rightarrow> bytes" where
  "row_description fs = wfinish (fold put_field fs (wi16 (of_nat (length fs)) (wtagged 84)))"

definition put_value :: "bytes option \<Rightarrow> builder \<Rightarrow> builder" where
  "put_value v w =
     (case v of None \<Rightarrow> wi32 (- 1) w | Some bs \<Rightarrow> wbytes bs (wi32 (of_nat (length bs)) w))"

definition data_row :: "bytes option list \<Rightarrow> bytes" where
  "data_row vs = wfinish (fold put_value vs (wi16 (of_nat (length vs)) (wtagged 68)))"

definition command_complete :: "bytes \<Rightarrow> bytes" where
  "command_complete tag = wfinish (wcstr tag (wtagged 67))"

definition empty_query_response :: bytes where "empty_query_response = wfinish (wtagged 73)"
definition no_data :: bytes where "no_data = wfinish (wtagged 110)"
definition parse_complete :: bytes where "parse_complete = wfinish (wtagged 49)"
definition bind_complete :: bytes where "bind_complete = wfinish (wtagged 50)"
definition close_complete :: bytes where "close_complete = wfinish (wtagged 51)"
definition portal_suspended :: bytes where "portal_suspended = wfinish (wtagged 115)"

definition parameter_description :: "u32 list \<Rightarrow> bytes" where
  "parameter_description oids = wfinish (fold wi32 oids (wi16 (of_nat (length oids)) (wtagged 116)))"

definition error_response :: "severity \<Rightarrow> bytes \<Rightarrow> bytes \<Rightarrow> bytes" where
  "error_response severity code message =
     wfinish (wu8 0
       (wcstr message (wu8 77
       (wcstr code (wu8 67
       (wcstr (severity_str severity) (wu8 86
       (wcstr (severity_str severity) (wu8 83
       (wtagged (if severity = SevNotice then 78 else 69)))))))))))"

section \<open>Framing (codec.rs)\<close>

record framed =
  fr_in :: bytes
  fr_out :: bytes
  fr_sent :: bytes
  fr_max :: nat

type_synonym 'a io = "(framed, pfailure, 'a) op"

definition DEFAULT_MAX_MESSAGE_SIZE :: nat where
  "DEFAULT_MAX_MESSAGE_SIZE = 64 * 1024 * 1024"

definition framed_new :: "bytes \<Rightarrow> nat \<Rightarrow> framed" where
  "framed_new stream max_message_size = \<lparr>fr_in = stream, fr_out = [], fr_sent = [], fr_max = max_message_size\<rparr>"

definition send :: "bytes \<Rightarrow> framed \<Rightarrow> framed" where
  "send frame f = f\<lparr>fr_out := fr_out f @ frame\<rparr>"

definition flush :: "unit io" where
  "flush f = (Inr (), if fr_out f = [] then f else f\<lparr>fr_sent := fr_sent f @ fr_out f, fr_out := []\<rparr>)"

definition write_raw :: "bytes \<Rightarrow> unit io" where
  "write_raw bs f = (Inr (), f\<lparr>fr_sent := fr_sent f @ bs\<rparr>)"

text \<open>\<open>read_exact\<close>: a short stream is consumed to its end.\<close>

definition read_exact :: "nat \<Rightarrow> bytes io" where
  "read_exact n f =
     (if length (fr_in f) < n then (Inl (PErr Closed), f\<lparr>fr_in := []\<rparr>)
      else (Inr (take n (fr_in f)), f\<lparr>fr_in := drop n (fr_in f)\<rparr>))"

definition read_len :: "nat \<Rightarrow> nat io" where
  "read_len limit =
     bind_op (read_exact 4) (\<lambda>bs.
     let declared = sint (from_be_bytes bs :: u32) in
     if declared < 4
     then lift_op (Inl (malformed (''frame length '' @ int_string declared @ '' is below the 4-byte minimum'')))
     else
       let len = nat declared - 4 in
       if limit < len then lift_op (Inl (PErr (MessageTooLarge len limit))) else ret_op len)"

definition read_startup :: "startup_request io" where
  "read_startup =
     bind_op (read_len MAX_STARTUP_PACKET_LEN) (\<lambda>len.
     bind_op (read_exact len) (\<lambda>body. lift_op (decode_startup body)))"

definition read_message :: "frontend io" where
  "read_message =
     bind_op (read_exact 1) (\<lambda>tag.
     bind_op (get_op fr_max) (\<lambda>limit.
     bind_op (read_len limit) (\<lambda>len.
     bind_op (read_exact len) (\<lambda>body. lift_op (decode_frontend (hd tag) body)))))"

section \<open>What decoding does\<close>

subsection \<open>No panic\<close>

definition cur_ok :: "cursor \<Rightarrow> bool" where
  "cur_ok r \<longleftrightarrow> cur_pos r \<le> length (cur_buf r)"

text \<open>A read that neither panics nor runs off its buffer.\<close>

definition safe :: "'a rd \<Rightarrow> bool" where
  "safe m \<longleftrightarrow> (\<forall>r. cur_ok r \<longrightarrow> fst (m r) \<noteq> Inl PPanic \<and> cur_ok (snd (m r)))"

named_theorems safe_intro

lemma safe_bind [safe_intro]: "safe m \<Longrightarrow> (\<And>x. safe (f x)) \<Longrightarrow> safe (bind_op m f)"
  unfolding safe_def bind_op_def by (simp split: prod.split sum.split) (metis fst_conv snd_conv)

lemma safe_ret [safe_intro]: "safe (ret_op x)"
  by (simp add: safe_def ret_op_def)

lemma safe_lift [safe_intro]: "x \<noteq> Inl PPanic \<Longrightarrow> safe (lift_op x)"
  by (simp add: safe_def lift_op_def)

lemma safe_if [safe_intro]: "(P \<Longrightarrow> safe a) \<Longrightarrow> (\<not> P \<Longrightarrow> safe b) \<Longrightarrow> safe (if P then a else b)"
  by simp

lemma malformed_not_panic [simp]: "malformed msg \<noteq> PPanic"
  by (simp add: malformed_def)

lemma safe_take [safe_intro]: "safe (cur_take n)"
  by (auto simp: safe_def cur_take_def cur_ok_def cur_remaining_def slice_def)

lemma cur_take_length: "cur_take n r = (Inr bs, r') \<Longrightarrow> length bs = n"
  by (auto simp: cur_take_def slice_def split: if_splits option.splits)

lemma safe_u8 [safe_intro]: "safe cur_u8"
proof -
  have "fst (cur_u8 r) \<noteq> Inl PPanic \<and> cur_ok (snd (cur_u8 r))" if "cur_ok r" for r
    using safe_take [of 1] that cur_take_length [of 1 r]
    by (cases "cur_take 1 r")
      (auto simp: cur_u8_def bind_op_def safe_def lift_op_def ret_op_def split: sum.split list.split)
  then show ?thesis
    by (simp add: safe_def)
qed

lemma safe_i16 [safe_intro]: "safe cur_i16"
  unfolding cur_i16_def by (intro safe_intro)

lemma safe_i32 [safe_intro]: "safe cur_i32"
  unfolding cur_i32_def by (intro safe_intro)

lemma safe_cstr [safe_intro]: "safe cur_cstr"
  by (auto simp: safe_def cur_cstr_def cur_ok_def slice_def dest: position_less split: option.split)

lemma safe_nullable_bytes [safe_intro]: "safe cur_nullable_bytes"
  unfolding cur_nullable_bytes_def by (intro safe_intro) simp_all

lemma safe_count [safe_intro]: "safe cur_count"
  unfolding cur_count_def by (intro safe_intro) simp_all

lemma safe_finish [safe_intro]: "safe cur_finish"
  by (simp add: safe_def cur_finish_def)

lemma safe_read_n [safe_intro]: "safe f \<Longrightarrow> safe (read_n n f)"
  by (induction n) (auto intro!: safe_intro)

lemma safe_formats [safe_intro]: "safe decode_formats"
  unfolding decode_formats_def by (intro safe_intro) (simp add: format_from_code_def)

lemma safe_startup_pairs: "cur_ok r \<Longrightarrow> fst (startup_pairs ps r) \<noteq> Inl PPanic \<and> cur_ok (snd (startup_pairs ps r))"
proof (induction ps r rule: startup_pairs.induct)
  case (1 ps r)
  have c: "fst (cur_cstr r) \<noteq> Inl PPanic \<and> cur_ok (snd (cur_cstr r))" if "cur_ok r" for r
    using safe_cstr that by (simp add: safe_def)
  show ?case
  proof (cases "cur_is_empty r")
    case True
    then show ?thesis
      using 1(2) by (simp add: startup_pairs.simps [of ps r])
  next
    case False
    obtain x r1 where r1: "cur_cstr r = (x, r1)"
      by (cases "cur_cstr r")
    obtain y r2 where r2: "cur_cstr r1 = (y, r2)"
      by (cases "cur_cstr r1")
    have "x \<noteq> Inl PPanic" "cur_ok r1" "y \<noteq> Inl PPanic" "cur_ok r2"
      using c [OF 1(2)] c [of r1] r1 r2 by auto
    then show ?thesis
      using 1(1) [OF False r1 [symmetric] _ _ r2 [symmetric]] False r1 r2
      by (auto simp: startup_pairs.simps [of ps r] split: sum.split)
  qed
qed

lemma safe_startup_params [safe_intro]: "safe decode_startup_params"
  unfolding decode_startup_params_def
  by (intro safe_intro) (simp_all add: safe_def safe_startup_pairs)

lemma safe_decode_body [safe_intro]: "safe (decode_body tag body)"
  unfolding decode_body_def by (intro safe_intro) (simp_all add: target_kind_from_byte_def)

text \<open>
  C35: decoding never panics: whatever bytes a peer sends as a startup packet or as the body of a message,
  the result is a message or an error.
\<close>

theorem decoding_never_panics:
  "decode_startup body \<noteq> Inl PPanic \<and> decode_frontend tag body \<noteq> Inl PPanic"
proof -
  have new: "cur_ok (cur_new body)"
    by (simp add: cur_ok_def cur_new_def)
  have run: "fst (m (cur_new body)) \<noteq> Inl PPanic" if "safe m" for m :: "'a rd"
    using that new by (simp add: safe_def)
  have "decode_startup body \<noteq> Inl PPanic"
    unfolding decode_startup_def by (rule run, intro safe_intro) simp_all
  moreover have "decode_frontend tag body \<noteq> Inl PPanic"
    unfolding decode_frontend_def
  proof (split if_split, intro conjI impI)
    show "fst (bind_op (decode_body tag body) (\<lambda>msg.
        if (case msg of Password _ \<Rightarrow> False | _ \<Rightarrow> True) then bind_op cur_finish (\<lambda>_. ret_op msg) else ret_op msg)
      (cur_new body)) \<noteq> Inl PPanic"
      by (rule run, intro safe_intro)
  qed simp
  ultimately show ?thesis
    by simp
qed

subsection \<open>Reading back what was written\<close>

text \<open>\<open>reads m bs x\<close>: at the bytes \<open>bs\<close>, whatever follows them, the read \<open>m\<close> yields \<open>x\<close> and consumes them.\<close>

definition faces :: "cursor \<Rightarrow> bytes \<Rightarrow> bool" where
  "faces r bs \<longleftrightarrow> cur_ok r \<and> drop (cur_pos r) (cur_buf r) = bs"

definition reads :: "'a rd \<Rightarrow> bytes \<Rightarrow> 'a \<Rightarrow> bool" where
  "reads m bs x \<longleftrightarrow> (\<forall>r more. faces r (bs @ more) \<longrightarrow> (\<exists>r'. m r = (Inr x, r') \<and> faces r' more))"

lemma reads_ret: "reads (ret_op x) [] x"
  by (simp add: reads_def ret_op_def)

lemma reads_lift: "y = Inr x \<Longrightarrow> reads (lift_op y) [] x"
  by (simp add: reads_def lift_op_def)

lemma reads_bind: "reads m bs x \<Longrightarrow> reads (f x) cs y \<Longrightarrow> reads (bind_op m f) (bs @ cs) y"
  unfolding reads_def bind_op_def by (metis (no_types, lifting) append.assoc old.sum.simps(6) prod.simps(2))

lemma reads_take: "length bs = n \<Longrightarrow> reads (cur_take n) bs bs"
  unfolding reads_def
proof (intro allI impI)
  fix r more
  assume n: "length bs = n" and f: "faces r (bs @ more)"
  have d: "drop (cur_pos r) (cur_buf r) = bs @ more" and p: "cur_pos r \<le> length (cur_buf r)"
    using f by (simp_all add: faces_def cur_ok_def)
  have l: "length (cur_buf r) = cur_pos r + n + length more"
    using arg_cong [OF d, of length] p n by simp
  have "cur_take n r = (Inr bs, r\<lparr>cur_pos := cur_pos r + n\<rparr>)"
    using d l n by (simp add: cur_take_def cur_remaining_def slice_def)
  moreover have "faces (r\<lparr>cur_pos := cur_pos r + n\<rparr>) more"
    using arg_cong [OF d, of "drop n"] l n by (simp add: faces_def cur_ok_def add.commute)
  ultimately show "\<exists>r'. cur_take n r = (Inr bs, r') \<and> faces r' more"
    by blast
qed

lemma length_to_be_bytes [simp]: "length (to_be_bytes (w :: 'a::len word)) = LENGTH('a) div 8"
  by (simp add: to_be_bytes_def)

lemma from_to_be_bytes [simp]: "8 dvd LENGTH('a::len) \<Longrightarrow> from_be_bytes (to_be_bytes (w :: 'a word)) = w"
  by (simp add: to_be_bytes_def from_be_bytes_def)

lemma reads_bind_ret: "reads m bs x \<Longrightarrow> reads (bind_op m (\<lambda>x. ret_op (f x))) bs (f x)"
  using reads_bind [of m bs x "\<lambda>x. ret_op (f x)" "[]"] reads_ret by fastforce

text \<open>
  A field of a message: how it is written, how it is read, which values can be written. The decoders
  rely on reading back one field; a counted list of fields follows once for all of them.
\<close>

locale wire_field =
  fixes put :: "'a \<Rightarrow> bytes" and get :: "'a rd" and fits :: "'a \<Rightarrow> bool"
  assumes get_put: "fits x \<Longrightarrow> reads get (put x) x"
begin

lemma get_puts: "list_all fits xs \<Longrightarrow> reads (read_n (length xs) get) (concat (map put xs)) xs"
proof (induction xs)
  case (Cons x xs)
  then have "reads (bind_op (read_n (length xs) get) (\<lambda>xs. ret_op (x # xs))) (concat (map put xs)) (x # xs)"
    by (intro reads_bind_ret) simp
  then show ?case
    using Cons.prems by (auto intro: reads_bind get_put)
qed (simp add: reads_ret)

end

lemma reads_i16: "reads cur_i16 (to_be_bytes w) w"
  unfolding cur_i16_def using reads_bind_ret [OF reads_take, of "to_be_bytes w" 2 "from_be_bytes :: bytes \<Rightarrow> u16"] by simp

lemma reads_i32: "reads cur_i32 (to_be_bytes w) w"
  unfolding cur_i32_def using reads_bind_ret [OF reads_take, of "to_be_bytes w" 4 "from_be_bytes :: bytes \<Rightarrow> u32"] by simp

lemma position_append: "0 \<notin> set s \<Longrightarrow> position (\<lambda>b. b = (0 :: u8)) (s @ 0 # t) = Some (length s)"
  by (induction s) auto

lemma reads_cstr: "valid_utf8 s \<Longrightarrow> 0 \<notin> set s \<Longrightarrow> reads cur_cstr (s @ [0]) s"
  unfolding reads_def
proof (intro allI impI)
  fix r more
  assume s: "valid_utf8 s" "0 \<notin> set s" and f: "faces r ((s @ [0]) @ more)"
  have d: "drop (cur_pos r) (cur_buf r) = s @ 0 # more" and p: "cur_pos r \<le> length (cur_buf r)"
    using f by (simp_all add: faces_def cur_ok_def)
  have l: "length (cur_buf r) = cur_pos r + length s + 1 + length more"
    using arg_cong [OF d, of length] p by simp
  have "cur_cstr r = (Inr s, r\<lparr>cur_pos := cur_pos r + length s + 1\<rparr>)"
    using d l s by (simp add: cur_cstr_def slice_def position_append)
  moreover have "faces (r\<lparr>cur_pos := cur_pos r + length s + 1\<rparr>) more"
    using arg_cong [OF d, of "drop (length s + 1)"] l by (simp add: faces_def cur_ok_def add_ac)
  ultimately show "\<exists>r'. cur_cstr r = (Inr s, r') \<and> faces r' more"
    by blast
qed

lemma sint_small_u32: "n < 2 ^ 31 \<Longrightarrow> sint (of_nat n :: u32) = int n"
  by (simp add: signed_of_nat signed_take_bit_int_eq_self_iff)

lemma sint_small_u16: "n < 2 ^ 15 \<Longrightarrow> sint (of_nat n :: u16) = int n"
  by (simp add: signed_of_nat signed_take_bit_int_eq_self_iff)

lemma reads_count: "n < 2 ^ 15 \<Longrightarrow> reads cur_count (to_be_bytes (of_nat n :: u16)) n"
  unfolding cur_count_def
  using reads_bind [OF reads_i16, of "\<lambda>n. if sint n < 0 then lift_op (Inl (malformed (''negative count '' @ int_string (sint n))))
     else ret_op (nat (sint n))" "of_nat n" "[]" n]
  by (simp add: sint_small_u16 reads_ret)

definition put_nullable :: "bytes option \<Rightarrow> bytes" where
  "put_nullable v =
     (case v of None \<Rightarrow> to_be_bytes (- 1 :: u32) | Some bs \<Rightarrow> to_be_bytes (of_nat (length bs) :: u32) @ bs)"

definition param_fits :: "bytes option \<Rightarrow> bool" where
  "param_fits v = (case v of None \<Rightarrow> True | Some bs \<Rightarrow> length bs < 2 ^ 31)"

lemma reads_nullable:
  assumes "param_fits v"
  shows "reads cur_nullable_bytes (put_nullable v) v"
proof (cases v)
  case None
  have "reads cur_nullable_bytes (to_be_bytes (- 1 :: u32) @ []) None"
    unfolding cur_nullable_bytes_def by (rule reads_bind [OF reads_i32]) (simp add: reads_ret)
  then show ?thesis
    using None by (simp add: put_nullable_def)
next
  case (Some bs)
  have s: "sint (of_nat (length bs) :: u32) = int (length bs)"
    using assms Some by (simp add: sint_small_u32 param_fits_def)
  then have "(of_nat (length bs) :: u32) \<noteq> - 1"
    by auto
  then have "reads cur_nullable_bytes (to_be_bytes (of_nat (length bs) :: u32) @ bs) (Some bs)"
    unfolding cur_nullable_bytes_def using s
    by (intro reads_bind [OF reads_i32]) (simp add: reads_bind_ret reads_take)
  then show ?thesis
    using Some by (simp add: put_nullable_def)
qed

interpretation i32_field: wire_field "\<lambda>w. to_be_bytes w" cur_i32 "\<lambda>_. True"
  by unfold_locales (rule reads_i32)

interpretation nullable_field: wire_field put_nullable cur_nullable_bytes param_fits
  by unfold_locales (rule reads_nullable)

lemma reads_format: "reads (bind_op cur_i16 (\<lambda>code. lift_op (format_from_code code))) (to_be_bytes (format_code f)) f"
  using reads_bind [OF reads_i16, of "\<lambda>code. lift_op (format_from_code code)" "format_code f" "[]" f]
  by (cases f) (simp_all add: reads_lift format_from_code_def)

interpretation format_field: wire_field "\<lambda>f. to_be_bytes (format_code f)"
  "bind_op cur_i16 (\<lambda>code. lift_op (format_from_code code))" "\<lambda>_. True"
  by unfold_locales (rule reads_format)

lemma reads_formats:
  assumes "length fs < 2 ^ 15"
  shows "reads decode_formats (to_be_bytes (of_nat (length fs) :: u16) @ concat (map (\<lambda>f. to_be_bytes (format_code f)) fs)) fs"
  unfolding decode_formats_def
  by (rule reads_bind [OF reads_count [OF assms]]) (rule format_field.get_puts, simp add: list_all_iff)

subsection \<open>The messages of a client\<close>

text \<open>How a client writes each message, as the protocol's documentation has it.\<close>

fun target_byte :: "target_kind \<Rightarrow> u8" where
  "target_byte StatementTarget = 83"
| "target_byte PortalTarget = 80"

fun frontend_tag :: "frontend \<Rightarrow> u8" where
  "frontend_tag (Query _) = 81"
| "frontend_tag (ParseMsg _ _ _) = 80"
| "frontend_tag (Bind _ _ _ _ _) = 66"
| "frontend_tag (Describe _ _) = 68"
| "frontend_tag (Execute _ _) = 69"
| "frontend_tag (CloseMsg _ _) = 67"
| "frontend_tag Sync = 83"
| "frontend_tag Flush = 72"
| "frontend_tag Terminate = 88"
| "frontend_tag (Password _) = 112"
| "frontend_tag (Unsupported tag) = tag"

definition put_formats :: "format list \<Rightarrow> bytes" where
  "put_formats fs = to_be_bytes (of_nat (length fs) :: u16) @ concat (map (\<lambda>f. to_be_bytes (format_code f)) fs)"

definition put_cstr :: "bytes \<Rightarrow> bytes" where
  "put_cstr s = s @ [0]"

fun frontend_body :: "frontend \<Rightarrow> bytes" where
  "frontend_body (Query sql) = put_cstr sql"
| "frontend_body (ParseMsg name sql types) =
     put_cstr name @ put_cstr sql @ to_be_bytes (of_nat (length types) :: u16) @ concat (map (\<lambda>w. to_be_bytes w) types)"
| "frontend_body (Bind portal statement pfs params rfs) =
     put_cstr portal @ put_cstr statement @ put_formats pfs @ to_be_bytes (of_nat (length params) :: u16)
       @ concat (map put_nullable params) @ put_formats rfs"
| "frontend_body (Describe kind name) = [target_byte kind] @ put_cstr name"
| "frontend_body (Execute portal max_rows) = put_cstr portal @ to_be_bytes max_rows"
| "frontend_body (CloseMsg kind name) = [target_byte kind] @ put_cstr name"
| "frontend_body (Password raw) = raw"
| "frontend_body _ = []"

definition cstr_ok :: "bytes \<Rightarrow> bool" where
  "cstr_ok s \<longleftrightarrow> valid_utf8 s \<and> 0 \<notin> set s"

fun frontend_ok :: "frontend \<Rightarrow> bool" where
  "frontend_ok (Query sql) = cstr_ok sql"
| "frontend_ok (ParseMsg name sql types) = (cstr_ok name \<and> cstr_ok sql \<and> length types < 2 ^ 15)"
| "frontend_ok (Bind portal statement pfs params rfs) =
     (cstr_ok portal \<and> cstr_ok statement \<and> length pfs < 2 ^ 15 \<and> length params < 2 ^ 15 \<and> length rfs < 2 ^ 15 \<and>
      list_all param_fits params)"
| "frontend_ok (Describe kind name) = cstr_ok name"
| "frontend_ok (Execute portal max_rows) = (cstr_ok portal \<and> 0 \<le> sint max_rows)"
| "frontend_ok (CloseMsg kind name) = cstr_ok name"
| "frontend_ok (Unsupported tag) = (tag \<notin> set known_tags)"
| "frontend_ok _ = True"

lemma reads_u8: "reads cur_u8 [b] b"
proof -
  have "reads cur_u8 ([b] @ []) b"
    unfolding cur_u8_def by (rule reads_bind [OF reads_take]) (simp_all add: reads_ret)
  then show ?thesis
    by simp
qed

lemma reads_target:
  assumes "reads (f kind) bs x"
  shows "reads (bind_op cur_u8 (\<lambda>b. bind_op (lift_op (target_kind_from_byte b)) f)) ([target_byte kind] @ bs) x"
proof (rule reads_bind [OF reads_u8])
  have "reads (lift_op (target_kind_from_byte (target_byte kind))) [] kind"
    by (cases kind) (simp_all add: reads_lift target_kind_from_byte_def)
  from reads_bind [OF this, of f] assms
  show "reads (bind_op (lift_op (target_kind_from_byte (target_byte kind))) f) bs x"
    by simp
qed

lemma reads_cstr_ok: "cstr_ok s \<Longrightarrow> reads cur_cstr (put_cstr s) s"
  by (simp add: cstr_ok_def put_cstr_def reads_cstr)

lemma reads_parse:
  assumes "cstr_ok name" "cstr_ok sql" "length types < 2 ^ 15"
  shows "reads (bind_op cur_cstr (\<lambda>name. bind_op cur_cstr (\<lambda>sql. bind_op cur_count (\<lambda>n.
        bind_op (read_n n cur_i32) (\<lambda>param_types. ret_op (ParseMsg name sql param_types))))))
      (frontend_body (ParseMsg name sql types)) (ParseMsg name sql types)"
  unfolding frontend_body.simps
  by (rule reads_bind [OF reads_cstr_ok [OF assms(1)]], rule reads_bind [OF reads_cstr_ok [OF assms(2)]],
      rule reads_bind [OF reads_count [OF assms(3)]], rule reads_bind_ret [OF i32_field.get_puts])
    (simp add: list_all_iff)

lemma reads_bind_message:
  assumes "cstr_ok portal" "cstr_ok statement" "length pfs < 2 ^ 15" "length params < 2 ^ 15" "length rfs < 2 ^ 15"
    "list_all param_fits params"
  shows "reads (bind_op cur_cstr (\<lambda>portal. bind_op cur_cstr (\<lambda>statement.
        bind_op decode_formats (\<lambda>param_formats. bind_op cur_count (\<lambda>n.
        bind_op (read_n n cur_nullable_bytes) (\<lambda>params. bind_op decode_formats (\<lambda>result_formats.
        ret_op (Bind portal statement param_formats params result_formats))))))))
      (frontend_body (Bind portal statement pfs params rfs)) (Bind portal statement pfs params rfs)"
  unfolding frontend_body.simps
  by (rule reads_bind [OF reads_cstr_ok [OF assms(1)]], rule reads_bind [OF reads_cstr_ok [OF assms(2)]],
      rule reads_bind [OF reads_formats [OF assms(3), folded put_formats_def]],
      rule reads_bind [OF reads_count [OF assms(4)]], rule reads_bind [OF nullable_field.get_puts [OF assms(6)]],
      rule reads_bind_ret [OF reads_formats [OF assms(5), folded put_formats_def]])

lemma reads_body:
  assumes "frontend_ok m" "frontend_tag m \<in> set known_tags" "frontend_tag m \<noteq> 112"
  shows "reads (decode_body (frontend_tag m) body) (frontend_body m) m"
proof (cases m)
  case (ParseMsg name sql types)
  then show ?thesis
    using assms(1) reads_parse by (simp add: decode_body_def)
next
  case (Bind portal statement pfs params rfs)
  then show ?thesis
    using assms(1) reads_bind_message by (simp add: decode_body_def)
next
  case (Execute portal max_rows)
  have "reads (bind_op cur_i32 (\<lambda>max_rows. if sint max_rows < 0 then lift_op (Inl (malformed ''negative row limit''))
        else ret_op (frontend.Execute portal max_rows))) (to_be_bytes max_rows @ []) m"
    using assms(1) Execute by (intro reads_bind [OF reads_i32]) (simp add: reads_ret)
  then show ?thesis
    using assms(1) Execute reads_bind [OF reads_cstr_ok, of portal] by (simp add: decode_body_def)
next
  case (Describe kind name)
  then show ?thesis
    using assms(1) reads_target [of "\<lambda>kind. bind_op cur_cstr (\<lambda>name. ret_op (frontend.Describe kind name))" kind,
        OF reads_bind_ret [OF reads_cstr_ok]]
    by (simp add: decode_body_def)
next
  case (CloseMsg kind name)
  then show ?thesis
    using assms(1) reads_target [of "\<lambda>kind. bind_op cur_cstr (\<lambda>name. ret_op (frontend.CloseMsg kind name))" kind,
        OF reads_bind_ret [OF reads_cstr_ok]]
    by (simp add: decode_body_def)
qed (use assms in \<open>auto simp: decode_body_def reads_ret reads_bind_ret reads_cstr_ok known_tags_def\<close>)

text \<open>
  C36: every well-formed message decodes to itself: what a client writes for a message is read back as
  that message, with nothing left over.
\<close>

theorem decode_frontend_message:
  assumes "frontend_ok m"
  shows "decode_frontend (frontend_tag m) (frontend_body m) = Inr m"
proof (cases "frontend_tag m \<in> set known_tags \<and> frontend_tag m \<noteq> 112")
  case True
  have "faces (cur_new (frontend_body m)) (frontend_body m @ [])"
    by (simp add: faces_def cur_ok_def cur_new_def)
  then obtain r where r: "decode_body (frontend_tag m) (frontend_body m) (cur_new (frontend_body m)) = (Inr m, r)"
    "faces r []"
    using reads_body [OF assms, of "frontend_body m"] True unfolding reads_def by blast
  have "cur_is_empty r"
    using r(2) by (simp add: faces_def cur_ok_def cur_is_empty_def cur_remaining_def)
  then show ?thesis
    using True r(1)
    by (simp add: decode_frontend_def bind_op_def ret_op_def cur_finish_def split: frontend.split)
next
  case False
  then show ?thesis
    using assms
    by (cases m)
      (auto simp: decode_frontend_def decode_body_def bind_op_def ret_op_def known_tags_def)
qed

theorem decode_frontend_message_witness:
  "decode_frontend 66 (frontend_body (Bind [112] [] [BinaryFormat] [Some [0, 0, 0, 42], None] [TextFormat])) =
   Inr (Bind [112] [] [BinaryFormat] [Some [0, 0, 0, 42], None] [TextFormat])"
proof -
  have "frontend_ok (Bind [112] [] [BinaryFormat] [Some [0, 0, 0, 42], None] [TextFormat])"
    by (simp add: cstr_ok_def param_fits_def)
  from decode_frontend_message [OF this] show ?thesis
    by (simp only: frontend_tag.simps)
qed

subsection \<open>Framing\<close>

definition frame_bytes :: "u8 \<Rightarrow> bytes \<Rightarrow> bytes" where
  "frame_bytes tag body = tag # to_be_bytes (of_nat (length body + 4) :: u32) @ body"

lemma read_exact_append: "length bs = n \<Longrightarrow> read_exact n (f\<lparr>fr_in := bs @ later\<rparr>) = (Inr bs, f\<lparr>fr_in := later\<rparr>)"
  by (simp add: read_exact_def)

lemma fr_max_in: "fr_max (f\<lparr>fr_in := bs\<rparr>) = fr_max f"
  by simp

lemma read_len_ok:
  assumes "n + 4 < 2 ^ 31" "n \<le> limit"
  shows "read_len limit (f\<lparr>fr_in := to_be_bytes (of_nat (n + 4) :: u32) @ later\<rparr>) = (Inr n, f\<lparr>fr_in := later\<rparr>)"
proof -
  have "sint (of_nat (n + 4) :: u32) = int n + 4"
    using sint_small_u32 [OF assms(1)] by (simp del: of_nat_add)
  then show ?thesis
    using assms(2) read_exact_append [of "to_be_bytes (of_nat (n + 4) :: u32)" 4]
    by (simp add: read_len_def bind_op_def ret_op_def Let_def nat_add_distrib del: of_nat_add)
qed

lemma read_message_frame:
  assumes "length body + 4 < 2 ^ 31" "length body \<le> fr_max f" "fr_in f = frame_bytes tag body @ later"
  shows "read_message f = (decode_frontend tag body, f\<lparr>fr_in := later\<rparr>)"
proof -
  let ?len = "to_be_bytes (of_nat (length body + 4) :: u32)"
  have f: "f = f\<lparr>fr_in := [tag] @ ?len @ body @ later\<rparr>"
    using assms(3) by (simp add: frame_bytes_def)
  have r: "read_exact 1 (f\<lparr>fr_in := [tag] @ ?len @ body @ later\<rparr>) = (Inr [tag], f\<lparr>fr_in := ?len @ body @ later\<rparr>)"
    "read_len (fr_max f) (f\<lparr>fr_in := ?len @ body @ later\<rparr>) = (Inr (length body), f\<lparr>fr_in := body @ later\<rparr>)"
    "read_exact (length body) (f\<lparr>fr_in := body @ later\<rparr>) = (Inr body, f\<lparr>fr_in := later\<rparr>)"
    using assms(1,2) by (simp_all only: read_exact_append read_len_ok length_Cons list.size One_nat_def)
  show ?thesis
    by (subst f) (simp only: read_message_def bind_op_def r fr_max_in get_op_def lift_op_def prod.case sum.case list.sel)
qed

text \<open>Reading the messages of a stream one after the other, errors included.\<close>

primrec read_messages :: "nat \<Rightarrow> framed \<Rightarrow> frontend pres list" where
  "read_messages 0 f = []"
| "read_messages (Suc n) f = (case read_message f of (r, f) \<Rightarrow> r # read_messages n f)"

text \<open>
  C37: framing stays in step. From a stream of frames within the size limit, each read returns the
  decoding of the next frame's body, whether or not the bodies before it were valid.
\<close>

theorem framing_stays_in_step:
  assumes "\<forall>(tag, body)\<in>set frames. length body + 4 < 2 ^ 31 \<and> length body \<le> fr_max f"
    and "fr_in f = concat (map (\<lambda>(tag, body). frame_bytes tag body) frames) @ later"
  shows "read_messages (length frames) f = map (\<lambda>(tag, body). decode_frontend tag body) frames"
  using assms
proof (induction frames arbitrary: f)
  case (Cons fr frames)
  obtain tag body where fr: "fr = (tag, body)"
    by (cases fr)
  have "read_message f =
      (decode_frontend tag body, f\<lparr>fr_in := concat (map (\<lambda>(tag, body). frame_bytes tag body) frames) @ later\<rparr>)"
    using Cons.prems fr by (intro read_message_frame) auto
  then show ?case
    using Cons fr by simp
qed simp

theorem framing_stays_in_step_witness:
  "read_messages 2 (framed_new (frame_bytes 81 [255, 0] @ frame_bytes 83 []) 100) =
   [decode_frontend 81 [255, 0], decode_frontend 83 []]"
proof -
  let ?f = "framed_new (frame_bytes 81 [255, 0] @ frame_bytes 83 []) 100"
  have "read_messages (length [(81 :: u8, [255, 0 :: u8]), (83, [])]) ?f =
      map (\<lambda>(tag, body). decode_frontend tag body) [(81, [255, 0]), (83, [])]"
    by (rule framing_stays_in_step [where later = "[]"]) (simp_all add: framed_new_def)
  then show ?thesis
    by (simp add: numeral_2_eq_2)
qed

text \<open>
  A declared length over the limit is refused as soon as it is read: nothing of the body has been
  read, let alone stored.
\<close>

theorem oversized_frame_refused:
  assumes "fr_in f = tag # to_be_bytes (len :: u32) @ later" and "int (fr_max f) + 4 < sint len"
  shows "read_message f = (Inl (PErr (MessageTooLarge (nat (sint len) - 4) (fr_max f))), f\<lparr>fr_in := later\<rparr>)"
proof -
  have f: "f = f\<lparr>fr_in := [tag] @ to_be_bytes len @ later\<rparr>"
    using assms(1) by simp
  have r: "read_exact 1 (f\<lparr>fr_in := [tag] @ to_be_bytes len @ later\<rparr>) = (Inr [tag], f\<lparr>fr_in := to_be_bytes len @ later\<rparr>)"
    "read_exact 4 (f\<lparr>fr_in := to_be_bytes len @ later\<rparr>) = (Inr (to_be_bytes len), f\<lparr>fr_in := later\<rparr>)"
    by (simp_all only: read_exact_append length_Cons list.size One_nat_def) (simp add: read_exact_append)
  have "read_len (fr_max f) (f\<lparr>fr_in := to_be_bytes len @ later\<rparr>) =
      (Inl (PErr (MessageTooLarge (nat (sint len) - 4) (fr_max f))), f\<lparr>fr_in := later\<rparr>)"
    unfolding read_len_def using assms(2) by (simp add: bind_op_def r lift_op_def Let_def nat_less_iff less_diff_conv)
  then show ?thesis
    by (subst f) (simp only: read_message_def bind_op_def r fr_max_in get_op_def prod.case sum.case)
qed

theorem oversized_frame_refused_witness:
  "read_message (framed_new (81 # to_be_bytes (0x7FFFFFFF :: u32) @ [1, 2, 3]) 1024) =
   (Inl (PErr (MessageTooLarge (2 ^ 31 - 5) 1024)), framed_new [1, 2, 3] 1024)"
proof -
  have "sint (0x7FFFFFFF :: u32) = 2 ^ 31 - 1"
    by simp
  then show ?thesis
    using oversized_frame_refused [of "framed_new (81 # to_be_bytes (0x7FFFFFFF :: u32) @ [1, 2, 3]) 1024" 81 "0x7FFFFFFF" "[1, 2, 3]"]
    by (simp add: framed_new_def)
qed

subsection \<open>The messages of the server\<close>

lemma wfinish_tagged: "wfinish (wtagged tag @ body) = frame_bytes tag body"
proof -
  have l: "length (wtagged tag @ body) - 1 = length body + 4"
    by (simp add: wtagged_def)
  have w: "wtagged tag @ body = tag # 0 # 0 # 0 # 0 # body"
    by (simp add: wtagged_def)
  show ?thesis
    unfolding wfinish_def l w by (simp add: frame_bytes_def overwrite_def add.commute)
qed

lemma fold_put_value: "fold put_value vs w = w @ concat (map put_nullable vs)"
  by (induction vs arbitrary: w) (simp_all add: put_value_def put_nullable_def wi32_def wbytes_def split: option.split)

text \<open>
  C38: a client that reads a row as the protocol prescribes gets the values the server sent: the frame
  carries its own length, and its body holds the number of columns and each value or NULL.
\<close>

theorem data_row_reads_back:
  assumes "length vs < 2 ^ 15" and "list_all param_fits vs"
  shows "\<exists>body. data_row vs = frame_bytes 68 body \<and>
    fst (bind_op cur_count (\<lambda>n. read_n n cur_nullable_bytes) (cur_new body)) = Inr vs"
proof -
  let ?body = "to_be_bytes (of_nat (length vs) :: u16) @ concat (map put_nullable vs)"
  have frame: "data_row vs = frame_bytes 68 ?body"
    using wfinish_tagged [of 68 ?body] by (simp add: data_row_def fold_put_value wi16_def)
  have "reads (bind_op cur_count (\<lambda>n. read_n n cur_nullable_bytes)) ?body vs"
    by (rule reads_bind [OF reads_count [OF assms(1)]], rule nullable_field.get_puts [OF assms(2)])
  moreover have "faces (cur_new ?body) (?body @ [])"
    by (simp add: faces_def cur_ok_def cur_new_def)
  ultimately have "fst (bind_op cur_count (\<lambda>n. read_n n cur_nullable_bytes) (cur_new ?body)) = Inr vs"
    unfolding reads_def by (metis fst_conv)
  with frame show ?thesis
    by blast
qed

theorem data_row_reads_back_witness:
  "\<exists>body. data_row [None, Some [104, 105]] = frame_bytes 68 body \<and>
    fst (bind_op cur_count (\<lambda>n. read_n n cur_nullable_bytes) (cur_new body)) = Inr [None, Some [104, 105]]"
  by (rule data_row_reads_back) (simp_all add: param_fits_def)

end
