(* ===== verification/Datetime.thy ===== *)
theory Datetime
  imports Common "HOL-Library.Signed_Division"
begin

text \<open>
  Calendar arithmetic (datetime.rs). An \<open>i64\<close> is an integer; \<open>i64_wrap\<close> is written where a release
  build can wrap, and integer division truncates towards zero as Rust's does. The clock is an argument.
\<close>

section \<open>64-bit arithmetic\<close>

definition i64_wrap :: "int \<Rightarrow> int" where
  "i64_wrap x = (x + 2 ^ 63) mod 2 ^ 64 - 2 ^ 63"

definition in_i64 :: "int \<Rightarrow> bool" where
  "in_i64 x \<longleftrightarrow> - (2 ^ 63) \<le> x \<and> x < 2 ^ 63"

lemma i64_wrap_id: "in_i64 x \<Longrightarrow> i64_wrap x = x"
  by (simp add: i64_wrap_def in_i64_def)

lemma i64_wrap_small: "- (10 ^ 18) \<le> x \<Longrightarrow> x \<le> 10 ^ 18 \<Longrightarrow> i64_wrap x = x"
  by (rule i64_wrap_id) (simp add: in_i64_def)

lemma i64_wrap_range: "in_i64 (i64_wrap x)"
  by (simp add: i64_wrap_def in_i64_def)

definition i64_checked :: "int \<Rightarrow> int option" where
  "i64_checked x = (if in_i64 x then Some x else None)"

section \<open>Days and dates\<close>

definition days_from_civil :: "int \<Rightarrow> int \<Rightarrow> int \<Rightarrow> int" where
  "days_from_civil y m d =
     (let y = (if m \<le> 2 then i64_wrap (y - 1) else y);
          era = (if 0 \<le> y then y else i64_wrap (y - 399)) sdiv 400;
          yoe = i64_wrap (y - i64_wrap (era * 400));
          mp = (if m > 2 then m - 3 else m + 9);
          doy = (153 * mp + 2) sdiv 5 + d - 1;
          doe = i64_wrap (i64_wrap (i64_wrap (i64_wrap (yoe * 365) + yoe sdiv 4) - yoe sdiv 100) + doy)
      in i64_wrap (i64_wrap (i64_wrap (era * 146097) + doe) - 719468))"

definition civil_from_days :: "int \<Rightarrow> int \<times> int \<times> int" where
  "civil_from_days z =
     (let z = i64_wrap (z + 719468);
          era = (if 0 \<le> z then z else i64_wrap (z - 146096)) sdiv 146097;
          doe = i64_wrap (z - i64_wrap (era * 146097));
          yoe = (doe - doe sdiv 1460 + doe sdiv 36524 - doe sdiv 146096) sdiv 365;
          y = yoe + era * 400;
          doy = doe - (365 * yoe + yoe sdiv 4 - yoe sdiv 100);
          mp = (5 * doy + 2) sdiv 153;
          d = (doy - (153 * mp + 2) sdiv 5 + 1) mod 2 ^ 32;
          m = (if mp < 10 then mp + 3 else mp - 9) mod 2 ^ 32
      in (if m \<le> 2 then y + 1 else y, m, d))"

definition days_in_month :: "int \<Rightarrow> int \<Rightarrow> int" where
  "days_in_month y m =
     (if m \<in> {1, 3, 5, 7, 8, 10, 12} then 31
      else if m \<in> {4, 6, 9, 11} then 30
      else if y smod 4 = 0 \<and> (y smod 100 \<noteq> 0 \<or> y smod 400 = 0) then 29
      else 28)"

definition parts_from_micros :: "int \<Rightarrow> int \<times> int \<times> int \<times> int \<times> int \<times> int \<times> int" where
  "parts_from_micros micros =
     (let days = micros div 86400000000;
          rem = micros mod 86400000000;
          (y, m, d) = civil_from_days days
      in (y, m, d, rem sdiv 3600000000, rem sdiv 60000000 smod 60, rem sdiv 1000000 smod 60, rem smod 1000000))"

section \<open>Correctness of the day numbers\<close>

text \<open>Years far inside the range of an \<open>i64\<close>, so that nothing wraps.\<close>

definition year_ok :: "int \<Rightarrow> bool" where
  "year_ok y \<longleftrightarrow> \<bar>y\<bar> \<le> 10 ^ 12"

definition date_ok :: "int \<Rightarrow> int \<Rightarrow> int \<Rightarrow> bool" where
  "date_ok y m d \<longleftrightarrow> year_ok y \<and> 1 \<le> m \<and> m \<le> 12 \<and> 1 \<le> d \<and> d \<le> days_in_month y m"

lemma sdiv_nonneg: "0 \<le> (a :: int) \<Longrightarrow> 0 < b \<Longrightarrow> a sdiv b = a div b"
  by (cases "a = 0") (auto simp: signed_divide_int_def)

lemma smod_nonneg: "0 \<le> (a :: int) \<Longrightarrow> 0 < b \<Longrightarrow> a smod b = a mod b"
  by (cases "a = 0") (auto simp: signed_modulo_int_def)

lemma smod_eq_0: "((a :: int) smod b = 0) = (b dvd a)"
  by (cases "a = 0") (auto simp: signed_modulo_int_def sgn_if dvd_eq_mod_eq_0 [symmetric])

text \<open>The adjusted truncating division is the floor.\<close>

lemma sdiv_floor:
  fixes a b :: int
  assumes "0 < b"
  shows "(if 0 \<le> a then a else a - (b - 1)) sdiv b = a div b"
proof (cases "0 \<le> a")
  case True
  then show ?thesis
    using assms by (simp add: sdiv_nonneg)
next
  case False
  have "(a - (b - 1)) sdiv b = - ((b - 1 - a) div b)"
    using False assms by (simp add: signed_divide_int_def sgn_if)
  also have "(b - 1 - a) div b = - (a div b)"
  proof (rule int_div_pos_eq)
    show "b - 1 - a = b * - (a div b) + (b - 1 - a mod b)"
      using div_mult_mod_eq [of a b] by (simp add: algebra_simps)
    show "0 \<le> b - 1 - a mod b" "b - 1 - a mod b < b"
      using pos_mod_bound [OF assms, of a] pos_mod_sign [OF assms, of a] by linarith+
  qed
  finally show ?thesis
    using False by simp
qed

subsection \<open>Inside one era of 400 years\<close>

definition march_leap :: "int \<Rightarrow> bool" where
  "march_leap yoe \<longleftrightarrow> (yoe + 1) mod 4 = 0 \<and> ((yoe + 1) mod 100 \<noteq> 0 \<or> (yoe + 1) mod 400 = 0)"

lemma civil_core:
  fixes yoe doy :: int
  assumes y: "0 \<le> yoe" "yoe < 400" and d: "0 \<le> doy" "doy \<le> 365" "doy = 365 \<longrightarrow> march_leap yoe"
    and doe: "doe = 365 * yoe + yoe div 4 - yoe div 100 + doy"
  shows "(doe - doe div 1460 + doe div 36524 - doe div 146096) div 365 = yoe"
    and "0 \<le> doe" and "doe < 146097"
proof -
  define c q r where "c = yoe div 100" and "q = yoe mod 100 div 4" and "r = yoe mod 100 mod 4"
  have yoe: "yoe = 100 * c + 4 * q + r"
    using div_mult_mod_eq [of yoe 100] div_mult_mod_eq [of "yoe mod 100" 4]
    unfolding c_def q_def r_def by linarith
  have cqr: "0 \<le> c" "c \<le> 3" "0 \<le> q" "q \<le> 24" "0 \<le> r" "r \<le> 3"
    using y by (auto simp: c_def q_def r_def)
  have "yoe div 4 = 25 * c + q"
    by (rule int_div_pos_eq [where r = r]) (use yoe cqr in auto)
  moreover have "yoe div 100 = c"
    by (rule int_div_pos_eq [where r = "4 * q + r"]) (use yoe cqr in auto)
  ultimately have doe': "doe = 36524 * c + 1461 * q + 365 * r + doy"
    using doe yoe by simp
  have leap: "r = 3 \<and> (q \<noteq> 24 \<or> c = 3)" if "doy = 365"
  proof -
    have "march_leap yoe"
      using d(3) that by simp
    moreover have r: "(r + 1) mod 4 = 0" if "(yoe + 1) mod 4 = 0"
      using that unfolding yoe by presburger
    moreover have "c \<in> {0, 1, 2, 3}" "r \<in> {0, 1, 2, 3}"
      using cqr by auto
    ultimately show ?thesis
      unfolding march_leap_def by (auto simp: yoe)
  qed
  let ?w = "24 * c + q + 365 * r + doy" and ?x = "1461 * q + 365 * r + doy"
  have x: "?x \<le> 36524" "?x = 36524 \<longrightarrow> c = 3 \<and> doe = 146096"
    using cqr d leap doe' by auto
  have "doe div 36524 = (if ?x = 36524 then 4 else c) \<and> doe div 146096 = (if ?x = 36524 then 1 else 0)"
  proof (cases "?x = 36524")
    case True
    then show ?thesis
      using x by simp
  next
    case False
    have "doe div 36524 = c"
      by (rule int_div_pos_eq [where r = ?x]) (use False x cqr d(1) doe' in auto)
    moreover have "doe div 146096 = 0"
      by (rule div_pos_pos_trivial) (use False x cqr d(1) doe' in auto)
    ultimately show ?thesis
      using False by simp
  qed
  moreover have "doe div 1460 = 25 * c + q + (if 1460 \<le> ?w then 1 else 0)"
    using cqr d(1,2) doe' by (auto intro!: int_div_pos_eq [where r = "?w - (if 1460 \<le> ?w then 1460 else 0)"])
  ultimately have "doe - doe div 1460 + doe div 36524 - doe div 146096 =
      365 * yoe + (doy - (if 1460 \<le> ?w then 1 else 0))"
    using doe' yoe x by auto
  moreover have "0 \<le> doy - (if 1460 \<le> ?w then 1 else 0)" "doy - (if 1460 \<le> ?w then 1 else 0) < 365"
    using cqr d leap by (cases "doy = 365"; auto split: if_splits)+
  ultimately show "(doe - doe div 1460 + doe div 36524 - doe div 146096) div 365 = yoe"
    by (intro int_div_pos_eq)
  show "0 \<le> doe" "doe < 146097"
    using doe' cqr d leap by (cases "doy = 365"; auto)+
qed

subsection \<open>The formulas without wrap-around\<close>

text \<open>A date as years since the last 1 March of a multiple of 400, and days since that March.\<close>

definition march_year :: "int \<Rightarrow> int \<Rightarrow> int" where
  "march_year y m = (if m \<le> 2 then y - 1 else y)"

definition march_day :: "int \<Rightarrow> int \<Rightarrow> int" where
  "march_day m d = (153 * (if m > 2 then m - 3 else m + 9) + 2) div 5 + d - 1"

definition day_of_era :: "int \<Rightarrow> int \<Rightarrow> int" where
  "day_of_era yoe doy = 365 * yoe + yoe div 4 - yoe div 100 + doy"

lemma month_cases: "1 \<le> (m :: int) \<Longrightarrow> m \<le> 12 \<Longrightarrow> m \<in> {1, 2, 3, 4, 5, 6, 7, 8, 9, 10, 11, 12}"
  unfolding insert_iff empty_iff by presburger

lemma march_day_range: "1 \<le> m \<Longrightarrow> m \<le> 12 \<Longrightarrow> 1 \<le> d \<Longrightarrow> d \<le> 31 \<Longrightarrow> 0 \<le> march_day m d \<and> march_day m d \<le> 367"
  unfolding march_day_def by (auto split: if_splits)

lemma day_of_era_wrap:
  assumes "0 \<le> yoe" "yoe < 400" "0 \<le> doy" "doy \<le> 367"
  shows "i64_wrap (i64_wrap (i64_wrap (i64_wrap (yoe * 365) + yoe sdiv 4) - yoe sdiv 100) + doy) = day_of_era yoe doy"
proof -
  have "0 \<le> yoe div 4" "yoe div 4 \<le> 100" "0 \<le> yoe div 100" "yoe div 100 \<le> 4"
    using assms by auto
  then show ?thesis
    using assms by (simp add: i64_wrap_small sdiv_nonneg day_of_era_def)
qed

lemma days_from_civil_plain:
  assumes y: "year_ok y" and m: "1 \<le> m" "m \<le> 12" and d: "1 \<le> d" "d \<le> 31"
  shows "days_from_civil y m d =
    march_year y m div 400 * 146097 + day_of_era (march_year y m mod 400) (march_day m d) - 719468"
proof -
  let ?y = "march_year y m" and ?doy = "march_day m d"
  let ?era = "?y div 400" and ?yoe = "?y mod 400"
  have y': "(if m \<le> 2 then i64_wrap (y - 1) else y) = ?y" and bnd: "\<bar>?y\<bar> \<le> 10 ^ 12 + 1"
    using y i64_wrap_id [of "y - 1"] by (auto simp: march_year_def year_ok_def in_i64_def abs_le_iff)
  have era: "(if 0 \<le> ?y then ?y else i64_wrap (?y - 399)) sdiv 400 = ?era"
    using sdiv_floor [of 400 ?y] bnd by (auto simp: i64_wrap_id in_i64_def)
  have bera: "\<bar>?era\<bar> \<le> 10 ^ 12"
    using bnd by (auto simp: abs_le_iff)
  have yoe: "i64_wrap (?y - i64_wrap (?era * 400)) = ?yoe"
    using bera i64_wrap_small [of ?yoe] by (simp add: i64_wrap_small abs_le_iff minus_div_mult_eq_mod)
  have byoe: "0 \<le> ?yoe" "?yoe < 400"
    by simp_all
  have doy: "(153 * (if m > 2 then m - 3 else m + 9) + 2) sdiv 5 + d - 1 = ?doy"
    using m by (simp add: march_day_def sdiv_nonneg)
  have bdoy: "0 \<le> ?doy" "?doy \<le> 367"
    using march_day_range [OF m d] by auto
  have bq: "0 \<le> ?yoe div 4" "?yoe div 4 \<le> 100" "0 \<le> ?yoe div 100" "?yoe div 100 \<le> 4"
    using byoe by auto
  have doe: "i64_wrap (i64_wrap (i64_wrap (i64_wrap (?yoe * 365) + ?yoe sdiv 4) - ?yoe sdiv 100) + ?doy)
      = day_of_era ?yoe ?doy"
    by (rule day_of_era_wrap [OF byoe bdoy])
  have "0 \<le> day_of_era ?yoe ?doy" "day_of_era ?yoe ?doy \<le> 150000"
    using byoe bq bdoy unfolding day_of_era_def by linarith+
  then have "i64_wrap (i64_wrap (i64_wrap (?era * 146097) + day_of_era ?yoe ?doy) - 719468) =
      ?era * 146097 + day_of_era ?yoe ?doy - 719468"
    using bera by (simp add: i64_wrap_id in_i64_def abs_le_iff)
  then show ?thesis
    unfolding days_from_civil_def Let_def y' era yoe doy doe .
qed

definition month_of :: "int \<Rightarrow> int \<times> int" where
  "month_of doy =
     (let mp = (5 * doy + 2) div 153
      in (if mp < 10 then mp + 3 else mp - 9, doy - (153 * mp + 2) div 5 + 1))"

lemma month_of_range:
  assumes "0 \<le> doy" "doy \<le> 365" "month_of doy = (m, d)"
  shows "1 \<le> m" "m \<le> 12" "1 \<le> d" "d \<le> 31" "march_day m d = doy"
    and "m \<in> {4, 6, 9, 11} \<longrightarrow> d \<le> 30" and "m = 2 \<longrightarrow> d \<le> 29 \<and> (d = 29 \<longrightarrow> doy = 365)"
proof -
  define mp where "mp = (5 * doy + 2) div 153"
  have "0 \<le> mp" "mp \<le> 11"
    using assms(1,2) by (auto simp: mp_def)
  then have "mp \<in> {0, 1, 2, 3, 4, 5, 6, 7, 8, 9, 10, 11}"
    using month_cases [of "mp + 1"] by auto
  moreover have "153 * mp \<le> 5 * doy + 2" "5 * doy + 2 < 153 * mp + 153"
    by (auto simp: mp_def)
  moreover have "m = (if mp < 10 then mp + 3 else mp - 9)" "d = doy - (153 * mp + 2) div 5 + 1"
    using assms(3) by (auto simp: month_of_def mp_def Let_def)
  ultimately show "1 \<le> m" "m \<le> 12" "1 \<le> d" "d \<le> 31" "march_day m d = doy"
    "m \<in> {4, 6, 9, 11} \<longrightarrow> d \<le> 30" "m = 2 \<longrightarrow> d \<le> 29 \<and> (d = 29 \<longrightarrow> doy = 365)"
    using assms(2) by (auto simp: march_day_def)
qed

lemma month_of_march_day:
  assumes "1 \<le> m" "m \<le> 12" "1 \<le> d" "d \<le> (if m = 2 then 29 else if m \<in> {4, 6, 9, 11} then 30 else 31)"
  shows "month_of (march_day m d) = (m, d)" and "0 \<le> march_day m d" and "march_day m d \<le> 365"
    and "march_day m d = 365 \<longrightarrow> m = 2 \<and> d = 29"
proof -
  have mp: "(5 * march_day m d + 2) div 153 = (if m > 2 then m - 3 else m + 9)"
  proof (rule int_div_pos_eq [where r = "5 * march_day m d + 2 - 153 * (if m > 2 then m - 3 else m + 9)"])
    have "m \<in> {1, 2, 3, 4, 5, 6, 7, 8, 9, 10, 11, 12}"
      by (rule month_cases [OF assms(1,2)])
    then show "0 \<le> 5 * march_day m d + 2 - 153 * (if m > 2 then m - 3 else m + 9)"
      "5 * march_day m d + 2 - 153 * (if m > 2 then m - 3 else m + 9) < 153"
      using assms(3,4) by (auto simp: march_day_def)
  qed simp
  show "month_of (march_day m d) = (m, d)"
    unfolding month_of_def mp Let_def using assms by (auto simp: march_day_def)
  have "m \<in> {1, 2, 3, 4, 5, 6, 7, 8, 9, 10, 11, 12}"
    by (rule month_cases [OF assms(1,2)])
  then show "0 \<le> march_day m d" "march_day m d \<le> 365" "march_day m d = 365 \<longrightarrow> m = 2 \<and> d = 29"
    using assms(3,4) by (auto simp: march_day_def)
qed

lemma era_start:
  fixes z :: int
  assumes "\<bar>z\<bar> \<le> 2 * 10 ^ 15"
  shows "- (10 ^ 18) \<le> z div 146097 * 146097 \<and> z div 146097 * 146097 \<le> 10 ^ 18"
proof -
  obtain r where "z div 146097 * 146097 = z - r" "0 \<le> r" "r < 146097"
    using minus_mod_eq_div_mult [of z 146097] by (metis pos_mod_bound pos_mod_sign zero_less_numeral)
  then show ?thesis
    using assms by (simp add: abs_le_iff)
qed

lemma year_of_era_sdiv:
  fixes doe :: int
  assumes "0 \<le> doe"
  shows "(doe - doe sdiv 1460 + doe sdiv 36524 - doe sdiv 146096) sdiv 365 =
      (doe - doe div 1460 + doe div 36524 - doe div 146096) div 365"
    and "0 \<le> (doe - doe div 1460 + doe div 36524 - doe div 146096) div 365"
proof -
  have "doe div 146096 \<le> doe div 36524"
    using assms by (rule zdiv_mono2) auto
  moreover have "doe div 1460 \<le> doe div 1"
    using assms by (rule zdiv_mono2) auto
  ultimately have "0 \<le> doe - doe div 1460 + doe div 36524 - doe div 146096"
    by simp
  then show "(doe - doe sdiv 1460 + doe sdiv 36524 - doe sdiv 146096) sdiv 365 =
      (doe - doe div 1460 + doe div 36524 - doe div 146096) div 365"
    and "0 \<le> (doe - doe div 1460 + doe div 36524 - doe div 146096) div 365"
    using assms by (simp_all add: sdiv_nonneg pos_imp_zdiv_nonneg_iff)
qed

lemma civil_from_days_plain:
  assumes z: "\<bar>z\<bar> \<le> 10 ^ 15"
  shows "civil_from_days z =
    (let era = (z + 719468) div 146097; doe = (z + 719468) mod 146097;
         yoe = (doe - doe div 1460 + doe div 36524 - doe div 146096) div 365;
         doy = doe - (365 * yoe + yoe div 4 - yoe div 100);
         mp = (5 * doy + 2) sdiv 153;
         d = (doy - (153 * mp + 2) sdiv 5 + 1) mod 2 ^ 32;
         m = (if mp < 10 then mp + 3 else mp - 9) mod 2 ^ 32
     in (if m \<le> 2 then yoe + era * 400 + 1 else yoe + era * 400, m, d))"
proof -
  let ?z = "z + 719468"
  let ?era = "?z div 146097" and ?doe = "?z mod 146097"
  let ?yoe = "(?doe - ?doe div 1460 + ?doe div 36524 - ?doe div 146096) div 365"
  have bnd: "\<bar>?z\<bar> \<le> 2 * 10 ^ 15"
    using z by auto
  have wz: "i64_wrap ?z = ?z"
    using bnd by (intro i64_wrap_id) (auto simp: in_i64_def abs_le_iff)
  have era: "(if 0 \<le> ?z then ?z else i64_wrap (?z - 146096)) sdiv 146097 = ?era"
    using sdiv_floor [of 146097 ?z] bnd i64_wrap_id [of "?z - 146096"] by (auto simp: in_i64_def abs_le_iff)
  have eb: "- (10 ^ 18) \<le> ?era * 146097" "?era * 146097 \<le> 10 ^ 18"
    using era_start [OF bnd] by auto
  have doe: "i64_wrap (?z - i64_wrap (?era * 146097)) = ?doe"
    using eb i64_wrap_small [of ?doe] by (simp add: i64_wrap_small minus_div_mult_eq_mod)
  have "0 \<le> ?doe"
    by simp
  note yoe = year_of_era_sdiv [OF this]
  have q: "?yoe sdiv 4 = ?yoe div 4" "?yoe sdiv 100 = ?yoe div 100"
    by (rule sdiv_nonneg [OF yoe(2)]; simp)+
  show ?thesis
    unfolding civil_from_days_def Let_def wz era doe yoe(1) q ..
qed

lemma civil_from_era:
  assumes y: "0 \<le> yoe" "yoe < 400" and d: "0 \<le> doy" "doy \<le> 365" "doy = 365 \<longrightarrow> march_leap yoe"
    and era: "\<bar>era\<bar> \<le> 6 * 10 ^ 9" and z: "z = era * 146097 + day_of_era yoe doy - 719468"
    and md: "month_of doy = (m, d)"
  shows "civil_from_days z = (if m \<le> 2 then yoe + era * 400 + 1 else yoe + era * 400, m, d)"
proof -
  note core = civil_core [OF y d, of "day_of_era yoe doy", unfolded day_of_era_def, OF refl]
  have r: "0 \<le> day_of_era yoe doy" "day_of_era yoe doy < 146097"
    using core by (simp_all add: day_of_era_def)
  have e: "(z + 719468) div 146097 = era" "(z + 719468) mod 146097 = day_of_era yoe doy"
    using r z by simp_all
  have bz: "\<bar>z\<bar> \<le> 10 ^ 15"
    using era z r by (auto simp: abs_le_iff)
  note mr = month_of_range [OF d(1,2) md]
  have mp: "(5 * doy + 2) sdiv 153 = (5 * doy + 2) div 153" "0 \<le> (5 * doy + 2) div 153"
    using d(1) by (simp_all add: sdiv_nonneg)
  have dm: "(if (5 * doy + 2) div 153 < 10 then (5 * doy + 2) div 153 + 3 else (5 * doy + 2) div 153 - 9) = m"
    "doy - (153 * ((5 * doy + 2) div 153) + 2) sdiv 5 + 1 = d"
    using md mp(2) by (auto simp: month_of_def Let_def sdiv_nonneg)
  have "d mod 2 ^ 32 = d" "m mod 2 ^ 32 = m"
    using mr by simp_all
  moreover have "(day_of_era yoe doy - day_of_era yoe doy div 1460 + day_of_era yoe doy div 36524
      - day_of_era yoe doy div 146096) div 365 = yoe"
    using core(1) by (simp only: day_of_era_def)
  moreover have "day_of_era yoe doy - (365 * yoe + yoe div 4 - yoe div 100) = doy"
    by (simp add: day_of_era_def)
  ultimately show ?thesis
    unfolding civil_from_days_plain [OF bz] e Let_def by (simp only: mp(1) dm)
qed

lemma march_leap_mod: "march_leap (w mod 400) \<longleftrightarrow> days_in_month (w + 1) 2 = 29"
proof -
  have m: "(w mod 400 + 1) mod k = (w + 1) mod k" if "k dvd 400" for k
    using that by (metis mod_add_left_eq mod_mod_cancel)
  have "march_leap (w mod 400) \<longleftrightarrow> 4 dvd (w + 1) \<and> (\<not> 100 dvd (w + 1) \<or> 400 dvd (w + 1))"
    unfolding march_leap_def dvd_eq_mod_eq_0 by (simp add: m)
  then show ?thesis
    by (simp add: days_in_month_def smod_eq_0)
qed

subsection \<open>The two directions\<close>

lemma date_ok_march:
  assumes "date_ok y m d"
  shows "month_of (march_day m d) = (m, d)" "0 \<le> march_day m d" "march_day m d \<le> 365"
    "march_day m d = 365 \<longrightarrow> march_leap (march_year y m mod 400)" "d \<le> 31"
proof -
  have d: "1 \<le> m" "m \<le> 12" "1 \<le> d" "d \<le> (if m = 2 then 29 else if m \<in> {4, 6, 9, 11} then 30 else 31)"
    using assms by (auto simp: date_ok_def days_in_month_def split: if_splits)
  note md = month_of_march_day [OF d]
  show "month_of (march_day m d) = (m, d)" "0 \<le> march_day m d" "march_day m d \<le> 365" "d \<le> 31"
    using md d(4) by (auto split: if_splits)
  have "days_in_month y 2 = 29" if "m = 2" "d = 29"
    using assms that by (auto simp: date_ok_def days_in_month_def split: if_splits)
  then have "m = 2 \<and> d = 29 \<longrightarrow> march_leap (march_year y m mod 400)"
    by (simp add: march_year_def march_leap_mod)
  then show "march_day m d = 365 \<longrightarrow> march_leap (march_year y m mod 400)"
    using md(4) by blast
qed

lemma civil_days_civil:
  assumes "date_ok y m d"
  shows "civil_from_days (days_from_civil y m d) = (y, m, d)"
proof -
  let ?y = "march_year y m"
  note dm = date_ok_march [OF assms]
  have b: "year_ok y" "1 \<le> m" "m \<le> 12" "1 \<le> d"
    using assms by (auto simp: date_ok_def)
  have "\<bar>?y div 400\<bar> \<le> 6 * 10 ^ 9"
    using b(1) by (auto simp: march_year_def year_ok_def abs_le_iff)
  then have "civil_from_days (days_from_civil y m d) =
      (if m \<le> 2 then ?y mod 400 + ?y div 400 * 400 + 1 else ?y mod 400 + ?y div 400 * 400, m, d)"
    by (intro civil_from_era [where doy = "march_day m d"])
      (auto simp: days_from_civil_plain [OF b dm(5)] dm(1-4))
  then show ?thesis
    by (simp add: march_year_def)
qed

lemma era_decompose:
  fixes doe :: int
  assumes "0 \<le> doe" "doe < 146097"
  obtains yoe doy where "0 \<le> yoe" "yoe < 400" "0 \<le> doy" "doy \<le> 365" "doy = 365 \<longrightarrow> march_leap yoe"
    "doe = day_of_era yoe doy"
proof -
  define c where "c = min 3 (doe div 36524)"
  define x where "x = doe - 36524 * c"
  define q where "q = min 24 (x div 1461)"
  define w where "w = x - 1461 * q"
  define r where "r = min 3 (w div 365)"
  define doy where "doy = w - 365 * r"
  have c: "0 \<le> c" "c \<le> 3" "0 \<le> x" "x \<le> 36524" "x = 36524 \<longrightarrow> c = 3"
    using assms by (auto simp: c_def x_def min_def)
  have q: "0 \<le> q" "q \<le> 24" "0 \<le> w" "w \<le> 1460" "q = 24 \<and> w = 1460 \<longrightarrow> c = 3"
    using c by (auto simp: q_def w_def min_def)
  have r: "0 \<le> r" "r \<le> 3" "0 \<le> doy" "doy \<le> 365" "doy = 365 \<longrightarrow> r = 3 \<and> w = 1460"
    using q by (auto simp: r_def doy_def min_def)
  define yoe where "yoe = 100 * c + 4 * q + r"
  have "yoe div 4 = 25 * c + q"
    by (rule int_div_pos_eq [where r = r]) (use c q r in \<open>auto simp: yoe_def\<close>)
  moreover have "yoe div 100 = c"
    by (rule int_div_pos_eq [where r = "4 * q + r"]) (use c q r in \<open>auto simp: yoe_def\<close>)
  ultimately have "doe = day_of_era yoe doy"
    by (simp add: day_of_era_def yoe_def doy_def w_def x_def)
  moreover have "march_leap yoe" if "doy = 365"
  proof -
    have y: "r = 3" "q = 24 \<longrightarrow> c = 3"
      using that r q by auto
    then have "(yoe + 1) mod 4 = 0"
      by (simp add: yoe_def)
    moreover have "(yoe + 1) mod 100 \<noteq> 0 \<or> (yoe + 1) mod 400 = 0"
    proof (cases "q = 24")
      case True
      then show ?thesis
        using y by (simp add: yoe_def)
    next
      case False
      have "yoe + 1 = 4 * q + 4 + 100 * c"
        using y by (simp add: yoe_def)
      then have "(yoe + 1) mod 100 = (4 * q + 4) mod 100"
        by (simp only: mod_mult_self2)
      then show ?thesis
        using False q by simp
    qed
    ultimately show ?thesis
      by (simp add: march_leap_def)
  qed
  moreover have "0 \<le> yoe" "yoe < 400"
    using c q r by (simp_all add: yoe_def)
  ultimately show thesis
    using that r by blast
qed

lemma days_in_month_le:
  assumes "1 \<le> m" "m \<le> 12" "d \<le> 31" "m \<in> {4, 6, 9, 11} \<longrightarrow> d \<le> 30"
    and "m = 2 \<Longrightarrow> d = 29 \<Longrightarrow> days_in_month y 2 = 29" and "m = 2 \<longrightarrow> d \<le> 29"
  shows "d \<le> days_in_month y m"
proof (cases "m = 2")
  case True
  have "28 \<le> days_in_month y 2"
    by (simp add: days_in_month_def)
  then show ?thesis
    using True assms(5,6) by fastforce
next
  case False
  then have "m \<in> {1, 3, 5, 7, 8, 10, 12} \<or> m \<in> {4, 6, 9, 11}"
    using month_cases [OF assms(1,2)] by auto
  then show ?thesis
    using assms(3,4) by (auto simp: days_in_month_def)
qed

lemma days_civil_days:
  assumes z: "\<bar>z\<bar> \<le> 10 ^ 14" and ymd: "civil_from_days z = (y, m, d)"
  shows "date_ok y m d" and "days_from_civil y m d = z" and "\<bar>y\<bar> < 10 ^ 12"
proof -
  let ?era = "(z + 719468) div 146097"
  obtain yoe doy where yd: "0 \<le> yoe" "yoe < 400" "0 \<le> doy" "doy \<le> 365" "doy = 365 \<longrightarrow> march_leap yoe"
    and doe: "(z + 719468) mod 146097 = day_of_era yoe doy"
    by (rule era_decompose [of "(z + 719468) mod 146097"]) auto
  have z': "z = ?era * 146097 + day_of_era yoe doy - 719468"
    using div_mult_mod_eq [of "z + 719468" 146097] doe by linarith
  have era: "\<bar>?era\<bar> \<le> 10 ^ 9"
    using z by (auto simp: abs_le_iff)
  obtain m' d' where md: "month_of doy = (m', d')"
    by fastforce
  have "civil_from_days z = (if m' \<le> 2 then yoe + ?era * 400 + 1 else yoe + ?era * 400, m', d')"
    by (rule civil_from_era [OF yd _ z' md]) (use era in simp)
  then have e: "m' = m" "d' = d" "y = (if m \<le> 2 then yoe + ?era * 400 + 1 else yoe + ?era * 400)"
    using ymd by auto
  have my: "march_year y m = yoe + ?era * 400"
    using e(3) by (simp add: march_year_def)
  then have mm: "march_year y m mod 400 = yoe" "march_year y m div 400 = ?era"
    using yd(1,2) by simp_all
  note mr = month_of_range [OF yd(3,4) md, unfolded e(1,2)]
  show yb: "\<bar>y\<bar> < 10 ^ 12"
    using era e(3) yd(1,2) by (auto simp: abs_le_iff abs_less_iff)
  then have yok: "year_ok y"
    by (simp add: year_ok_def)
  show "days_from_civil y m d = z"
    unfolding days_from_civil_plain [OF yok mr(1-4)] mm mr(5) using z' by simp
  have "days_in_month (march_year y m + 1) 2 = 29" if "m = 2" "d = 29"
    using that mr(7) yd(5) mm(1) march_leap_mod [of "march_year y m"] by simp
  then have "days_in_month y 2 = 29" if "m = 2" "d = 29"
    using that by (simp add: march_year_def)
  then have "d \<le> days_in_month y m"
    by (rule days_in_month_le [OF mr(1,2,4,6)]) (use mr(7) in auto)
  then show "date_ok y m d"
    using yok mr(1-3) by (simp add: date_ok_def)
qed

subsection \<open>Day by day\<close>

text \<open>The calendar's own rule for the day after a date.\<close>

definition next_date :: "int \<times> int \<times> int \<Rightarrow> int \<times> int \<times> int" where
  "next_date = (\<lambda>(y, m, d).
     if d < days_in_month y m then (y, m, d + 1)
     else if m < 12 then (y, m + 1, 1)
     else (y + 1, 1, 1))"

lemma march_day_step:
  assumes "1 \<le> m" "m < 12" "m \<noteq> 2" "d = days_in_month y m"
  shows "march_day (m + 1) 1 = march_day m d + 1" and "march_year y (m + 1) = march_year y m"
proof -
  have "m \<in> {1, 2, 3, 4, 5, 6, 7, 8, 9, 10, 11, 12}"
    by (rule month_cases) (use assms in simp_all)
  then show "march_day (m + 1) 1 = march_day m d + 1" "march_year y (m + 1) = march_year y m"
    using assms(2-4) by (auto simp: march_day_def days_in_month_def march_year_def)
qed

text \<open>The last day of February closes a year that starts in March.\<close>

lemma div_step:
  fixes a k :: int
  assumes "0 < k"
  shows "(a + 1) div k = a div k + (if k dvd a + 1 then 1 else 0)"
proof (cases "k dvd a + 1")
  case True
  then obtain q where q: "a + 1 = k * q" ..
  then have a: "a = k * (q - 1) + (k - 1)"
    by (simp add: algebra_simps)
  have "a div k = q - 1"
    by (rule int_div_pos_eq [OF a]) (use assms in simp_all)
  then show ?thesis
    using True q assms by simp
next
  case False
  have "a + 1 = k * (a div k) + (a mod k + 1)"
    by simp
  moreover have "a mod k + 1 \<noteq> k"
    using False calculation by (metis dvd_triv_left distrib_left mult.right_neutral)
  then have "a mod k + 1 < k"
    using pos_mod_bound [OF assms, of a] by linarith
  ultimately have "(a + 1) div k = a div k"
    using pos_mod_sign [OF assms, of a] by (intro int_div_pos_eq) auto
  then show ?thesis
    using False by simp
qed

lemma march_year_step:
  "(w + 1) div 400 * 146097 + day_of_era ((w + 1) mod 400) 0 =
   w div 400 * 146097 + day_of_era (w mod 400) (336 + days_in_month (w + 1) 2) + 1"
proof -
  have lin: "x div 400 * 146097 + day_of_era (x mod 400) t = 365 * x + x div 4 - x div 100 + x div 400 + t" for x t
  proof -
    obtain a b where ab: "x = b + 400 * a" "x div 400 = a" "x mod 400 = b"
      by (metis mod_mult_div_eq)
    have "(b + 100 * a * 4) div 4 = 100 * a + b div 4" "(b + 4 * a * 100) div 100 = 4 * a + b div 100"
      by (rule div_mult_self1; simp)+
    then have "x div 4 = 100 * a + b div 4" "x div 100 = 4 * a + b div 100"
      using ab(1) by simp_all
    then show ?thesis
      unfolding day_of_era_def ab(2,3) by (simp add: ab(1))
  qed
  have "days_in_month (w + 1) 2 = 28 + (if 4 dvd w + 1 then 1 else 0) - (if 100 dvd w + 1 then 1 else 0)
      + (if 400 dvd w + 1 then 1 else 0)"
    by (auto simp: days_in_month_def smod_eq_0)
  then show ?thesis
    unfolding lin by (simp add: div_step)
qed

lemma days_from_civil_next:
  assumes "date_ok y m d" and "next_date (y, m, d) = (y', m', d')" and y': "year_ok y'"
  shows "days_from_civil y' m' d' = days_from_civil y m d + 1"
proof -
  have b: "year_ok y" "1 \<le> m" "m \<le> 12" "1 \<le> d" "d \<le> 31" "d \<le> days_in_month y m"
    using assms(1) date_ok_march(5) [OF assms(1)] by (auto simp: date_ok_def)
  note plain = days_from_civil_plain [OF b(1-5)]
  have m31: "days_in_month y m \<le> 31"
    by (simp add: days_in_month_def)
  consider (day) "d < days_in_month y m" | (feb) "d = days_in_month y m" "m = 2"
    | (month) "d = days_in_month y m" "m < 12" "m \<noteq> 2" | (year) "d = days_in_month y m" "m = 12"
    using b by linarith
  then show ?thesis
  proof cases
    case day
    then have "days_from_civil y' m' d' = days_from_civil y m (d + 1)"
      using assms(2) by (simp add: next_date_def)
    also have "\<dots> = days_from_civil y m d + 1"
      using day m31 b(4) unfolding plain
      by (subst days_from_civil_plain [OF b(1-3)]) (auto simp: march_day_def day_of_era_def)
    finally show ?thesis .
  next
    case feb
    then have "days_from_civil y' m' d' = days_from_civil y 3 1"
      using assms(2) by (simp add: next_date_def)
    then show ?thesis
      unfolding plain using days_from_civil_plain [OF b(1), of 3 1] march_year_step [of "y - 1"] feb
      by (simp add: march_year_def march_day_def)
  next
    case month
    then have "days_from_civil y' m' d' = days_from_civil y (m + 1) 1"
      using assms(2) by (simp add: next_date_def)
    then show ?thesis
      unfolding plain using days_from_civil_plain [OF b(1), of "m + 1" 1] month b(2)
        march_day_step [OF b(2) month(2,3,1)]
      by (simp add: day_of_era_def)
  next
    case year
    then have e: "y' = y + 1" "m' = 1" "d' = 1" and "d = 31"
      using assms(2) by (auto simp: next_date_def days_in_month_def)
    then show ?thesis
      unfolding plain using days_from_civil_plain [OF y', of 1 1] year
      by (simp add: march_year_def march_day_def day_of_era_def)
  qed
qed

lemma next_date_ok:
  assumes "date_ok y m d" "\<bar>y\<bar> < 10 ^ 12" "next_date (y, m, d) = (y', m', d')"
  shows "date_ok y' m' d'"
proof -
  have dim: "1 \<le> days_in_month y (m + 1)" "1 \<le> days_in_month (y + 1) 1"
    by (simp_all add: days_in_month_def)
  have y: "year_ok y" "year_ok (y + 1)" "1 \<le> m" "m \<le> 12" "1 \<le> d"
    using assms(1,2) by (auto simp: date_ok_def year_ok_def)
  show ?thesis
  proof (cases "d < days_in_month y m")
    case True
    then have "y' = y" "m' = m" "d' = d + 1"
      using assms(3) by (simp_all add: next_date_def)
    then show ?thesis
      using y True by (simp add: date_ok_def)
  next
    case False
    then have "(if m < 12 then (y, m + 1, 1) else (y + 1, 1, 1)) = (y', m', d')"
      using assms(3) by (simp only: next_date_def prod.case if_False)
    then show ?thesis
      using y dim by (cases "m < 12") (auto simp: date_ok_def)
  qed
qed

text \<open>
  C26: day zero is 1 January 1970 and each following day number is the following day of the proleptic
  Gregorian calendar, so the day numbers and the calendar agree everywhere in the range.
\<close>

theorem civil_from_days_follows_calendar:
  assumes "\<bar>z\<bar> < 10 ^ 14"
  shows "civil_from_days 0 = (1970, 1, 1) \<and> civil_from_days (z + 1) = next_date (civil_from_days z)"
proof -
  obtain y m d where ymd: "civil_from_days z = (y, m, d)"
    by (cases "civil_from_days z")
  obtain y' m' d' where next': "next_date (y, m, d) = (y', m', d')"
    by (cases "next_date (y, m, d)")
  have ok: "date_ok y m d" "days_from_civil y m d = z" "\<bar>y\<bar> < 10 ^ 12"
    using days_civil_days [OF _ ymd] assms by auto
  have ok': "date_ok y' m' d'"
    by (rule next_date_ok [OF ok(1,3) next'])
  have "days_from_civil y' m' d' = z + 1"
    using days_from_civil_next [OF ok(1) next'] ok' ok(2) by (simp add: date_ok_def)
  then have "civil_from_days (z + 1) = (y', m', d')"
    using civil_days_civil [OF ok'] by simp
  moreover have "civil_from_days 0 = (1970, 1, 1)"
    by code_simp
  ultimately show ?thesis
    using ymd next' by simp
qed

theorem civil_from_days_follows_calendar_witness:
  "civil_from_days 0 = (1970, 1, 1) \<and> civil_from_days (19781 + 1) = next_date (civil_from_days 19781)"
  by (rule civil_from_days_follows_calendar) simp

text \<open>
  The two conversions are inverse to each other: every valid date survives the trip through its day
  number, and every day number comes back from a valid date.
\<close>

theorem civil_days_inverse:
  "(date_ok y m d \<longrightarrow> civil_from_days (days_from_civil y m d) = (y, m, d)) \<and>
   (\<bar>z\<bar> \<le> 10 ^ 14 \<longrightarrow>
     (case civil_from_days z of (y', m', d') \<Rightarrow> date_ok y' m' d' \<and> days_from_civil y' m' d' = z))"
  using civil_days_civil [of y m d] days_civil_days [of z] by (cases "civil_from_days z") simp

theorem civil_days_inverse_witness:
  "civil_from_days (days_from_civil 2024 2 29) = (2024, 2, 29) \<and>
   (case civil_from_days (- 25567) of (y', m', d') \<Rightarrow> date_ok y' m' d' \<and> days_from_civil y' m' d' = - 25567)"
proof -
  have "date_ok 2024 2 29"
    by code_simp
  then show ?thesis
    using civil_days_inverse [of 2024 2 29 "- 25567"] by simp
qed

end
