(* ===== verification/Timestamps.thy ===== *)
theory Timestamps
  imports Datetime
begin

text \<open>
  Timestamps as text, and the date functions of SQL (datetime.rs). Text is its UTF-8 bytes. The current
  time is an argument of \<open>eval_datetime\<close>.
\<close>

section \<open>Strings\<close>

text \<open>The UTF-8 encodings of the characters \<open>char::is_whitespace\<close> accepts.\<close>

definition whitespace :: "bytes list" where
  "whitespace =
     [[9], [10], [11], [12], [13], [32], [0xC2, 0x85], [0xC2, 0xA0], [0xE1, 0x9A, 0x80]]
     @ map (\<lambda>b. [0xE2, 0x80, b])
         [0x80, 0x81, 0x82, 0x83, 0x84, 0x85, 0x86, 0x87, 0x88, 0x89, 0x8A, 0xA8, 0xA9, 0xAF]
     @ [[0xE2, 0x81, 0x9F], [0xE3, 0x80, 0x80]]"

definition starts_with :: "'a list \<Rightarrow> 'a list \<Rightarrow> bool" where
  "starts_with p s \<longleftrightarrow> take (length p) s = p"

text \<open>The length of the pattern's match at the start of the text, if one of them matches.\<close>

definition match_len :: "bytes list \<Rightarrow> bytes \<Rightarrow> nat option" where
  "match_len pats s = map_option length (List.find (\<lambda>p. starts_with p s) pats)"

function trim_start_matches :: "bytes list \<Rightarrow> bytes \<Rightarrow> bytes" where
  "trim_start_matches pats s =
     (case match_len pats s of
        None \<Rightarrow> s
      | Some n \<Rightarrow> if n = 0 \<or> s = [] then s else trim_start_matches pats (drop n s))"
  by auto
termination
  by (relation "measure (\<lambda>(pats, s). length s)") auto

declare trim_start_matches.simps [simp del]

definition trim_end_matches :: "bytes list \<Rightarrow> bytes \<Rightarrow> bytes" where
  "trim_end_matches pats s = rev (trim_start_matches (map rev pats) (rev s))"

definition trim :: "bytes \<Rightarrow> bytes" where
  "trim s = trim_end_matches whitespace (trim_start_matches whitespace s)"

fun split_once :: "bytes list \<Rightarrow> bytes \<Rightarrow> (bytes \<times> bytes) option" where
  "split_once pats [] = None"
| "split_once pats (b # s) =
     (case match_len pats (b # s) of
        Some n \<Rightarrow> Some ([], drop n (b # s))
      | None \<Rightarrow> map_option (\<lambda>(x, y). (b # x, y)) (split_once pats s))"

text \<open>\<open>str::split\<close> on a one-byte separator: at least one piece.\<close>

fun split_on :: "u8 \<Rightarrow> bytes \<Rightarrow> bytes list" where
  "split_on c [] = [[]]"
| "split_on c (b # s) =
     (if b = c then [] # split_on c s
      else case split_on c s of x # xs \<Rightarrow> (b # x) # xs | [] \<Rightarrow> [[b]])"

definition byte_string :: "string \<Rightarrow> bytes" where
  "byte_string s = map (\<lambda>c. of_nat (of_char c)) s"

definition string_of_bytes :: "bytes \<Rightarrow> string" where
  "string_of_bytes s = map (\<lambda>b. char_of (unat b)) s"

definition is_digit :: "u8 \<Rightarrow> bool" where
  "is_digit b \<longleftrightarrow> 48 \<le> b \<and> b \<le> 57"

definition digits_val :: "bytes \<Rightarrow> int option" where
  "digits_val s =
     (if s = [] \<or> \<not> list_all is_digit s then None
      else Some (foldl (\<lambda>acc b. 10 * acc + (uint b - 48)) 0 s))"

text \<open>\<open>str::parse\<close> for \<open>i64\<close> and \<open>u32\<close>: an optional sign, at least one digit, and no overflow.\<close>

definition parse_i64 :: "bytes \<Rightarrow> int option" where
  "parse_i64 s =
     (case s of
        [] \<Rightarrow> None
      | b # s' \<Rightarrow>
          Option.bind
            (if b = 43 then digits_val s' else if b = 45 then map_option uminus (digits_val s') else digits_val s)
            i64_checked)"

definition parse_u32 :: "bytes \<Rightarrow> int option" where
  "parse_u32 s =
     (case s of
        [] \<Rightarrow> None
      | b # s' \<Rightarrow>
          Option.bind (if b = 43 then digits_val s' else digits_val s)
            (\<lambda>n. if n < 2 ^ 32 then Some n else None))"

text \<open>\<open>chars().take(n)\<close> on UTF-8 bytes.\<close>

fun take_chars :: "nat \<Rightarrow> bytes \<Rightarrow> bytes" where
  "take_chars n [] = []"
| "take_chars n (b # s) =
     (if 0x80 \<le> b \<and> b < 0xC0 then b # take_chars n s
      else case n of 0 \<Rightarrow> [] | Suc n \<Rightarrow> b # take_chars n s)"

definition eq_ignore_ascii_case :: "bytes \<Rightarrow> bytes \<Rightarrow> bool" where
  "eq_ignore_ascii_case s t \<longleftrightarrow>
     map (\<lambda>b. if 65 \<le> b \<and> b \<le> 90 then b + 32 else b) s = map (\<lambda>b. if 65 \<le> b \<and> b \<le> 90 then b + 32 else b) t"

section \<open>Formatting\<close>

text \<open>\<open>{n:0w}\<close>: a minus sign counts towards the width.\<close>

definition pad_int :: "nat \<Rightarrow> int \<Rightarrow> bytes" where
  "pad_int w n =
     (let digits = byte_string (dec_string (nat \<bar>n\<bar>)); sign = (if n < 0 then [45] else [])
      in sign @ replicate (w - length digits - length sign) 48 @ digits)"

definition format_sqlite_date :: "int \<Rightarrow> bytes" where
  "format_sqlite_date micros =
     (let (y, m, d, _) = parts_from_micros micros
      in pad_int 4 y @ [45] @ pad_int 2 m @ [45] @ pad_int 2 d)"

definition format_sqlite_datetime :: "int \<Rightarrow> bytes" where
  "format_sqlite_datetime micros =
     (let (y, m, d, h, mi, s, _) = parts_from_micros micros
      in pad_int 4 y @ [45] @ pad_int 2 m @ [45] @ pad_int 2 d @ [32]
         @ pad_int 2 h @ [58] @ pad_int 2 mi @ [58] @ pad_int 2 s)"

section \<open>Parsing\<close>

text \<open>The seconds field: whole seconds and the fraction in microseconds.\<close>

definition parse_seconds :: "bytes \<Rightarrow> (int \<times> int) option" where
  "parse_seconds sec =
     (case split_once [[46]] sec of
        Some (whole, frac) \<Rightarrow>
          Option.bind (parse_i64 whole) (\<lambda>w.
          let f = take_chars 6 frac in
          Option.bind (parse_i64 f) (\<lambda>v.
          Some (w, i64_wrap (v * 10 ^ (6 - length f)))))
      | None \<Rightarrow> map_option (\<lambda>w. (w, 0)) (parse_i64 sec))"

definition parse_time :: "bytes list \<Rightarrow> (int \<times> int \<times> int \<times> int) option" where
  "parse_time tparts =
     (case tparts of
        hs # ms # rest \<Rightarrow>
          Option.bind (parse_i64 hs) (\<lambda>h.
          Option.bind (parse_i64 ms) (\<lambda>mi.
          Option.bind (case rest of [] \<Rightarrow> Some (0, 0) | sec # _ \<Rightarrow> parse_seconds sec) (\<lambda>(s, frac).
          if 1 < length rest \<or> 23 < h \<or> 59 < mi \<or> 60 < s then None else Some (h, mi, s, frac))))
      | _ \<Rightarrow> None)"

definition parse_date :: "bytes list \<Rightarrow> (int \<times> int \<times> int) option" where
  "parse_date dparts =
     (case dparts of
        ys # ms # ds # rest \<Rightarrow>
          Option.bind (parse_i64 ys) (\<lambda>y.
          Option.bind (parse_u32 ms) (\<lambda>m.
          Option.bind (parse_u32 ds) (\<lambda>d.
          if rest \<noteq> [] \<or> \<not> (1 \<le> m \<and> m \<le> 12) \<or> \<not> (1 \<le> d \<and> d \<le> 31) then None else Some (y, m, d))))
      | _ \<Rightarrow> None)"

text \<open>\<open>((days * 86400 + h * 3600 + min * 60 + s) * 1000000 + us\<close>, wrapping at every step.\<close>

definition join_micros :: "int \<Rightarrow> int \<Rightarrow> int \<Rightarrow> int \<Rightarrow> int \<Rightarrow> int" where
  "join_micros days h mi s us =
     i64_wrap (i64_wrap (i64_wrap (i64_wrap (i64_wrap (i64_wrap (days * 86400) + i64_wrap (h * 3600))
       + i64_wrap (mi * 60)) + s) * 1000000) + us)"

definition parse_parts :: "bytes \<Rightarrow> bytes \<Rightarrow> int option" where
  "parse_parts date rest =
     Option.bind (parse_date (split_on 45 date)) (\<lambda>(y, m, d).
     if rest = [] then Some (i64_wrap (days_from_civil y m d * 86400000000))
     else
       let time = trim_end_matches [[90]] (case split_once [[43]] rest of Some (t, _) \<Rightarrow> t | None \<Rightarrow> rest) in
       Option.bind (parse_time (split_on 58 time)) (\<lambda>(h, mi, s, frac).
       Some (join_micros (days_from_civil y m d) h mi s frac)))"

definition parse_timestamp :: "bytes \<Rightarrow> int option" where
  "parse_timestamp s = Option.bind (split_once [[32], [84]] (trim s)) (\<lambda>(date, rest). parse_parts date rest)"

definition parse_datetime_text :: "bytes \<Rightarrow> int option" where
  "parse_datetime_text s =
     (let s = trim s in
      case split_once [[32], [84]] s of
        Some (date, rest) \<Rightarrow> parse_parts date rest
      | None \<Rightarrow> parse_parts s [])"

section \<open>Modifiers\<close>

definition add_months :: "int \<Rightarrow> int \<Rightarrow> int" where
  "add_months micros months =
     (let (y, m, d, h, mi, s, us) = parts_from_micros micros;
          total = i64_wrap (i64_wrap (i64_wrap (y * 12) + (m - 1)) + months);
          ny = total div 12;
          nm = total mod 12 + 1;
          d = min d (days_in_month ny nm)
      in join_micros (days_from_civil ny nm d) h mi s us)"

definition apply_modifier :: "int \<Rightarrow> bytes \<Rightarrow> int option" where
  "apply_modifier micros modifier =
     Option.bind (split_once whitespace (trim modifier)) (\<lambda>(amount, unit').
     Option.bind (parse_i64 amount) (\<lambda>amount.
     let unit' = string_of_bytes (trim_end_matches [[115]] (trim unit'));
         scaled = (\<lambda>scale. Option.bind (i64_checked (amount * scale)) (\<lambda>d. i64_checked (micros + d)))
     in if unit' = ''second'' then scaled 1000000
        else if unit' = ''minute'' then scaled 60000000
        else if unit' = ''hour'' then scaled 3600000000
        else if unit' = ''day'' then scaled 86400000000
        else if unit' = ''month'' then Some (add_months micros amount)
        else if unit' = ''year'' then Some (add_months micros (i64_wrap (amount * 12)))
        else None))"

definition mismatch :: "val \<Rightarrow> failure" where
  "mismatch v = (case data_type_of v of Some t \<Rightarrow> Err (TypeMismatch DT_Text t) | None \<Rightarrow> Panic)"

definition first_micros :: "int \<Rightarrow> val list \<Rightarrow> int option res" where
  "first_micros now args =
     (case args of
        [] \<Rightarrow> Inr None
      | VNull # _ \<Rightarrow> Inr None
      | VTimestamp us # _ \<Rightarrow> Inr (Some (sint us))
      | VText s # _ \<Rightarrow>
          if eq_ignore_ascii_case s (byte_string ''now'') then Inr (Some now)
          else (case parse_datetime_text s of
                  Some us \<Rightarrow> Inr (Some us)
                | None \<Rightarrow> Inl (Err (Exec (''`'' @ string_of_bytes s @ ''` is not a valid date/time''))))
      | v # _ \<Rightarrow> Inl (mismatch v))"

fun apply_modifiers :: "int \<Rightarrow> val list \<Rightarrow> int option res" where
  "apply_modifiers micros [] = Inr (Some micros)"
| "apply_modifiers micros (v # vs) =
     (case v of
        VNull \<Rightarrow> Inr None
      | VText modifier \<Rightarrow>
          (case apply_modifier micros modifier of
             Some micros \<Rightarrow> apply_modifiers micros vs
           | None \<Rightarrow> Inl (Err (Exec (''unsupported date modifier `'' @ string_of_bytes modifier @ ''`''))))
      | v \<Rightarrow> Inl (mismatch v))"

definition eval_datetime :: "int \<Rightarrow> val list \<Rightarrow> bool \<Rightarrow> val res" where
  "eval_datetime now args with_time =
     bind_res (first_micros now args) (\<lambda>start.
     case start of
       None \<Rightarrow> Inr VNull
     | Some micros \<Rightarrow>
         bind_res (apply_modifiers micros (tl args)) (\<lambda>r.
         case r of
           None \<Rightarrow> Inr VNull
         | Some micros \<Rightarrow>
             Inr (VText (if with_time then format_sqlite_datetime micros else format_sqlite_date micros))))"

section \<open>Splitting and joining a timestamp\<close>

lemma i64_wrap_add: "i64_wrap (i64_wrap x + y) = i64_wrap (x + y)" "i64_wrap (y + i64_wrap x) = i64_wrap (y + x)"
  by (simp_all add: i64_wrap_def mod_simps algebra_simps)

lemma i64_wrap_mult: "i64_wrap (i64_wrap x * y) = i64_wrap (x * y)"
proof -
  have "(i64_wrap x * y) mod 2 ^ 64 = (x * y) mod 2 ^ 64"
  proof (rule mod_mult_cong)
    show "i64_wrap x mod 2 ^ 64 = x mod 2 ^ 64"
      by (simp add: i64_wrap_def mod_simps)
  qed simp
  then show ?thesis
    unfolding i64_wrap_def by (metis mod_add_left_eq)
qed

lemma join_micros_wrap:
  "join_micros days h mi s us = i64_wrap ((days * 86400 + h * 3600 + mi * 60 + s) * 1000000 + us)"
  by (simp add: join_micros_def i64_wrap_add i64_wrap_mult)

definition time_ok :: "int \<Rightarrow> int \<Rightarrow> int \<Rightarrow> int \<Rightarrow> bool" where
  "time_ok h mi s us \<longleftrightarrow>
     0 \<le> h \<and> h < 24 \<and> 0 \<le> mi \<and> mi < 60 \<and> 0 \<le> s \<and> s < 60 \<and> 0 \<le> us \<and> us < 1000000"

lemma time_split:
  fixes r :: int
  assumes "0 \<le> r" "r < 86400000000"
  shows "time_ok (r div 3600000000) (r div 60000000 mod 60) (r div 1000000 mod 60) (r mod 1000000)"
    and "(r div 3600000000 * 3600 + r div 60000000 mod 60 * 60 + r div 1000000 mod 60) * 1000000 + r mod 1000000 = r"
proof -
  define t us u s where "t = r div 1000000" and "us = r mod 1000000" and "u = t div 60" and "s = t mod 60"
  define h mi where "h = u div 60" and "mi = u mod 60"
  have e: "r = 1000000 * t + us" "t = 60 * u + s" "u = 60 * h + mi"
    by (simp_all add: t_def us_def u_def s_def h_def mi_def)
  have b: "0 \<le> us" "us < 1000000" "0 \<le> s" "s < 60" "0 \<le> mi" "mi < 60"
    by (simp_all add: us_def s_def mi_def)
  have "r div 60000000 = u" "r div 3600000000 = h"
    using zdiv_zmult2_eq [of 60 r 1000000] zdiv_zmult2_eq [of 3600 r 1000000] zdiv_zmult2_eq [of 60 t 60]
    by (simp_all add: t_def u_def h_def)
  then have q: "r div 3600000000 = h" "r div 60000000 mod 60 = mi" "r div 1000000 mod 60 = s" "r mod 1000000 = us"
    by (simp_all add: t_def u_def s_def h_def mi_def us_def)
  have "0 \<le> h" "h < 24"
    using e b assms by linarith+
  then show "time_ok (r div 3600000000) (r div 60000000 mod 60) (r div 1000000 mod 60) (r mod 1000000)"
    unfolding q using b by (simp add: time_ok_def)
  show "(r div 3600000000 * 3600 + r div 60000000 mod 60 * 60 + r div 1000000 mod 60) * 1000000 + r mod 1000000 = r"
    unfolding q using e by simp
qed

lemma time_join:
  fixes h mi s us :: int
  assumes "time_ok h mi s us" and r: "r = (h * 3600 + mi * 60 + s) * 1000000 + us"
  shows "0 \<le> r" "r < 86400000000" "r div 3600000000 = h" "r div 60000000 mod 60 = mi" "r div 1000000 mod 60 = s"
    "r mod 1000000 = us"
proof -
  have b: "0 \<le> h" "h \<le> 23" "0 \<le> mi" "mi \<le> 59" "0 \<le> s" "s \<le> 59" "0 \<le> us" "us \<le> 999999"
    using assms(1) by (auto simp: time_ok_def)
  show "0 \<le> r" "r < 86400000000"
    using b r by simp_all
  show "r div 3600000000 = h"
    by (rule int_div_pos_eq [where r = "(mi * 60 + s) * 1000000 + us"]) (use b r in simp_all)
  have "r div 60000000 = h * 60 + mi"
    by (rule int_div_pos_eq [where r = "s * 1000000 + us"]) (use b r in simp_all)
  then show "r div 60000000 mod 60 = mi"
    using b by simp
  have "r div 1000000 = (h * 60 + mi) * 60 + s"
    by (rule int_div_pos_eq [where r = us]) (use b r in simp_all)
  then show "r div 1000000 mod 60 = s"
    using b by (intro int_mod_pos_eq [where q = "h * 60 + mi"]) simp_all
  show "r mod 1000000 = us"
    by (rule int_mod_pos_eq [where q = "h * 3600 + mi * 60 + s"]) (use b r in simp_all)
qed

lemma parts_from_micros_plain:
  "parts_from_micros micros =
     (let r = micros mod 86400000000; (y, m, d) = civil_from_days (micros div 86400000000)
      in (y, m, d, r div 3600000000, r div 60000000 mod 60, r div 1000000 mod 60, r mod 1000000))"
  by (simp add: parts_from_micros_def Let_def sdiv_nonneg smod_nonneg pos_imp_zdiv_nonneg_iff
      split: prod.split)

lemma parts_of_micros:
  assumes m: "in_i64 micros" and p: "parts_from_micros micros = (y, m, d, h, mi, s, us)"
  shows "date_ok y m d" "time_ok h mi s us" "join_micros (days_from_civil y m d) h mi s us = micros"
    and "days_from_civil y m d = micros div 86400000000"
    and "(h * 3600 + mi * 60 + s) * 1000000 + us = micros mod 86400000000"
proof -
  let ?r = "micros mod 86400000000" and ?z = "micros div 86400000000"
  have "\<bar>?z\<bar> \<le> 10 ^ 14"
    using m by (auto simp: in_i64_def abs_le_iff)
  moreover have ymd: "civil_from_days ?z = (y, m, d)"
    using p by (auto simp: parts_from_micros_plain Let_def split: prod.splits)
  ultimately show "date_ok y m d" and days: "days_from_civil y m d = ?z"
    using days_civil_days by blast+
  have t: "h = ?r div 3600000000" "mi = ?r div 60000000 mod 60" "s = ?r div 1000000 mod 60" "us = ?r mod 1000000"
    using p by (auto simp: parts_from_micros_plain Let_def split: prod.splits)
  show "time_ok h mi s us" and r: "(h * 3600 + mi * 60 + s) * 1000000 + us = ?r"
    unfolding t using time_split [of ?r] by simp_all
  have "(?z * 86400 + h * 3600 + mi * 60 + s) * 1000000 + us = ?z * 86400000000 + ?r"
    unfolding r [symmetric] by simp
  then show "join_micros (days_from_civil y m d) h mi s us = micros"
    unfolding join_micros_wrap days using m by (simp add: i64_wrap_id)
qed

lemma parts_of_join:
  assumes "date_ok y m d" "time_ok h mi s us"
    and "in_i64 ((days_from_civil y m d * 86400 + h * 3600 + mi * 60 + s) * 1000000 + us)"
  shows "parts_from_micros (join_micros (days_from_civil y m d) h mi s us) = (y, m, d, h, mi, s, us)"
proof -
  let ?r = "(h * 3600 + mi * 60 + s) * 1000000 + us" and ?z = "days_from_civil y m d"
  note t = time_join [OF assms(2) refl]
  have e: "join_micros ?z h mi s us = ?r + ?z * 86400000000"
    using assms(3) by (simp add: join_micros_wrap i64_wrap_id algebra_simps)
  have p: "join_micros ?z h mi s us div 86400000000 = ?z" "join_micros ?z h mi s us mod 86400000000 = ?r"
    unfolding e using t(1,2) by simp_all
  show ?thesis
    unfolding parts_from_micros_plain Let_def p civil_days_civil [OF assms(1)] t(3-6) by simp
qed

section \<open>Month arithmetic\<close>

lemma days_from_civil_bound:
  assumes "1 \<le> m" "m \<le> 12" "1 \<le> d" "d \<le> 31" "\<bar>y\<bar> \<le> 290000"
  shows "\<bar>days_from_civil y m d\<bar> \<le> 106700000"
proof -
  let ?w = "march_year y m"
  have w: "\<bar>?w\<bar> \<le> 290001"
    using assms(5) by (auto simp: march_year_def)
  obtain a b where ab: "?w = 400 * a + b" "?w div 400 = a" "?w mod 400 = b" "0 \<le> b" "b < 400"
    by (metis mult_div_mod_eq pos_mod_bound pos_mod_sign zero_less_numeral)
  have "b div 4 \<le> 100" "0 \<le> b div 4" "b div 100 \<le> 4" "0 \<le> b div 100"
    using ab by auto
  moreover have "0 \<le> march_day m d" "march_day m d \<le> 367"
    using march_day_range [OF assms(1-4)] by auto
  moreover have "year_ok y"
    using assms(5) by (simp add: year_ok_def)
  ultimately show ?thesis
    using days_from_civil_plain [OF _ assms(1-4), of y] ab w unfolding day_of_era_def by (simp add: abs_le_iff)
qed

text \<open>
  C27: adding months to a timestamp moves the date by exactly that many months, keeps the time of day, and
  keeps the day of the month unless the target month is shorter, in which case it is that month's last
  day. Result years up to 290000 on either side of zero are representable.
\<close>

theorem add_months_clamps:
  assumes "in_i64 micros" "parts_from_micros micros = (y, m, d, h, mi, s, us)"
    and "ny * 12 + (nm - 1) = y * 12 + (m - 1) + months" "1 \<le> nm" "nm \<le> 12" "\<bar>ny\<bar> \<le> 290000" "in_i64 months"
  shows "parts_from_micros (add_months micros months) = (ny, nm, min d (days_in_month ny nm), h, mi, s, us)"
proof -
  note p = parts_of_micros [OF assms(1,2)]
  let ?d = "min d (days_in_month ny nm)" and ?t = "y * 12 + (m - 1) + months"
  have "in_i64 ?t"
    using assms(3-6) by (auto simp: in_i64_def)
  then have t: "i64_wrap (i64_wrap (i64_wrap (y * 12) + (m - 1)) + months) = ?t"
    by (simp add: i64_wrap_add i64_wrap_id)
  have q: "?t div 12 = ny" "?t mod 12 + 1 = nm"
    using assms(3-5) by (simp_all flip: assms(3))
  have am: "add_months micros months = join_micros (days_from_civil ny nm ?d) h mi s us"
    unfolding add_months_def assms(2) Let_def prod.case t q ..
  have "1 \<le> days_in_month ny nm" "days_in_month ny nm \<le> 31"
    by (simp_all add: days_in_month_def)
  moreover have "1 \<le> d" "year_ok ny"
    using p(1) assms(6) by (auto simp: date_ok_def year_ok_def)
  ultimately have ok: "date_ok ny nm ?d" "1 \<le> ?d" "?d \<le> 31"
    using assms(4,5) by (auto simp: date_ok_def)
  have "\<bar>days_from_civil ny nm ?d\<bar> \<le> 106700000"
    by (rule days_from_civil_bound [OF assms(4,5) ok(2,3) assms(6)])
  then have "in_i64 ((days_from_civil ny nm ?d * 86400 + h * 3600 + mi * 60 + s) * 1000000 + us)"
    using p(2) by (auto simp: in_i64_def time_ok_def abs_le_iff)
  then show ?thesis
    unfolding am by (rule parts_of_join [OF ok(1) p(2)])
qed

theorem add_months_clamps_witness:
  "parts_from_micros (add_months 1769860800000000 1) = (2026, 2, 28, 12, 0, 0, 0)"
proof -
  have p: "parts_from_micros 1769860800000000 = (2026, 1, 31, 12, 0, 0, 0)" "in_i64 1769860800000000" "in_i64 1"
    by code_simp+
  have "min 31 (days_in_month 2026 2) = 28"
    by code_simp
  then show ?thesis
    using add_months_clamps [OF p(2,1), of 2026 2 1] p(3) by simp
qed

section \<open>Text of a timestamp\<close>

lemma uint_digit: "k < 10 \<Longrightarrow> uint (48 + word_of_nat k :: u8) = int k + 48"
proof -
  assume "k < 10"
  moreover have "uint (word_of_nat (48 + k) :: u8) = int (48 + k) mod 256"
    by (simp only: unsigned_of_nat) (simp add: take_bit_eq_mod zmod_int)
  ultimately show ?thesis
    by simp
qed

lemma is_digit_digit: "k < 10 \<Longrightarrow> is_digit (48 + word_of_nat k)"
  by (simp add: is_digit_def word_le_def uint_digit)

lemma dec_string_digits:
  "byte_string (dec_string n) \<noteq> [] \<and> list_all is_digit (byte_string (dec_string n)) \<and>
   foldl (\<lambda>acc b. 10 * acc + (uint b - 48)) 0 (byte_string (dec_string n)) = int n"
proof (induction n rule: dec_string.induct)
  case (1 n)
  show ?case
  proof (cases "n < 10")
    case True
    then show ?thesis
      by (simp add: dec_string.simps byte_string_def is_digit_digit uint_digit)
  next
    case False
    have "10 * int (n div 10) + int (n mod 10) = int n"
      by (simp add: zdiv_int zmod_int)
    moreover have "n mod 10 < 10"
      by simp
    ultimately show ?thesis
      using 1 [OF False] False
      by (subst (1 2 3) dec_string.simps) (simp add: byte_string_def is_digit_digit uint_digit)
  qed
qed

lemma foldl_zeros: "foldl (\<lambda>acc b. 10 * acc + (uint (b :: u8) - 48)) 0 (replicate k 48) = 0"
  by (induction k) simp_all

lemma pad_int_digits:
  assumes "0 \<le> n"
  shows "pad_int w n \<noteq> []" "list_all is_digit (pad_int w n)" "digits_val (pad_int w n) = Some n"
  using assms dec_string_digits [of "nat n"]
  by (auto simp: pad_int_def digits_val_def foldl_zeros is_digit_def Let_def list_all_iff)

lemma pad_int_ends: "0 \<le> n \<Longrightarrow> is_digit (hd (pad_int w n)) \<and> is_digit (last (pad_int w n))"
  using pad_int_digits(1,2) [of n w] by (auto simp: list_all_iff)

lemma parse_digits:
  assumes "list_all is_digit s" "digits_val s = Some n"
  shows "in_i64 n \<Longrightarrow> parse_i64 s = Some n" and "n < 2 ^ 32 \<Longrightarrow> parse_u32 s = Some n"
  using assms
  by (auto simp: parse_i64_def parse_u32_def digits_val_def i64_checked_def is_digit_def split: list.split if_splits)

lemma parse_pad_int:
  assumes "0 \<le> n"
  shows "in_i64 n \<Longrightarrow> parse_i64 (pad_int w n) = Some n" and "n < 2 ^ 32 \<Longrightarrow> parse_u32 (pad_int w n) = Some n"
  using parse_digits [OF pad_int_digits(2,3) [OF assms]] by blast+

lemma split_on_last: "c \<notin> set x \<Longrightarrow> split_on c x = [x]"
  by (induction x) auto

lemma split_on_append: "c \<notin> set x \<Longrightarrow> split_on c (x @ c # y) = x # split_on c y"
  by (induction x) auto

lemma match_len_None: "\<forall>p\<in>set pats. p \<noteq> [] \<and> hd p \<noteq> b \<Longrightarrow> match_len pats (b # s) = None"
  by (auto simp: match_len_def starts_with_def find_None_iff neq_Nil_conv)

lemma split_once_bytes:
  "set x \<inter> set cs = {} \<Longrightarrow> split_once (map (\<lambda>c. [c]) cs) (x @ y) =
     (case split_once (map (\<lambda>c. [c]) cs) y of None \<Rightarrow> None | Some (a, b) \<Rightarrow> Some (x @ a, b))"
proof (induction x)
  case (Cons b x)
  then have "match_len (map (\<lambda>c. [c]) cs) (b # x @ y) = None"
    by (intro match_len_None) auto
  then show ?case
    using Cons by (simp split: option.split prod.split)
qed (auto split: option.split prod.split)

lemma trim_start_matches_id:
  "s \<noteq> [] \<Longrightarrow> \<forall>p\<in>set pats. p \<noteq> [] \<and> hd p \<noteq> hd s \<Longrightarrow> trim_start_matches pats s = s"
  by (cases s) (simp_all add: trim_start_matches.simps [of pats] match_len_None)

lemma trim_end_matches_id:
  assumes "s \<noteq> []" "\<forall>p\<in>set pats. p \<noteq> [] \<and> last p \<noteq> last s"
  shows "trim_end_matches pats s = s"
  unfolding trim_end_matches_def using assms
  by (subst trim_start_matches_id) (auto simp: hd_rev)

lemma whitespace_no_digit:
  "\<forall>p\<in>set whitespace. p \<noteq> [] \<and> \<not> is_digit (hd p) \<and> \<not> is_digit (last p)"
  by code_simp

lemma trim_digits:
  assumes "s \<noteq> []" "is_digit (hd s)" "is_digit (last s)"
  shows "trim s = s"
proof -
  have "trim_start_matches whitespace s = s"
    using assms whitespace_no_digit by (intro trim_start_matches_id) auto
  moreover have "trim_end_matches whitespace s = s"
    using assms whitespace_no_digit by (intro trim_end_matches_id) auto
  ultimately show ?thesis
    by (simp add: trim_def)
qed

lemma digit_notin: "list_all is_digit s \<Longrightarrow> \<not> is_digit c \<Longrightarrow> c \<notin> set s"
  by (auto simp: list_all_iff)

lemma parse_time_formatted:
  assumes "time_ok h mi s us"
  shows "parse_time (split_on 58 (pad_int 2 h @ 58 # pad_int 2 mi @ 58 # pad_int 2 s)) = Some (h, mi, s, 0)"
proof -
  have b: "0 \<le> h" "0 \<le> mi" "0 \<le> s" "in_i64 h" "in_i64 mi" "in_i64 s" "h < 24" "mi < 60" "s < 60"
    using assms by (auto simp: time_ok_def in_i64_def)
  have c: "c \<notin> set (pad_int 2 n)" if "0 \<le> n" "\<not> is_digit c" for n c
    using digit_notin [OF pad_int_digits(2) [OF that(1)] that(2)] .
  have "split_once [[46]] (pad_int 2 s) = None"
    using split_once_bytes [of "pad_int 2 s" "[46]" "[]"] c [OF b(3), of 46] by (simp add: is_digit_def)
  then show ?thesis
    using b by (simp add: split_on_append split_on_last c is_digit_def parse_time_def parse_seconds_def parse_pad_int)
qed

lemma parse_date_formatted:
  assumes "date_ok y m d" "0 \<le> y"
  shows "parse_date (split_on 45 (pad_int 4 y @ 45 # pad_int 2 m @ 45 # pad_int 2 d)) = Some (y, m, d)"
proof -
  have b: "0 \<le> y" "in_i64 y" "1 \<le> m" "m \<le> 12" "1 \<le> d" "d \<le> 31"
    using assms date_ok_march(5) [OF assms(1)] by (auto simp: date_ok_def year_ok_def in_i64_def)
  have c: "45 \<notin> set (pad_int w n)" if "0 \<le> n" for n w
    using digit_notin [OF pad_int_digits(2) [OF that]] by (simp add: is_digit_def)
  show ?thesis
    using b by (simp add: split_on_append split_on_last c parse_date_def parse_pad_int)
qed

lemma parse_parts_formatted:
  assumes "date_ok y m d" "0 \<le> y" "time_ok h mi s us"
  shows "parse_parts (pad_int 4 y @ 45 # pad_int 2 m @ 45 # pad_int 2 d)
      (pad_int 2 h @ 58 # pad_int 2 mi @ 58 # pad_int 2 s) = Some (join_micros (days_from_civil y m d) h mi s 0)"
proof -
  let ?t = "pad_int 2 h @ 58 # pad_int 2 mi @ 58 # pad_int 2 s"
  have b: "0 \<le> h" "0 \<le> mi" "0 \<le> s"
    using assms(3) by (auto simp: time_ok_def)
  have n: "43 \<notin> set (pad_int 2 n)" if "0 \<le> n" for n
    using digit_notin [OF pad_int_digits(2) [OF that]] by (simp add: is_digit_def)
  have plus: "split_once [[43]] ?t = None"
    using split_once_bytes [of ?t "[43]" "[]"] n b by simp
  have "is_digit (last (pad_int 2 s))"
    using pad_int_ends [OF b(3)] by simp
  then have "trim_end_matches [[90]] ?t = ?t"
    using pad_int_digits(1) [OF b(3)] by (intro trim_end_matches_id) (auto simp: is_digit_def)
  then show ?thesis
    unfolding parse_parts_def parse_date_formatted [OF assms(1,2)] plus
    by (simp add: parse_time_formatted [OF assms(3)])
qed

lemma days_from_civil_lower:
  assumes "date_ok y m d" "0 \<le> y"
  shows "- 1000000 \<le> days_from_civil y m d"
proof -
  have b: "year_ok y" "1 \<le> m" "m \<le> 12" "1 \<le> d" "d \<le> 31"
    using assms(1) date_ok_march(5) [OF assms(1)] by (auto simp: date_ok_def)
  obtain a r where ar: "march_year y m = 400 * a + r" "march_year y m div 400 = a" "march_year y m mod 400 = r"
    "0 \<le> r" "r < 400"
    by (metis mult_div_mod_eq pos_mod_bound pos_mod_sign zero_less_numeral)
  have "- 1 \<le> a"
    using ar(1,5) assms(2) by (simp add: march_year_def split: if_splits)
  moreover have "0 \<le> r div 4" "r div 100 \<le> 4" "0 \<le> march_day m d"
    using ar march_day_range [OF b(2-5)] by auto
  ultimately show ?thesis
    unfolding days_from_civil_plain [OF b] ar(2,3) day_of_era_def using ar(4) by simp
qed

lemma join_whole_seconds:
  assumes "in_i64 micros" and p: "parts_from_micros micros = (y, m, d, h, mi, s, us)" and "0 \<le> y"
  shows "join_micros (days_from_civil y m d) h mi s 0 = micros - micros mod 1000000"
proof -
  note q = parts_of_micros [OF assms(1) p]
  define days t where "days = days_from_civil y m d" and "t = days * 86400 + h * 3600 + mi * 60 + s"
  have "micros = days * 86400000000 + micros mod 86400000000"
    using q(4) by (simp add: days_def)
  then have m: "micros = us + t * 1000000"
    unfolding q(5) [symmetric] t_def by simp
  have us: "0 \<le> us" "us < 1000000" and "0 \<le> h" "0 \<le> mi" "0 \<le> s"
    using q(2) by (auto simp: time_ok_def)
  then have "- 86400000000 \<le> t"
    using days_from_civil_lower [OF q(1) assms(3)] unfolding t_def days_def [symmetric] by simp
  then have "in_i64 (t * 1000000)"
    using assms(1) m us by (simp add: in_i64_def)
  moreover have "micros - micros mod 1000000 = t * 1000000"
    using m us by simp
  ultimately show ?thesis
    by (simp add: join_micros_wrap i64_wrap_id t_def days_def)
qed

text \<open>
  C28: reading back the text that a timestamp of year zero or later is rendered as gives the timestamp,
  cut to whole seconds.
\<close>

theorem parse_format_datetime:
  assumes "in_i64 micros" and "0 \<le> fst (parts_from_micros micros)"
  shows "parse_datetime_text (format_sqlite_datetime micros) = Some (micros - micros mod 1000000)"
proof -
  obtain y m d h mi s us where p: "parts_from_micros micros = (y, m, d, h, mi, s, us)"
    by (metis prod_cases7)
  note q = parts_of_micros [OF assms(1) p]
  have y: "0 \<le> y" "0 \<le> m" "0 \<le> d" "0 \<le> s"
    using assms(2) p q(1,2) by (auto simp: date_ok_def time_ok_def)
  let ?d = "pad_int 4 y @ 45 # pad_int 2 m @ 45 # pad_int 2 d"
    and ?t = "pad_int 2 h @ 58 # pad_int 2 mi @ 58 # pad_int 2 s"
  have f: "format_sqlite_datetime micros = ?d @ 32 # ?t"
    by (simp add: format_sqlite_datetime_def p)
  have "is_digit (hd (pad_int 4 y))" "is_digit (last (pad_int 2 s))"
    using pad_int_ends [OF y(1)] pad_int_ends [OF y(4)] by simp_all
  then have trim: "trim (?d @ 32 # ?t) = ?d @ 32 # ?t"
    using pad_int_digits(1) [OF y(1)] pad_int_digits(1) [OF y(4)] by (intro trim_digits) auto
  have n: "32 \<notin> set (pad_int w n)" "84 \<notin> set (pad_int w n)" if "0 \<le> n" for n w
    using digit_notin [OF pad_int_digits(2) [OF that]] by (simp_all add: is_digit_def)
  have "split_once [[32], [84]] (?d @ 32 # ?t) = Some (?d, ?t)"
    using split_once_bytes [of ?d "[32, 84]" "32 # ?t"] n y by (simp add: match_len_def starts_with_def)
  then have "parse_datetime_text (format_sqlite_datetime micros) = parse_parts ?d ?t"
    unfolding f parse_datetime_text_def trim Let_def by simp
  also have "\<dots> = Some (join_micros (days_from_civil y m d) h mi s 0)"
    by (rule parse_parts_formatted [OF q(1) y(1) q(2)])
  also have "join_micros (days_from_civil y m d) h mi s 0 = micros - micros mod 1000000"
    by (rule join_whole_seconds [OF assms(1) p y(1)])
  finally show ?thesis .
qed

theorem parse_format_datetime_witness:
  "parse_datetime_text (format_sqlite_datetime 1786363200123456) = Some 1786363200000000"
proof -
  have "0 \<le> fst (parts_from_micros 1786363200123456)" "in_i64 1786363200123456"
    by code_simp+
  then show ?thesis
    using parse_format_datetime [of 1786363200123456] by simp
qed

text \<open>
  C29: an explicit offset from UTC is dropped, not applied: a timestamp with any \<open>+HH\<close> suffix reads as the
  same instant as without it.
\<close>

theorem parse_parts_ignores_offset:
  assumes "43 \<notin> set time" and "time \<noteq> []"
  shows "parse_parts date (time @ 43 # offset) = parse_parts date time"
proof -
  have "split_once [[43]] (time @ 43 # offset) = Some (time, offset)" "split_once [[43]] time = None"
    using assms(1) split_once_bytes [of time "[43]" "43 # offset"] split_once_bytes [of time "[43]" "[]"]
    by (simp_all add: match_len_def starts_with_def)
  then show ?thesis
    using assms(2) by (simp add: parse_parts_def)
qed

theorem parse_parts_ignores_offset_witness:
  "parse_parts (byte_string ''2026-08-10'') (byte_string ''12:00:00'' @ 43 # byte_string ''02'') =
   parse_parts (byte_string ''2026-08-10'') (byte_string ''12:00:00'')"
  by (rule parse_parts_ignores_offset) (simp_all add: byte_string_def)

end
