(* ===== verification/Wire_Values.thy ===== *)
theory Wire_Values
  imports Wire Timestamps
begin

text \<open>
  Values on the wire (types.rs): PostgreSQL's type numbers, and the text and binary form of every type.
  Rust's printing and parsing of a finite \<open>f64\<close> are the parameters \<open>print_f64\<close> and \<open>parse_f64\<close>.
\<close>

section \<open>Types\<close>

definition OID_BOOL :: u32 where "OID_BOOL = 16"
definition OID_INT8 :: u32 where "OID_INT8 = 20"
definition OID_INT4 :: u32 where "OID_INT4 = 23"
definition OID_TEXT :: u32 where "OID_TEXT = 25"
definition OID_JSON :: u32 where "OID_JSON = 114"
definition OID_FLOAT8 :: u32 where "OID_FLOAT8 = 701"
definition OID_TIMESTAMPTZ :: u32 where "OID_TIMESTAMPTZ = 1184"
definition OID_UUID :: u32 where "OID_UUID = 2950"

lemmas oid_defs = OID_BOOL_def OID_INT8_def OID_INT4_def OID_TEXT_def OID_JSON_def OID_FLOAT8_def
  OID_TIMESTAMPTZ_def OID_UUID_def

fun type_oid :: "data_type \<Rightarrow> u32" where
  "type_oid DT_Boolean = OID_BOOL"
| "type_oid DT_Int4 = OID_INT4"
| "type_oid DT_Int8 = OID_INT8"
| "type_oid DT_Float8 = OID_FLOAT8"
| "type_oid DT_Text = OID_TEXT"
| "type_oid DT_Timestamp = OID_TIMESTAMPTZ"
| "type_oid DT_Uuid = OID_UUID"
| "type_oid DT_Json = OID_JSON"

definition type_from_oid :: "u32 \<Rightarrow> data_type option" where
  "type_from_oid oid =
     (if oid = OID_BOOL then Some DT_Boolean
      else if oid = OID_INT4 then Some DT_Int4
      else if oid = OID_INT8 then Some DT_Int8
      else if oid = OID_FLOAT8 then Some DT_Float8
      else if oid \<in> {OID_TEXT, 1042, 1043} then Some DT_Text
      else if oid \<in> {OID_TIMESTAMPTZ, 1114} then Some DT_Timestamp
      else if oid = OID_UUID then Some DT_Uuid
      else if oid \<in> {OID_JSON, 3802} then Some DT_Json
      else None)"

fun type_size :: "data_type \<Rightarrow> u16" where
  "type_size DT_Boolean = 1"
| "type_size DT_Int4 = 4"
| "type_size DT_Int8 = 8"
| "type_size DT_Float8 = 8"
| "type_size DT_Timestamp = 8"
| "type_size DT_Uuid = 16"
| "type_size DT_Text = - 1"
| "type_size DT_Json = - 1"

section \<open>Text\<close>

definition int_text :: "int \<Rightarrow> bytes" where
  "int_text n = byte_string (int_string n)"

definition parse_i32 :: "bytes \<Rightarrow> int option" where
  "parse_i32 s = Option.bind (parse_i64 s) (\<lambda>n. if - (2 ^ 31) \<le> n \<and> n < 2 ^ 31 then Some n else None)"

definition f64_is_infinite :: "u64 \<Rightarrow> bool" where
  "f64_is_infinite b \<longleftrightarrow> b AND 0x7FFFFFFFFFFFFFFF = 0x7FF0000000000000"

definition format_float8 :: "(u64 \<Rightarrow> bytes) \<Rightarrow> u64 \<Rightarrow> bytes" where
  "format_float8 print_f64 v =
     (if f64_is_nan v then byte_string ''NaN''
      else if f64_is_infinite v then
        (if v = 0x7FF0000000000000 then byte_string ''Infinity'' else byte_string ''-Infinity'')
      else print_f64 v)"

definition hex_digit :: "nat \<Rightarrow> u8" where
  "hex_digit k = of_nat (if k < 10 then 48 + k else 87 + k)"

definition hex_bytes :: "bytes \<Rightarrow> bytes" where
  "hex_bytes bs = concat (map (\<lambda>b. [hex_digit (unat b div 16), hex_digit (unat b mod 16)]) bs)"

definition format_uuid :: "u128 \<Rightarrow> bytes" where
  "format_uuid v =
     (let b = to_be_bytes v in
      hex_bytes (take 4 b) @ [45] @ hex_bytes (take 2 (drop 4 b)) @ [45] @ hex_bytes (take 2 (drop 6 b)) @ [45]
      @ hex_bytes (take 2 (drop 8 b)) @ [45] @ hex_bytes (take 6 (drop 10 b)))"

definition hex_val :: "u8 \<Rightarrow> nat option" where
  "hex_val b =
     (if 48 \<le> b \<and> b \<le> 57 then Some (unat b - 48)
      else if 97 \<le> b \<and> b \<le> 102 then Some (unat b - 87)
      else if 65 \<le> b \<and> b \<le> 70 then Some (unat b - 55)
      else None)"

definition parse_uuid :: "bytes \<Rightarrow> u128 option" where
  "parse_uuid s =
     (let hex = filter (\<lambda>b. b \<noteq> 45) s in
      if length hex \<noteq> 32 \<or> \<not> list_all (\<lambda>b. hex_val b \<noteq> None) hex then None
      else Some (of_nat (foldl (\<lambda>acc b. 16 * acc + the (hex_val b)) 0 hex)))"

definition format_timestamp :: "int \<Rightarrow> bytes" where
  "format_timestamp micros =
     (let (y, m, d, h, mi, s, us) = parts_from_micros micros;
          base = pad_int 4 y @ [45] @ pad_int 2 m @ [45] @ pad_int 2 d @ [32]
            @ pad_int 2 h @ [58] @ pad_int 2 mi @ [58] @ pad_int 2 s
      in if us = 0 then base @ byte_string ''+00''
         else base @ [46] @ trim_end_matches [[48]] (pad_int 6 us) @ byte_string ''+00'')"

definition encode_text :: "(u64 \<Rightarrow> bytes) \<Rightarrow> val \<Rightarrow> bytes" where
  "encode_text print_f64 v =
     (case v of
        VNull \<Rightarrow> []
      | VBoolean b \<Rightarrow> if b then byte_string ''t'' else byte_string ''f''
      | VInt4 i \<Rightarrow> int_text (sint i)
      | VInt8 i \<Rightarrow> int_text (sint i)
      | VFloat8 x \<Rightarrow> format_float8 print_f64 x
      | VText s \<Rightarrow> s
      | VTimestamp us \<Rightarrow> format_timestamp (sint us)
      | VUuid u \<Rightarrow> format_uuid u
      | VJson s \<Rightarrow> s)"

definition invalid_literal :: "string \<Rightarrow> pfailure" where
  "invalid_literal what = malformed (''invalid '' @ what @ '' literal'')"

definition decode_text :: "(bytes \<Rightarrow> u64 option) \<Rightarrow> data_type \<Rightarrow> bytes \<Rightarrow> val pres" where
  "decode_text parse_f64 ty s =
     (if \<not> valid_utf8 s then Inl (malformed ''parameter is not valid UTF-8'')
      else
        case ty of
          DT_Boolean \<Rightarrow>
            if s \<in> set (map byte_string [''t'', ''true'', ''TRUE'', ''1'', ''yes'', ''on'']) then Inr (VBoolean True)
            else if s \<in> set (map byte_string [''f'', ''false'', ''FALSE'', ''0'', ''no'', ''off'']) then Inr (VBoolean False)
            else Inl (invalid_literal ''boolean'')
        | DT_Int4 \<Rightarrow> (case parse_i32 s of Some n \<Rightarrow> Inr (VInt4 (of_int n)) | None \<Rightarrow> Inl (invalid_literal ''int4''))
        | DT_Int8 \<Rightarrow> (case parse_i64 s of Some n \<Rightarrow> Inr (VInt8 (of_int n)) | None \<Rightarrow> Inl (invalid_literal ''int8''))
        | DT_Float8 \<Rightarrow> (case parse_f64 s of Some x \<Rightarrow> Inr (VFloat8 x) | None \<Rightarrow> Inl (invalid_literal ''float8''))
        | DT_Text \<Rightarrow> Inr (VText s)
        | DT_Timestamp \<Rightarrow>
            (case parse_timestamp s of Some us \<Rightarrow> Inr (VTimestamp (of_int us)) | None \<Rightarrow> Inl (invalid_literal ''timestamp''))
        | DT_Uuid \<Rightarrow> (case parse_uuid s of Some u \<Rightarrow> Inr (VUuid u) | None \<Rightarrow> Inl (invalid_literal ''uuid''))
        | DT_Json \<Rightarrow> Inr (VJson s))"

section \<open>Binary\<close>

definition PG_EPOCH_OFFSET_US :: int where
  "PG_EPOCH_OFFSET_US = 946684800000000"

definition i64_saturate :: "int \<Rightarrow> int" where
  "i64_saturate x = max (- (2 ^ 63)) (min (2 ^ 63 - 1) x)"

definition encode_binary :: "val \<Rightarrow> bytes" where
  "encode_binary v =
     (case v of
        VNull \<Rightarrow> []
      | VBoolean b \<Rightarrow> [if b then 1 else 0]
      | VInt4 i \<Rightarrow> to_be_bytes i
      | VInt8 i \<Rightarrow> to_be_bytes i
      | VFloat8 x \<Rightarrow> to_be_bytes x
      | VText s \<Rightarrow> s
      | VTimestamp us \<Rightarrow> to_be_bytes (of_int (i64_saturate (sint us - PG_EPOCH_OFFSET_US)) :: u64)
      | VUuid u \<Rightarrow> to_be_bytes u
      | VJson s \<Rightarrow> s)"

definition width :: "nat \<Rightarrow> bytes \<Rightarrow> unit pres" where
  "width n raw =
     (if length raw = n then Inr ()
      else Inl (malformed (''binary parameter is '' @ dec_string (length raw) @ '' bytes, expected '' @ dec_string n)))"

definition decode_binary :: "data_type \<Rightarrow> bytes \<Rightarrow> val pres" where
  "decode_binary ty raw =
     (case ty of
        DT_Boolean \<Rightarrow>
          bind_res (width 1 raw) (\<lambda>_. case raw of [] \<Rightarrow> Inl PPanic | b # _ \<Rightarrow> Inr (VBoolean (b \<noteq> 0)))
      | DT_Int4 \<Rightarrow> bind_res (width 4 raw) (\<lambda>_. Inr (VInt4 (from_be_bytes raw)))
      | DT_Int8 \<Rightarrow> bind_res (width 8 raw) (\<lambda>_. Inr (VInt8 (from_be_bytes raw)))
      | DT_Float8 \<Rightarrow> bind_res (width 8 raw) (\<lambda>_. Inr (VFloat8 (from_be_bytes raw)))
      | DT_Timestamp \<Rightarrow>
          bind_res (width 8 raw) (\<lambda>_.
          Inr (VTimestamp (of_int (i64_saturate (sint (from_be_bytes raw :: u64) + PG_EPOCH_OFFSET_US)))))
      | DT_Uuid \<Rightarrow> bind_res (width 16 raw) (\<lambda>_. Inr (VUuid (from_be_bytes raw)))
      | DT_Text \<Rightarrow> if valid_utf8 raw then Inr (VText raw) else Inl (malformed ''parameter is not valid UTF-8'')
      | DT_Json \<Rightarrow> if valid_utf8 raw then Inr (VJson raw) else Inl (malformed ''parameter is not valid UTF-8''))"

section \<open>Values\<close>

definition wire_encode_value :: "(u64 \<Rightarrow> bytes) \<Rightarrow> val \<Rightarrow> format \<Rightarrow> bytes option" where
  "wire_encode_value print_f64 v fmt =
     (if is_null v then None
      else Some (case fmt of TextFormat \<Rightarrow> encode_text print_f64 v | BinaryFormat \<Rightarrow> encode_binary v))"

definition wire_decode_value :: "(bytes \<Rightarrow> u64 option) \<Rightarrow> data_type \<Rightarrow> format \<Rightarrow> bytes option \<Rightarrow> val pres" where
  "wire_decode_value parse_f64 ty fmt raw =
     (case raw of
        None \<Rightarrow> Inr VNull
      | Some raw \<Rightarrow>
          (case fmt of TextFormat \<Rightarrow> decode_text parse_f64 ty raw | BinaryFormat \<Rightarrow> decode_binary ty raw))"

section \<open>Round trips\<close>

lemma type_from_oid_type_oid: "type_from_oid (type_oid ty) = Some ty"
  by (cases ty) (simp_all add: type_from_oid_def oid_defs)

lemma ascii_valid: "\<forall>b\<in>set bs. b < 0x80 \<Longrightarrow> valid_utf8 bs"
proof (induction bs)
  case (Cons b bs)
  then have "b < 0x80" "valid_utf8 bs"
    by simp_all
  then show ?case
    by (simp only: valid_utf8.simps if_True)
qed (simp only: valid_utf8.simps)

lemma digits_ascii: "list_all is_digit s \<Longrightarrow> \<forall>b\<in>set s. b < 0x80"
  by (auto simp: list_all_iff is_digit_def intro: order_le_less_trans)

subsection \<open>Integers\<close>

lemma int_text_parse:
  assumes "in_i64 n"
  shows "parse_i64 (int_text n) = Some n" and "\<forall>b\<in>set (int_text n). b < 0x80"
proof -
  let ?d = "byte_string (dec_string (nat \<bar>n\<bar>))"
  have d: "?d \<noteq> []" "list_all is_digit ?d" "digits_val ?d = Some \<bar>n\<bar>"
    using dec_string_digits [of "nat \<bar>n\<bar>"] by (simp_all add: digits_val_def)
  have t: "int_text n = (if n < 0 then 45 # ?d else ?d)"
    by (simp add: int_text_def int_string_def byte_string_def)
  show "parse_i64 (int_text n) = Some n"
  proof (cases "n < 0")
    case True
    then show ?thesis
      using d(3) assms t by (simp add: parse_i64_def i64_checked_def)
  next
    case False
    then show ?thesis
      using parse_digits(1) [OF d(2,3)] assms t by simp
  qed
  show "\<forall>b\<in>set (int_text n). b < 0x80"
    using digits_ascii [OF d(2)] t by auto
qed

lemma in_i64_sint: "in_i64 (sint (w :: u64))"
  using sint_ge [of w] sint_lt [of w] by (simp add: in_i64_def)

lemma in_i64_sint_u32: "in_i64 (sint (w :: u32))" "- (2 ^ 31) \<le> sint w \<and> sint w < 2 ^ 31"
  using sint_ge [of w] sint_lt [of w] by (simp_all add: in_i64_def)

subsection \<open>UUIDs\<close>

lemma hex_digit_facts:
  assumes "k < 16"
  shows "hex_val (hex_digit k) = Some k" "hex_digit k \<noteq> 45" "hex_digit k < 0x80"
proof -
  have "list_all (\<lambda>k. hex_val (hex_digit k) = Some k \<and> hex_digit k \<noteq> 45 \<and> hex_digit k < 0x80) [0..<16]"
    by code_simp
  then show "hex_val (hex_digit k) = Some k" "hex_digit k \<noteq> 45" "hex_digit k < 0x80"
    using assms by (auto simp: list_all_iff)
qed

lemma byte_nibbles: "unat (b :: u8) div 16 < 16" "unat b mod 16 < 16"
  using unsigned_less [of b, where ?'a = nat] by simp_all

lemma hex_bytes_facts:
  "list_all (\<lambda>b. hex_val b \<noteq> None \<and> b \<noteq> 45 \<and> b < 0x80) (hex_bytes bs)" "length (hex_bytes bs) = 2 * length bs"
  by (induction bs) (simp_all add: hex_bytes_def hex_digit_facts byte_nibbles)

lemma le_to_nat_append: "le_to_nat (xs @ ys) = le_to_nat xs + 256 ^ length xs * le_to_nat ys"
  by (induction xs) (simp_all add: algebra_simps)

lemma foldl_hex_bytes:
  "foldl (\<lambda>acc b. 16 * acc + the (hex_val b)) acc (hex_bytes bs) = acc * 256 ^ length bs + le_to_nat (rev bs)"
proof (induction bs arbitrary: acc)
  case (Cons b bs)
  have h: "hex_bytes (b # bs) = [hex_digit (unat b div 16), hex_digit (unat b mod 16)] @ hex_bytes bs"
    by (simp add: hex_bytes_def)
  have "16 * (16 * acc + unat b div 16) + unat b mod 16 = 256 * acc + unat b"
    by simp
  then show ?case
    unfolding h foldl_append Cons
    by (simp add: hex_digit_facts byte_nibbles le_to_nat_append algebra_simps)
qed (simp add: hex_bytes_def)

lemma parse_format_uuid: "parse_uuid (format_uuid v) = Some v" and format_uuid_ascii: "\<forall>b\<in>set (format_uuid v). b < 0x80"
proof -
  let ?b = "to_be_bytes v"
  have len: "length ?b = 16"
    by simp
  have parts: "hex_bytes (take 4 ?b) @ hex_bytes (take 2 (drop 4 ?b)) @ hex_bytes (take 2 (drop 6 ?b)) @
      hex_bytes (take 2 (drop 8 ?b)) @ hex_bytes (take 6 (drop 10 ?b)) = hex_bytes ?b"
  proof -
    have "?b = take 4 ?b @ take 2 (drop 4 ?b) @ take 2 (drop 6 ?b) @ take 2 (drop 8 ?b) @ take 6 (drop 10 ?b)"
      using len by (simp add: list_eq_iff_nth_eq nth_append)
    then have "hex_bytes ?b = hex_bytes (take 4 ?b @ take 2 (drop 4 ?b) @ take 2 (drop 6 ?b) @ take 2 (drop 8 ?b) @ take 6 (drop 10 ?b))"
      by (rule arg_cong)
    then show ?thesis
      by (simp add: hex_bytes_def)
  qed
  have h: "\<forall>b\<in>set (hex_bytes bs). hex_val b \<noteq> None \<and> b \<noteq> 45 \<and> b < 0x80" for bs
    using hex_bytes_facts(1) [of bs] by (simp add: list_all_iff)
  have "filter (\<lambda>b. b \<noteq> 45) (format_uuid v) = hex_bytes ?b"
    unfolding format_uuid_def Let_def using h by (simp add: filter_id_conv flip: parts)
  then show "parse_uuid (format_uuid v) = Some v"
    using h [of ?b] hex_bytes_facts(2) [of ?b] foldl_hex_bytes [of 0 ?b] from_to_be_bytes [of v]
    by (auto simp: parse_uuid_def list_all_iff from_be_bytes_def from_le_bytes_def Let_def)
  show "\<forall>b\<in>set (format_uuid v). b < 0x80"
    using h by (auto simp: format_uuid_def Let_def)
qed

subsection \<open>Timestamps\<close>

lemma trim_start_byte: "trim_start_matches [[c]] s = dropWhile (\<lambda>b. b = c) s"
proof (induction s)
  case (Cons b s)
  then show ?case
    by (simp add: trim_start_matches.simps [of _ "b # s"] match_len_def starts_with_def)
qed (simp add: trim_start_matches.simps match_len_def starts_with_def)

lemma trim_end_byte: "\<exists>k. s = trim_end_matches [[c]] s @ replicate k c"
proof -
  have "rev s = takeWhile (\<lambda>b. b = c) (rev s) @ dropWhile (\<lambda>b. b = c) (rev s)"
    by simp
  then have "s = rev (dropWhile (\<lambda>b. b = c) (rev s)) @ rev (takeWhile (\<lambda>b. b = c) (rev s))"
    by (metis rev_append rev_rev_ident)
  moreover have "rev (takeWhile (\<lambda>b. b = c) (rev s)) = replicate (length (takeWhile (\<lambda>b. b = c) (rev s))) c"
    by (intro replicate_eqI) (auto dest: set_takeWhileD)
  ultimately show ?thesis
    by (metis trim_end_matches_def trim_start_byte list.simps(8,9) rev_singleton_conv)
qed

lemma dec_string_length: "n < 10 ^ Suc k \<Longrightarrow> length (dec_string n) \<le> Suc k"
proof (induction k arbitrary: n)
  case (Suc k)
  have "n div 10 < 10 ^ Suc k"
    using Suc.prems by (simp add: less_mult_imp_div_less)
  then show ?case
    using Suc.IH [of "n div 10"] by (subst dec_string.simps) simp
qed (simp add: dec_string.simps)

lemma foldl_trailing_zeros:
  "foldl (\<lambda>acc b. 10 * acc + (uint (b :: u8) - 48)) a (replicate k 48) = a * 10 ^ k"
  by (induction k arbitrary: a) simp_all

lemma take_chars_digits: "list_all is_digit s \<Longrightarrow> take_chars n s = take n s"
proof (induction s arbitrary: n)
  case (Cons b s)
  then have "\<not> 0x80 \<le> b"
    by (auto simp: is_digit_def dest: order_trans)
  then show ?case
    using Cons by (cases n) simp_all
qed simp

text \<open>The fraction as it is printed, without its trailing zeros, reads back.\<close>

lemma fraction_reads_back:
  assumes "0 < us" "us < 1000000"
  defines "f \<equiv> trim_end_matches [[48]] (pad_int 6 us)"
  shows "f \<noteq> []" "list_all is_digit f" "take_chars 6 f = f"
    "\<exists>v. parse_i64 f = Some v \<and> i64_wrap (v * 10 ^ (6 - length f)) = us"
proof -
  let ?d = "byte_string (dec_string (nat us))"
  have len: "length (pad_int 6 us) = 6"
  proof -
    have "length ?d \<le> 6"
      using dec_string_length [of "nat us" 5] assms(2) by (simp add: byte_string_def nat_less_iff)
    then show ?thesis
      using assms(1) by (simp add: pad_int_def Let_def)
  qed
  obtain k where k: "pad_int 6 us = f @ replicate k 48"
    using trim_end_byte [of "pad_int 6 us" 48] unfolding f_def by blast
  have dig: "list_all is_digit (pad_int 6 us)" "digits_val (pad_int 6 us) = Some us"
    using pad_int_digits assms(1) by auto
  show f: "list_all is_digit f"
    using dig(1) k by simp
  let ?v = "foldl (\<lambda>acc b. 10 * acc + (uint b - 48)) 0 f"
  have us: "us = ?v * 10 ^ k"
    using dig(2) unfolding k digits_val_def by (simp add: foldl_trailing_zeros split: if_splits)
  show ne: "f \<noteq> []"
    using us assms(1) by auto
  have kl: "6 - length f = k"
    using len unfolding k by simp
  show "take_chars 6 f = f"
    using take_chars_digits [OF f] len unfolding k by simp
  have "digits_val f = Some ?v"
    using f ne by (simp add: digits_val_def)
  moreover have "in_i64 ?v"
  proof -
    have "0 < ?v * 10 ^ k"
      using us assms(1) by simp
    then have "0 < ?v"
      by (simp add: zero_less_mult_iff)
    moreover have "?v \<le> us"
      using us \<open>0 < ?v\<close> by (metis mult_le_cancel_left1 not_less one_le_numeral one_le_power order_less_imp_le)
    ultimately show ?thesis
      using assms(2) by (simp add: in_i64_def)
  qed
  ultimately have "parse_i64 f = Some ?v"
    by (rule parse_digits(1) [OF f])
  moreover have "i64_wrap (?v * 10 ^ (6 - length f)) = us"
    using us kl assms by (simp add: i64_wrap_small)
  ultimately show "\<exists>v. parse_i64 f = Some v \<and> i64_wrap (v * 10 ^ (6 - length f)) = us"
    by blast
qed

definition seconds_text :: "int \<Rightarrow> int \<Rightarrow> bytes" where
  "seconds_text s us = pad_int 2 s @ (if us = 0 then [] else 46 # trim_end_matches [[48]] (pad_int 6 us))"

lemma seconds_text_facts:
  assumes "0 \<le> s" "0 \<le> us" "us < 1000000"
  shows "seconds_text s us \<noteq> []" "is_digit (last (seconds_text s us))"
    "\<forall>b\<in>set (seconds_text s us). is_digit b \<or> b = 46"
proof -
  have p: "pad_int 2 s \<noteq> []" "list_all is_digit (pad_int 2 s)"
    using pad_int_digits assms(1) by auto
  show "seconds_text s us \<noteq> []"
    using p by (simp add: seconds_text_def)
  have f: "0 < us \<Longrightarrow> trim_end_matches [[48]] (pad_int 6 us) \<noteq> [] \<and> list_all is_digit (trim_end_matches [[48]] (pad_int 6 us))"
    using fraction_reads_back(1,2) [OF _ assms(3)] by blast
  then show "is_digit (last (seconds_text s us))" "\<forall>b\<in>set (seconds_text s us). is_digit b \<or> b = 46"
    using p assms(2) by (auto simp: seconds_text_def list_all_iff)
qed

lemma parse_seconds_text:
  assumes "0 \<le> s" "s < 60" "0 \<le> us" "us < 1000000"
  shows "parse_seconds (seconds_text s us) = Some (s, us)"
proof -
  have n: "46 \<notin> set (pad_int 2 s)"
    using digit_notin [OF pad_int_digits(2) [OF assms(1)]] by (simp add: is_digit_def)
  have s: "parse_i64 (pad_int 2 s) = Some s"
    using assms(1,2) by (intro parse_pad_int) (simp_all add: in_i64_def)
  show ?thesis
  proof (cases "us = 0")
    case True
    have "split_once [[46]] (pad_int 2 s) = None"
      using split_once_bytes [of "pad_int 2 s" "[46]" "[]"] n by simp
    then show ?thesis
      using True s by (simp add: seconds_text_def parse_seconds_def)
  next
    case False
    let ?f = "trim_end_matches [[48]] (pad_int 6 us)"
    obtain v where v: "take_chars 6 ?f = ?f" "parse_i64 ?f = Some v" "i64_wrap (v * 10 ^ (6 - length ?f)) = us"
      using fraction_reads_back(3,4) [of us] False assms(3,4) by auto
    have "split_once [[46]] (pad_int 2 s @ 46 # ?f) = Some (pad_int 2 s, ?f)"
      using split_once_bytes [of "pad_int 2 s" "[46]" "46 # ?f"] n by (simp add: match_len_def starts_with_def)
    then show ?thesis
      using False s v by (simp add: seconds_text_def parse_seconds_def Let_def)
  qed
qed

lemma parse_time_text:
  assumes "time_ok h mi s us"
  shows "parse_time (split_on 58 (pad_int 2 h @ 58 # pad_int 2 mi @ 58 # seconds_text s us)) = Some (h, mi, s, us)"
proof -
  have b: "0 \<le> h" "0 \<le> mi" "0 \<le> s" "in_i64 h" "in_i64 mi" "h < 24" "mi < 60" "s < 60" "0 \<le> us" "us < 1000000"
    using assms by (auto simp: time_ok_def in_i64_def)
  have c: "58 \<notin> set (pad_int 2 n)" if "0 \<le> n" for n
    using digit_notin [OF pad_int_digits(2) [OF that]] by (simp add: is_digit_def)
  have "58 \<notin> set (seconds_text s us)"
    using seconds_text_facts(3) [of s us] b by (auto simp: is_digit_def)
  then show ?thesis
    using b by (simp add: split_on_append split_on_last c parse_time_def parse_pad_int parse_seconds_text)
qed

lemma parse_format_timestamp:
  assumes "in_i64 micros" "0 \<le> fst (parts_from_micros micros)"
  shows "parse_timestamp (format_timestamp micros) = Some micros" "\<forall>b\<in>set (format_timestamp micros). b < 0x80"
proof -
  obtain y m d h mi s us where p: "parts_from_micros micros = (y, m, d, h, mi, s, us)"
    by (metis prod_cases7)
  note q = parts_of_micros [OF assms(1) p]
  have y: "0 \<le> y" "0 \<le> m" "0 \<le> d" "0 \<le> h" "0 \<le> mi" "0 \<le> s" "0 \<le> us" "us < 1000000"
    using assms(2) p q(1,2) by (auto simp: date_ok_def time_ok_def)
  let ?d = "pad_int 4 y @ 45 # pad_int 2 m @ 45 # pad_int 2 d"
    and ?t = "pad_int 2 h @ 58 # pad_int 2 mi @ 58 # seconds_text s us"
  have f: "format_timestamp micros = ?d @ 32 # ?t @ [43, 48, 48]"
    using p by (simp add: format_timestamp_def seconds_text_def byte_string_def)
  note sec = seconds_text_facts [OF y(6-8)]
  have n: "b \<notin> set (pad_int w n)" if "0 \<le> n" "\<not> is_digit b" for n w b
    using digit_notin [OF pad_int_digits(2) [OF that(1)] that(2)] .
  have "trim (?d @ 32 # ?t @ [43, 48, 48]) = ?d @ 32 # ?t @ [43, 48, 48]"
    using pad_int_ends [OF y(1), of 4] pad_int_digits(1) [OF y(1), of 4] by (intro trim_digits) (auto simp: is_digit_def)
  moreover have "split_once [[32], [84]] (?d @ 32 # ?t @ [43, 48, 48]) = Some (?d, ?t @ [43, 48, 48])"
    using split_once_bytes [of ?d "[32, 84]" "32 # ?t @ [43, 48, 48]"] n y
    by (simp add: match_len_def starts_with_def is_digit_def)
  ultimately have "parse_timestamp (format_timestamp micros) = parse_parts ?d (?t @ [43, 48, 48])"
    unfolding f parse_timestamp_def by simp
  also have "\<dots> = Some (join_micros (days_from_civil y m d) h mi s us)"
  proof -
    have "43 \<notin> set ?t"
      using n y sec(3) by (auto simp: is_digit_def)
    then have plus: "split_once [[43]] (?t @ [43, 48, 48]) = Some (?t, [48, 48])"
      using split_once_bytes [of ?t "[43]" "[43, 48, 48]"] by (simp add: match_len_def starts_with_def)
    have "trim_end_matches [[90]] ?t = ?t"
      using sec(1,2) by (intro trim_end_matches_id) (auto simp: is_digit_def)
    then show ?thesis
      unfolding parse_parts_def parse_date_formatted [OF q(1) y(1)] plus
      by (simp add: parse_time_text [OF q(2)])
  qed
  finally show "parse_timestamp (format_timestamp micros) = Some micros"
    using q(3) by simp
  have a: "\<forall>b\<in>set (pad_int w n). b < 0x80" if "0 \<le> n" for n w
    using digits_ascii [OF pad_int_digits(2) [OF that]] .
  have "\<forall>b\<in>set (seconds_text s us). b < 0x80"
    using sec(3) digits_ascii [of "[_]"] by fastforce
  then show "\<forall>b\<in>set (format_timestamp micros). b < 0x80"
    unfolding f using a y by auto
qed

subsection \<open>Every type\<close>

text \<open>What Rust documents of \<open>Display\<close> and \<open>FromStr\<close> for \<open>f64\<close>: the printed digits read back exactly.\<close>

definition f64_text_law :: "(u64 \<Rightarrow> bytes) \<Rightarrow> (bytes \<Rightarrow> u64 option) \<Rightarrow> bool" where
  "f64_text_law print_f64 parse_f64 \<longleftrightarrow>
     (\<forall>x. \<not> f64_is_nan x \<and> \<not> f64_is_infinite x \<longrightarrow>
        parse_f64 (print_f64 x) = Some x \<and> (\<forall>b\<in>set (print_f64 x). b < 0x80)) \<and>
     parse_f64 (byte_string ''Infinity'') = Some 0x7FF0000000000000 \<and>
     parse_f64 (byte_string ''-Infinity'') = Some 0xFFF0000000000000"

text \<open>
  The values that have an exact form on the wire: strings are UTF-8, a timestamp in text has a year of at
  least zero, a binary one does not saturate, and a float in text is a number.
\<close>

fun exact_on_wire :: "format \<Rightarrow> val \<Rightarrow> bool" where
  "exact_on_wire fmt (VText s) = valid_utf8 s"
| "exact_on_wire fmt (VJson s) = valid_utf8 s"
| "exact_on_wire TextFormat (VFloat8 x) = (\<not> f64_is_nan x)"
| "exact_on_wire TextFormat (VTimestamp us) = (0 \<le> fst (parts_from_micros (sint us)))"
| "exact_on_wire BinaryFormat (VTimestamp us) = (PG_EPOCH_OFFSET_US - 2 ^ 63 \<le> sint us)"
| "exact_on_wire fmt v = True"

lemma sint_word_of_int_u64: "in_i64 n \<Longrightarrow> sint (word_of_int n :: u64) = n"
  by (simp add: signed_of_int signed_take_bit_int_eq_self_iff in_i64_def)

lemma timestamp_saturation:
  assumes "PG_EPOCH_OFFSET_US - 2 ^ 63 \<le> sint (us :: u64)"
  shows "i64_saturate (sint (of_int (i64_saturate (sint us - PG_EPOCH_OFFSET_US)) :: u64) + PG_EPOCH_OFFSET_US) = sint us"
proof -
  have in': "in_i64 (sint us - PG_EPOCH_OFFSET_US)"
    using assms in_i64_sint [of us] by (simp add: in_i64_def PG_EPOCH_OFFSET_US_def)
  then have "i64_saturate (sint us - PG_EPOCH_OFFSET_US) = sint us - PG_EPOCH_OFFSET_US"
    by (simp add: i64_saturate_def in_i64_def)
  moreover have "i64_saturate (sint us - PG_EPOCH_OFFSET_US + PG_EPOCH_OFFSET_US) = sint us"
    using in_i64_sint [of us] by (simp add: i64_saturate_def in_i64_def)
  ultimately show ?thesis
    by (simp only: sint_word_of_int_u64 [OF in'])
qed

lemma decode_encode_binary:
  assumes "exact_on_wire BinaryFormat v" "data_type_of v = Some ty"
  shows "decode_binary ty (encode_binary v) = Inr v"
  using assms
  by (cases v) (auto simp: decode_binary_def encode_binary_def width_def bind_res_def timestamp_saturation)

lemma f64_infinite_cases: "f64_is_infinite x \<Longrightarrow> x = 0x7FF0000000000000 \<or> x = 0xFFF0000000000000"
proof -
  assume "f64_is_infinite x"
  moreover have "(0x7FFFFFFFFFFFFFFF :: u64) = mask 63"
    by (simp add: mask_eq_exp_minus_1)
  ultimately have "take_bit 63 x = 0x7FF0000000000000"
    by (simp add: f64_is_infinite_def take_bit_eq_mask)
  then have "unat x mod 2 ^ 63 = 0x7FF0000000000000"
    using unsigned_take_bit_eq [of 63 x, where ?'a = nat] by (simp add: take_bit_eq_mod)
  moreover have "unat x div 2 ^ 63 < 2"
    using unsigned_less [of x, where ?'a = nat] by (simp add: less_mult_imp_div_less)
  then have "unat x div 2 ^ 63 = 0 \<or> unat x div 2 ^ 63 = 1"
    by linarith
  moreover have "unat x = unat x div 2 ^ 63 * 2 ^ 63 + unat x mod 2 ^ 63"
    by simp
  ultimately have "unat x = 0x7FF0000000000000 \<or> unat x = 0xFFF0000000000000"
    by auto
  then show ?thesis
    by (auto simp: word_unat_eq_iff)
qed

lemma decode_encode_text:
  assumes "f64_text_law print_f64 parse_f64" "exact_on_wire TextFormat v" "data_type_of v = Some ty"
  shows "decode_text parse_f64 ty (encode_text print_f64 v) = Inr v"
proof (cases v)
  case (VInt4 i)
  have "decode_text parse_f64 DT_Int4 (int_text (sint i)) = Inr (VInt4 (of_int (sint i)))"
    using int_text_parse [OF in_i64_sint_u32(1), of i] in_i64_sint_u32(2) [of i] ascii_valid
    by (simp add: decode_text_def parse_i32_def)
  then show ?thesis
    using assms(3) VInt4 by (simp add: encode_text_def)
next
  case (VInt8 i)
  have "decode_text parse_f64 DT_Int8 (int_text (sint i)) = Inr (VInt8 (of_int (sint i)))"
    using int_text_parse [OF in_i64_sint, of i] ascii_valid by (simp add: decode_text_def)
  then show ?thesis
    using assms(3) VInt8 by (simp add: encode_text_def)
next
  case (VFloat8 x)
  have asc: "valid_utf8 (byte_string ''Infinity'')" "valid_utf8 (byte_string ''-Infinity'')"
    by code_simp+
  have "decode_text parse_f64 DT_Float8 (format_float8 print_f64 x) = Inr (VFloat8 x)"
  proof (cases "f64_is_infinite x")
    case True
    then show ?thesis
      using f64_infinite_cases [OF True] assms(1,2) VFloat8 asc
      by (auto simp: decode_text_def format_float8_def f64_text_law_def)
  next
    case False
    then show ?thesis
      using assms(1,2) VFloat8 ascii_valid by (simp add: decode_text_def format_float8_def f64_text_law_def)
  qed
  then show ?thesis
    using assms(3) VFloat8 by (simp add: encode_text_def)
next
  case (VTimestamp us)
  then show ?thesis
    using assms(2,3) parse_format_timestamp [OF in_i64_sint, of us] ascii_valid
    by (simp add: decode_text_def encode_text_def)
next
  case (VUuid u)
  then show ?thesis
    using assms(3) parse_format_uuid [of u] ascii_valid [OF format_uuid_ascii]
    by (simp add: decode_text_def encode_text_def)
next
  case (VBoolean b)
  have "valid_utf8 (byte_string ''t'')" "valid_utf8 (byte_string ''f'')"
    "byte_string ''f'' \<notin> set (map byte_string [''t'', ''true'', ''TRUE'', ''1'', ''yes'', ''on''])"
    by code_simp+
  then show ?thesis
    using assms(3) VBoolean by (simp add: decode_text_def encode_text_def)
qed (use assms in \<open>auto simp: decode_text_def encode_text_def\<close>)

text \<open>
  C39: a value that is sent and received as its own type in the same format, text or binary, is the value
  that was sent; NULL is sent as the absence of bytes.
\<close>

theorem wire_value_round_trip:
  assumes "f64_text_law print_f64 parse_f64" and "exact_on_wire fmt v"
    and "data_type_of v = Some ty \<or> v = VNull"
  shows "wire_decode_value parse_f64 ty fmt (wire_encode_value print_f64 v fmt) = Inr v"
proof (cases "v = VNull")
  case True
  then show ?thesis
    by (simp add: wire_decode_value_def wire_encode_value_def is_null_def)
next
  case False
  then show ?thesis
    using assms decode_encode_text decode_encode_binary
    by (cases fmt) (simp_all add: wire_decode_value_def wire_encode_value_def is_null_def)
qed

text \<open>A float by the decimal number of its bit pattern, for the witness.\<close>

definition demo_print :: "u64 \<Rightarrow> bytes" where
  "demo_print x = byte_string (dec_string (unat x))"

definition demo_parse :: "bytes \<Rightarrow> u64 option" where
  "demo_parse s =
     (if s = byte_string ''Infinity'' then Some 0x7FF0000000000000
      else if s = byte_string ''-Infinity'' then Some 0xFFF0000000000000
      else map_option of_int (digits_val s))"

lemma demo_law: "f64_text_law demo_print demo_parse"
proof -
  have n: "\<not> list_all is_digit (byte_string ''Infinity'')" "\<not> list_all is_digit (byte_string ''-Infinity'')"
    "byte_string ''-Infinity'' \<noteq> byte_string ''Infinity''"
    by code_simp+
  have d: "list_all is_digit (demo_print x)" "digits_val (demo_print x) = Some (int (unat x))" for x
    using dec_string_digits [of "unat x"] by (auto simp: demo_print_def digits_val_def)
  have "demo_parse (demo_print x) = Some x" for x
    using n d [of x] by (auto simp: demo_parse_def)
  then show ?thesis
    using n digits_ascii [OF d(1)] by (auto simp: f64_text_law_def demo_parse_def)
qed

theorem wire_value_round_trip_witness:
  "wire_decode_value demo_parse DT_Timestamp TextFormat (wire_encode_value demo_print (VTimestamp 1754820900123456) TextFormat)
     = Inr (VTimestamp 1754820900123456)"
proof (rule wire_value_round_trip [OF demo_law])
  have "sint (1754820900123456 :: u64) = 1754820900123456"
    by simp
  moreover have "0 \<le> fst (parts_from_micros 1754820900123456)"
    by code_simp
  ultimately show "exact_on_wire TextFormat (VTimestamp 1754820900123456)"
    by (simp only: exact_on_wire.simps)
qed simp

end
