(* ===== verification/Btree_Nodes.thy ===== *)
theory Btree_Nodes
  imports Btree
begin

text \<open>
  One node of the B+-tree: binary search over the sorted items of a page, the child that covers a
  key, and the pages of a node as the pager shows them.
\<close>

section \<open>Binary search\<close>

definition lower :: "u64 \<Rightarrow> bytes list \<Rightarrow> nat" where
  "lower key its = length (takeWhile (\<lambda>it. item_key it < key) its)"

text \<open>The slot of the key, or the slot in front of which it belongs.\<close>

definition slot_of :: "u64 \<Rightarrow> bytes list \<Rightarrow> nat + nat" where
  "slot_of key its =
     (let i = lower key its
      in if i < length its \<and> item_key (its ! i) = key then Inr i else Inl i)"

definition sorted_items :: "bytes list \<Rightarrow> bool" where
  "sorted_items its \<longleftrightarrow> sorted_wrt (<) (map item_key its)"

lemma lower_le: "lower key its \<le> length its"
  by (simp add: lower_def length_takeWhile_le)

lemma lower_before: "i < lower key its \<Longrightarrow> item_key (its ! i) < key"
  unfolding lower_def by (metis nth_mem set_takeWhileD takeWhile_nth)

lemma lower_at: "lower key its < length its \<Longrightarrow> \<not> item_key (its ! lower key its) < key"
  unfolding lower_def using nth_length_takeWhile by blast

lemma sorted_items_less:
  "sorted_items its \<Longrightarrow> i < j \<Longrightarrow> j < length its \<Longrightarrow> item_key (its ! i) < item_key (its ! j)"
  by (auto simp: sorted_items_def sorted_wrt_iff_nth_less)

lemma search_between_spec:
  assumes "layout_ok p" and "sorted_items (page_items p)"
    and "lo \<le> lower key (page_items p)" and "lower key (page_items p) \<le> hi" and "hi \<le> slot_count p"
    and "hi < slot_count p \<longrightarrow> key < item_key (page_items p ! hi)"
  shows "search_between p key lo hi = Inr (slot_of key (page_items p))"
  using assms
proof (induction p key lo hi rule: search_between.induct)
  case (1 p key lo hi)
  let ?its = "page_items p" and ?m = "(lo + hi) div 2"
  show ?case
  proof (cases "lo < hi")
    case False
    then have "lower key ?its = hi" "lo = hi"
      using "1.prems"(3,4) by auto
    then show ?thesis
      using "1.prems"(6) by (auto simp: search_between.simps slot_of_def Let_def)
  next
    case True
    then have m: "?m < hi" "lo \<le> ?m" "?m < length ?its"
      using "1.prems"(5) by auto
    then have it: "item p ?m = Inr (?its ! ?m)"
      using item_eq [OF "1.prems"(1)] by simp
    note eq = search_between.simps [of p key lo hi] it True
    consider "item_key (?its ! ?m) < key" | "key < item_key (?its ! ?m)" | "item_key (?its ! ?m) = key"
      by fastforce
    then show ?thesis
    proof cases
      case 1
      have "\<not> lower key ?its \<le> ?m"
      proof
        assume "lower key ?its \<le> ?m"
        then have "item_key (?its ! lower key ?its) \<le> item_key (?its ! ?m)"
          using sorted_items_less [OF "1.prems"(2), of "lower key ?its" ?m] m(3) by (cases "lower key ?its = ?m") auto
        then show False
          using 1 lower_at [of key ?its] \<open>lower key ?its \<le> ?m\<close> m(3) by simp
      qed
      then show ?thesis
        using eq 1 "1.IH"(1) [OF True 1] "1.prems" by simp
    next
      case 2
      then have "lower key ?its \<le> ?m"
        using lower_before [of ?m key ?its] by (meson not_le_imp_less order.asym)
      then show ?thesis
        using eq 2 "1.IH"(2) [OF True _ 2] "1.prems" m less_not_sym [OF 2] by simp
    next
      case 3
      have "lower key ?its \<le> ?m"
        using lower_before [of ?m key ?its] 3 by (metis not_le_imp_less order.irrefl)
      moreover have "\<not> lower key ?its < ?m"
        using sorted_items_less [OF "1.prems"(2), of "lower key ?its" ?m] m(3) 3 lower_at [of key ?its] by auto
      ultimately show ?thesis
        using eq 3 m(3) by (simp add: slot_of_def Let_def)
    qed
  qed
qed

lemma slot_search_spec:
  assumes "layout_ok p" and "sorted_items (page_items p)"
  shows "slot_search p key = Inr (slot_of key (page_items p))"
  unfolding slot_search_def
  using lower_le [of key "page_items p"] by (intro search_between_spec assms) simp_all

lemma lower_append:
  "\<forall>it\<in>set xs. item_key it < key \<Longrightarrow> ys = [] \<or> key \<le> item_key (hd ys) \<Longrightarrow> lower key (xs @ ys) = length xs"
  by (cases ys) (auto simp: lower_def takeWhile_append leD takeWhile_eq_all_conv [THEN iffD2])

lemma slot_of_found:
  "\<forall>it\<in>set xs. item_key it < item_key y \<Longrightarrow> slot_of (item_key y) (xs @ y # ys) = Inr (length xs)"
  by (simp add: slot_of_def lower_append)

lemma slot_of_absent:
  assumes "\<forall>it\<in>set xs. item_key it < key" and "\<forall>it\<in>set ys. key < item_key it"
  shows "slot_of key (xs @ ys) = Inl (length xs)"
proof -
  have "lower key (xs @ ys) = length xs"
    using assms by (intro lower_append) (cases ys; auto intro: less_imp_le)+
  moreover have "item_key ((xs @ ys) ! length xs) \<noteq> key" if "ys \<noteq> []"
    using that assms(2) by (cases ys) auto
  ultimately show ?thesis
    by (auto simp: slot_of_def Let_def)
qed

section \<open>Items\<close>

lemma take_append_le [simp]: "length (to_le_bytes (k :: u64)) = 8" "length (to_le_bytes (c :: u32)) = 4"
  by simp_all

lemma item_key_le [simp]: "item_key (to_le_bytes k @ bs) = k"
  by (simp add: item_key_def)

lemma item_key_internal [simp]: "item_key (make_internal_item k c) = k"
  by (simp add: make_internal_item_def)

lemma internal_child_item [simp]: "internal_child (make_internal_item k c) = Inr c"
  by (simp add: internal_child_def make_internal_item_def le_u32_def le_field_def layout)

lemma length_internal_item [simp]: "length (make_internal_item k c) = 12"
  by (simp add: make_internal_item_def)

section \<open>The page of a node\<close>

text \<open>
  An internal page never loses an item, so that its items and its free space fill it exactly.
\<close>

definition node_page :: "page \<Rightarrow> page_kind \<Rightarrow> bytes list \<Rightarrow> u32 \<Rightarrow> bool" where
  "node_page p k its x \<longleftrightarrow> page_inv p \<and> kind p = Inr k \<and> page_items p = its \<and> extra p = x \<and>
     (k = PK_Internal \<longrightarrow> free_space p + items_cost its = PAGE_SIZE - HEADER_SIZE)"

definition node_at :: "(page_id \<Rightarrow> bytes option) \<Rightarrow> page_id \<Rightarrow> page_kind \<Rightarrow> bytes list \<Rightarrow> u32 \<Rightarrow> bool" where
  "node_at v pid k its x \<longleftrightarrow> (\<exists>c. v pid = Some c \<and> length c = PAGE_SIZE - 12 \<and> node_page (page_of c) k its x)"

lemma node_page_layout: "node_page p k its x \<Longrightarrow> layout_ok p"
  by (simp add: node_page_def page_inv_def)

lemma node_page_content:
  assumes "page_ok p" and "node_page (page_of (content p)) k its x"
  shows "node_page p k its x"
proof -
  have len: "length p = PAGE_SIZE"
    by (rule page_ok_length [OF assms(1)])
  have "layout_ok p"
    using assms(1) by (simp add: page_ok_def)
  then show ?thesis
    using assms(2) page_of_content [OF len] by (simp add: node_page_def)
qed

lemma node_at_content:
  assumes "node_page p k its x" and "v pid = Some (content p)"
  shows "node_at v pid k its x"
proof -
  have inv: "page_inv p" and lay: "layout_ok p"
    using assms(1) by (simp_all add: node_page_def page_inv_def)
  then have len: "length p = PAGE_SIZE"
    by (simp add: layout_ok_def)
  then have "node_page (page_of (content p)) k its x"
    using assms(1) lay page_of_content [OF len] by (simp add: node_page_def)
  then show ?thesis
    using assms(2) length_content [OF len] by (simp add: node_at_def)
qed

lemma with_node:
  assumes "pager_inv s" and "node_at (view s) pid k its x"
  obtains s' p where "with_page pid f s = (f p, s')" and "unseen s s'" and "node_page p k its x"
proof -
  obtain c where c: "view s pid = Some c" "node_page (page_of c) k its x"
    using assms(2) by (auto simp: node_at_def)
  show ?thesis
    using with_page_present [OF assms(1) c(1), of f] node_page_content c(2) that by metis
qed

lemma with_node_mut:
  assumes "pager_inv s" and "node_at (view s) pid k its x"
  obtains p s' where "node_page p k its x" and "view s pid = Some (content p)" and "page_ok p"
    and "\<And>r q k' its' x'. f p = Inr (r, q) \<Longrightarrow> node_page q k' its' x' \<Longrightarrow>
      with_page_mut pid f s = (Inr r, s') \<and> wrote pid (content q) s s' \<and> node_at (view s') pid k' its' x'"
proof -
  obtain c where c: "view s pid = Some c" "node_page (page_of c) k its x"
    using assms(2) by (auto simp: node_at_def)
  show ?thesis
  proof (rule with_page_mut_present [OF assms(1) c(1), of f])
    fix s' p
    assume p: "content p = c" "page_ok p"
      and upd: "\<And>r q. f p = Inr (r, q) \<Longrightarrow> page_ok q \<Longrightarrow>
        with_page_mut pid f s = (Inr r, s') \<and> wrote pid (content q) s s'"
    have "node_page p k its x" "view s pid = Some (content p)"
      by (rule node_page_content) (use p c in auto)
    moreover note p(2)
    moreover have "with_page_mut pid f s = (Inr r, s') \<and> wrote pid (content q) s s' \<and>
        node_at (view s') pid k' its' x'"
      if "f p = Inr (r, q)" and q: "node_page q k' its' x'" for r q k' its' x'
    proof -
      have "page_ok q"
        using q by (simp add: node_page_def page_inv_ok)
      then show ?thesis
        using upd [OF that(1)] node_at_content [OF q] by (auto simp: wrote_def)
    qed
    ultimately show thesis
      by (rule that)
  qed
qed

lemma node_at_unseen: "unseen s s' \<Longrightarrow> node_at (view s') = node_at (view s)"
  by (simp add: unseen_def)

lemma node_at_cong: "v' pid = v pid \<Longrightarrow> node_at v' pid = node_at v pid"
  by (simp add: node_at_def fun_eq_iff)

section \<open>Reading a node\<close>

lemma find_item_spec:
  assumes p: "node_page p k its x" and "sorted_items its"
  shows "find_item key p = Inr (case slot_of key its of Inr i \<Rightarrow> Some (i, its ! i) | Inl _ \<Rightarrow> None)"
proof -
  have its: "page_items p = its" "layout_ok p"
    using p by (simp_all add: node_page_def page_inv_def)
  have "slot_of key its = Inr i \<Longrightarrow> i < slot_count p" for i
    using its(1) length_page_items [of p] by (auto simp: slot_of_def Let_def split: if_splits)
  then show ?thesis
    using slot_search_spec [OF its(2), of key] assms(2) its item_eq [OF its(2)]
    by (cases "slot_of key its") (simp_all add: find_item_def)
qed

text \<open>A child and the smallest key it may hold; the first child is the leftmost one.\<close>

definition kid_items :: "(u64 \<times> page_id) list \<Rightarrow> bytes list" where
  "kid_items kids = map (\<lambda>(k, c). make_internal_item k c) (tl kids)"

lemma kid_items_Cons [simp]: "kid_items (kc # kids) = map (\<lambda>(k, c). make_internal_item k c) kids"
  by (simp add: kid_items_def)

lemma kid_items_keys: "map item_key (kid_items kids) = map fst (tl kids)"
  by (simp add: kid_items_def comp_def case_prod_beta)

lemma child_for_spec:
  assumes p: "node_page p k (kid_items (xs @ (b, c) # ys)) x"
    and x: "x = snd (hd (xs @ [(b, c)]))"
    and srt: "sorted_wrt (<) (map fst (xs @ (b, c) # ys))"
    and b: "b \<le> key" and ys: "\<forall>(k, _)\<in>set ys. key < k"
  shows "child_for p key = Inr c"
proof -
  let ?its = "kid_items (xs @ (b, c) # ys)"
  have its: "page_items p = ?its" "layout_ok p" "extra p = x"
    using p by (simp_all add: node_page_def page_inv_def)
  have "sorted_items ?its"
    unfolding sorted_items_def kid_items_keys using srt by (cases xs) auto
  then have search: "slot_search p key = Inr (slot_of key ?its)"
    using slot_search_spec [OF its(2), of key] its(1) by simp
  show ?thesis
  proof (cases xs)
    case Nil
    have "slot_of key ([] @ map (\<lambda>(k, c). make_internal_item k c) ys) = Inl 0"
      using ys by (subst slot_of_absent) auto
    then show ?thesis
      using search Nil its(3) x by (simp add: child_for_def)
  next
    case (Cons x0 xs')
    let ?l = "map (\<lambda>(k, c). make_internal_item k c) xs'" and ?r = "map (\<lambda>(k, c). make_internal_item k c) ys"
    have eq: "?its = ?l @ make_internal_item b c # ?r"
      using Cons by simp
    have l: "\<forall>it\<in>set ?l. item_key it < b"
      using srt Cons by (auto simp: sorted_wrt_append)
    have len: "length xs' < slot_count p"
      using its(1) eq by (metis length_append length_map length_Cons length_page_items less_add_Suc1 add_Suc_right)
    have item: "item p (length xs') = Inr (make_internal_item b c)"
      using item_eq [OF its(2) len] its(1) eq by (simp add: nth_append del: nth_page_items)
    show ?thesis
    proof (cases "b = key")
      case True
      then have "slot_of key ?its = Inr (length xs')"
        using slot_of_found [of ?l "make_internal_item b c" ?r] l eq by simp
      then show ?thesis
        using search item by (simp add: child_for_def)
    next
      case False
      then have "\<forall>it\<in>set (?l @ [make_internal_item b c]). item_key it < key"
        using l b by auto
      then have "slot_of key ?its = Inl (length (?l @ [make_internal_item b c]))"
        using slot_of_absent [of "?l @ [make_internal_item b c]" key ?r] ys eq
        by (simp add: case_prod_beta)
      then show ?thesis
        using search item by (simp add: child_for_def)
    qed
  qed
qed

end
