(* ===== verification/Btree_Tree.thy ===== *)
theory Btree_Tree
  imports Btree_Nodes "HOL-Library.Multiset"
begin

text \<open>
  The abstract B+-tree and how the pages of a file represent one: entries with their overflow
  chains, nodes with the smallest key of every child, the chain of leaves, and contexts, which are
  trees with one subtree left out and follow the path of a descent.
\<close>

section \<open>Abstract trees\<close>

text \<open>An entry has a key, a payload, and the pages of its overflow chain.\<close>

type_synonym entry = "u64 \<times> bytes \<times> page_id list"

text \<open>
  A child of a node stands with the smallest key it may hold. That key is the separator in the
  page, and for the leftmost child, which has none, the smallest key of the node itself.
\<close>

datatype tree = Leaf page_id "entry list" | Node page_id "(u64 \<times> tree) list"

fun root :: "tree \<Rightarrow> page_id" where
  "root (Leaf pid es) = pid"
| "root (Node pid kids) = pid"

lemma tree_induct [case_names Leaf Node]:
  assumes "\<And>pid es. P (Leaf pid es)"
    and "\<And>pid kids. (\<And>k t. (k, t) \<in> set kids \<Longrightarrow> P t) \<Longrightarrow> P (Node pid kids)"
  shows "P t"
  by (induction t) (auto intro: assms)

fun entries :: "tree \<Rightarrow> entry list" where
  "entries (Leaf pid es) = es"
| "entries (Node pid kids) = concat (map (\<lambda>(k, t). entries t) kids)"

fun leaf_ids :: "tree \<Rightarrow> page_id list" where
  "leaf_ids (Leaf pid es) = [pid]"
| "leaf_ids (Node pid kids) = concat (map (\<lambda>(k, t). leaf_ids t) kids)"

definition chain_ids :: "entry list \<Rightarrow> page_id list" where
  "chain_ids es = concat (map (\<lambda>(k, d, ps). ps) es)"

fun pages :: "tree \<Rightarrow> page_id list" where
  "pages (Leaf pid es) = pid # chain_ids es"
| "pages (Node pid kids) = pid # concat (map (\<lambda>(k, t). pages t) kids)"

definition contents :: "tree \<Rightarrow> (u64 \<times> bytes) list" where
  "contents t = map (\<lambda>(k, d, ps). (k, d)) (entries t)"

fun balanced :: "nat \<Rightarrow> tree \<Rightarrow> bool" where
  "balanced h (Leaf pid es) \<longleftrightarrow> h = 0"
| "balanced h (Node pid kids) \<longleftrightarrow> (\<exists>h'. h = Suc h' \<and> (\<forall>(k, t)\<in>set kids. balanced h' t))"

text \<open>The keys of a tree lie from \<open>lo\<close> up to but not including \<open>hi\<close>, in order.\<close>

definition next_key :: "nat \<Rightarrow> (u64 \<times> 'a) list \<Rightarrow> nat" where
  "next_key hi kids = (case kids of [] \<Rightarrow> hi | (k, _) # _ \<Rightarrow> unat k)"

lemma next_key_simps [simp]:
  "next_key hi [] = hi" "next_key hi ((k, t) # kids) = unat k"
  "next_key hi (xs @ ys) = next_key (next_key hi ys) xs"
  by (simp_all add: next_key_def split: list.split)

definition KEY_LIMIT :: nat where
  "KEY_LIMIT = 2 ^ 64"

fun tree_ok :: "u64 \<Rightarrow> nat \<Rightarrow> tree \<Rightarrow> bool"
  and span :: "nat \<Rightarrow> (u64 \<times> tree) list \<Rightarrow> bool" where
  "tree_ok lo hi (Leaf pid es) \<longleftrightarrow>
     sorted_wrt (<) (map fst es) \<and> (\<forall>(k, _)\<in>set es. lo \<le> k \<and> unat k < hi)"
| "tree_ok lo hi (Node pid kids) \<longleftrightarrow> kids \<noteq> [] \<and> fst (hd kids) = lo \<and> span hi kids"
| "span hi [] \<longleftrightarrow> True"
| "span hi ((k, t) # kids) \<longleftrightarrow>
     unat k < next_key hi kids \<and> tree_ok k (next_key hi kids) t \<and> span hi kids"

lemma span_append: "span hi (xs @ ys) \<longleftrightarrow> span (next_key hi ys) xs \<and> span hi ys"
proof (induction xs)
  case (Cons x xs)
  then show ?case
    by (cases x; cases xs; cases ys) auto
qed simp

lemma span_keys:
  "span hi kids \<Longrightarrow> sorted_wrt (<) (map fst kids) \<and> (\<forall>(k, t)\<in>set kids. unat k < hi)"
proof (induction kids)
  case (Cons kt kids)
  obtain k t where kt: "kt = (k, t)"
    by fastforce
  have s: "unat k < next_key hi kids" "span hi kids"
    using Cons.prems kt by auto
  have ih: "sorted_wrt (<) (map fst kids)" "\<forall>(k, t)\<in>set kids. unat k < hi"
    using Cons.IH [OF s(2)] by auto
  have "\<forall>(k', t')\<in>set kids. k < k'"
    using s(1) ih(1) by (cases kids) (auto simp: word_less_nat_alt intro: less_trans)
  moreover have "unat k < hi"
    using s(1) ih(2) by (cases kids) auto
  ultimately show ?case
    using ih kt by auto
qed simp

lemma tree_ok_range: "tree_ok lo hi t \<Longrightarrow> (k, d) \<in> set (entries t) \<Longrightarrow> lo \<le> k \<and> unat k < hi"
proof (induction t arbitrary: lo hi rule: tree_induct)
  case (Node pid kids)
  obtain b t where t: "(b, t) \<in> set kids" "(k, d) \<in> set (entries t)"
    using Node.prems(2) by auto
  then obtain xs ys where split: "kids = xs @ (b, t) # ys"
    by (meson split_list)
  have sp: "span hi kids" "fst (hd kids) = lo"
    using Node.prems(1) by auto
  have ok: "tree_ok b (next_key hi ys) t"
    using sp(1) unfolding split span_append by simp
  have r: "b \<le> k" "unat k < next_key hi ys"
    using Node.IH [OF t(1) ok t(2)] by auto
  have "lo \<le> b"
    using sp span_keys [OF sp(1)] split by (cases xs) auto
  moreover have "next_key hi ys \<le> hi"
    using span_keys [OF sp(1)] split by (cases ys) auto
  ultimately show ?case
    using r by (meson order.trans less_le_trans)
qed auto

lemma span_sorted:
  assumes "\<And>k t lo hi. (k, t) \<in> set kids \<Longrightarrow> tree_ok lo hi t \<Longrightarrow> sorted_wrt (<) (map fst (entries t))"
    and "span hi kids"
  shows "sorted_wrt (<) (map fst (concat (map (\<lambda>(k, t). entries t) kids)))"
  using assms
proof (induction kids)
  case (Cons kt kids)
  obtain k t where kt: "kt = (k, t)"
    by fastforce
  have s: "tree_ok k (next_key hi kids) t" "span hi kids"
    using Cons.prems(2) kt by auto
  have "k1 < k2" if "(k1, e1) \<in> set (entries t)" and "(b, t2) \<in> set kids" and "(k2, e2) \<in> set (entries t2)"
    for k1 e1 b t2 k2 e2
  proof -
    obtain b0 t0 kids' where kids: "kids = (b0, t0) # kids'"
      using \<open>(b, t2) \<in> set kids\<close> by (cases kids) auto
    have "tree_ok b0 hi (Node 0 kids)"
      using s(2) kids by simp
    then have "b0 \<le> k2"
      using tree_ok_range \<open>(b, t2) \<in> set kids\<close> \<open>(k2, e2) \<in> set (entries t2)\<close> by fastforce
    moreover have "unat k1 < unat b0"
      using tree_ok_range [OF s(1) \<open>(k1, e1) \<in> set (entries t)\<close>] kids by simp
    ultimately show ?thesis
      by (simp add: word_less_nat_alt word_le_nat_alt)
  qed
  moreover have "sorted_wrt (<) (map fst (entries t))"
    using Cons.prems(1) s(1) kt by fastforce
  moreover have "sorted_wrt (<) (map fst (concat (map (\<lambda>(k, t). entries t) kids)))"
    using Cons.IH Cons.prems(1) s(2) by (metis list.set_intros(2))
  ultimately show ?case
    using kt by (fastforce simp: sorted_wrt_append)
qed simp

lemma tree_ok_sorted: "tree_ok lo hi t \<Longrightarrow> sorted_wrt (<) (map fst (entries t))"
proof (induction t arbitrary: lo hi rule: tree_induct)
  case (Node pid kids)
  then show ?case
    using span_sorted [of kids hi] by auto
qed simp

section \<open>Representation in pages\<close>

text \<open>The item of an entry in its leaf.\<close>

fun entry_item :: "entry \<Rightarrow> bytes" where
  "entry_item (k, d, ps) =
     (if length d \<le> MAX_INLINE then to_le_bytes k @ [FLAG_INLINE] @ d
      else to_le_bytes k @ [FLAG_OVERFLOW] @ to_le_bytes (word_of_nat (length d) :: u32) @ to_le_bytes (hd ps))"

lemma item_key_entry [simp]: "item_key (entry_item e) = fst e"
  by (cases e) simp

lemma length_entry_item: "length (entry_item e) \<le> LEAF_HEADER + MAX_INLINE"
  by (cases e) (simp add: layout)

text \<open>An overflow chain: its pages in order, linked, with their parts of the payload.\<close>

fun chain :: "(page_id \<Rightarrow> bytes option) \<Rightarrow> page_id list \<Rightarrow> bytes \<Rightarrow> bool" where
  "chain v [] d \<longleftrightarrow> d = []"
| "chain v (pid # ps) d \<longleftrightarrow> pid \<noteq> NO_PAGE \<and>
     (\<exists>c chunk d'. v pid = Some c \<and> length c = PAGE_SIZE - 12 \<and> d = chunk @ d' \<and>
        overflow_part (page_of c) = Inr (chunk, hd (ps @ [NO_PAGE])) \<and> chain v ps d')"

fun entry_in :: "(page_id \<Rightarrow> bytes option) \<Rightarrow> entry \<Rightarrow> bool" where
  "entry_in v (k, d, ps) \<longleftrightarrow> length d < 2 ^ 32 \<and>
     (if length d \<le> MAX_INLINE then ps = [] else ps \<noteq> [] \<and> chain v ps d)"

definition kid_ids :: "(u64 \<times> tree) list \<Rightarrow> (u64 \<times> page_id) list" where
  "kid_ids kids = map (\<lambda>(k, t). (k, root t)) kids"

definition kids_at :: "(page_id \<Rightarrow> bytes option) \<Rightarrow> page_id \<Rightarrow> (u64 \<times> page_id) list \<Rightarrow> bool" where
  "kids_at v pid kids \<longleftrightarrow> 2 \<le> length kids \<and> node_at v pid PK_Internal (kid_items kids) (snd (hd kids))"

fun tree_in :: "(page_id \<Rightarrow> bytes option) \<Rightarrow> tree \<Rightarrow> bool" where
  "tree_in v (Leaf pid es) \<longleftrightarrow>
     (\<exists>x. node_at v pid PK_Leaf (map entry_item es) x) \<and> (\<forall>e\<in>set es. entry_in v e)"
| "tree_in v (Node pid kids) \<longleftrightarrow> kids_at v pid (kid_ids kids) \<and> (\<forall>(k, t)\<in>set kids. tree_in v t)"

text \<open>The leaves are linked from left to right.\<close>

definition extra_at :: "(page_id \<Rightarrow> bytes option) \<Rightarrow> page_id \<Rightarrow> u32" where
  "extra_at v pid = (case v pid of None \<Rightarrow> 0 | Some c \<Rightarrow> extra (page_of c))"

fun links :: "(page_id \<Rightarrow> bytes option) \<Rightarrow> page_id list \<Rightarrow> page_id \<Rightarrow> bool" where
  "links v [] end \<longleftrightarrow> True"
| "links v (pid # ps) end \<longleftrightarrow> extra_at v pid = hd (ps @ [end]) \<and> links v ps end"

lemma links_append: "links v (xs @ ys) end \<longleftrightarrow> links v xs (hd (ys @ [end])) \<and> links v ys end"
proof (induction xs)
  case (Cons x xs)
  then show ?case
    by (cases xs) auto
qed simp

definition btree :: "pager \<Rightarrow> page_id set \<Rightarrow> tree \<Rightarrow> bool" where
  "btree s U t \<longleftrightarrow> owns s U \<and> tree_in (view s) t \<and> links (view s) (leaf_ids t) NO_PAGE \<and>
     tree_ok 0 KEY_LIMIT t \<and> (\<exists>h. balanced h t) \<and> distinct (pages t) \<and> set (pages t) \<subseteq> U"

subsection \<open>A tree depends on its own pages only\<close>

lemma chain_cong: "\<forall>pid\<in>set ps. v' pid = v pid \<Longrightarrow> chain v' ps d = chain v ps d"
  by (induction ps arbitrary: d) auto

lemma entry_in_cong: "\<forall>pid\<in>set (snd (snd e)). v' pid = v pid \<Longrightarrow> entry_in v' e = entry_in v e"
  using chain_cong [of "snd (snd e)" v' v "fst (snd e)"] by (cases e) auto

lemma entries_in_cong:
  "\<forall>pid\<in>set (chain_ids es). v' pid = v pid \<Longrightarrow> (\<forall>e\<in>set es. entry_in v' e) = (\<forall>e\<in>set es. entry_in v e)"
  by (intro ball_cong refl entry_in_cong) (auto simp: chain_ids_def)

lemma kids_at_cong: "v' pid = v pid \<Longrightarrow> kids_at v' pid kids = kids_at v pid kids"
  using node_at_cong [of v' pid v] by (simp add: kids_at_def)

lemma tree_in_cong: "\<forall>pid\<in>set (pages t). v' pid = v pid \<Longrightarrow> tree_in v' t = tree_in v t"
proof (induction t rule: tree_induct)
  case (Leaf pid es)
  then show ?case
    using entries_in_cong [of es v' v] node_at_cong [of v' pid v] by simp
next
  case (Node pid kids)
  have "tree_in v' t = tree_in v t" if "(k, t) \<in> set kids" for k t
    using Node.IH [OF that] Node.prems that by auto
  then show ?case
    using Node.prems kids_at_cong [of v' pid v] by auto
qed

lemma links_cong: "\<forall>pid\<in>set ps. v' pid = v pid \<Longrightarrow> links v' ps end = links v ps end"
  by (induction ps) (auto simp: extra_at_def)

lemma leaf_ids_pages: "set (leaf_ids t) \<subseteq> set (pages t)"
  by (induction t rule: tree_induct) fastforce+

lemma leaf_ids_not_Nil: "tree_in v t \<Longrightarrow> leaf_ids t \<noteq> []"
proof (induction t rule: tree_induct)
  case (Node pid kids)
  then show ?case
    by (cases kids) (auto simp: kids_at_def kid_ids_def)
qed simp

lemma root_pages: "root t \<in> set (pages t)"
  by (cases t) auto

section \<open>Contexts\<close>

text \<open>A node with a hole for one child: the children in front of it, its smallest key, those behind.\<close>

type_synonym frame = "page_id \<times> (u64 \<times> tree) list \<times> u64 \<times> (u64 \<times> tree) list"

fun plug :: "tree \<Rightarrow> frame list \<Rightarrow> tree" where
  "plug t [] = t"
| "plug t ((pid, xs, b, ys) # ctx) = plug (Node pid (xs @ (b, t) # ys)) ctx"

definition path_of :: "frame list \<Rightarrow> page_id list" where
  "path_of ctx = map fst ctx"

fun entries_left :: "frame list \<Rightarrow> entry list" where
  "entries_left [] = []"
| "entries_left ((pid, xs, b, ys) # ctx) = entries_left ctx @ concat (map (\<lambda>(k, t). entries t) xs)"

fun entries_right :: "frame list \<Rightarrow> entry list" where
  "entries_right [] = []"
| "entries_right ((pid, xs, b, ys) # ctx) = concat (map (\<lambda>(k, t). entries t) ys) @ entries_right ctx"

lemma entries_plug: "entries (plug t ctx) = entries_left ctx @ entries t @ entries_right ctx"
  by (induction t ctx rule: plug.induct) simp_all

fun ids_left :: "frame list \<Rightarrow> page_id list" where
  "ids_left [] = []"
| "ids_left ((pid, xs, b, ys) # ctx) = ids_left ctx @ concat (map (\<lambda>(k, t). leaf_ids t) xs)"

fun ids_right :: "frame list \<Rightarrow> page_id list" where
  "ids_right [] = []"
| "ids_right ((pid, xs, b, ys) # ctx) = concat (map (\<lambda>(k, t). leaf_ids t) ys) @ ids_right ctx"

lemma leaf_ids_plug: "leaf_ids (plug t ctx) = ids_left ctx @ leaf_ids t @ ids_right ctx"
  by (induction t ctx rule: plug.induct) simp_all

fun ctx_pages :: "frame list \<Rightarrow> page_id list" where
  "ctx_pages [] = []"
| "ctx_pages ((pid, xs, b, ys) # ctx) = pid # concat (map (\<lambda>(k, t). pages t) (xs @ ys)) @ ctx_pages ctx"

lemma mset_pages_plug: "mset (pages (plug t ctx)) = mset (pages t @ ctx_pages ctx)"
  by (induction t ctx rule: plug.induct) simp_all

lemma set_pages_plug: "set (pages (plug t ctx)) = set (pages t) \<union> set (ctx_pages ctx)"
  using mset_eq_setD [OF mset_pages_plug] by simp

lemma distinct_pages_plug: "distinct (pages (plug t ctx)) \<longleftrightarrow> distinct (pages t @ ctx_pages ctx)"
  by (rule mset_eq_imp_distinct_iff [OF mset_pages_plug])

fun ctx_in :: "(page_id \<Rightarrow> bytes option) \<Rightarrow> page_id \<Rightarrow> frame list \<Rightarrow> bool" where
  "ctx_in v r [] \<longleftrightarrow> True"
| "ctx_in v r ((pid, xs, b, ys) # ctx) \<longleftrightarrow>
     kids_at v pid (kid_ids xs @ (b, r) # kid_ids ys) \<and> (\<forall>(k, t)\<in>set (xs @ ys). tree_in v t) \<and>
     ctx_in v pid ctx"

lemma kid_ids_simps [simp]:
  "kid_ids [] = []" "kid_ids ((k, t) # kids) = (k, root t) # kid_ids kids"
  "kid_ids (xs @ ys) = kid_ids xs @ kid_ids ys" "length (kid_ids kids) = length kids"
  by (simp_all add: kid_ids_def)

lemma map_fst_kid_ids: "map fst (kid_ids kids) = map fst kids"
  by (simp add: kid_ids_def case_prod_beta comp_def)

lemma tree_in_plug: "tree_in v (plug t ctx) \<longleftrightarrow> tree_in v t \<and> ctx_in v (root t) ctx"
  by (induction t ctx rule: plug.induct) auto

lemma ctx_in_cong: "\<forall>pid\<in>set (ctx_pages ctx). v' pid = v pid \<Longrightarrow> ctx_in v' r ctx = ctx_in v r ctx"
proof (induction ctx arbitrary: r)
  case (Cons f ctx)
  obtain pid xs b ys where f: "f = (pid, xs, b, ys)"
    by (cases f) auto
  have "tree_in v' t = tree_in v t" if "(k, t) \<in> set (xs @ ys)" for k t
    using Cons.prems that f by (intro tree_in_cong) fastforce
  then have "(\<forall>(k, t)\<in>set (xs @ ys). tree_in v' t) = (\<forall>(k, t)\<in>set (xs @ ys). tree_in v t)"
    by (intro ball_cong refl) auto
  then show ?case
    using Cons f kids_at_cong [of v' pid v] by simp
qed simp

text \<open>The bounds of the hole.\<close>

fun ctx_ok :: "u64 \<Rightarrow> nat \<Rightarrow> frame list \<Rightarrow> bool" where
  "ctx_ok lo hi [] \<longleftrightarrow> lo = 0 \<and> hi = KEY_LIMIT"
| "ctx_ok lo hi ((pid, xs, b, ys) # ctx) \<longleftrightarrow> lo = b \<and>
     (\<exists>LO HI. ctx_ok LO HI ctx \<and> LO = fst (hd (xs @ [(b, Leaf 0 [])])) \<and> hi = next_key HI ys \<and>
        span (unat b) xs \<and> span HI ys \<and> unat b < hi)"

lemma tree_ok_plug:
  "tree_ok 0 KEY_LIMIT (plug t ctx) \<longleftrightarrow> (\<exists>lo hi. ctx_ok lo hi ctx \<and> tree_ok lo hi t)"
proof (induction t ctx rule: plug.induct)
  case (2 t pid xs b ys ctx)
  have "tree_ok LO HI (Node pid (xs @ (b, t) # ys)) \<longleftrightarrow>
      LO = fst (hd (xs @ [(b, Leaf 0 [])])) \<and> span (unat b) xs \<and> span HI ys \<and> unat b < next_key HI ys \<and>
      tree_ok b (next_key HI ys) t" for LO HI
    by (cases xs) (auto simp: span_append)
  then show ?case
    using 2 by auto
qed simp

fun ctx_balanced :: "nat \<Rightarrow> frame list \<Rightarrow> bool" where
  "ctx_balanced h [] \<longleftrightarrow> True"
| "ctx_balanced h ((pid, xs, b, ys) # ctx) \<longleftrightarrow>
     (\<forall>(k, t)\<in>set (xs @ ys). balanced h t) \<and> ctx_balanced (Suc h) ctx"

lemma balanced_plug:
  "(\<exists>H. balanced H (plug t ctx)) \<longleftrightarrow> (\<exists>h. balanced h t \<and> ctx_balanced h ctx)"
proof (induction t ctx rule: plug.induct)
  case (2 t pid xs b ys ctx)
  show ?case
    unfolding plug.simps 2 by auto
qed simp

end
