(* ===== verification/Btree_Read.thy ===== *)
theory Btree_Read
  imports Btree_Tree
begin

text \<open>
  Reading a B+-tree: descent to the leaf of a key, overflow chains, lookup and seek, each with the
  value the abstract tree gives, within the bound on the depth and without a change clients can see.
\<close>

section \<open>Size and height\<close>

lemma distinct_u32_length:
  assumes "distinct (xs :: u32 list)"
  shows "length xs \<le> 2 ^ 32"
proof -
  have "card (set xs) \<le> card (UNIV :: u32 set)"
    by (rule card_mono) simp_all
  then show ?thesis
    using assms by (simp add: distinct_card card_word)
qed

lemma length_leaf_ids: "length (leaf_ids t) \<le> length (pages t)"
proof (induction t rule: tree_induct)
  case (Node pid kids)
  have "sum_list (map (\<lambda>(k, t). length (leaf_ids t)) kids) \<le> sum_list (map (\<lambda>(k, t). length (pages t)) kids)"
    using Node.IH by (intro sum_list_mono) auto
  then show ?case
    by (simp add: length_concat comp_def case_prod_unfold)
qed simp

lemma leaves_of_height: "balanced h t \<Longrightarrow> tree_in v t \<Longrightarrow> 2 ^ h \<le> length (leaf_ids t)"
proof (induction t arbitrary: h rule: tree_induct)
  case (Node pid kids)
  obtain h' where h: "h = Suc h'" "\<forall>(k, t)\<in>set kids. balanced h' t"
    using Node.prems(1) by auto
  have kid: "2 ^ h' \<le> length (leaf_ids t)" if "(k, t) \<in> set kids" for k t
    by (rule Node.IH [OF that]) (use h(2) Node.prems(2) that in auto)
  obtain k1 t1 k2 t2 kids' where kids: "kids = (k1, t1) # (k2, t2) # kids'"
    using Node.prems(2) by (cases kids; cases "tl kids") (auto simp: kids_at_def)
  have "2 ^ h' \<le> length (leaf_ids t1)" "2 ^ h' \<le> length (leaf_ids t2)"
    using kid [of k1 t1] kid [of k2 t2] kids by auto
  then show ?case
    using kids h(1) by simp
qed simp

text \<open>Every page id occurs once, so that the depth stays far below the 64 levels of \<open>descend\<close>.\<close>

lemma height_bound:
  assumes "balanced h t" and "tree_in v t" and "distinct (pages t)"
  shows "h \<le> 32"
proof -
  have "(2 :: nat) ^ h \<le> 2 ^ 32"
    using leaves_of_height [OF assms(1,2)] length_leaf_ids [of t] distinct_u32_length [OF assms(3)] by linarith
  then show ?thesis
    by (simp only: power_increasing_iff)
qed

section \<open>Descent\<close>

lemma split_kids:
  fixes key :: u64
  assumes "kids \<noteq> []" and "fst (hd kids) \<le> key" and "sorted_wrt (<) (map fst kids)"
  shows "\<exists>xs b t ys. kids = xs @ (b, t) # ys \<and> b \<le> key \<and> (\<forall>(k, _)\<in>set ys. key < k)"
  using assms
proof (induction kids rule: rev_induct)
  case (snoc kt kids)
  obtain k t where kt: "kt = (k, t)"
    by fastforce
  show ?case
  proof (cases "k \<le> key")
    case True
    then show ?thesis
      using kt by fastforce
  next
    case False
    have ne: "kids \<noteq> []"
      using snoc.prems(2) False kt by (cases kids) auto
    have "fst (hd kids) \<le> key" "sorted_wrt (<) (map fst kids)"
      using snoc.prems(2,3) ne by (simp_all add: sorted_wrt_append)
    then obtain xs b u ys where "kids = xs @ (b, u) # ys" "b \<le> key" "\<forall>(k, _)\<in>set ys. key < k"
      using snoc.IH [OF ne] by blast
    then have "kids @ [kt] = xs @ (b, u) # (ys @ [kt]) \<and> b \<le> key \<and> (\<forall>(k, _)\<in>set (ys @ [kt]). key < k)"
      using False kt by (auto simp: not_le)
    then show ?thesis
      by blast
  qed
qed simp

lemma next_key_above: "\<forall>(k, _)\<in>set ys. key < k \<Longrightarrow> unat key < hi \<Longrightarrow> unat key < next_key hi ys"
  by (cases ys) (auto simp: word_less_nat_alt)

lemma descend_from_spec:
  assumes "pager_inv s" and "tree_in (view s) (plug t ctx)" and "ctx_ok lo hi ctx" and "tree_ok lo hi t"
    and "lo \<le> key" and "unat key < hi" and "balanced h t" and "h < n"
  shows "\<exists>s' pid es ctx' lo' hi'.
    descend_from n (root t) key (rev (path_of ctx)) s = (Inr (pid, rev (path_of ctx')), s') \<and> unseen s s' \<and>
    plug (Leaf pid es) ctx' = plug t ctx \<and> ctx_ok lo' hi' ctx' \<and> tree_ok lo' hi' (Leaf pid es) \<and>
    lo' \<le> key \<and> unat key < hi'"
  using assms
proof (induction n arbitrary: s t ctx lo hi h)
  case (Suc n)
  have tin: "tree_in (view s) t"
    using Suc.prems(2) by (simp add: tree_in_plug)
  show ?case
  proof (cases t)
    case (Leaf pid es)
    obtain x where nd: "node_at (view s) pid PK_Leaf (map entry_item es) x"
      using tin Leaf by auto
    obtain s' p where s': "with_page pid (descend_step key) s = (descend_step key p, s')" "unseen s s'"
      and p: "node_page p PK_Leaf (map entry_item es) x"
      by (rule with_node [OF Suc.prems(1) nd])
    have "descend_step key p = Inr None"
      using p by (simp add: descend_step_def node_page_def)
    then show ?thesis
      using s' Leaf Suc.prems by (intro exI [of _ s'] exI [of _ pid] exI [of _ es] exI [of _ ctx]) (auto simp: bind_op_def)
  next
    case (Node pid kids)
    have k: "kids \<noteq> []" "fst (hd kids) = lo" "span hi kids" "kids_at (view s) pid (kid_ids kids)"
      using Suc.prems(4) tin Node by auto
    obtain xs b c ys where split: "kids = xs @ (b, c) # ys" and b: "b \<le> key" and ys: "\<forall>(k, _)\<in>set ys. key < k"
      using split_kids [OF k(1)] k(2) Suc.prems(5) span_keys [OF k(3)] by metis
    obtain s1 p where s1: "with_page pid (descend_step key) s = (descend_step key p, s1)" "unseen s s1"
      and p: "node_page p PK_Internal (kid_items (kid_ids kids)) (snd (hd (kid_ids kids)))"
      using with_node [OF Suc.prems(1)] k(4) unfolding kids_at_def by metis
    have "child_for p key = Inr (root c)"
    proof (rule child_for_spec)
      show "node_page p PK_Internal (kid_items (kid_ids xs @ (b, root c) # kid_ids ys)) (snd (hd (kid_ids kids)))"
        using p split by simp
      show "snd (hd (kid_ids kids)) = snd (hd (kid_ids xs @ [(b, root c)]))"
        using split by (cases xs) (auto simp: kid_ids_def)
      show "sorted_wrt (<) (map fst (kid_ids xs @ (b, root c) # kid_ids ys))"
        using span_keys [OF k(3)] split by (simp add: map_fst_kid_ids)
      show "\<forall>(k, _)\<in>set (kid_ids ys). key < k"
        using ys by (auto simp: kid_ids_def)
    qed (rule b)
    then have step: "descend_step key p = Inr (Some (root c))"
      using p by (simp add: descend_step_def node_page_def)
    let ?ctx = "(pid, xs, b, ys) # ctx"
    have plug: "plug c ?ctx = plug t ctx"
      using Node split by simp
    have sp: "span (unat b) xs" "unat b < next_key hi ys" "tree_ok b (next_key hi ys) c" "span hi ys"
      using k(3) unfolding split span_append by auto
    have ctx: "ctx_ok b (next_key hi ys) ?ctx"
      using Suc.prems(3) k(2) split sp by (cases xs) auto
    obtain h' where h': "balanced h' c" "h' < n"
      using Suc.prems(7,8) Node split by auto
    have "pager_inv s1" "tree_in (view s1) (plug c ?ctx)"
      using s1(2) Suc.prems(2) plug by (simp_all add: unseen_def)
    from Suc.IH [OF this ctx sp(3) b next_key_above [OF ys Suc.prems(6)] h']
    obtain s' pid' es ctx' lo' hi' where
      "descend_from n (root c) key (rev (path_of ?ctx)) s1 = (Inr (pid', rev (path_of ctx')), s')"
      "unseen s1 s'" "plug (Leaf pid' es) ctx' = plug c ?ctx" "ctx_ok lo' hi' ctx'"
      "tree_ok lo' hi' (Leaf pid' es)" "lo' \<le> key" "unat key < hi'"
      by blast
    then show ?thesis
      using s1 step unseen_trans [OF s1(2)] plug Node
      by (intro exI [of _ s'] exI [of _ pid'] exI [of _ es] exI [of _ ctx']) (auto simp: bind_op_def path_of_def)
  qed
qed simp

lemma descend_spec:
  assumes "btree s U t"
  obtains s' pid es ctx lo hi where "descend (root t) key s = (Inr (pid, rev (path_of ctx)), s')"
    and "unseen s s'" and "t = plug (Leaf pid es) ctx" and "ctx_ok lo hi ctx"
    and "tree_ok lo hi (Leaf pid es)" and "lo \<le> key" and "unat key < hi"
proof -
  have t: "pager_inv s" "tree_in (view s) t" "tree_ok 0 KEY_LIMIT t" "distinct (pages t)"
    using assms by (auto simp: btree_def owns_def)
  obtain h where h: "balanced h t"
    using assms by (auto simp: btree_def)
  have "unat key < KEY_LIMIT"
    using unsigned_less [of key] by (simp add: KEY_LIMIT_def)
  then show ?thesis
    using descend_from_spec [of s t "[]" 0 KEY_LIMIT key h 64] t h height_bound [OF h t(2,4)] that
    by (auto simp: path_of_def descend_def)
qed

section \<open>Overflow chains\<close>

lemma overflow_part_content:
  assumes "length p = PAGE_SIZE"
  shows "overflow_part (page_of (content p)) = overflow_part p"
  unfolding overflow_part_def page_of_content(1-3) [OF assms] ..

lemma read_chain_spec:
  assumes "pager_inv s" and "chain (view s) ps d" and "length ps \<le> fuel"
  shows "\<exists>s'. read_chain fuel (hd (ps @ [NO_PAGE])) out s = (Inr (out @ d), s') \<and> unseen s s'"
  using assms
proof (induction ps arbitrary: fuel out d s)
  case Nil
  then show ?case
    by (simp add: read_chain.simps unseen_refl)
next
  case (Cons pid ps)
  obtain c chunk d' where c: "view s pid = Some c" "d = chunk @ d'" "pid \<noteq> NO_PAGE"
    "overflow_part (page_of c) = Inr (chunk, hd (ps @ [NO_PAGE]))" "chain (view s) ps d'"
    using Cons.prems(2) by auto
  obtain s1 p where s1: "with_page pid overflow_part s = (overflow_part p, s1)" "unseen s s1"
    "content p = c" "page_ok p"
    by (rule with_page_present [OF Cons.prems(1) c(1)])
  have part: "overflow_part p = Inr (chunk, hd (ps @ [NO_PAGE]))"
    using overflow_part_content [OF page_ok_length [OF s1(4)]] s1(3) c(4) by simp
  obtain s' where "read_chain (fuel - 1) (hd (ps @ [NO_PAGE])) (out @ chunk) s1 = (Inr ((out @ chunk) @ d'), s')"
    "unseen s1 s'"
    using Cons.IH [of s1 d' "fuel - 1" "out @ chunk"] s1(2) c(5) Cons.prems(3) by (fastforce simp: unseen_def)
  then show ?case
    using s1(1) part c(2,3) unseen_trans [OF s1(2)] Cons.prems(3)
    by (auto simp: read_chain.simps [of fuel pid] bind_op_def)
qed

lemma entry_item_fields:
  assumes "MAX_INLINE < length d"
  shows "entry_item (k, d, ps) ! KEY_LEN = FLAG_OVERFLOW"
    and "length (entry_item (k, d, ps)) = OVERFLOW_DESCRIPTOR"
    and "le_u32 (entry_item (k, d, ps)) LEAF_HEADER = Inr (word_of_nat (length d))"
    and "le_u32 (entry_item (k, d, ps)) (LEAF_HEADER + 4) = Inr (hd ps)"
    and "le_u32 (entry_item (k, d, ps)) (KEY_LEN + 5) = Inr (hd ps)"
  using assms by (simp_all add: le_u32_def le_field_def nth_append layout)

lemma payload_of_spec:
  assumes "pager_inv s" and "entry_in (view s) (k, d, ps)" and "distinct ps"
  shows "\<exists>s'. payload_of (entry_item (k, d, ps)) s = (Inr d, s') \<and> unseen s s'"
proof (cases "length d \<le> MAX_INLINE")
  case True
  then show ?thesis
    using unseen_refl [OF assms(1)] by (simp add: payload_of_def nth_append layout)
next
  case False
  have e: "ps \<noteq> []" "chain (view s) ps d" "length d < 2 ^ 32"
    using assms(2) False by auto
  have hd: "hd (ps @ [NO_PAGE]) = hd ps"
    using e(1) by simp
  have "length ps \<le> PAGE_IDS"
    using distinct_u32_length [OF assms(3)] by (simp add: PAGE_IDS_def)
  then obtain s' where s': "read_chain PAGE_IDS (hd ps) [] s = (Inr d, s')" "unseen s s'"
    using read_chain_spec [OF assms(1) e(2), of PAGE_IDS "[]"] hd by auto
  have "unat (word_of_nat (length d) :: u32) = length d"
    using e(3) by (simp add: unat_of_nat)
  then have "read_overflow (hd ps) (unat (word_of_nat (length d) :: u32)) s = (Inr d, s')"
    using s'(1) by (simp add: read_overflow_def bind_op_def)
  then have "payload_of (entry_item (k, d, ps)) s = (Inr d, s')"
    unfolding payload_of_def using False entry_item_fields [of d k ps]
    by (simp del: entry_item.simps add: layout)
  then show ?thesis
    using s'(2) by blast
qed

section \<open>Lookup\<close>

text \<open>The two outcomes of a search among the entries of a leaf.\<close>

lemma slot_of_entries:
  assumes "sorted_wrt (<) (map fst es)"
  obtains (found) xs e ys where "es = xs @ e # ys" and "fst e = key"
      and "slot_of key (map entry_item es) = Inr (length xs)"
    | (absent) xs ys where "es = xs @ ys" and "\<forall>e\<in>set xs. fst e < key" and "\<forall>e\<in>set ys. key < fst e"
      and "slot_of key (map entry_item es) = Inl (length xs)"
proof -
  define xs where "xs = takeWhile (\<lambda>e. fst e < key) es"
  define ys where "ys = dropWhile (\<lambda>e. fst e < key) es"
  have xs: "\<forall>e\<in>set xs. fst e < key"
    unfolding xs_def using set_takeWhileD by fastforce
  have es: "es = xs @ ys"
    by (simp add: xs_def ys_def)
  have srt: "sorted_wrt (<) (map fst ys)"
    using assms es by (simp add: sorted_wrt_append)
  have xs': "\<forall>it\<in>set (map entry_item xs). item_key it < key"
    using xs by auto
  show ?thesis
  proof (cases ys)
    case Nil
    have "slot_of key (map entry_item es) = Inl (length xs)"
      using slot_of_absent [of "map entry_item xs" key "[]"] xs' Nil es by simp
    then show ?thesis
      using absent [OF es] xs Nil by simp
  next
    case (Cons e zs)
    then have ge: "\<not> fst e < key"
      using ys_def by (metis dropWhile_eq_Cons_conv)
    have gt: "\<forall>e'\<in>set zs. fst e < fst e'"
      using srt Cons by auto
    show ?thesis
    proof (cases "fst e = key")
      case True
      then have "slot_of key (map entry_item es) = Inr (length xs)"
        using slot_of_found [of "map entry_item xs" "entry_item e" "map entry_item zs"] xs' es Cons by simp
      then show ?thesis
        using found [of xs e zs] True Cons es by simp
    next
      case False
      then have "key < fst e"
        using ge by simp
      then have "\<forall>e'\<in>set ys. key < fst e'"
        using gt Cons by (auto intro: less_trans)
      moreover from this have "slot_of key (map entry_item es) = Inl (length xs)"
        using slot_of_absent [of "map entry_item xs" key "map entry_item ys"] xs' es by auto
      ultimately show ?thesis
        using absent [OF es xs] by blast
    qed
  qed
qed

lemma sorted_entry_items: "sorted_items (map entry_item es) \<longleftrightarrow> sorted_wrt (<) (map fst es)"
  by (simp add: sorted_items_def comp_def)

lemma ctx_ok_outside:
  assumes "ctx_ok lo hi ctx"
  shows "unat lo < hi \<and> (\<forall>e\<in>set (entries_left ctx). fst e < lo) \<and>
    (\<forall>e\<in>set (entries_right ctx). hi \<le> unat (fst e))"
  using assms
proof (induction ctx arbitrary: lo hi)
  case (Cons f ctx)
  obtain pid xs b ys where f: "f = (pid, xs, b, ys)"
    by (cases f) auto
  obtain LO HI where c: "ctx_ok LO HI ctx" "LO = fst (hd (xs @ [(b, Leaf 0 [])]))" "hi = next_key HI ys"
    "span (unat b) xs" "span HI ys" "unat b < hi" "lo = b"
    using Cons.prems f by auto
  note ih = Cons.IH [OF c(1)]
  have xs: "tree_ok LO (unat b) (Node pid xs)" if "xs \<noteq> []"
    using that c by (cases xs) auto
  have ys: "tree_ok (fst (hd ys)) HI (Node pid ys)" if "ys \<noteq> []"
    using that c by (cases ys) auto
  have "fst e < lo" if "e \<in> set (entries (Node pid xs))" for e
    using tree_ok_range [OF xs, of "fst e" "snd e"] that c(7) by (cases xs) (auto simp: word_less_nat_alt)
  moreover have "LO \<le> lo"
    using c(2,7) span_keys [OF c(4)] by (cases xs) (auto simp: word_less_nat_alt word_le_nat_alt)
  ultimately have left: "\<forall>e\<in>set (entries_left (f # ctx)). fst e < lo"
    using ih f by (auto simp del: set_concat intro: less_le_trans)
  have "hi \<le> unat (fst e)" if "e \<in> set (entries (Node pid ys))" for e
    using tree_ok_range [OF ys, of "fst e" "snd e"] that c(3) by (cases ys) (auto simp: word_le_nat_alt)
  moreover have "hi \<le> HI"
    using c(3) span_keys [OF c(5)] by (cases ys) auto
  ultimately have "\<forall>e\<in>set (entries_right (f # ctx)). hi \<le> unat (fst e)"
    using ih f by (auto simp del: set_concat intro: order_trans)
  then show ?case
    using left c(6,7) by simp
qed (simp add: KEY_LIMIT_def)

text \<open>What a leaf of a represented tree gives.\<close>

definition leaf_in :: "(page_id \<Rightarrow> bytes option) \<Rightarrow> page_id \<Rightarrow> entry list \<Rightarrow> bool" where
  "leaf_in v pid es \<longleftrightarrow> (\<exists>x. node_at v pid PK_Leaf (map entry_item es) x) \<and> (\<forall>e\<in>set es. entry_in v e) \<and>
     sorted_wrt (<) (map fst es) \<and> distinct (chain_ids es)"

lemma leaf_in_node: "leaf_in v pid es \<Longrightarrow> node_at v pid PK_Leaf (map entry_item es) (extra_at v pid)"
  by (auto simp: leaf_in_def node_at_def node_page_def extra_at_def)

lemma btree_leaf:
  assumes "btree s U (plug (Leaf pid es) ctx)"
  shows "leaf_in (view s) pid es"
proof -
  have "sorted_wrt (<) (map fst es)"
    using assms by (auto simp: btree_def tree_ok_plug)
  then show ?thesis
    using assms by (simp add: btree_def leaf_in_def tree_in_plug distinct_pages_plug)
qed

lemma leaf_entry:
  assumes "leaf_in v pid es" and "(k, d, ps) \<in> set es"
  shows "entry_in v (k, d, ps)" and "distinct ps"
proof -
  show "entry_in v (k, d, ps)"
    using assms by (simp add: leaf_in_def del: entry_in.simps)
  have "ps \<in> set (map (\<lambda>(k, d, ps). ps) es)"
    using assms(2) by (force simp: image_iff)
  then show "distinct ps"
    using assms(1) by (auto simp: leaf_in_def chain_ids_def distinct_concat_iff)
qed

lemma contents_sorted: "tree_ok lo hi t \<Longrightarrow> sorted_wrt (<) (map fst (contents t))"
  using tree_ok_sorted [of lo hi t] by (simp add: contents_def case_prod_beta comp_def)

lemma sorted_distinct: "sorted_wrt (<) (ks :: u64 list) \<Longrightarrow> distinct ks"
  by (induction ks) auto

lemma contents_lookup:
  assumes "tree_ok lo hi t" and "(k, d, ps) \<in> set (entries t)"
  shows "map_of (contents t) k = Some d"
  using assms(2) sorted_distinct [OF contents_sorted [OF assms(1)]]
  by (intro map_of_is_SomeI) (auto simp: contents_def image_iff intro: rev_bexI)

lemma map_of_contents_None: "map_of (contents t) k = None \<longleftrightarrow> k \<notin> fst ` set (entries t)"
  by (force simp: contents_def map_of_eq_None_iff)

lemma not_outside:
  assumes "ctx_ok lo hi ctx" and "lo \<le> key" and "unat key < hi"
  shows "key \<notin> fst ` set (entries_left ctx)" and "key \<notin> fst ` set (entries_right ctx)"
  using ctx_ok_outside [OF assms(1)] assms(2,3) by (auto simp: word_le_nat_alt word_less_nat_alt)

lemma find_in_leaf:
  assumes "pager_inv s" and "leaf_in (view s) pid es"
  obtains s' where "unseen s s'" and "with_page pid (find_item key) s =
    (Inr (case slot_of key (map entry_item es) of Inr i \<Rightarrow> Some (i, map entry_item es ! i) | Inl _ \<Rightarrow> None), s')"
proof -
  obtain s' p where "with_page pid (find_item key) s = (find_item key p, s')" "unseen s s'"
    and p: "node_page p PK_Leaf (map entry_item es) (extra_at (view s) pid)"
    by (rule with_node [OF assms(1) leaf_in_node [OF assms(2)]])
  moreover have "sorted_items (map entry_item es)"
    using assms(2) by (simp add: leaf_in_def sorted_entry_items)
  ultimately show ?thesis
    using that find_item_spec [OF p] by simp
qed

lemma lookup_correct:
  assumes "btree s U t"
  shows "\<exists>s'. lookup (root t) key s = (Inr (map_of (contents t) key), s') \<and> unseen s s'"
proof -
  obtain s1 pid es ctx lo hi where d: "descend (root t) key s = (Inr (pid, rev (path_of ctx)), s1)" "unseen s s1"
    and t: "t = plug (Leaf pid es) ctx" "ctx_ok lo hi ctx" "lo \<le> key" "unat key < hi"
    by (rule descend_spec [OF assms])
  have ok: "tree_ok 0 KEY_LIMIT t"
    using assms by (simp add: btree_def)
  have leaf: "leaf_in (view s1) pid es" and inv1: "pager_inv s1"
    using btree_leaf [of s U pid es ctx] assms t(1) d(2) by (simp_all add: unseen_def)
  obtain s2 where s2: "unseen s1 s2" "with_page pid (find_item key) s1 =
    (Inr (case slot_of key (map entry_item es) of Inr i \<Rightarrow> Some (i, map entry_item es ! i) | Inl _ \<Rightarrow> None), s2)"
    by (rule find_in_leaf [OF inv1 leaf])
  have srt: "sorted_wrt (<) (map fst es)"
    using leaf by (simp add: leaf_in_def)
  from srt show ?thesis
  proof (cases rule: slot_of_entries [where key = key])
    case (found xs e ys)
    obtain d' ps where e: "e = (key, d', ps)"
      using found(2) by (cases e) auto
    have in_es: "(key, d', ps) \<in> set es"
      using found(1) e by simp
    have "pager_inv s2" "entry_in (view s2) (key, d', ps)" "distinct ps"
      using s2(1) leaf_entry [OF leaf in_es] by (simp_all add: unseen_def)
    then obtain s3 where s3: "payload_of (entry_item (key, d', ps)) s2 = (Inr d', s3)" "unseen s2 s3"
      using payload_of_spec by blast
    have "map_of (contents t) key = Some d'"
      by (rule contents_lookup [OF ok, of _ _ ps]) (use in_es t(1) in \<open>simp add: entries_plug\<close>)
    moreover have "map entry_item es ! length xs = entry_item (key, d', ps)"
      using found(1) e by (simp add: nth_append del: entry_item.simps)
    ultimately have "lookup (root t) key s = (Inr (map_of (contents t) key), s3)"
      using d(1) s2(2) s3(1) found(3) by (simp add: lookup_def bind_op_def del: entry_item.simps)
    then show ?thesis
      using unseen_trans [OF d(2) unseen_trans [OF s2(1) s3(2)]] by blast
  next
    case (absent xs ys)
    have "key \<notin> fst ` set es"
      using absent(1-3) by auto
    then have "map_of (contents t) key = None"
      using not_outside [OF t(2-4)] by (simp add: map_of_contents_None t(1) entries_plug image_Un)
    then have "lookup (root t) key s = (Inr (map_of (contents t) key), s2)"
      using d(1) s2(2) absent(4) by (simp add: lookup_def bind_op_def)
    then show ?thesis
      using unseen_trans [OF d(2) s2(1)] by blast
  qed
qed

section \<open>Seek\<close>

fun leaves :: "tree \<Rightarrow> (page_id \<times> entry list) list" where
  "leaves (Leaf pid es) = [(pid, es)]"
| "leaves (Node pid kids) = concat (map (\<lambda>(k, t). leaves t) kids)"

lemma leaf_ids_leaves: "leaf_ids t = map fst (leaves t)"
  by (induction t rule: tree_induct) (auto simp: map_concat intro!: arg_cong [of _ _ concat])

lemma entries_leaves: "entries t = concat (map snd (leaves t))"
proof (induction t rule: tree_induct)
  case (Node pid kids)
  have "concat (map (\<lambda>(k, t). entries t) kids) = concat (map snd (concat (map (\<lambda>(k, t). leaves t) kids)))"
    using Node.IH
  proof (induction kids)
    case (Cons kt kids)
    obtain k t where kt: "kt = (k, t)"
      by fastforce
    have "entries t = concat (map snd (leaves t))"
      using Cons.prems [of k t] kt by simp
    moreover have "concat (map (\<lambda>(k, t). entries t) kids) = concat (map snd (concat (map (\<lambda>(k, t). leaves t) kids)))"
      using Cons.IH Cons.prems by (meson list.set_intros(2))
    ultimately show ?case
      using kt by simp
  qed simp
  then show ?case
    by simp
qed simp

lemma leaves_in:
  assumes "tree_in v t" and "tree_ok lo hi t" and "distinct (pages t)" and "(pid, es) \<in> set (leaves t)"
  shows "leaf_in v pid es"
  using assms
proof (induction t arbitrary: lo hi rule: tree_induct)
  case (Leaf pid' es')
  then show ?case
    by (simp add: leaf_in_def)
next
  case (Node pid' kids)
  obtain k t where t: "(k, t) \<in> set kids" "(pid, es) \<in> set (leaves t)"
    using Node.prems(4) by auto
  then obtain xs ys where split: "kids = xs @ (k, t) # ys"
    by (meson split_list)
  have "tree_ok k (next_key hi ys) t"
    using Node.prems(2) split by (simp add: span_append)
  moreover have "tree_in v t" "distinct (pages t)"
    using Node.prems(1,3) split by auto
  ultimately show ?case
    using Node.IH [OF t(1)] t(2) by blast
qed

definition first_at_least :: "u64 \<Rightarrow> (u64 \<times> bytes) list \<Rightarrow> (u64 \<times> bytes) option" where
  "first_at_least low kds = find (\<lambda>(k, d). low \<le> k) kds"

lemma first_at_least_skip:
  "\<forall>(k, d)\<in>set xs. k < low \<Longrightarrow> first_at_least low (xs @ ys) = first_at_least low ys"
  by (induction xs) (auto simp: first_at_least_def leD)

definition plain :: "entry list \<Rightarrow> (u64 \<times> bytes) list" where
  "plain es = map (\<lambda>(k, d, ps). (k, d)) es"

lemma plain_simps [simp]:
  "plain [] = []" "plain ((k, d, ps) # es) = (k, d) # plain es" "plain (xs @ ys) = plain xs @ plain ys"
  by (simp_all add: plain_def)

lemma set_plain: "\<forall>e\<in>set es. P (fst e) \<Longrightarrow> \<forall>(k, d)\<in>set (plain es). P k"
  by (auto simp: plain_def)

text \<open>Within one leaf: the entry that is found, or the fact that all its keys are smaller.\<close>

lemma first_from_spec:
  assumes p: "node_page p PK_Leaf (map entry_item es) x" and srt: "sorted_wrt (<) (map fst es)"
  obtains (hit) k d ps where "(k, d, ps) \<in> set es"
      and "first_from low p = Inr (Some (k, entry_item (k, d, ps)))"
      and "\<And>rest. first_at_least low (plain es @ rest) = Some (k, d)"
    | (none) "first_from low p = Inr None"
      and "\<And>rest. first_at_least low (plain es @ rest) = first_at_least low rest"
proof -
  have its: "page_items p = map entry_item es" "layout_ok p"
    using p by (simp_all add: node_page_def page_inv_def)
  then have cnt: "slot_count p = length es"
    by (metis length_map length_page_items)
  have search: "slot_search p low = Inr (slot_of low (map entry_item es))"
    using slot_search_spec [OF its(2)] its(1) srt by (simp add: sorted_entry_items)
  obtain xs ys where es: "es = xs @ ys" "\<forall>e\<in>set xs. fst e < low" "\<forall>e\<in>set ys. low \<le> fst e"
    and start: "(case slot_of low (map entry_item es) of Inr i \<Rightarrow> i | Inl i \<Rightarrow> i) = length xs"
    using srt
  proof (cases rule: slot_of_entries [where key = "low"])
    case (found xs e ys)
    then have "\<forall>e'\<in>set xs. fst e' < low" "\<forall>e'\<in>set (e # ys). low \<le> fst e'"
      using srt by (auto simp: sorted_wrt_append intro: less_imp_le)
    then show ?thesis
      using that [of xs "e # ys"] found by simp
  next
    case (absent xs ys)
    then show ?thesis
      using that [of xs ys] by (simp add: less_imp_le)
  qed
  have skip: "first_at_least low (plain es @ rest) = first_at_least low (plain ys @ rest)" for rest
    using first_at_least_skip [OF set_plain [of xs "\<lambda>k. k < low"]] es(1,2) by simp
  show ?thesis
  proof (cases ys)
    case Nil
    then show ?thesis
      using none skip search start cnt es(1) by (simp add: first_from_def)
  next
    case (Cons e zs)
    obtain k d ps where e: "e = (k, d, ps)"
      by (cases e) auto
    have "item p (length xs) = Inr (map entry_item es ! length xs)"
      using item_eq [OF its(2), of "length xs"] cnt es(1) Cons its(1) by (simp del: nth_page_items)
    then have "item p (length xs) = Inr (entry_item (k, d, ps))"
      using es(1) Cons e by (simp add: nth_append del: entry_item.simps)
    then have "first_from low p = Inr (Some (k, entry_item (k, d, ps)))"
      using search start cnt es(1) Cons by (simp add: first_from_def del: entry_item.simps)
    moreover have "first_at_least low (plain es @ rest) = Some (k, d)" for rest
      using skip es(3) Cons e by (simp add: first_at_least_def)
    ultimately show ?thesis
      using hit es(1) Cons e by (metis in_set_conv_decomp)
  qed
qed

lemma seek_leaf_spec:
  assumes "pager_inv s" and "ls \<noteq> []" and "\<forall>(pid, es)\<in>set ls. leaf_in (view s) pid es"
    and "links (view s) (map fst ls) NO_PAGE" and "NO_PAGE \<notin> set (map fst ls)" and "length ls \<le> fuel"
  shows "\<exists>s'. seek_leaf fuel (fst (hd ls)) low s =
      (Inr (first_at_least low (plain (concat (map snd ls)))), s') \<and> unseen s s'"
  using assms
proof (induction ls arbitrary: fuel s)
  case (Cons l ls)
  obtain pid es where l: "l = (pid, es)"
    by fastforce
  have leaf: "leaf_in (view s) pid es"
    using Cons.prems(3) l by auto
  note nd = leaf_in_node [OF leaf]
  have srt: "sorted_wrt (<) (map fst es)"
    using leaf by (simp add: leaf_in_def)
  obtain s1 p where s1: "with_page pid (first_from low) s = (first_from low p, s1)" "unseen s s1"
    and p: "node_page p PK_Leaf (map entry_item es) (extra_at (view s) pid)"
    by (rule with_node [OF Cons.prems(1) nd])
  have inv1: "pager_inv s1" "view s1 = view s"
    using s1(2) by (simp_all add: unseen_def)
  have fuel: "fuel \<noteq> 0"
    using Cons.prems(6) by auto
  from p srt show ?case
  proof (cases rule: first_from_spec [where low = low])
    case (hit k d ps)
    have "entry_in (view s1) (k, d, ps)" "distinct ps"
      using leaf_entry [OF leaf hit(1)] inv1(2) by simp_all
    then obtain s2 where "payload_of (entry_item (k, d, ps)) s1 = (Inr d, s2)" "unseen s1 s2"
      using payload_of_spec [OF inv1(1)] by blast
    then show ?thesis
      using s1(1) hit(2) hit(3) [of "plain (concat (map snd ls))"] fuel l unseen_trans [OF s1(2)]
      by (auto simp: seek_leaf.simps [of fuel] bind_op_def simp del: entry_item.simps)
  next
    case none
    obtain s2 p2 where s2: "with_page pid (\<lambda>p. Inr (extra p)) s1 = (Inr (extra p2), s2)" "unseen s1 s2"
      and p2: "node_page p2 PK_Leaf (map entry_item es) (extra_at (view s) pid)"
      by (rule with_node [OF inv1(1), of pid PK_Leaf "map entry_item es" "extra_at (view s) pid" "\<lambda>p. Inr (extra p)"])
        (use nd inv1(2) in auto)
    have next_id: "extra p2 = hd (map fst ls @ [NO_PAGE])"
      using p2 Cons.prems(4) l by (simp add: node_page_def)
    have us: "unseen s s2"
      by (rule unseen_trans [OF s1(2) s2(2)])
    show ?thesis
    proof (cases ls)
      case Nil
      then show ?thesis
        using s1(1) s2(1) none(1) none(2) [of "[]"] next_id fuel l us
        by (auto simp: seek_leaf.simps [of fuel] bind_op_def first_at_least_def)
    next
      case (Cons l' ls')
      have "\<exists>s'. seek_leaf (fuel - 1) (fst (hd ls)) low s2 =
          (Inr (first_at_least low (plain (concat (map snd ls)))), s') \<and> unseen s2 s'"
      proof (rule Cons.IH)
        show "pager_inv s2" "\<forall>(pid, es)\<in>set ls. leaf_in (view s2) pid es" "links (view s2) (map fst ls) NO_PAGE"
          using us Cons.prems(3,4) l by (auto simp: unseen_def)
      qed (use Cons.prems(5,6) Cons in auto)
      then obtain s' where "seek_leaf (fuel - 1) (fst (hd ls)) low s2 =
          (Inr (first_at_least low (plain (concat (map snd ls)))), s')" "unseen s2 s'"
        by blast
      moreover have "hd (map fst ls @ [NO_PAGE]) = fst (hd ls)" "fst (hd ls) \<noteq> NO_PAGE"
        using Cons Cons.prems(5) by auto
      ultimately show ?thesis
        using s1(1) s2(1) none(1) none(2) [of "plain (concat (map snd ls))"] next_id fuel l unseen_trans [OF us]
        by (auto simp: seek_leaf.simps [of fuel] bind_op_def)
    qed
  qed
qed simp

fun leaves_left :: "frame list \<Rightarrow> (page_id \<times> entry list) list" where
  "leaves_left [] = []"
| "leaves_left ((pid, xs, b, ys) # ctx) = leaves_left ctx @ concat (map (\<lambda>(k, t). leaves t) xs)"

fun leaves_right :: "frame list \<Rightarrow> (page_id \<times> entry list) list" where
  "leaves_right [] = []"
| "leaves_right ((pid, xs, b, ys) # ctx) = concat (map (\<lambda>(k, t). leaves t) ys) @ leaves_right ctx"

lemma leaves_plug: "leaves (plug t ctx) = leaves_left ctx @ leaves t @ leaves_right ctx"
  by (induction t ctx rule: plug.induct) simp_all

lemma entries_outside:
  "entries_left ctx = concat (map snd (leaves_left ctx))" "entries_right ctx = concat (map snd (leaves_right ctx))"
proof (induction ctx)
  case (Cons f ctx)
  obtain pid xs b ys where f: "f = (pid, xs, b, ys)"
    by (cases f) auto
  {
    case 1
    then show ?case
      using Cons f entries_leaves [of "Node pid xs"] by simp
  next
    case 2
    then show ?case
      using Cons f entries_leaves [of "Node pid ys"] by simp
  }
qed simp_all

lemma seek_correct:
  assumes "btree s U t"
  shows "\<exists>s'. seek (root t) low s = (Inr (first_at_least low (contents t)), s') \<and> unseen s s'"
proof -
  obtain s1 pid es ctx lo hi where d: "descend (root t) low s = (Inr (pid, rev (path_of ctx)), s1)" "unseen s s1"
    and t: "t = plug (Leaf pid es) ctx" "ctx_ok lo hi ctx" "lo \<le> low"
    by (rule descend_spec [OF assms])
  obtain L R where lr: "leaves t = L @ (pid, es) # R" "concat (map snd L) = entries_left ctx"
    using leaves_plug [of "Leaf pid es" ctx] t(1) entries_outside(1) [of ctx] by force
  have b: "tree_in (view s) t" "tree_ok 0 KEY_LIMIT t" "distinct (pages t)" "links (view s) (leaf_ids t) NO_PAGE"
    "set (pages t) \<subseteq> U" "NO_PAGE \<notin> U" "pager_inv s1"
    using assms d(2) by (auto simp: btree_def owns_def unseen_def)
  have fuel: "length ((pid, es) # R) \<le> PAGE_IDS"
    using length_leaf_ids [of t] distinct_u32_length [OF b(3)] lr(1)
    by (simp add: leaf_ids_leaves PAGE_IDS_def)
  have "\<forall>(pid, es)\<in>set ((pid, es) # R). leaf_in (view s1) pid es"
    using leaves_in [OF b(1-3)] lr(1) d(2) by (auto simp: unseen_def)
  moreover have "links (view s1) (map fst ((pid, es) # R)) NO_PAGE"
    using b(4) d(2) unfolding leaf_ids_leaves lr(1) map_append links_append by (simp add: unseen_def)
  moreover have "NO_PAGE \<notin> set (map fst ((pid, es) # R))"
    using b(5,6) leaf_ids_pages [of t] unfolding leaf_ids_leaves lr(1) by auto
  ultimately obtain s' where s': "seek_leaf PAGE_IDS pid low s1 =
      (Inr (first_at_least low (plain (concat (map snd ((pid, es) # R))))), s')" "unseen s1 s'"
    using seek_leaf_spec [OF b(7), of "(pid, es) # R" PAGE_IDS low] fuel by auto
  have "contents t = plain (entries_left ctx) @ plain (concat (map snd ((pid, es) # R)))"
    unfolding contents_def plain_def [symmetric] entries_leaves lr(1) using lr(2) by simp
  moreover have "\<forall>e\<in>set (entries_left ctx). fst e < low"
    using ctx_ok_outside [OF t(2)] t(3) by (meson less_le_trans)
  ultimately have "first_at_least low (contents t) = first_at_least low (plain (concat (map snd ((pid, es) # R))))"
    using first_at_least_skip [OF set_plain [of "entries_left ctx" "\<lambda>k. k < low"]] by simp
  then show ?thesis
    using d s' unseen_trans [OF d(2) s'(2)] by (auto simp: seek_def bind_op_def)
qed

end
