(* ===== verification/Btree_Alloc.thy ===== *)
theory Btree_Alloc
  imports Btree_Read
begin

text \<open>
  What the B+-tree takes from the pager and gives back: fresh node pages, overflow chains written
  and released, and the effect of each on the pages of everybody else.
\<close>

section \<open>Frames\<close>

text \<open>The pages of \<open>F\<close> and the fields of the meta page that have nothing to do with allocation stay.\<close>

definition untouched :: "page_id set \<Rightarrow> pager \<Rightarrow> pager \<Rightarrow> bool" where
  "untouched F s s' \<longleftrightarrow> (\<forall>pid\<in>F. view s' pid = view s pid) \<and>
     clog_pages (p_meta s') = clog_pages (p_meta s) \<and> next_txn_id (p_meta s') = next_txn_id (p_meta s) \<and>
     catalog_root (p_meta s') = catalog_root (p_meta s)"

lemma untouched_refl [simp]: "untouched F s s"
  by (simp add: untouched_def)

lemma untouched_trans: "untouched F s t \<Longrightarrow> untouched G t u \<Longrightarrow> untouched (F \<inter> G) s u"
  by (simp add: untouched_def)

lemma untouched_mono: "untouched F s s' \<Longrightarrow> G \<subseteq> F \<Longrightarrow> untouched G s s'"
  by (auto simp: untouched_def)

lemma untouched_trans_same:
  assumes "untouched F s t" and "untouched G t u" and "H \<subseteq> F" and "H \<subseteq> G"
  shows "untouched H s u"
  by (rule untouched_mono [OF untouched_trans [OF assms(1,2)]]) (use assms(3,4) in auto)

lemma untouched_unseen: "unseen s s' \<Longrightarrow> untouched F s s'"
  by (simp add: untouched_def unseen_def)

lemma untouched_wrote: "wrote pid c s s' \<Longrightarrow> pid \<notin> F \<Longrightarrow> untouched F s s'"
  by (auto simp: untouched_def wrote_def)

lemma untouched_tree: "untouched F s s' \<Longrightarrow> set (pages t) \<subseteq> F \<Longrightarrow> tree_in (view s') t = tree_in (view s) t"
  by (rule tree_in_cong) (auto simp: untouched_def)

lemma untouched_ctx:
  "untouched F s s' \<Longrightarrow> set (ctx_pages ctx) \<subseteq> F \<Longrightarrow> ctx_in (view s') r ctx = ctx_in (view s) r ctx"
  by (rule ctx_in_cong) (auto simp: untouched_def)

lemma untouched_links:
  "untouched F s s' \<Longrightarrow> set ps \<subseteq> F \<Longrightarrow> links (view s') ps end = links (view s) ps end"
  by (rule links_cong) (auto simp: untouched_def)

lemma untouched_chain: "untouched F s s' \<Longrightarrow> set ps \<subseteq> F \<Longrightarrow> chain (view s') ps d = chain (view s) ps d"
  by (rule chain_cong) (auto simp: untouched_def)

lemma untouched_entries:
  "untouched F s s' \<Longrightarrow> set (chain_ids es) \<subseteq> F \<Longrightarrow>
   (\<forall>e\<in>set es. entry_in (view s') e) = (\<forall>e\<in>set es. entry_in (view s) e)"
  by (rule entries_in_cong) (auto simp: untouched_def)

lemma untouched_node: "untouched F s s' \<Longrightarrow> pid \<in> F \<Longrightarrow> node_at (view s') pid = node_at (view s) pid"
  by (rule node_at_cong) (auto simp: untouched_def)

text \<open>How many more pages the file can take: the page counter is a 32-bit word.\<close>

definition room :: "pager \<Rightarrow> nat \<Rightarrow> bool" where
  "room s n \<longleftrightarrow> unat (page_count (p_meta s)) + n < 2 ^ 32"

lemma room_mono: "room s n \<Longrightarrow> m \<le> n \<Longrightarrow> room s m"
  by (simp add: room_def)

lemma room_unseen: "unseen s s' \<Longrightarrow> room s' n = room s n"
  by (simp add: room_def unseen_def)

lemma room_wrote: "wrote pid c s s' \<Longrightarrow> room s' n = room s n"
  by (simp add: room_def wrote_def)

lemma alloc_spec:
  assumes "owns s U" and "room s (Suc m)"
  obtains pid s' where "alloc_page k s = (Inr pid, s')" and "pid \<notin> U" and "pid \<noteq> NO_PAGE"
    and "owns s' (insert pid U)" and "view s' pid = Some (content (page_new k))"
    and "untouched U s s'" and "room s' m"
proof -
  let ?c = "page_count (p_meta s)"
  have r: "unat ?c + Suc m < 2 ^ 32"
    using assms(2) by (simp add: room_def)
  have "?c \<noteq> -1"
  proof
    assume "?c = -1"
    then have "unat ?c = 2 ^ 32 - 1"
      by (simp add: unsigned_minus_1_eq_mask mask_eq_exp_minus_1)
    then show False
      using r by simp
  qed
  then obtain pid s' where a: "alloc_page k s = (Inr pid, s')" "allocated k pid s s'" "pid \<notin> U"
    "owns s' (insert pid U)"
    using alloc_page_owns [OF assms(1)] by metis
  have "unat (page_count (p_meta s')) \<le> unat ?c + 1"
  proof -
    have "unat (?c + 1) = unat ?c + 1"
      using r by (simp add: unat_word_ariths)
    then show ?thesis
      using a(2) by (auto simp: allocated_def)
  qed
  then have "room s' m"
    using r by (simp add: room_def)
  moreover have "untouched U s s'" "pid \<noteq> NO_PAGE" "view s' pid = Some (content (page_new k))"
    using a(2,3) by (auto simp: allocated_def untouched_def)
  ultimately show ?thesis
    using that [OF a(1,3)] a(4) by blast
qed

section \<open>Fresh node pages\<close>

lemma node_page_new: "node_page (page_new k) k [] 0"
  by (simp add: node_page_def page_new_inv page_new_fields page_new_space)

lemma node_page_set_extra:
  assumes "node_page p k its x"
  shows "node_page (set_extra y p) k its y" and "free_space (set_extra y p) = free_space p"
proof -
  have inv: "page_inv p" and lay: "layout_ok p" and len: "length p = PAGE_SIZE"
    using assms by (auto simp: node_page_def page_inv_def layout_ok_def)
  note a = set_extra_frame(1) [OF len, of y]
  have u16: "get_u16 n (set_extra y p) = get_u16 n p" if "n + 2 \<le> 20 \<or> 24 \<le> n" for n
    by (rule get_u16_agree [OF a]) (use that in auto)
  have f: "slot_count (set_extra y p) = slot_count p" "free_end (set_extra y p) = free_end p"
    and sl: "slot_off (set_extra y p) i = slot_off p i" "slot_len (set_extra y p) i = slot_len p i" for i
    by (simp_all add: slot_count_def free_end_def slot_off_def slot_len_def slot_base_def layout u16)
  show fs: "free_space (set_extra y p) = free_space p"
    using f by (simp add: free_space_def)
  have "page_ok (set_extra y p)"
    by (rule set_extra_ok [OF page_inv_ok [OF inv]])
  then have "page_inv (set_extra y p)"
    using inv f sl by (simp add: page_inv_def page_ok_def slots_disjoint_def)
  moreover have "kind (set_extra y p) = kind p"
    by (rule kind_agree [OF a]) (use len in \<open>auto simp: PAGE_SIZE_def\<close>)
  moreover have "page_items (set_extra y p) = page_items p"
  proof -
    have "slot_item (set_extra y p) i = slot_item p i" if "i < slot_count p" for i
    proof -
      have "24 \<le> slot_off p i"
        using that lay slot_base_ge [of "slot_count p"] by (fastforce simp: layout_ok_def)
      then show ?thesis
        unfolding slot_item_def sl by (intro agree_on_slice [OF a]) auto
    qed
    then show ?thesis
      by (simp add: page_items_def f)
  qed
  ultimately show "node_page (set_extra y p) k its y"
    using assms fs set_extra_frame(2) [OF len] by (simp add: node_page_def)
qed

lemma node_page_insert:
  assumes p: "node_page p k its x" and i: "i \<le> length its"
  shows "if item_cost (length it) \<le> free_space p
    then \<exists>q. insert_item i it p = Inr (True, q) \<and> node_page q k (insert_at i it its) x \<and>
      free_space q = free_space p - item_cost (length it)
    else insert_item i it p = Inr (False, p)"
proof (cases "item_cost (length it) \<le> free_space p")
  case True
  have inv: "page_inv p" "i \<le> slot_count p"
    using p i by (auto simp: node_page_def)
  obtain q where q: "insert_item i it p = Inr (True, q)" "page_inv q"
    "page_items q = insert_at i it (page_items p)" "same_header p q"
    "free_space q = free_space p - item_cost (length it)"
    by (rule insert_item_spec [OF inv True])
  have "node_page q k (insert_at i it its) x"
    using p q True same_header_kind [OF q(4)]
    by (auto simp: node_page_def same_header_def items_cost_insert_at)
  then show ?thesis
    using q True by auto
next
  case False
  then show ?thesis
    by (simp add: insert_item_def)
qed

lemma fill_items_spec:
  assumes "node_page p k its x" and "items_cost new \<le> free_space p" and "i = length its"
  shows "\<exists>q. fill_items err i new p = Inr q \<and> node_page q k (its @ new) x"
  using assms
proof (induction new arbitrary: i p its)
  case (Cons it new)
  have c: "item_cost (length it) \<le> free_space p" "items_cost new \<le> free_space p - item_cost (length it)"
    using Cons.prems(2) by simp_all
  obtain q where q: "insert_item i it p = Inr (True, q)" "node_page q k (its @ [it]) x"
    "free_space q = free_space p - item_cost (length it)"
    using node_page_insert [OF Cons.prems(1), of i it] c(1) Cons.prems(3) by (auto simp: insert_at_def)
  obtain r where "fill_items err (i + 1) new q = Inr r" "node_page r k ((its @ [it]) @ new) x"
    using Cons.IH [OF q(2), of "i + 1"] c(2) q(3) Cons.prems(3) by auto
  then show ?case
    using q(1) by simp
qed simp

lemma fill_fresh:
  assumes "items_cost its \<le> PAGE_SIZE - HEADER_SIZE"
  obtains q where "fill_items err 0 its (set_extra x (page_new k)) = Inr q" and "node_page q k its x"
  using fill_items_spec [OF node_page_set_extra(1) [OF node_page_new], of its x k 0 err]
    node_page_set_extra(2) [OF node_page_new, of x k] assms by (auto simp: page_new_space)

section \<open>Overflow chains\<close>

lemma overwrite_body:
  assumes "length p = PAGE_SIZE" and "HEADER_SIZE \<le> a" and "a + length bs \<le> PAGE_SIZE"
  shows "agree_on (- {a..<a + length bs}) p (overwrite a bs p)"
  using agree_on_overwrite [of a bs p] assms by simp

lemma overflow_filled:
  assumes "length chunk \<le> OVERFLOW_CHUNK"
  obtains q where "fill_overflow nxt chunk (page_new PK_Overflow) = Inr ((), q)" and "page_ok q"
    and "overflow_part q = Inr (chunk, nxt)"
proof -
  let ?n = "to_le_bytes (word_of_nat (length chunk) :: u32)"
  let ?p = "set_extra nxt (page_new PK_Overflow)"
  let ?p1 = "overwrite 24 ?n ?p"
  let ?q = "overwrite 28 chunk ?p1"
  have len0: "length (page_new PK_Overflow) = PAGE_SIZE"
    by (rule page_new_fields)
  have p: "node_page ?p PK_Overflow [] nxt"
    by (rule node_page_set_extra(1) [OF node_page_new])
  have len: "length ?p = PAGE_SIZE"
    by (rule set_extra_frame(3) [OF len0])
  have ch: "length chunk \<le> 8164"
    using assms by (simp add: layout)
  have a1: "agree_on (- {24..<28}) ?p ?p1"
    using overwrite_body [OF len, of 24 ?n] by (simp add: layout)
  have len1: "length ?p1 = PAGE_SIZE"
    using agree_on_length [OF a1] len by simp
  have a2: "agree_on (- {28..<28 + length chunk}) ?p1 ?q"
    using overwrite_body [OF len1, of 28 chunk] ch by (simp add: layout)
  have lenq: "length ?q = PAGE_SIZE"
    using agree_on_length [OF a2] len1 by simp
  have a: "agree_on {..<24} ?p ?q"
    by (rule agree_on_mono [OF agree_on_trans [OF a1 a2]]) auto
  have fill: "fill_overflow nxt chunk (page_new PK_Overflow) = Inr ((), ?q)"
    using len len1 ch by (simp add: fill_overflow_def put_body_def layout)
  have sub: "{20..<24} \<subseteq> {..<24 :: nat}" "{14..<14 + 2} \<subseteq> {..<24 :: nat}" "{16..<16 + 2} \<subseteq> {..<24 :: nat}"
    by auto
  have h: "?q ! 12 = ?p ! 12" "kind ?q = kind ?p" "extra ?q = extra ?p"
    "slot_count ?q = slot_count ?p" "free_end ?q = free_end ?p"
    using len agree_on_nth [OF a, of 12] kind_agree [OF a] extra_agree [OF a sub(1)]
      get_u16_agree [OF a sub(2)] get_u16_agree [OF a sub(3)]
    by (simp_all add: PAGE_SIZE_def slot_count_def free_end_def)
  have cnt: "slot_count ?p = 0"
    using p by (metis length_page_items list.size(3) node_page_def)
  have "layout_ok ?p" "kind_ok ?p"
    using p by (simp_all add: node_page_def page_inv_def)
  then have ok: "page_ok ?q"
    using h cnt lenq by (simp add: page_ok_def layout_ok_def kind_ok_def)
  have "take 4 (drop 24 ?q) = take 4 (drop 24 ?p1)"
    by (rule agree_on_slice [OF a2]) auto
  then have n: "take 4 (drop 24 ?q) = ?n"
    using take_drop_overwrite_same [of 24 ?n ?p] len by (simp add: PAGE_SIZE_def)
  have c: "take (length chunk) (drop 28 ?q) = chunk"
    using take_drop_overwrite_same [of 28 chunk ?p1] len1 ch by (simp add: PAGE_SIZE_def)
  have "le_u32 (body ?q) 0 = Inr (word_of_nat (length chunk))"
    using n lenq by (simp add: le_u32_def le_field_def body_def layout)
  moreover have "unat (word_of_nat (length chunk) :: u32) = length chunk"
    using ch by (simp add: unat_of_nat)
  moreover have "Prelude.slice (body ?q) 4 (4 + length chunk) = Some chunk"
    using c lenq ch by (simp add: slice_def body_def layout add.commute)
  ultimately have "overflow_part ?q = Inr (chunk, nxt)"
    using h(2,3) p assms by (simp add: overflow_part_def node_page_def)
  then show ?thesis
    using that fill ok by blast
qed

text \<open>The new page may differ from a fresh one only in its first 12 bytes.\<close>

lemma overwrite_append: "length xs \<le> a \<Longrightarrow> overwrite a bs (xs @ ys) = xs @ overwrite (a - length xs) bs ys"
  by (simp add: overwrite_def)

lemma fill_overflow_content:
  assumes p: "content p = content (page_new PK_Overflow)" "page_ok p"
    and q: "fill_overflow nxt chunk (page_new PK_Overflow) = Inr ((), q)" "page_ok q"
      "overflow_part q = Inr (chunk, nxt)"
  shows "\<exists>q. fill_overflow nxt chunk p = Inr ((), q) \<and> page_ok q \<and> overflow_part q = Inr (chunk, nxt)"
proof -
  let ?n = "page_new PK_Overflow"
  have len: "length p = PAGE_SIZE" "length ?n = PAGE_SIZE"
    using page_ok_length [OF p(2)] page_new_fields(1) by simp_all
  have parts: "p = take 12 p @ content p" "?n = take 12 ?n @ content ?n"
    by (simp_all add: content_def)
  have lens: "length (take 12 p) = 12" "length (take 12 ?n) = 12"
    using len by (simp_all add: PAGE_SIZE_def)
  define c where "c = overwrite 16 chunk (overwrite 12 (to_le_bytes (word_of_nat (length chunk) :: u32))
      (overwrite 8 (to_le_bytes nxt) (content ?n)))"
  have fill: "fill_overflow nxt chunk r = Inr ((), take 12 r @ c)"
    if r: "r = take 12 r @ content ?n" "length (take 12 r) = 12" "length r = PAGE_SIZE" for r
  proof -
    have "overwrite 28 chunk (overwrite 24 (to_le_bytes (word_of_nat (length chunk) :: u32)) (set_extra nxt r)) = take 12 r @ c"
      unfolding set_extra_def c_def using r(3) by (subst r(1)) (simp add: overwrite_append PAGE_SIZE_def)
    moreover have "HEADER_SIZE + 4 + length chunk \<le> PAGE_SIZE"
      using q(1) by (auto simp: fill_overflow_def put_body_def bind_res_Inr_iff set_extra_frame(3) [OF len(2)] layout
          split: if_splits)
    ultimately show ?thesis
      using r(3) set_extra_frame(3) [OF r(3)] by (simp add: fill_overflow_def put_body_def layout)
  qed
  have "q = take 12 ?n @ c"
    using fill [OF parts(2) lens(2) len(2)] q(1) by simp
  moreover have pq: "fill_overflow nxt chunk p = Inr ((), take 12 p @ c)"
    using fill [of p] parts(1) lens(1) len(1) p(1) by simp
  ultimately have "content (take 12 p @ c) = content q" "length (take 12 p @ c) = PAGE_SIZE"
    using lens page_ok_length [OF q(2)] by (simp_all add: content_def)
  then show ?thesis
    using pq q(2,3) content_determines [of "take 12 p @ c" q] overflow_part_content [of q]
      overflow_part_content [of "take 12 p @ c"] page_ok_length [OF q(2)] by auto
qed

lemma concat_chunks: "0 < n \<Longrightarrow> concat (chunks n xs) = xs"
  by (induction n xs rule: chunks.induct) (subst chunks.simps, simp)

lemma length_in_chunks: "c \<in> set (chunks n xs) \<Longrightarrow> length c \<le> n"
proof (induction n xs rule: chunks.induct)
  case (1 n xs)
  then show ?case
    by (subst (asm) (2) chunks.simps) (auto split: if_splits)
qed

lemma length_chunks: "0 < n \<Longrightarrow> length (chunks n xs) \<le> length xs div n + 1"
proof (induction n xs rule: chunks.induct)
  case (1 n xs)
  show ?case
  proof (cases "xs = []")
    case False
    then have eq: "length (chunks n xs) = Suc (length (chunks n (drop n xs)))"
      using "1.prems" by (simp add: chunks.simps [of n xs])
    show ?thesis
    proof (cases "n \<le> length xs")
      case True
      then have "length xs div n = Suc ((length xs - n) div n)"
        using "1.prems" by (simp add: le_div_geq)
      then show ?thesis
        using eq 1 False by simp
    next
      case short: False
      then show ?thesis
        using eq by (simp add: chunks.simps)
    qed
  qed (simp add: chunks.simps)
qed

text \<open>The pages are written back to front, each with the link to the one before it.\<close>

lemma write_chunks_spec:
  assumes "owns s U" and "chain (view s) ps d" and "set ps \<subseteq> U" and "\<forall>c\<in>set ds. length c \<le> OVERFLOW_CHUNK"
    and "room s (length ds + m)"
  shows "\<exists>s' qs. write_chunks ds (hd (ps @ [NO_PAGE])) s = (Inr (hd ((qs @ ps) @ [NO_PAGE])), s') \<and>
    chain (view s') (qs @ ps) (concat (rev ds) @ d) \<and> length qs = length ds \<and> distinct qs \<and>
    set qs \<inter> U = {} \<and> owns s' (U \<union> set qs) \<and> untouched U s s' \<and> room s' m"
  using assms
proof (induction ds arbitrary: s U ps d)
  case Nil
  then show ?case
    by (intro exI [of _ s] exI [of _ "[]"]) simp
next
  case (Cons chunk ds)
  let ?next = "hd (ps @ [NO_PAGE])"
  obtain pid s1 where a: "alloc_page PK_Overflow s = (Inr pid, s1)" "pid \<notin> U" "pid \<noteq> NO_PAGE"
    "owns s1 (insert pid U)" "view s1 pid = Some (content (page_new PK_Overflow))" "untouched U s s1"
    "room s1 (length ds + m)"
    by (rule alloc_spec [OF Cons.prems(1), of "length ds + m" PK_Overflow]) (use Cons.prems(5) in auto)
  obtain q where q: "fill_overflow ?next chunk (page_new PK_Overflow) = Inr ((), q)" "page_ok q"
    "overflow_part q = Inr (chunk, ?next)"
    by (rule overflow_filled [of chunk ?next]) (use Cons.prems(4) in auto)
  have upd: "\<exists>q. fill_overflow ?next chunk p = Inr ((), q) \<and> page_ok q \<and> overflow_part q = Inr (chunk, ?next)"
    if p: "content p = content (page_new PK_Overflow)" "page_ok p" for p
    by (rule fill_overflow_content [OF p q])
  obtain s2 q' where s2: "with_page_mut pid (fill_overflow ?next chunk) s1 = (Inr (), s2)"
    "wrote pid (content q') s1 s2" and q': "page_ok q'" "overflow_part q' = Inr (chunk, ?next)"
    using with_page_mut_present [OF owns_inv [OF a(4)] a(5), of "fill_overflow ?next chunk"] upd by metis
  have "chain (view s2) ps d"
    using Cons.prems(2,3) a(2,6) s2(2) untouched_chain [OF untouched_wrote [OF s2(2)], of U ps d]
      untouched_chain [OF a(6)] by auto
  then have ch: "chain (view s2) (pid # ps) (chunk @ d)"
    using s2(2) a(3) q' overflow_part_content [OF page_ok_length [OF q'(1)]]
      length_content [OF page_ok_length [OF q'(1)]] by (auto simp: wrote_def)
  have o2: "owns s2 (insert pid U)"
    by (rule owns_wrote [OF a(4) s2(2)]) simp
  obtain s' qs where ih: "write_chunks ds (hd ((pid # ps) @ [NO_PAGE])) s2 =
      (Inr (hd ((qs @ pid # ps) @ [NO_PAGE])), s')"
    "chain (view s') (qs @ pid # ps) (concat (rev ds) @ chunk @ d)" "length qs = length ds" "distinct qs"
    "set qs \<inter> insert pid U = {}" "owns s' (insert pid U \<union> set qs)" "untouched (insert pid U) s2 s'" "room s' m"
    using Cons.IH [OF o2 ch] Cons.prems(3,4) a(7) room_wrote [OF s2(2)] by auto
  have "untouched U s s'"
    by (rule untouched_trans_same [OF untouched_trans [OF a(6) untouched_wrote [OF s2(2) a(2)]] ih(7)]) auto
  moreover have "write_chunks (chunk # ds) ?next s = (Inr (hd (((qs @ [pid]) @ ps) @ [NO_PAGE])), s')"
    using a(1) s2(1) ih(1) by (simp add: bind_op_def)
  ultimately show ?case
    using ih(2-6,8) a(2) by (intro exI [of _ s'] exI [of _ "qs @ [pid]"]) (auto simp: Un_commute insert_commute)
qed

lemma build_item_spec:
  assumes "owns s U" and "length d < 2 ^ 32" and "room s (length d div OVERFLOW_CHUNK + 1 + m)"
  obtains s' ps where "build_item k d s = (Inr (entry_item (k, d, ps)), s')"
    and "entry_in (view s') (k, d, ps)" and "distinct ps" and "set ps \<inter> U = {}" and "owns s' (U \<union> set ps)"
    and "untouched U s s'" and "room s' m"
proof (cases "length d \<le> MAX_INLINE")
  case True
  then show ?thesis
    using that [of "[]" s] assms room_mono [OF assms(3), of m] by (simp add: build_item_def)
next
  case False
  let ?cs = "chunks OVERFLOW_CHUNK d"
  have pos: "0 < OVERFLOW_CHUNK"
    by (simp add: layout)
  have "d \<noteq> []"
    using False by auto
  then have cs: "?cs \<noteq> []"
    using concat_chunks [OF pos, of d] by auto
  have "room s (length (rev ?cs) + m)"
    using room_mono [OF assms(3)] length_chunks [OF pos, of d] by simp
  then obtain s' qs where w: "write_chunks (rev ?cs) NO_PAGE s = (Inr (hd (qs @ [NO_PAGE])), s')"
    "chain (view s') qs d" "length qs = length ?cs" "distinct qs" "set qs \<inter> U = {}" "owns s' (U \<union> set qs)"
    "untouched U s s'" "room s' m"
    using write_chunks_spec [OF assms(1), of "[]" "[]" "rev ?cs" m] length_in_chunks [of _ OVERFLOW_CHUNK d]
      concat_chunks [OF pos, of d] by auto
  have "qs \<noteq> []"
    using w(3) cs by auto
  then show ?thesis
    using that [of qs s'] w False assms(2) cs by (simp add: build_item_def write_overflow_def bind_op_def)
qed

section \<open>Releasing a chain\<close>

lemma overflow_part_extra: "overflow_part p = Inr (chunk, nxt) \<Longrightarrow> extra p = nxt"
  by (auto simp: overflow_part_def bind_res_Inr_iff Let_def split: if_splits)

lemma free_spec:
  assumes "owns s U" and "pid \<in> U"
  obtains s' where "free_page pid s = (Inr (), s')" and "owns s' (U - {pid})" and "untouched (U - {pid}) s s'"
    and "\<forall>m. room s' m = room s m"
proof (rule free_page_owns [OF assms])
  fix s'
  assume "free_page pid s = (Inr (), s')" "owns s' (U - {pid})" "\<And>x. x \<noteq> pid \<Longrightarrow> view s' x = view s x"
    "p_meta s' = (p_meta s)\<lparr>free_list_head := pid\<rparr>"
  then show thesis
    using that [of s'] by (simp add: untouched_def room_def)
qed

lemma free_chain_spec:
  assumes "owns s U" and "chain (view s) ps d" and "distinct ps" and "set ps \<subseteq> U" and "length ps \<le> fuel"
  shows "\<exists>s'. free_chain fuel (hd (ps @ [NO_PAGE])) s = (Inr (), s') \<and> owns s' (U - set ps) \<and>
    untouched (U - set ps) s s' \<and> (\<forall>m. room s' m = room s m)"
  using assms
proof (induction ps arbitrary: fuel d s U)
  case Nil
  then show ?case
    by (simp add: free_chain.simps)
next
  case (Cons pid ps)
  obtain c chunk d' where c: "view s pid = Some c" "pid \<noteq> NO_PAGE"
    "overflow_part (page_of c) = Inr (chunk, hd (ps @ [NO_PAGE]))" "chain (view s) ps d'"
    using Cons.prems(2) by auto
  obtain s1 p where s1: "with_page pid (\<lambda>p. Inr (extra p)) s = (Inr (extra p), s1)" "unseen s s1"
    "content p = c" "page_ok p"
    by (rule with_page_present [OF owns_inv [OF Cons.prems(1)] c(1), of "\<lambda>p. Inr (extra p)"])
  have nxt: "extra p = hd (ps @ [NO_PAGE])"
    using overflow_part_extra overflow_part_content [OF page_ok_length [OF s1(4)]] s1(3) c(3) by metis
  obtain s2 where s2: "free_page pid s1 = (Inr (), s2)" "owns s2 (U - {pid})" "untouched (U - {pid}) s1 s2"
    "\<forall>m. room s2 m = room s1 m"
    by (rule free_spec [OF owns_unseen [OF Cons.prems(1) s1(2)], of pid]) (use Cons.prems(4) in auto)
  have ps: "set ps \<subseteq> U - {pid}"
    using Cons.prems(3,4) by auto
  have "chain (view s2) ps d'"
    using untouched_chain [OF s2(3) ps] untouched_chain [OF untouched_unseen [OF s1(2)], of ps UNIV] c(4) by simp
  then obtain s' where ih: "free_chain (fuel - 1) (hd (ps @ [NO_PAGE])) s2 = (Inr (), s')"
    "owns s' (U - {pid} - set ps)" "untouched (U - {pid} - set ps) s2 s'" "\<forall>m. room s' m = room s2 m"
    using Cons.IH [OF s2(2), of d' "fuel - 1"] Cons.prems(3,5) ps by fastforce
  have "U - {pid} - set ps = U - set (pid # ps)"
    by auto
  moreover have "untouched (U - set (pid # ps)) s s'"
    by (rule untouched_trans_same [OF untouched_unseen [OF s1(2), of UNIV] untouched_trans [OF s2(3) ih(3)]]) auto
  ultimately show ?case
    using s1(1) s2(1,4) ih(1,2,4) nxt c(2) Cons.prems(5) room_unseen [OF s1(2)]
    by (auto simp: free_chain.simps [of fuel pid] bind_op_def)
qed

lemma release_item_spec:
  assumes "owns s U" and "entry_in (view s) (k, d, ps)" and "distinct ps" and "set ps \<subseteq> U"
  obtains s' where "release_item (entry_item (k, d, ps)) s = (Inr (), s')" and "owns s' (U - set ps)"
    and "untouched (U - set ps) s s'" and "\<forall>m. room s' m = room s m"
proof (cases "length d \<le> MAX_INLINE")
  case True
  then have "release_item (entry_item (k, d, ps)) s = (Inr (), s)" "ps = []"
    using assms(2) by (auto simp: release_item_def nth_append layout)
  then show ?thesis
    using that [of s] assms(1) by simp
next
  case False
  have e: "ps \<noteq> []" "chain (view s) ps d"
    using assms(2) False by auto
  have "length ps \<le> PAGE_IDS"
    using distinct_u32_length [OF assms(3)] by (simp add: PAGE_IDS_def)
  then obtain s' where s': "free_chain PAGE_IDS (hd ps) s = (Inr (), s')" "owns s' (U - set ps)"
    "untouched (U - set ps) s s'" "\<forall>m. room s' m = room s m"
    using free_chain_spec [OF assms(1) e(2) assms(3,4)] e(1) by auto
  moreover have "release_item (entry_item (k, d, ps)) s = free_chain PAGE_IDS (hd ps) s"
    unfolding release_item_def using False entry_item_fields [of d k ps]
    by (simp add: free_overflow_def del: entry_item.simps)
  ultimately show ?thesis
    using that by simp
qed

end
