(* ===== verification/Btree_Split.thy ===== *)
theory Btree_Split
  imports Btree_Alloc
begin

text \<open>
  Splitting a node of the B+-tree and carrying the new separator up the path: both halves always
  fit, an internal node that is full is large enough to split, and no separator is a duplicate.
\<close>

section \<open>Filling a page\<close>

lemma write_node:
  assumes "owns s U" and "pid \<in> U" and "node_page q k its x"
  obtains s' where "with_page_mut pid (\<lambda>_. Inr ((), q)) s = (Inr (), s')" and "owns s' U"
    and "node_at (view s') pid k its x" and "untouched (U - {pid}) s s'" and "\<forall>m. room s' m = room s m"
proof -
  obtain c where c: "view s pid = Some c"
    using owns_view [OF assms(1,2)] by blast
  have ok: "page_ok q"
    using assms(3) by (simp add: node_page_def page_inv_ok)
  obtain s' where s': "with_page_mut pid (\<lambda>_. Inr ((), q)) s = (Inr (), s')" "wrote pid (content q) s s'"
    by (rule with_page_mut_present [OF owns_inv [OF assms(1)] c, of "\<lambda>_. Inr ((), q)"]) (use ok in blast)
  have "node_at (view s') pid k its x"
    by (rule node_at_content [OF assms(3)]) (use s'(2) in \<open>simp add: wrote_def\<close>)
  then show ?thesis
    using that [OF s'(1)] owns_wrote [OF assms(1) s'(2) assms(2)] untouched_wrote [OF s'(2), of "U - {pid}"]
      room_wrote [OF s'(2)] by auto
qed

lemma fill_node_spec:
  assumes "owns s U" and "pid \<in> U" and "items_cost its \<le> PAGE_SIZE - HEADER_SIZE"
  obtains s' where "with_page_mut pid (\<lambda>_. bind_res (fill_items err 0 its (set_extra x (page_new k)))
      (\<lambda>fresh. Inr ((), fresh))) s = (Inr (), s')"
    and "owns s' U" and "node_at (view s') pid k its x" and "untouched (U - {pid}) s s'"
    and "\<forall>m. room s' m = room s m"
proof -
  obtain q where q: "fill_items err 0 its (set_extra x (page_new k)) = Inr q" "node_page q k its x"
    by (rule fill_fresh [OF assms(3)])
  obtain s' where s': "with_page_mut pid (\<lambda>_. Inr ((), q)) s = (Inr (), s')" "owns s' U"
    "node_at (view s') pid k its x" "untouched (U - {pid}) s s'" "\<forall>m. room s' m = room s m"
    by (rule write_node [OF assms(1,2) q(2)])
  have "with_page_mut pid (\<lambda>_. bind_res (fill_items err 0 its (set_extra x (page_new k)))
      (\<lambda>fresh. Inr ((), fresh))) s = (Inr (), s')"
    using q(1) s'(1) by simp
  then show ?thesis
    by (rule that [OF _ s'(2-5)])
qed

section \<open>Where a leaf splits\<close>

lemma half_point_spec:
  assumes "its \<noteq> []" and "tot \<le> 2 * (running + items_cost its)"
  shows "\<exists>j < length its. half_point tot i running its = max (i + j) 1 \<and>
    tot \<le> 2 * (running + items_cost (take (Suc j) its)) \<and>
    (j = 0 \<or> 2 * (running + items_cost (take j its)) < tot)"
  using assms
proof (induction its arbitrary: i running)
  case (Cons it its)
  let ?r = "running + item_cost (length it)"
  show ?case
  proof (cases "tot \<le> ?r * 2")
    case True
    then show ?thesis
      by (intro exI [of _ 0]) (simp add: Let_def)
  next
    case False
    then have "its \<noteq> []"
      using Cons.prems(2) by auto
    then obtain j where j: "j < length its" "half_point tot (i + 1) ?r its = max (i + 1 + j) 1"
      "tot \<le> 2 * (?r + items_cost (take (Suc j) its))"
      "j = 0 \<or> 2 * (?r + items_cost (take j its)) < tot"
      using Cons.IH [of ?r "i + 1"] Cons.prems(2) by auto
    then show ?thesis
      using False by (intro exI [of _ "Suc j"]) (auto simp: Let_def)
  qed
qed simp

lemma items_cost_take_drop: "items_cost (take n its) + items_cost (drop n its) = items_cost its"
  by (metis append_take_drop_id items_cost_simps(3))

lemma items_cost_take_Suc:
  "j < length its \<Longrightarrow> items_cost (take (Suc j) its) = items_cost (take j its) + item_cost (length (its ! j))"
  by (simp add: take_Suc_conv_app_nth)

text \<open>
  With no item larger than \<open>M\<close>, each half costs at most half of the total and one item more.
\<close>

lemma split_point_spec:
  assumes "2 \<le> length its" and M: "\<forall>it\<in>set its. item_cost (length it) \<le> M"
  shows "0 < split_point its \<and> split_point its < length its \<and>
    2 * items_cost (take (split_point its) its) \<le> items_cost its + 2 * M \<and>
    2 * items_cost (drop (split_point its) its) \<le> items_cost its + 2 * M"
proof -
  have total: "sum_list (map (\<lambda>it. item_cost (length it)) its) = items_cost its"
    by (simp add: items_cost_def comp_def)
  have "its \<noteq> []"
    using assms(1) by auto
  then obtain j where j: "j < length its" "half_point (items_cost its) 0 0 its = max j 1"
    "items_cost its \<le> 2 * items_cost (take (Suc j) its)"
    "j = 0 \<or> 2 * items_cost (take j its) < items_cost its"
    using half_point_spec [of its "items_cost its" 0 0] by auto
  have at: "split_point its = max j 1"
    using j(1,2) assms(1) by (auto simp: split_point_def total Let_def max_def split: if_splits)
  have cost: "item_cost (length (its ! j)) \<le> M"
    using M j(1) by simp
  note halves = items_cost_take_drop [of "max j 1" its] items_cost_take_Suc [OF j(1)]
  show ?thesis
  proof (cases "j = 0")
    case True
    then show ?thesis
      using at j assms(1) cost halves by simp
  next
    case False
    then have "max j 1 = j"
      by simp
    then show ?thesis
      using at j(1,3,4) False cost halves by simp
  qed
qed

lemma items_of_spec: "node_page p k its x \<Longrightarrow> node_items p = Inr (its, x)"
  using collect_all_items [of p] by (simp add: node_items_def items_of_def node_page_def page_inv_def)

lemma vec_insert_append: "vec_insert (length xs) y (xs @ ys) = Inr (xs @ y # ys)"
  by (simp add: vec_insert_def insert_at_def)

lemma entry_cost: "item_cost (length (entry_item e)) \<le> 2013"
  using length_entry_item [of e] by (simp add: item_cost_def layout)

lemma leaf_items_cost: "node_at v pid k its x \<Longrightarrow> items_cost its \<le> 8168"
  using items_cost_page by (fastforce simp: node_at_def node_page_def layout)

lemma split_leaf_spec:
  assumes o: "owns s U" and pid: "pid \<in> U" and nd: "node_at (view s) pid PK_Leaf (map entry_item (xs @ ys)) x"
    and ne: "xs @ ys \<noteq> []" and room: "room s (Suc m)"
  obtains s' rid es1 es2 where "split_leaf pid (length xs) (entry_item e) s = (Inr (fst (hd es2), rid), s')"
    and "xs @ e # ys = es1 @ es2" and "es1 \<noteq> []" and "es2 \<noteq> []" and "rid \<notin> U" and "rid \<noteq> NO_PAGE"
    and "owns s' (insert rid U)" and "node_at (view s') pid PK_Leaf (map entry_item es1) rid"
    and "node_at (view s') rid PK_Leaf (map entry_item es2) x" and "untouched (U - {pid}) s s'" and "room s' m"
proof -
  let ?es = "xs @ e # ys"
  define its where "its = map entry_item ?es"
  define at where "at = split_point its"
  define es1 where "es1 = take at ?es"
  define es2 where "es2 = drop at ?es"
  have len: "2 \<le> length its"
    using ne unfolding its_def by (cases xs; cases ys) auto
  have "items_cost its = items_cost (map entry_item (xs @ ys)) + item_cost (length (entry_item e))"
    unfolding its_def by simp
  then have cost: "items_cost its \<le> 10181"
    using leaf_items_cost [OF nd] entry_cost [of e] by linarith
  have small: "\<forall>it\<in>set its. item_cost (length it) \<le> 2013"
    unfolding its_def set_map using entry_cost by blast
  have at: "0 < at" "at < length its" "items_cost (take at its) \<le> 8168" "items_cost (drop at its) \<le> 8168"
    using split_point_spec [OF len small] cost unfolding at_def by auto
  have "length es1 = at" "length es1 + length es2 = length its"
    using at(2) unfolding es1_def es2_def its_def by simp_all
  then have es: "?es = es1 @ es2" "es1 \<noteq> []" "es2 \<noteq> []" "take at its = map entry_item es1" "drop at its = map entry_item es2"
    using at(1,2) by (auto simp only: es1_def es2_def its_def take_map drop_map append_take_drop_id list.size)
  obtain s1 p where s1: "with_page pid node_items s = (node_items p, s1)" "unseen s s1"
    "node_page p PK_Leaf (map entry_item (xs @ ys)) x"
    by (rule with_node [OF owns_inv [OF o] nd])
  obtain rid s2 where s2: "alloc_page PK_Leaf s1 = (Inr rid, s2)" "rid \<notin> U" "rid \<noteq> NO_PAGE" "owns s2 (insert rid U)"
    "untouched U s1 s2" "room s2 m"
    using alloc_spec [OF owns_unseen [OF o s1(2)]] room room_unseen [OF s1(2)] by metis
  have fits: "items_cost (map entry_item es1) \<le> PAGE_SIZE - HEADER_SIZE" "items_cost (map entry_item es2) \<le> PAGE_SIZE - HEADER_SIZE"
    using at(3,4) es(4,5) by (simp_all add: layout)
  obtain s3 where s3: "fill_leaf pid (map entry_item es1) rid s2 = (Inr (), s3)" "owns s3 (insert rid U)"
    "node_at (view s3) pid PK_Leaf (map entry_item es1) rid" "untouched (insert rid U - {pid}) s2 s3"
    "\<forall>m. room s3 m = room s2 m"
    unfolding fill_leaf_def by (rule fill_node_spec [OF s2(4) insertI2 [OF pid] fits(1)])
  obtain s4 where s4: "fill_leaf rid (map entry_item es2) x s3 = (Inr (), s4)" "owns s4 (insert rid U)"
    "node_at (view s4) rid PK_Leaf (map entry_item es2) x" "untouched (insert rid U - {rid}) s3 s4"
    "\<forall>m. room s4 m = room s3 m"
    unfolding fill_leaf_def by (rule fill_node_spec [OF s3(2) insertI1 fits(2)])
  have "get_index (map entry_item es2) 0 = Some (entry_item (hd es2))"
    using es(3) by (cases es2) (auto simp: get_index_def)
  moreover have "vec_insert (length xs) (entry_item e) (map entry_item (xs @ ys)) = Inr its"
    using vec_insert_append [of "map entry_item xs" "entry_item e" "map entry_item ys"] by (simp add: its_def)
  ultimately have run: "split_leaf pid (length xs) (entry_item e) s = (Inr (fst (hd es2), rid), s4)"
    using s1(1) items_of_spec [OF s1(3)] len at_def es(4,5) s2(1) s3(1) s4(1)
    by (simp add: split_leaf_def bind_op_def Let_def)
  have "node_at (view s4) pid PK_Leaf (map entry_item es1) rid"
    using s3(3) untouched_node [OF s4(4), of pid] pid s2(2) by auto
  moreover have "untouched (U - {pid}) s s4"
    by (rule untouched_trans_same [OF untouched_trans_same [OF untouched_unseen [OF s1(2), of UNIV] s2(5), of U]
          untouched_trans [OF s3(4) s4(4)]]) (use s2(2) in auto)
  ultimately show ?thesis
    using that [OF run es(1-3) s2(2,3) s4(2)] s4(3,5) s3(5) s2(6) by blast
qed

section \<open>Splitting an internal node\<close>

lemma kid_items_cost: "items_cost (kid_items kids) = 16 * (length kids - 1)"
proof -
  have "items_cost (map (\<lambda>(k, c). make_internal_item k c) ks) = 16 * length ks" for ks
    by (induction ks) (auto simp: item_cost_def layout)
  then show ?thesis
    by (simp add: kid_items_def)
qed

lemma kid_items_take: "kid_items (take (Suc j) kids) = take j (kid_items kids)"
  by (cases kids) (simp_all add: kid_items_def take_map)

lemma kid_items_drop: "kid_items (drop j kids) = drop j (kid_items kids)"
  by (cases kids) (simp_all add: kid_items_def drop_map tl_drop drop_Suc)

lemma kid_items_nth: "Suc i < length kids \<Longrightarrow> kid_items kids ! i = make_internal_item (fst (kids ! Suc i)) (snd (kids ! Suc i))"
  by (cases kids) (simp_all add: kid_items_def case_prod_beta)

lemma kids_at_node: "kids_at v pid kids \<Longrightarrow> node_at v pid PK_Internal (kid_items kids) (snd (hd kids))"
  by (simp add: kids_at_def)

lemma split_internal_spec:
  assumes o: "owns s U" and pid: "pid \<in> U" and nd: "node_at (view s) pid PK_Internal its x"
    and kids: "kid_items kids = insert_at i it its" "i \<le> length its" "snd (hd kids) = x"
    and len: "4 \<le> length kids" "length kids \<le> 600" and room: "room s (Suc m)"
  obtains s' rid j where "split_internal pid i it s = (Inr (fst (kids ! j), rid), s')"
    and "2 \<le> j" and "j + 2 \<le> length kids" and "rid \<notin> U" and "rid \<noteq> NO_PAGE" and "owns s' (insert rid U)"
    and "kids_at (view s') pid (take j kids)" and "kids_at (view s') rid (drop j kids)"
    and "untouched (U - {pid}) s s'" and "room s' m"
proof -
  let ?new = "kid_items kids"
  define j where "j = Suc (length ?new div 2)"
  have n: "length ?new = length kids - 1"
    by (simp add: kid_items_def)
  have j: "2 \<le> j" "j + 2 \<le> length kids" "j < length kids"
    using n len(1) unfolding j_def by auto
  obtain s1 p where s1: "with_page pid node_items s = (node_items p, s1)" "unseen s s1"
    "node_page p PK_Internal its x"
    by (rule with_node [OF owns_inv [OF o] nd])
  obtain rid s2 where s2: "alloc_page PK_Internal s1 = (Inr rid, s2)" "rid \<notin> U" "rid \<noteq> NO_PAGE"
    "owns s2 (insert rid U)" "untouched U s1 s2" "room s2 m"
    using alloc_spec [OF owns_unseen [OF o s1(2)]] room room_unseen [OF s1(2)] by metis
  have fits: "items_cost (kid_items (take j kids)) \<le> PAGE_SIZE - HEADER_SIZE"
    "items_cost (kid_items (drop j kids)) \<le> PAGE_SIZE - HEADER_SIZE"
  proof -
    have "length (take j kids) - 1 \<le> 510" "length (drop j kids) - 1 \<le> 510"
      using n len(2) unfolding j_def length_take length_drop by arith+
    then show "items_cost (kid_items (take j kids)) \<le> PAGE_SIZE - HEADER_SIZE"
      "items_cost (kid_items (drop j kids)) \<le> PAGE_SIZE - HEADER_SIZE"
      unfolding kid_items_cost by (simp_all add: layout)
  qed
  obtain s3 where s3: "fill_internal pid (kid_items (take j kids)) x s2 = (Inr (), s3)" "owns s3 (insert rid U)"
    "node_at (view s3) pid PK_Internal (kid_items (take j kids)) x" "untouched (insert rid U - {pid}) s2 s3"
    "\<forall>m. room s3 m = room s2 m"
    unfolding fill_internal_def by (rule fill_node_spec [OF s2(4) insertI2 [OF pid] fits(1)])
  obtain s4 where s4: "fill_internal rid (kid_items (drop j kids)) (snd (kids ! j)) s3 = (Inr (), s4)"
    "owns s4 (insert rid U)" "node_at (view s4) rid PK_Internal (kid_items (drop j kids)) (snd (kids ! j))"
    "untouched (insert rid U - {rid}) s3 s4" "\<forall>m. room s4 m = room s3 m"
    unfolding fill_internal_def by (rule fill_node_spec [OF s3(2) insertI1 fits(2)])
  have items: "take (length ?new div 2) ?new = kid_items (take j kids)"
    "drop (Suc (length ?new div 2)) ?new = kid_items (drop j kids)"
    "?new ! (length ?new div 2) = make_internal_item (fst (kids ! j)) (snd (kids ! j))"
    using kid_items_take [of "length ?new div 2" kids] kid_items_drop [of j kids]
      kid_items_nth [of "length ?new div 2" kids] j(3) by (simp_all add: j_def)
  have run: "split_internal pid i it s = (Inr (fst (kids ! j), rid), s4)"
    using s1(1) items_of_spec [OF s1(3)] kids(1,2) n len(1) items s2(1) s3(1) s4(1)
    by (simp add: split_internal_def bind_op_def Let_def vec_insert_def)
  have "node_at (view s4) pid PK_Internal (kid_items (take j kids)) x"
    using s3(3) untouched_node [OF s4(4), of pid] pid s2(2) by auto
  then have l: "kids_at (view s4) pid (take j kids)"
    using kids(3) j by (simp add: kids_at_def hd_take)
  have r: "kids_at (view s4) rid (drop j kids)"
    using s4(3) j by (simp add: kids_at_def hd_drop_conv_nth)
  have "untouched (U - {pid}) s s4"
    by (rule untouched_trans_same [OF untouched_trans_same [OF untouched_unseen [OF s1(2), of UNIV] s2(5), of U]
          untouched_trans [OF s3(4) s4(4)]]) (use s2(2) in auto)
  then show ?thesis
    using that [OF run j(1,2) s2(2,3) s4(2) l r] s4(5) s3(5) s2(6) by blast
qed

section \<open>Carrying a separator up\<close>

text \<open>
  A tree with its last split still to be entered: \<open>l\<close> is in the hole of the context, and \<open>r\<close>, which
  holds the keys from \<open>sep\<close> on, is not linked into its parent yet.
\<close>

definition pending :: "pager \<Rightarrow> page_id set \<Rightarrow> tree \<Rightarrow> u64 \<Rightarrow> tree \<Rightarrow> frame list \<Rightarrow> bool" where
  "pending s U l sep r ctx \<longleftrightarrow> owns s U \<and> tree_in (view s) l \<and> tree_in (view s) r \<and>
     ctx_in (view s) (root l) ctx \<and> distinct (pages l @ pages r @ ctx_pages ctx) \<and>
     set (pages l @ pages r @ ctx_pages ctx) \<subseteq> U \<and>
     links (view s) (ids_left ctx @ leaf_ids l @ leaf_ids r @ ids_right ctx) NO_PAGE \<and>
     (\<exists>h. balanced h l \<and> balanced h r \<and> ctx_balanced h ctx) \<and>
     (\<exists>lo hi. ctx_ok lo hi ctx \<and> lo < sep \<and> unat sep < hi \<and> tree_ok lo (unat sep) l \<and> tree_ok sep hi r)"

text \<open>The result: one tree with the leaves in order, which has taken only fresh pages.\<close>

definition settled :: "pager \<Rightarrow> page_id set \<Rightarrow> page_id set \<Rightarrow> (page_id \<times> entry list) list \<Rightarrow> tree \<Rightarrow> pager \<Rightarrow> bool" where
  "settled s U P ls t s' \<longleftrightarrow> btree s' (U \<union> set (pages t)) t \<and> leaves t = ls \<and> set (pages t) \<inter> U = P \<and>
     untouched (U - P) s s'"

lemma settled_inplace:
  assumes "P \<subseteq> U" and "btree s' U t" and "set (pages t) = P" and "leaves t = ls" and "untouched (U - P) s s'"
  shows "settled s U P ls t s'"
  using assms by (simp add: settled_def Un_absorb2 Int_absorb2)

lemma kid_items_insert:
  "kid_items (xs @ (b, c) # (k, r) # ys) = insert_at (length xs) (make_internal_item k r) (kid_items (xs @ (b, c) # ys))"
  by (cases xs) (simp_all add: kid_items_def insert_at_def)

lemma separator_slot:
  assumes "sorted_wrt (<) (map fst (xs @ (b, c) # ys))" and "b < sep" and "\<forall>(k, _)\<in>set ys. sep < k"
  shows "slot_of sep (kid_items (xs @ (b, c) # ys)) = Inl (length xs)"
proof (cases xs)
  case Nil
  then show ?thesis
    using slot_of_absent [of "[]" sep "kid_items ((b, c) # ys)"] assms(3) by (simp add: case_prod_beta)
next
  case (Cons x xs')
  let ?l = "map (\<lambda>(k, c). make_internal_item k c) (xs' @ [(b, c)])"
  have "\<forall>it\<in>set ?l. item_key it < sep"
    using assms(1,2) Cons by (auto simp: sorted_wrt_append intro: less_trans)
  then have "slot_of sep (?l @ map (\<lambda>(k, c). make_internal_item k c) ys) = Inl (length ?l)"
    using assms(3) by (intro slot_of_absent) auto
  then show ?thesis
    using Cons by simp
qed

lemma sorted_kid_items: "sorted_wrt (<) (map fst kids) \<Longrightarrow> sorted_items (kid_items kids)"
  unfolding sorted_items_def kid_items_keys by (cases kids) auto

text \<open>At the top: a new root above the two trees.\<close>

lemma propagate_root:
  assumes p: "pending s U l sep r []" and room: "room s (Suc m)"
  shows "\<exists>t s'. propagate_up (root l) [] sep (root r) s = (Inr (root t), s') \<and>
    settled s U (set (pages l @ pages r)) (leaves l @ leaves r) t s' \<and> room s' m"
proof -
  have o: "owns s U" and l: "tree_in (view s) l" and r: "tree_in (view s) r"
    and d: "distinct (pages l @ pages r)" and sub: "set (pages l @ pages r) \<subseteq> U"
    and lk: "links (view s) (leaf_ids l @ leaf_ids r) NO_PAGE"
    and ok: "0 < sep" "unat sep < KEY_LIMIT" "tree_ok 0 (unat sep) l" "tree_ok sep KEY_LIMIT r"
    using p by (auto simp: pending_def)
  obtain h where h: "balanced h l" "balanced h r"
    using p by (auto simp: pending_def)
  obtain pid s1 where a: "alloc_page PK_Internal s = (Inr pid, s1)" "pid \<notin> U" "pid \<noteq> NO_PAGE"
    "owns s1 (insert pid U)" "view s1 pid = Some (content (page_new PK_Internal))" "untouched U s s1" "room s1 m"
    by (rule alloc_spec [OF o room])
  have nd: "node_at (view s1) pid PK_Internal [] 0"
    by (rule node_at_content, rule node_page_new, rule a(5))
  let ?f = "\<lambda>p. bind_res (insert_item 0 (make_internal_item sep (root r)) (set_extra (root l) p))
      (\<lambda>(inserted, q). Inr ((), q))"
  let ?t = "Node pid [(0, l), (sep, r)]"
  obtain p s2 where p: "node_page p PK_Internal [] 0"
    and upd: "\<And>x q k' its' x'. ?f p = Inr (x, q) \<Longrightarrow> node_page q k' its' x' \<Longrightarrow>
      with_page_mut pid ?f s1 = (Inr x, s2) \<and> wrote pid (content q) s1 s2 \<and> node_at (view s2) pid k' its' x'"
    by (rule with_node_mut [OF owns_inv [OF a(4)] nd, of ?f]) blast
  have e: "node_page (set_extra (root l) p) PK_Internal [] (root l)"
    by (rule node_page_set_extra(1) [OF p])
  then have "free_space (set_extra (root l) p) = PAGE_SIZE - HEADER_SIZE"
    by (simp add: node_page_def)
  then obtain q where q: "insert_item 0 (make_internal_item sep (root r)) (set_extra (root l) p) = Inr (True, q)"
    "node_page q PK_Internal [make_internal_item sep (root r)] (root l)"
    using node_page_insert [OF e, of 0 "make_internal_item sep (root r)"] by (auto simp: item_cost_def layout insert_at_def)
  have s2: "with_page_mut pid ?f s1 = (Inr (), s2)" "wrote pid (content q) s1 s2"
    "node_at (view s2) pid PK_Internal [make_internal_item sep (root r)] (root l)"
    using upd [OF _ q(2)] q(1) by auto
  have run: "propagate_up (root l) [] sep (root r) s = (Inr (root ?t), s2)"
    using a(1) s2(1) by (simp add: bind_op_def)
  have un: "untouched U s s2"
    by (rule untouched_trans_same [OF a(6) untouched_wrote [OF s2(2) a(2)]]) auto
  have "set (leaf_ids l @ leaf_ids r) \<subseteq> U"
    using sub leaf_ids_pages [of l] leaf_ids_pages [of r] by auto
  then have "tree_in (view s2) l" "tree_in (view s2) r" "links (view s2) (leaf_ids l @ leaf_ids r) NO_PAGE"
    using untouched_tree [OF un] untouched_links [OF un] l r lk sub by auto
  moreover have "tree_ok 0 KEY_LIMIT ?t"
    using ok by (simp add: word_less_nat_alt)
  moreover have "balanced (Suc h) ?t"
    using h by simp
  moreover have "distinct (pages ?t)" "set (pages ?t) \<subseteq> insert pid U"
    using d sub a(2) by auto
  ultimately have "btree s2 (insert pid U) ?t"
    unfolding btree_def using owns_wrote [OF a(4) s2(2)] s2(3) by (auto simp: kids_at_def)
  moreover have "U \<union> set (pages ?t) = insert pid U" "set (pages ?t) \<inter> U = set (pages l @ pages r)"
    using sub a(2) by auto
  ultimately have "settled s U (set (pages l @ pages r)) (leaves l @ leaves r) ?t s2"
    using untouched_mono [OF un] by (simp add: settled_def)
  then show ?thesis
    using run a(7) room_wrote [OF s2(2)] by blast
qed

text \<open>The parent with the new child, and its two halves.\<close>

lemma join_ok:
  assumes "ctx_ok lo hi ((pid, xs, b, ys) # ctx)" and "lo < sep" and "unat sep < hi"
    and "tree_ok lo (unat sep) l" and "tree_ok sep hi r"
  obtains LO HI where "ctx_ok LO HI ctx" and "tree_ok LO HI (Node pid (xs @ (b, l) # (sep, r) # ys))"
    and "hi = next_key HI ys" and "b = lo"
proof -
  obtain LO HI where c: "ctx_ok LO HI ctx" "LO = fst (hd (xs @ [(b, Leaf 0 [])]))" "hi = next_key HI ys"
    "span (unat b) xs" "span HI ys" "unat b < hi" "lo = b"
    using assms(1) by auto
  have "span HI (xs @ (b, l) # (sep, r) # ys)"
    using c assms(2-5) by (simp add: span_append word_less_nat_alt)
  moreover have "fst (hd (xs @ (b, l) # (sep, r) # ys)) = LO"
    using c(2) by (cases xs) auto
  ultimately have "tree_ok LO HI (Node pid (xs @ (b, l) # (sep, r) # ys))"
    by simp
  then show ?thesis
    by (rule that [OF c(1) _ c(3) c(7) [symmetric]])
qed

lemma split_ok:
  assumes "tree_ok lo hi (Node pid (A @ B))" and "A \<noteq> []" and "B \<noteq> []"
  shows "tree_ok lo (unat (fst (hd B))) (Node pid A)" and "tree_ok (fst (hd B)) hi (Node rid B)"
    and "lo < fst (hd B)" and "unat (fst (hd B)) < hi"
proof -
  have s: "span hi (A @ B)" "fst (hd A) = lo"
    using assms(1,2) by auto
  obtain k t B' where B: "B = (k, t) # B'"
    using assms(3) by (cases B) auto
  show "tree_ok lo (unat (fst (hd B))) (Node pid A)" "tree_ok (fst (hd B)) hi (Node rid B)"
    using s assms(2) B by (simp_all add: span_append)
  show "lo < fst (hd B)" "unat (fst (hd B)) < hi"
    using span_keys [OF s(1)] s(2) assms(2) B by (cases A; auto simp: sorted_wrt_append)+
qed

lemma root_plug: "root t = root t' \<Longrightarrow> root (plug t ctx) = root (plug t' ctx)"
  by (induction ctx arbitrary: t t') (auto simp: split_paired_all)

lemma kids_at_free:
  assumes "node_page p PK_Internal (kid_items kids) x"
  shows "free_space p + 16 * (length kids - 1) = 8168"
  using assms by (simp add: node_page_def kid_items_cost layout)

lemma pending_parent:
  assumes "pending s U l sep r ((pid, xs, b, ys) # ctx)"
  shows "sorted_wrt (<) (map fst (kid_ids xs @ (b, root l) # kid_ids ys))" and "b < sep"
    and "\<forall>(k, _)\<in>set (kid_ids ys). sep < k"
    and "kids_at (view s) pid (kid_ids xs @ (b, root l) # kid_ids ys)" and "pid \<in> U"
proof -
  obtain lo hi where ok: "ctx_ok lo hi ((pid, xs, b, ys) # ctx)" "lo < sep" "unat sep < hi"
    "tree_ok lo (unat sep) l" "tree_ok sep hi r"
    using assms unfolding pending_def by blast
  obtain LO HI where j: "tree_ok LO HI (Node pid (xs @ (b, l) # (sep, r) # ys))" "b = lo"
    by (rule join_ok [OF ok])
  have "sorted_wrt (<) (map fst (xs @ (b, l) # (sep, r) # ys))"
    using j(1) span_keys [of HI "xs @ (b, l) # (sep, r) # ys"] by simp
  then show "sorted_wrt (<) (map fst (kid_ids xs @ (b, root l) # kid_ids ys))" "b < sep"
      "\<forall>(k, _)\<in>set (kid_ids ys). sep < k"
    using j(2) ok(2) by (auto simp: sorted_wrt_append map_fst_kid_ids) (auto simp: kid_ids_def)
  show "kids_at (view s) pid (kid_ids xs @ (b, root l) # kid_ids ys)" "pid \<in> U"
    using assms by (auto simp: pending_def)
qed

lemma pages_kids: "mset (pages (Node pid kids)) = add_mset pid (\<Sum>(k, t)\<leftarrow>kids. mset (pages t))"
  by (induction kids) (auto simp: ac_simps)

lemma kid_pages: "(k, t) \<in> set kids \<Longrightarrow> set (pages t) \<subseteq> set (concat (map (\<lambda>(k, t). pages t) kids))"
  by force

lemma ids_ctx_pages: "set (ids_left ctx @ ids_right ctx) \<subseteq> set (ctx_pages ctx)"
proof (induction ctx)
  case (Cons f ctx)
  obtain pid xs b ys where f: "f = (pid, xs, b, ys)"
    by (cases f) auto
  have "set (leaf_ids (Node pid (xs @ ys))) \<subseteq> set (pages (Node pid (xs @ ys)))"
    by (rule leaf_ids_pages)
  then show ?case
    using Cons.IH leaf_ids_pages f by fastforce
qed simp

text \<open>What stays around a parent that takes a child in.\<close>

lemma pending_kept:
  assumes p: "pending s U l sep r ((pid, xs, b, ys) # ctx)" and un: "untouched (U - {pid}) s s'"
  shows "\<forall>(k, t)\<in>set (xs @ (b, l) # (sep, r) # ys). tree_in (view s') t"
    and "ctx_in (view s') pid ctx"
    and "links (view s') (ids_left ctx @ leaf_ids (Node pid (xs @ (b, l) # (sep, r) # ys)) @ ids_right ctx) NO_PAGE"
    and "mset (pages (Node pid (xs @ (b, l) # (sep, r) # ys)) @ ctx_pages ctx) =
      mset (pages l @ pages r @ ctx_pages ((pid, xs, b, ys) # ctx))"
    and "\<exists>h. (\<forall>(k, t)\<in>set (xs @ (b, l) # (sep, r) # ys). balanced h t) \<and> ctx_balanced (Suc h) ctx"
proof -
  have d: "distinct (pages l @ pages r @ ctx_pages ((pid, xs, b, ys) # ctx))"
    and sub: "set (pages l @ pages r @ ctx_pages ((pid, xs, b, ys) # ctx)) \<subseteq> U"
    using p by (simp_all add: pending_def)
  have ts: "tree_in (view s) t" if "(k, t) \<in> set (xs @ (b, l) # (sep, r) # ys)" for k t
    using p that by (auto simp: pending_def)
  have pg: "set (pages t) \<subseteq> U - {pid}" if "(k, t) \<in> set (xs @ (b, l) # (sep, r) # ys)" for k t
  proof -
    let ?K = "set (concat (map (\<lambda>(k, t). pages t) (xs @ ys)))"
    have "pid \<notin> set (pages l) \<union> set (pages r) \<union> ?K" "set (pages l) \<union> set (pages r) \<union> ?K \<subseteq> U"
      using d sub by (auto simp del: set_concat)
    moreover have "t = l \<or> t = r \<or> (k, t) \<in> set (xs @ ys)"
      using that by auto
    ultimately show ?thesis
      using kid_pages [of k t "xs @ ys"] by blast
  qed
  then show "\<forall>(k, t)\<in>set (xs @ (b, l) # (sep, r) # ys). tree_in (view s') t"
    using untouched_tree [OF un] ts by fast
  have "set (ctx_pages ctx) \<subseteq> U - {pid}"
    using d sub by auto
  then show "ctx_in (view s') pid ctx"
    using p untouched_ctx [OF un] by (simp add: pending_def)
  have ids: "ids_left ctx @ leaf_ids (Node pid (xs @ (b, l) # (sep, r) # ys)) @ ids_right ctx =
      ids_left ((pid, xs, b, ys) # ctx) @ leaf_ids l @ leaf_ids r @ ids_right ((pid, xs, b, ys) # ctx)"
    by simp
  have "set (ids_left ctx @ leaf_ids (Node pid (xs @ (b, l) # (sep, r) # ys)) @ ids_right ctx) \<subseteq> U - {pid}"
  proof -
    have "set (leaf_ids (Node pid (xs @ (b, l) # (sep, r) # ys))) \<subseteq> U - {pid}"
      using pg leaf_ids_pages by fastforce
    moreover have "set (ids_left ctx @ ids_right ctx) \<subseteq> set (ctx_pages ctx)"
      by (rule ids_ctx_pages)
    ultimately show ?thesis
      using \<open>set (ctx_pages ctx) \<subseteq> U - {pid}\<close> by auto
  qed
  then show "links (view s') (ids_left ctx @ leaf_ids (Node pid (xs @ (b, l) # (sep, r) # ys)) @ ids_right ctx) NO_PAGE"
    using untouched_links [OF un] p ids unfolding pending_def by metis
  show "mset (pages (Node pid (xs @ (b, l) # (sep, r) # ys)) @ ctx_pages ctx) =
      mset (pages l @ pages r @ ctx_pages ((pid, xs, b, ys) # ctx))"
    by simp
  show "\<exists>h. (\<forall>(k, t)\<in>set (xs @ (b, l) # (sep, r) # ys). balanced h t) \<and> ctx_balanced (Suc h) ctx"
    using p by (fastforce simp: pending_def)
qed

lemma settle_parent:
  assumes p: "pending s U l sep r ((pid, xs, b, ys) # ctx)" and un: "untouched (U - {pid}) s s'"
    and o: "owns s' U" and k: "kids_at (view s') pid (kid_ids (xs @ (b, l) # (sep, r) # ys))"
  shows "settled s U (set (pages l @ pages r @ ctx_pages ((pid, xs, b, ys) # ctx)))
    (leaves_left ((pid, xs, b, ys) # ctx) @ leaves l @ leaves r @ leaves_right ((pid, xs, b, ys) # ctx))
    (plug (Node pid (xs @ (b, l) # (sep, r) # ys)) ctx) s'"
proof -
  let ?n = "Node pid (xs @ (b, l) # (sep, r) # ys)" and ?P = "pages l @ pages r @ ctx_pages ((pid, xs, b, ys) # ctx)"
  note kept = pending_kept [OF p un]
  have P: "distinct ?P" "set ?P \<subseteq> U"
    using p by (simp_all add: pending_def)
  obtain lo hi where ok: "ctx_ok lo hi ((pid, xs, b, ys) # ctx)" "lo < sep" "unat sep < hi"
    "tree_ok lo (unat sep) l" "tree_ok sep hi r"
    using p unfolding pending_def by blast
  obtain LO HI where j: "ctx_ok LO HI ctx" "tree_ok LO HI ?n"
    by (rule join_ok [OF ok])
  have "tree_in (view s') (plug ?n ctx)"
    using kept(1,2) k by (simp add: tree_in_plug)
  moreover have "links (view s') (leaf_ids (plug ?n ctx)) NO_PAGE"
    using kept(3) by (simp only: leaf_ids_plug)
  moreover have "tree_ok 0 KEY_LIMIT (plug ?n ctx)"
    using j by (auto simp only: tree_ok_plug)
  moreover have "\<exists>h. balanced h (plug ?n ctx)"
    unfolding balanced_plug using kept(5) by auto
  moreover have m: "mset (pages (plug ?n ctx)) = mset ?P"
    using kept(4) by (simp only: mset_pages_plug)
  moreover have "distinct (pages (plug ?n ctx))" "set (pages (plug ?n ctx)) = set ?P"
    using P(1) mset_eq_imp_distinct_iff [OF m] mset_eq_setD [OF m] by simp_all
  ultimately have "btree s' U (plug ?n ctx)" "set (pages (plug ?n ctx)) = set ?P"
    using o P(2) by (simp_all add: btree_def)
  moreover have "untouched (U - set ?P) s s'"
    by (rule untouched_mono [OF un]) auto
  moreover have "leaves (plug ?n ctx) = leaves_left ((pid, xs, b, ys) # ctx) @ leaves l @ leaves r @
      leaves_right ((pid, xs, b, ys) # ctx)"
    by (simp add: leaves_plug)
  ultimately show ?thesis
    by (intro settled_inplace P(2))
qed

lemma pend_parent:
  assumes p: "pending s U l sep r ((pid, xs, b, ys) # ctx)" and un: "untouched (U - {pid}) s s'"
    and o: "owns s' (insert rid U)" and rid: "rid \<notin> U"
    and AB: "xs @ (b, l) # (sep, r) # ys = A @ B" "A \<noteq> []" "B \<noteq> []"
    and k: "kids_at (view s') pid (kid_ids A)" "kids_at (view s') rid (kid_ids B)"
  shows "pending s' (insert rid U) (Node pid A) (fst (hd B)) (Node rid B) ctx"
proof -
  let ?P = "pages l @ pages r @ ctx_pages ((pid, xs, b, ys) # ctx)"
  note kept = pending_kept [OF p un, unfolded AB(1)]
  have P: "distinct ?P" "set ?P \<subseteq> U"
    using p by (simp_all add: pending_def)
  obtain lo hi where ok: "ctx_ok lo hi ((pid, xs, b, ys) # ctx)" "lo < sep" "unat sep < hi"
    "tree_ok lo (unat sep) l" "tree_ok sep hi r"
    using p unfolding pending_def by blast
  obtain LO HI where j: "ctx_ok LO HI ctx" "tree_ok LO HI (Node pid (A @ B))"
    using join_ok [OF ok] AB(1) by metis
  note so = split_ok [OF j(2) AB(2,3)]
  have "mset (pages (Node pid A) @ pages (Node rid B) @ ctx_pages ctx) = add_mset rid (mset ?P)"
    using kept(4) by simp
  then have m: "mset (pages (Node pid A) @ pages (Node rid B) @ ctx_pages ctx) = mset (rid # ?P)"
    by (simp only: mset.simps)
  have "rid \<notin> set ?P"
    using P(2) rid by blast
  then have "distinct (pages (Node pid A) @ pages (Node rid B) @ ctx_pages ctx)"
    unfolding mset_eq_imp_distinct_iff [OF m] using P(1) by (simp only: distinct.simps simp_thms)
  moreover have "set (pages (Node pid A) @ pages (Node rid B) @ ctx_pages ctx) \<subseteq> insert rid U"
    unfolding mset_eq_setD [OF m] using P(2) by (simp only: list.simps insert_mono)
  moreover have "tree_in (view s') (Node pid A)" "tree_in (view s') (Node rid B)"
    using kept(1) k by auto
  moreover have "ctx_in (view s') (root (Node pid A)) ctx"
    using kept(2) by simp
  moreover have "links (view s') (ids_left ctx @ leaf_ids (Node pid A) @ leaf_ids (Node rid B) @ ids_right ctx) NO_PAGE"
    using kept(3) by simp
  moreover obtain h where "\<forall>(k, t)\<in>set (A @ B). balanced h t" "ctx_balanced (Suc h) ctx"
    using kept(5) by blast
  then have "balanced (Suc h) (Node pid A) \<and> balanced (Suc h) (Node rid B) \<and> ctx_balanced (Suc h) ctx"
    by auto
  then have "\<exists>h. balanced h (Node pid A) \<and> balanced h (Node rid B) \<and> ctx_balanced h ctx"
    by (rule exI)
  ultimately show ?thesis
    unfolding pending_def using o j(1) so by blast
qed

lemma fresh_page:
  assumes "rid \<notin> U" and "P \<subseteq> U" and "pid \<in> P" and "T \<inter> insert rid U = insert rid P"
  shows "insert rid U \<union> T = U \<union> T" and "T \<inter> U = P" and "U - P \<subseteq> insert rid U - insert rid P" and "U - P \<subseteq> U - {pid}"
  using assms by auto

lemma settled_up:
  assumes p: "pending s U l sep r ((pid, xs, b, ys) # ctx)" and un: "untouched (U - {pid}) s s1" and rid: "rid \<notin> U"
    and AB: "xs @ (b, l) # (sep, r) # ys = A @ B"
    and st: "settled s1 (insert rid U) (set (pages (Node pid A) @ pages (Node rid B) @ ctx_pages ctx))
      (leaves_left ctx @ leaves (Node pid A) @ leaves (Node rid B) @ leaves_right ctx) t s'"
  shows "settled s U (set (pages l @ pages r @ ctx_pages ((pid, xs, b, ys) # ctx)))
    (leaves_left ((pid, xs, b, ys) # ctx) @ leaves l @ leaves r @ leaves_right ((pid, xs, b, ys) # ctx)) t s'"
proof -
  let ?P = "pages l @ pages r @ ctx_pages ((pid, xs, b, ys) # ctx)"
  let ?Q = "pages (Node pid A) @ pages (Node rid B) @ ctx_pages ctx"
  have "mset ?Q = add_mset rid (mset ?P)"
    using pending_kept(4) [OF p un, unfolded AB] by simp
  then have "mset ?Q = mset (rid # ?P)"
    by (simp only: mset.simps)
  from mset_eq_setD [OF this] have Q: "set ?Q = insert rid (set ?P)"
    by (simp only: list.simps)
  have P: "set ?P \<subseteq> U" "pid \<in> set ?P"
    using p by (simp_all add: pending_def)
  have t: "btree s' (insert rid U \<union> set (pages t)) t" "set (pages t) \<inter> insert rid U = insert rid (set ?P)"
    "untouched (insert rid U - insert rid (set ?P)) s1 s'"
    using st unfolding settled_def Q by auto
  have "insert rid U \<union> set (pages t) = U \<union> set (pages t)" "set (pages t) \<inter> U = set ?P"
    "U - set ?P \<subseteq> insert rid U - insert rid (set ?P)" "U - set ?P \<subseteq> U - {pid}"
    by (rule fresh_page [OF rid P t(2)])+
  moreover have "leaves_left ctx @ leaves (Node pid A) @ leaves (Node rid B) @ leaves_right ctx =
      leaves_left ctx @ leaves (Node pid (xs @ (b, l) # (sep, r) # ys)) @ leaves_right ctx"
    unfolding AB by simp
  then have "leaves t = leaves_left ((pid, xs, b, ys) # ctx) @ leaves l @ leaves r @ leaves_right ((pid, xs, b, ys) # ctx)"
    using st by (simp add: settled_def)
  moreover have "untouched (U - set ?P) s s'"
    by (rule untouched_trans_same [OF un t(3)]) fact+
  ultimately show ?thesis
    unfolding settled_def using t(1) by metis
qed

text \<open>Entering the new child: either the parent has room for it, or it is full and splits.\<close>

lemma enter_child:
  assumes p: "pending s U l sep r ((pid, xs, b, ys) # ctx)" and room: "room s (Suc m)"
  obtains (fits) s1 s' where "with_page pid (\<lambda>p. slot_search p sep) s = (Inr (Inl (length xs)), s1)"
      and "with_page_mut pid (insert_item (length xs) (make_internal_item sep (root r))) s1 = (Inr True, s')"
      and "owns s' U" and "untouched (U - {pid}) s s'"
      and "kids_at (view s') pid (kid_ids (xs @ (b, l) # (sep, r) # ys))" and "room s' (Suc m)"
    | (full) s1 s2 s' rid A B where "with_page pid (\<lambda>p. slot_search p sep) s = (Inr (Inl (length xs)), s1)"
      and "with_page_mut pid (insert_item (length xs) (make_internal_item sep (root r))) s1 = (Inr False, s2)"
      and "split_internal pid (length xs) (make_internal_item sep (root r)) s2 = (Inr (fst (hd B), rid), s')"
      and "xs @ (b, l) # (sep, r) # ys = A @ B" and "A \<noteq> []" and "B \<noteq> []" and "rid \<notin> U"
      and "owns s' (insert rid U)" and "untouched (U - {pid}) s s'" and "room s' m"
      and "kids_at (view s') pid (kid_ids A)" and "kids_at (view s') rid (kid_ids B)"
proof -
  let ?it = "make_internal_item sep (root r)" and ?old = "kid_ids xs @ (b, root l) # kid_ids ys"
  let ?kids = "xs @ (b, l) # (sep, r) # ys"
  note pp = pending_parent [OF p]
  have o: "owns s U"
    using p by (simp add: pending_def)
  have new: "kid_items (kid_ids ?kids) = insert_at (length xs) ?it (kid_items ?old)" "snd (hd (kid_ids ?kids)) = snd (hd ?old)"
    using kid_items_insert [of "kid_ids xs" b "root l" sep "root r" "kid_ids ys"] by (simp, cases xs, auto simp: kid_ids_def)
  have len: "length xs \<le> length (kid_items ?old)"
    by (simp add: kid_items_def)
  note nd = kids_at_node [OF pp(4)]
  obtain s1 p1 where s1: "with_page pid (\<lambda>p. slot_search p sep) s = (slot_search p1 sep, s1)" "unseen s s1"
    and p1: "node_page p1 PK_Internal (kid_items ?old) (snd (hd ?old))"
    by (rule with_node [OF owns_inv [OF o] nd])
  have "slot_search p1 sep = Inr (slot_of sep (kid_items ?old))"
    using slot_search_spec [OF node_page_layout [OF p1], of sep] sorted_kid_items [OF pp(1)] p1 by (simp add: node_page_def)
  then have search: "with_page pid (\<lambda>p. slot_search p sep) s = (Inr (Inl (length xs)), s1)"
    using s1(1) separator_slot [OF pp(1-3)] by simp
  have o1: "owns s1 U"
    by (rule owns_unseen [OF o s1(2)])
  have nd1: "node_at (view s1) pid PK_Internal (kid_items ?old) (snd (hd ?old))"
    using nd node_at_unseen [OF s1(2)] by simp
  obtain p2 s2 where p2: "node_page p2 PK_Internal (kid_items ?old) (snd (hd ?old))"
    and upd: "\<And>x q k' its' x'. insert_item (length xs) ?it p2 = Inr (x, q) \<Longrightarrow> node_page q k' its' x' \<Longrightarrow>
      with_page_mut pid (insert_item (length xs) ?it) s1 = (Inr x, s2) \<and> wrote pid (content q) s1 s2 \<and>
      node_at (view s2) pid k' its' x'"
    by (rule with_node_mut [OF owns_inv [OF o1] nd1, of "insert_item (length xs) ?it"]) blast
  have un2: "untouched (U - {pid}) s s2" if "wrote pid c s1 s2" for c
    by (rule untouched_trans_same [OF untouched_unseen [OF s1(2), of UNIV] untouched_wrote [OF that, of "U - {pid}"]]) auto
  note ins = node_page_insert [OF p2 len, of ?it]
  show ?thesis
  proof (cases "item_cost (length ?it) \<le> free_space p2")
    case True
    then obtain q where "insert_item (length xs) ?it p2 = Inr (True, q)"
      "node_page q PK_Internal (kid_items (kid_ids ?kids)) (snd (hd (kid_ids ?kids)))"
      using ins new by auto
    then have s2: "with_page_mut pid (insert_item (length xs) ?it) s1 = (Inr True, s2)" "wrote pid (content q) s1 s2"
      "node_at (view s2) pid PK_Internal (kid_items (kid_ids ?kids)) (snd (hd (kid_ids ?kids)))"
      using upd by blast+
    have "kids_at (view s2) pid (kid_ids ?kids)"
      using s2(3) by (simp add: kids_at_def)
    moreover have "room s2 (Suc m)"
      using room room_unseen [OF s1(2)] room_wrote [OF s2(2)] by simp
    ultimately show ?thesis
      by (rule fits [OF search s2(1) owns_wrote [OF o1 s2(2) pp(5)] un2 [OF s2(2)]])
  next
    case False
    then have s2: "with_page_mut pid (insert_item (length xs) ?it) s1 = (Inr False, s2)" "wrote pid (content p2) s1 s2"
      "node_at (view s2) pid PK_Internal (kid_items ?old) (snd (hd ?old))"
      using ins upd [OF _ p2] by auto
    have size: "4 \<le> length (kid_ids ?kids)" "length (kid_ids ?kids) \<le> 600"
      using kids_at_free [OF p2] False by (simp_all add: item_cost_def layout)
    have "room s2 (Suc m)"
      using room room_unseen [OF s1(2)] room_wrote [OF s2(2)] by simp
    then obtain s' rid j where sp: "split_internal pid (length xs) ?it s2 = (Inr (fst (kid_ids ?kids ! j), rid), s')"
      "2 \<le> j" "j + 2 \<le> length (kid_ids ?kids)" "rid \<notin> U" "rid \<noteq> NO_PAGE" "owns s' (insert rid U)"
      "kids_at (view s') pid (take j (kid_ids ?kids))" "kids_at (view s') rid (drop j (kid_ids ?kids))"
      "untouched (U - {pid}) s2 s'" "room s' m"
      by (rule split_internal_spec [OF owns_wrote [OF o1 s2(2) pp(5)] pp(5) s2(3) new(1) len new(2) size])
    have j: "take j ?kids \<noteq> []" "drop j ?kids \<noteq> []" "fst (kid_ids ?kids ! j) = fst (hd (drop j ?kids))"
      using sp(2,3) by (auto simp: hd_drop_conv_nth kid_ids_def case_prod_beta simp del: drop_append take_append map_append nth_append)
    have k: "kids_at (view s') pid (kid_ids (take j ?kids))" "kids_at (view s') rid (kid_ids (drop j ?kids))"
      using sp(7,8) by (simp_all only: kid_ids_def take_map drop_map)
    have "untouched (U - {pid}) s s'"
      by (rule untouched_trans_same [OF un2 [OF s2(2)] sp(9)]) auto
    from full [OF search s2(1) sp(1) [unfolded j(3)] append_take_drop_id [symmetric] j(1,2) sp(4,6) this sp(10) k]
    show ?thesis .
  qed
qed

lemma propagate_up_spec:
  assumes "pending s U l sep r ctx" and "room s (Suc (length ctx + m))"
  shows "\<exists>t s'. propagate_up (root (plug l ctx)) (path_of ctx) sep (root r) s = (Inr (root t), s') \<and>
    settled s U (set (pages l @ pages r @ ctx_pages ctx))
      (leaves_left ctx @ leaves l @ leaves r @ leaves_right ctx) t s' \<and> room s' m"
  using assms
proof (induction ctx arbitrary: s U l sep r)
  case Nil
  then show ?case
    using propagate_root [OF Nil.prems(1), of m] by (simp add: path_of_def)
next
  case (Cons f ctx)
  obtain pid xs b ys where f: "f = (pid, xs, b, ys)"
    by (cases f) auto
  let ?kids = "xs @ (b, l) # (sep, r) # ys" and ?P = "set (pages l @ pages r @ ctx_pages (f # ctx))"
  have p: "pending s U l sep r ((pid, xs, b, ys) # ctx)"
    using Cons.prems(1) f by simp
  have path: "path_of (f # ctx) = pid # path_of ctx"
    using f by (simp add: path_of_def)
  from p show ?case
  proof (rule enter_child [of s U l sep r pid xs b ys ctx "Suc (length ctx + m)"])
    show "room s (Suc (Suc (length ctx + m)))"
      using Cons.prems(2) by simp
  next
    fix s1 s'
    assume e: "with_page pid (\<lambda>p. slot_search p sep) s = (Inr (Inl (length xs)), s1)"
      "with_page_mut pid (insert_item (length xs) (make_internal_item sep (root r))) s1 = (Inr True, s')"
      "owns s' U" "untouched (U - {pid}) s s'" "kids_at (view s') pid (kid_ids ?kids)"
      "room s' (Suc (Suc (length ctx + m)))"
    let ?t = "plug (Node pid ?kids) ctx"
    have "root ?t = root (plug l (f # ctx))"
      using f by (auto intro: root_plug)
    moreover have "settled s U ?P (leaves_left (f # ctx) @ leaves l @ leaves r @ leaves_right (f # ctx)) ?t s'"
      unfolding f by (rule settle_parent [OF p e(4,3,5)])
    moreover have "room s' m"
      by (rule room_mono [OF e(6)]) simp
    ultimately show ?thesis
      using e(1,2) path by (intro exI [of _ ?t] exI [of _ s']) (simp add: bind_op_def)
  next
    fix s1 s2 s' rid A B
    assume e: "with_page pid (\<lambda>p. slot_search p sep) s = (Inr (Inl (length xs)), s1)"
      "with_page_mut pid (insert_item (length xs) (make_internal_item sep (root r))) s1 = (Inr False, s2)"
      "split_internal pid (length xs) (make_internal_item sep (root r)) s2 = (Inr (fst (hd B), rid), s')"
      "?kids = A @ B" "A \<noteq> []" "B \<noteq> []" "rid \<notin> U" "owns s' (insert rid U)" "untouched (U - {pid}) s s'"
      "room s' (Suc (length ctx + m))" "kids_at (view s') pid (kid_ids A)" "kids_at (view s') rid (kid_ids B)"
    have pend: "pending s' (insert rid U) (Node pid A) (fst (hd B)) (Node rid B) ctx"
      by (rule pend_parent [OF p e(9,8,7,4,5,6,11,12)])
    obtain t s'' where up: "propagate_up (root (plug (Node pid A) ctx)) (path_of ctx) (fst (hd B)) rid s' = (Inr (root t), s'')"
      and st: "settled s' (insert rid U) (set (pages (Node pid A) @ pages (Node rid B) @ ctx_pages ctx))
        (leaves_left ctx @ leaves (Node pid A) @ leaves (Node rid B) @ leaves_right ctx) t s''" "room s'' m"
      using Cons.IH [OF pend e(10)] by auto
    have r: "root (plug l (f # ctx)) = root (plug (Node pid A) ctx)"
      using f by (auto intro: root_plug)
    have "propagate_up (root (plug l (f # ctx))) (path_of (f # ctx)) sep (root r) s = (Inr (root t), s'')"
      using e(1-3) up path r by (simp add: bind_op_def)
    moreover have "settled s U ?P (leaves_left (f # ctx) @ leaves l @ leaves r @ leaves_right (f # ctx)) t s''"
      unfolding f by (rule settled_up [OF p e(9,7,4) st(1)])
    ultimately show ?thesis
      using st(2) by blast
  qed
qed

end
