(* ===== verification/Btree_Update.thy ===== *)
theory Btree_Update
  imports Btree_Split
begin

text \<open>
  Changing a B+-tree: creation, insertion or replacement, removal and destruction, each as a
  change of the abstract tree that leaves every other page of the file alone.
\<close>

section \<open>Items of a leaf\<close>

lemma node_page_replace:
  assumes p: "node_page p PK_Leaf its x" and i: "i < length its"
  shows "if items_cost (its[i := it]) \<le> PAGE_SIZE - HEADER_SIZE
    then \<exists>q. replace_item i it p = Inr (True, q) \<and> node_page q PK_Leaf (its[i := it]) x
    else replace_item i it p = Inr (False, p)"
proof -
  have inv: "page_inv p" and its: "page_items p = its" and ix: "i < slot_count p"
    using p i by (auto simp: node_page_def)
  show ?thesis
  proof (cases "items_cost (its[i := it]) \<le> PAGE_SIZE - HEADER_SIZE")
    case True
    then obtain q where q: "replace_item i it p = Inr (True, q)" "page_inv q" "page_items q = its[i := it]" "same_header p q"
      using replace_item_spec [OF inv ix, of it] its by auto
    then have "node_page q PK_Leaf (its[i := it]) x"
      using p same_header_kind [OF q(4)] by (simp add: node_page_def same_header_def)
    then show ?thesis
      using q(1) True by auto
  next
    case False
    then show ?thesis
      using replace_item_spec [OF inv ix, of it] its by simp
  qed
qed

lemma node_page_remove:
  assumes p: "node_page p PK_Leaf its x" and i: "i < length its"
  obtains q where "remove_item i p = Inr q" and "node_page q PK_Leaf (remove_at i its) x"
    and "free_space q = free_space p + SLOT_SIZE"
proof -
  have inv: "page_inv p" and its: "page_items p = its" and ix: "i < slot_count p"
    using p i by (auto simp: node_page_def)
  obtain q where q: "remove_item i p = Inr q" "page_inv q" "page_items q = remove_at i (page_items p)" "same_header p q"
    "free_space q = free_space p + SLOT_SIZE"
    by (rule remove_item_spec [OF inv ix])
  then have "node_page q PK_Leaf (remove_at i its) x"
    using p same_header_kind [OF q(4)] its by (simp add: node_page_def same_header_def)
  then show ?thesis
    using that q(1,5) by blast
qed

text \<open>What a change of one leaf leaves behind.\<close>

definition leaf_step :: "page_id set \<Rightarrow> page_id \<Rightarrow> entry list \<Rightarrow> u32 \<Rightarrow> pager \<Rightarrow> pager \<Rightarrow> bool" where
  "leaf_step U pid es x s s' \<longleftrightarrow> owns s' U \<and> node_at (view s') pid PK_Leaf (map entry_item es) x \<and>
     untouched (U - {pid}) s s' \<and> (\<forall>m. room s' m = room s m)"

lemma leaf_stepD:
  assumes "leaf_step U pid es x s s'"
  shows "owns s' U" and "node_at (view s') pid PK_Leaf (map entry_item es) x"
  using assms by (simp_all add: leaf_step_def)

lemma leaf_step_trans:
  assumes "leaf_step U pid es x s t" and "leaf_step U pid es' x' t u"
  shows "leaf_step U pid es' x' s u"
proof -
  have "untouched (U - {pid}) s u"
    using assms untouched_trans_same [of "U - {pid}" s t "U - {pid}" u "U - {pid}"] by (auto simp: leaf_step_def)
  then show ?thesis
    using assms by (simp add: leaf_step_def)
qed

lemma leaf_step_unseen:
  assumes "owns s U" and "node_at (view s) pid PK_Leaf (map entry_item es) x" and "unseen s s'"
  shows "leaf_step U pid es x s s'"
  using owns_unseen [OF assms(1,3)] assms(2) node_at_unseen [OF assms(3)] untouched_unseen [OF assms(3)]
    room_unseen [OF assms(3)] by (simp add: leaf_step_def)

definition leaf_space :: "(page_id \<Rightarrow> bytes option) \<Rightarrow> page_id \<Rightarrow> nat" where
  "leaf_space v pid = (case v pid of None \<Rightarrow> 0 | Some c \<Rightarrow> free_space (page_of c))"

lemma leaf_space_page: "v pid = Some (content p) \<Longrightarrow> page_ok p \<Longrightarrow> leaf_space v pid = free_space p"
  using page_of_content(6) [OF page_ok_length, of p] by (simp add: leaf_space_def)

lemma change_leaf:
  assumes o: "owns s U" and pid: "pid \<in> U" and nd: "node_at (view s) pid PK_Leaf its x"
  obtains p s' where "node_page p PK_Leaf its x" and "view s pid = Some (content p)" and "page_ok p"
    and "\<And>r q es. f p = Inr (r, q) \<Longrightarrow> node_page q PK_Leaf (map entry_item es) x \<Longrightarrow>
      with_page_mut pid f s = (Inr r, s') \<and> leaf_step U pid es x s s' \<and> leaf_space (view s') pid = free_space q"
proof (rule with_node_mut [OF owns_inv [OF o] nd, of f])
  fix p s'
  assume p: "node_page p PK_Leaf its x" "view s pid = Some (content p)" "page_ok p"
    and upd: "\<And>r q k' its' x'. f p = Inr (r, q) \<Longrightarrow> node_page q k' its' x' \<Longrightarrow>
      with_page_mut pid f s = (Inr r, s') \<and> wrote pid (content q) s s' \<and> node_at (view s') pid k' its' x'"
  show thesis
  proof (rule that [OF p])
    fix r q es
    assume "f p = Inr (r, q)" and q: "node_page q PK_Leaf (map entry_item es) x"
    then have u: "with_page_mut pid f s = (Inr r, s')" "wrote pid (content q) s s'"
      "node_at (view s') pid PK_Leaf (map entry_item es) x"
      using upd by blast+
    have "leaf_space (view s') pid = free_space q"
      by (rule leaf_space_page) (use u(2) q in \<open>auto simp: wrote_def node_page_def page_inv_ok\<close>)
    then show "with_page_mut pid f s = (Inr r, s') \<and> leaf_step U pid es x s s' \<and> leaf_space (view s') pid = free_space q"
      using u owns_wrote [OF o u(2) pid] untouched_wrote [OF u(2), of "U - {pid}"] room_wrote [OF u(2)]
      by (auto simp: leaf_step_def)
  qed
qed

lemma insert_slot:
  assumes o: "owns s U" "pid \<in> U" "node_at (view s) pid PK_Leaf (map entry_item (xs @ ys)) x"
  obtains s' where "with_page_mut pid (insert_item (length xs) (entry_item e)) s =
      (Inr (item_cost (length (entry_item e)) \<le> leaf_space (view s) pid), s')"
    and "leaf_step U pid (if item_cost (length (entry_item e)) \<le> leaf_space (view s) pid then xs @ e # ys else xs @ ys) x s s'"
    and "leaf_space (view s') pid = leaf_space (view s) pid -
      (if item_cost (length (entry_item e)) \<le> leaf_space (view s) pid then item_cost (length (entry_item e)) else 0)"
proof (rule change_leaf [OF o, of "insert_item (length xs) (entry_item e)"])
  fix p s'
  assume p: "node_page p PK_Leaf (map entry_item (xs @ ys)) x" "view s pid = Some (content p)" "page_ok p"
    and upd: "\<And>r q es. insert_item (length xs) (entry_item e) p = Inr (r, q) \<Longrightarrow> node_page q PK_Leaf (map entry_item es) x \<Longrightarrow>
      with_page_mut pid (insert_item (length xs) (entry_item e)) s = (Inr r, s') \<and> leaf_step U pid es x s s' \<and>
      leaf_space (view s') pid = free_space q"
  have "insert_at (length xs) (entry_item e) (map entry_item (xs @ ys)) = map entry_item (xs @ e # ys)"
    by (simp add: insert_at_def)
  note ins = node_page_insert [OF p(1), of "length xs" "entry_item e", unfolded this]
  show thesis
  proof (cases "item_cost (length (entry_item e)) \<le> free_space p")
    case True
    then obtain q where q: "insert_item (length xs) (entry_item e) p = Inr (True, q)"
      "node_page q PK_Leaf (map entry_item (xs @ e # ys)) x" "free_space q = free_space p - item_cost (length (entry_item e))"
      using ins by auto
    show ?thesis
      using that [of s'] upd [OF q(1,2)] q(3) True leaf_space_page [of "view s" pid p, OF p(2,3)] by simp
  next
    case False
    then have "insert_item (length xs) (entry_item e) p = Inr (False, p)"
      using ins by simp
    from upd [OF this p(1)] show ?thesis
      using that [of s'] False leaf_space_page [of "view s" pid p, OF p(2,3)] by simp
  qed
qed

lemma slot_items:
  "(map entry_item (xs @ e0 # ys))[length xs := entry_item e] = map entry_item (xs @ e # ys)"
  "remove_at (length xs) (map entry_item (xs @ e0 # ys)) = map entry_item (xs @ ys)"
  "length xs < length (map entry_item (xs @ e0 # ys))"
  by (simp_all add: list_update_append remove_at_def)

lemma replace_slot:
  fixes xs ys :: "entry list" and e e0 :: entry
  defines "fits \<equiv> items_cost (map entry_item (xs @ e # ys)) \<le> PAGE_SIZE - HEADER_SIZE"
  assumes o: "owns s U" "pid \<in> U" "node_at (view s) pid PK_Leaf (map entry_item (xs @ e0 # ys)) x"
  obtains s' where "with_page_mut pid (replace_item (length xs) (entry_item e)) s = (Inr fits, s')"
    and "leaf_step U pid (if fits then xs @ e # ys else xs @ e0 # ys) x s s'"
proof (rule change_leaf [OF o, of "replace_item (length xs) (entry_item e)"])
  fix p s'
  assume p: "node_page p PK_Leaf (map entry_item (xs @ e0 # ys)) x"
    and upd: "\<And>r q es. replace_item (length xs) (entry_item e) p = Inr (r, q) \<Longrightarrow> node_page q PK_Leaf (map entry_item es) x \<Longrightarrow>
      with_page_mut pid (replace_item (length xs) (entry_item e)) s = (Inr r, s') \<and> leaf_step U pid es x s s' \<and>
      leaf_space (view s') pid = free_space q"
  note rep = node_page_replace [OF p slot_items(3), of "entry_item e", unfolded slot_items(1)]
  show thesis
  proof (cases fits)
    case True
    then obtain q where q: "replace_item (length xs) (entry_item e) p = Inr (True, q)"
      "node_page q PK_Leaf (map entry_item (xs @ e # ys)) x"
      using rep unfolding fits_def by auto
    show ?thesis
      using that [of s'] upd [OF q] True by simp
  next
    case False
    then have "replace_item (length xs) (entry_item e) p = Inr (False, p)"
      using rep unfolding fits_def by simp
    from upd [OF this p] show ?thesis
      using that [of s'] False by simp
  qed
qed

lemma remove_slot:
  assumes o: "owns s U" "pid \<in> U" "node_at (view s) pid PK_Leaf (map entry_item (xs @ e0 # ys)) x"
  obtains s' where "with_page_mut pid (\<lambda>p. bind_res (remove_item (length xs) p) (\<lambda>q. Inr ((), q))) s = (Inr (), s')"
    and "leaf_step U pid (xs @ ys) x s s'" and "leaf_space (view s') pid = leaf_space (view s) pid + SLOT_SIZE"
proof (rule change_leaf [OF o, of "\<lambda>p. bind_res (remove_item (length xs) p) (\<lambda>q. Inr ((), q))"])
  fix p s'
  assume p: "node_page p PK_Leaf (map entry_item (xs @ e0 # ys)) x" "view s pid = Some (content p)" "page_ok p"
    and upd: "\<And>r q es. bind_res (remove_item (length xs) p) (\<lambda>q. Inr ((), q)) = Inr (r, q) \<Longrightarrow>
      node_page q PK_Leaf (map entry_item es) x \<Longrightarrow>
      with_page_mut pid (\<lambda>p. bind_res (remove_item (length xs) p) (\<lambda>q. Inr ((), q))) s = (Inr r, s') \<and>
      leaf_step U pid es x s s' \<and> leaf_space (view s') pid = free_space q"
  obtain q where q: "remove_item (length xs) p = Inr q" "node_page q PK_Leaf (map entry_item (xs @ ys)) x"
    "free_space q = free_space p + SLOT_SIZE"
    using node_page_remove [OF p(1) slot_items(3)] slot_items(2) by metis
  then show thesis
    using that [of s'] upd [of "()" q "xs @ ys"] leaf_space_page [of "view s" pid p, OF p(2,3)] by simp
qed

section \<open>Placing an item in its leaf\<close>

text \<open>
  The item is in the leaf, or it has to go to the given slot of a leaf that is too full, and the
  entry it replaces is out of the way.
\<close>

definition placed :: "page_id set \<Rightarrow> page_id \<Rightarrow> u32 \<Rightarrow> entry list \<Rightarrow> entry \<Rightarrow> entry list \<Rightarrow> nat option \<Rightarrow>
    pager \<Rightarrow> pager \<Rightarrow> bool" where
  "placed U pid x xs e ys r s s' \<longleftrightarrow>
     (case r of
        None \<Rightarrow> leaf_step U pid (xs @ e # ys) x s s'
      | Some i \<Rightarrow> i = length xs \<and> xs @ ys \<noteq> [] \<and> leaf_step U pid (xs @ ys) x s s')"

lemma place_absent:
  assumes o: "owns s U" and leaf: "leaf_in (view s) pid (xs @ ys)" and pid: "pid \<in> U"
    and nd: "node_at (view s) pid PK_Leaf (map entry_item (xs @ ys)) x"
    and keys: "\<forall>e\<in>set xs. fst e < key" "\<forall>e\<in>set ys. key < fst e"
    and space: "xs @ ys = [] \<longrightarrow> item_cost (length (entry_item e)) \<le> leaf_space (view s) pid"
  shows "\<exists>r s'. place_item pid key (entry_item e) s = (Inr r, s') \<and> placed U pid x xs e ys r s s' \<and>
    (r = None \<longleftrightarrow> item_cost (length (entry_item e)) \<le> leaf_space (view s) pid) \<and>
    leaf_space (view s') pid = leaf_space (view s) pid - (if r = None then item_cost (length (entry_item e)) else 0)"
proof -
  let ?its = "map entry_item (xs @ ys)"
  have slot: "slot_of key ?its = Inl (length xs)"
    using slot_of_absent [of "map entry_item xs" key "map entry_item ys"] keys by simp
  have srt: "sorted_items ?its"
    using leaf by (simp add: leaf_in_def sorted_entry_items del: map_append)
  obtain s1 where s1: "unseen s s1" "with_page pid (find_item key) s = (Inr None, s1)"
    using find_in_leaf [OF owns_inv [OF o] leaf, of key] slot by auto
  have o1: "owns s1 U" and nd1: "node_at (view s1) pid PK_Leaf ?its x"
    using owns_unseen [OF o s1(1)] nd node_at_unseen [OF s1(1)] by simp_all
  obtain s2 p where s2: "with_page pid (\<lambda>p. slot_search p key) s1 = (slot_search p key, s2)" "unseen s1 s2"
    and p: "node_page p PK_Leaf ?its x"
    by (rule with_node [OF owns_inv [OF o1] nd1])
  have search: "slot_search p key = Inr (Inl (length xs))"
    using slot_search_spec [OF node_page_layout [OF p], of key] srt p slot by (simp add: node_page_def)
  have us: "unseen s s2"
    by (rule unseen_trans [OF s1(1) s2(2)])
  note st = leaf_step_unseen [OF o nd us]
  let ?fits = "item_cost (length (entry_item e)) \<le> leaf_space (view s2) pid"
  obtain s3 where s3: "with_page_mut pid (insert_item (length xs) (entry_item e)) s2 = (Inr ?fits, s3)"
    "leaf_step U pid (if ?fits then xs @ e # ys else xs @ ys) x s2 s3"
    "leaf_space (view s3) pid = leaf_space (view s2) pid - (if ?fits then item_cost (length (entry_item e)) else 0)"
    by (rule insert_slot [OF leaf_stepD(1) [OF st] pid leaf_stepD(2) [OF st]])
  have run: "place_item pid key (entry_item e) s = (Inr (if ?fits then None else Some (length xs)), s3)"
    using s1(2) s2(1) search s3(1) by (simp add: place_item_def bind_op_def del: entry_item.simps)
  have "leaf_step U pid (if ?fits then xs @ e # ys else xs @ ys) x s s3"
    by (rule leaf_step_trans [OF st s3(2)])
  moreover have v: "view s2 = view s"
    using us by (simp add: unseen_def)
  ultimately have "placed U pid x xs e ys (if ?fits then None else Some (length xs)) s s3"
    using space by (auto simp: placed_def)
  then show ?thesis
    using run s3(3) v by (cases ?fits) auto
qed

text \<open>Finding an entry and releasing its chain.\<close>

lemma find_and_release:
  assumes o: "owns s U" and leaf: "leaf_in (view s) pid (xs @ e0 # ys)" and pid: "pid \<in> U"
    and nd: "node_at (view s) pid PK_Leaf (map entry_item (xs @ e0 # ys)) x"
    and key: "fst e0 = key" and ch: "set (snd (snd e0)) \<subseteq> U - {pid}"
  obtains s1 s2 where "with_page pid (find_item key) s = (Inr (Some (length xs, entry_item e0)), s1)"
    and "release_item (entry_item e0) s1 = (Inr (), s2)" 
    and "leaf_step (U - set (snd (snd e0))) pid (xs @ e0 # ys) x s s2"
proof -
  let ?its = "map entry_item (xs @ e0 # ys)"
  obtain d0 ps0 where e0: "e0 = (key, d0, ps0)"
    using key by (cases e0) auto
  have srt: "sorted_wrt (<) (map fst (xs @ e0 # ys))"
    using leaf by (simp add: leaf_in_def)
  have "\<forall>it\<in>set (map entry_item xs). item_key it < item_key (entry_item e0)"
    using srt by (auto simp: sorted_wrt_append)
  then have slot: "slot_of key ?its = Inr (length xs)"
    using slot_of_found [of "map entry_item xs" "entry_item e0" "map entry_item ys"] key by simp
  have nth: "?its ! length xs = entry_item e0"
    by (simp add: nth_append)
  obtain s1 where s1: "unseen s s1" "with_page pid (find_item key) s = (Inr (Some (length xs, entry_item e0)), s1)"
    using find_in_leaf [OF owns_inv [OF o] leaf, of key] slot nth by auto
  have o1: "owns s1 U" and nd1: "node_at (view s1) pid PK_Leaf ?its x"
    using owns_unseen [OF o s1(1)] nd node_at_unseen [OF s1(1)] by simp_all
  have ent: "entry_in (view s1) (key, d0, ps0)" "distinct ps0"
    using leaf_entry [OF leaf, of key d0 ps0] e0 s1(1) by (simp_all add: unseen_def)
  obtain s2 where s2: "release_item (entry_item (key, d0, ps0)) s1 = (Inr (), s2)" "owns s2 (U - set ps0)"
    "untouched (U - set ps0) s1 s2" "\<forall>m. room s2 m = room s1 m"
    by (rule release_item_spec [OF o1 ent]) (use ch e0 in auto)
  have "pid \<in> U - set ps0"
    using ch pid e0 by auto
  then have "node_at (view s2) pid PK_Leaf ?its x"
    using nd1 untouched_node [OF s2(3)] by simp
  moreover have "untouched (U - set ps0 - {pid}) s s2"
    by (rule untouched_trans_same [OF untouched_unseen [OF s1(1), of UNIV] s2(3)]) auto
  ultimately have "leaf_step (U - set (snd (snd e0))) pid (xs @ e0 # ys) x s s2"
    using s2(2,4) e0 room_unseen [OF s1(1)] by (simp add: leaf_step_def del: map_append)
  then show ?thesis
    using that [OF s1(2)] s2(1) e0 by blast
qed

text \<open>An item that does not fit in the place of another one: the leaf has several entries.\<close>

lemma big_leaf:
  assumes "\<not> items_cost (map entry_item (xs @ e # ys)) \<le> PAGE_SIZE - HEADER_SIZE"
  shows "xs @ ys \<noteq> []"
proof
  assume "xs @ ys = []"
  then have "items_cost (map entry_item (xs @ e # ys)) = item_cost (length (entry_item e))"
    by simp
  then show False
    using assms entry_cost [of e] by (simp add: layout)
qed

lemma place_found:
  assumes o: "owns s U" and leaf: "leaf_in (view s) pid (xs @ e0 # ys)" and pid: "pid \<in> U"
    and nd: "node_at (view s) pid PK_Leaf (map entry_item (xs @ e0 # ys)) x"
    and key: "fst e0 = key" and ch: "set (snd (snd e0)) \<subseteq> U - {pid}"
  shows "\<exists>r s'. place_item pid key (entry_item e) s = (Inr r, s') \<and>
    placed (U - set (snd (snd e0))) pid x xs e ys r s s'"
proof -
  let ?U = "U - set (snd (snd e0))" and ?fits = "items_cost (map entry_item (xs @ e # ys)) \<le> PAGE_SIZE - HEADER_SIZE"
  obtain s1 s2 where s2: "with_page pid (find_item key) s = (Inr (Some (length xs, entry_item e0)), s1)"
    "release_item (entry_item e0) s1 = (Inr (), s2)" "leaf_step ?U pid (xs @ e0 # ys) x s s2"
    by (rule find_and_release [OF assms])
  have pid': "pid \<in> ?U"
    using ch pid by auto
  obtain s3 where s3: "with_page_mut pid (replace_item (length xs) (entry_item e)) s2 = (Inr ?fits, s3)"
    "leaf_step ?U pid (if ?fits then xs @ e # ys else xs @ e0 # ys) x s2 s3"
    by (rule replace_slot [OF leaf_stepD(1) [OF s2(3)] pid' leaf_stepD(2) [OF s2(3)]])
  note st = leaf_step_trans [OF s2(3) s3(2)]
  show ?thesis
  proof (cases ?fits)
    case True
    then show ?thesis
      using s2(1,2) s3(1) st by (intro exI [of _ None] exI [of _ s3]) (simp add: place_item_def bind_op_def placed_def)
  next
    case False
    then have st': "leaf_step ?U pid (xs @ e0 # ys) x s s3"
      using st by simp
    obtain s4 where s4: "with_page_mut pid (\<lambda>p. bind_res (remove_item (length xs) p) (\<lambda>q. Inr ((), q))) s3 = (Inr (), s4)"
      "leaf_step ?U pid (xs @ ys) x s3 s4"
      by (rule remove_slot [OF leaf_stepD(1) [OF st'] pid' leaf_stepD(2) [OF st']])
    have "leaf_step ?U pid (xs @ ys) x s s4"
      by (rule leaf_step_trans [OF st' s4(2)])
    then have "placed ?U pid x xs e ys (Some (length xs)) s s4"
      using big_leaf [OF False] by (simp add: placed_def)
    moreover have "place_item pid key (entry_item e) s = (Inr (Some (length xs)), s4)"
      using s2(1,2) s3(1) s4(1) False by (simp add: place_item_def bind_op_def)
    ultimately show ?thesis
      by blast
  qed
qed

section \<open>The leaf within its tree\<close>

lemma node_at_extra: "node_at v pid k its x \<longleftrightarrow> (\<exists>y. node_at v pid k its y) \<and> extra_at v pid = x"
  by (auto simp: node_at_def node_page_def extra_at_def)

definition successor :: "frame list \<Rightarrow> page_id" where
  "successor ctx = hd (ids_right ctx @ [NO_PAGE])"

lemma chain_ids_simps [simp]:
  "chain_ids [] = []" "chain_ids (e # es) = snd (snd e) @ chain_ids es" "chain_ids (xs @ ys) = chain_ids xs @ chain_ids ys"
  by (simp_all add: chain_ids_def case_prod_beta)

lemma btree_leaf_iff:
  "btree s U (plug (Leaf pid es) ctx) \<longleftrightarrow> owns s U \<and>
     node_at (view s) pid PK_Leaf (map entry_item es) (successor ctx) \<and> (\<forall>e\<in>set es. entry_in (view s) e) \<and>
     ctx_in (view s) pid ctx \<and> links (view s) (ids_left ctx) pid \<and> links (view s) (ids_right ctx) NO_PAGE \<and>
     (\<exists>lo hi. ctx_ok lo hi ctx \<and> tree_ok lo hi (Leaf pid es)) \<and> ctx_balanced 0 ctx \<and>
     distinct (pid # chain_ids es @ ctx_pages ctx) \<and> set (pid # chain_ids es @ ctx_pages ctx) \<subseteq> U"
  unfolding btree_def tree_in_plug leaf_ids_plug links_append tree_ok_plug balanced_plug distinct_pages_plug set_pages_plug
    node_at_extra [of _ _ _ _ "successor ctx"]
  by (auto simp: successor_def)

lemma pages_leaf: "set (pages (plug (Leaf pid es) ctx)) = set (pid # chain_ids es @ ctx_pages ctx)"
  by (simp add: set_pages_plug)

text \<open>Keys around the place of a new entry.\<close>

lemma leaf_with_entry:
  assumes "tree_ok lo hi (Leaf pid (xs @ old @ ys))" and "lo \<le> key" and "unat key < hi"
    and "\<forall>e\<in>set xs. fst e < key" and "\<forall>e\<in>set ys. key < fst e"
  shows "tree_ok lo hi (Leaf pid (xs @ (key, d, ps) # ys))"
  using assms by (auto simp: sorted_wrt_append intro: less_trans)

lemma leaf_without_entry:
  assumes "tree_ok lo hi (Leaf pid (xs @ old @ ys))"
  shows "tree_ok lo hi (Leaf pid (xs @ ys))"
  using assms by (auto simp: sorted_wrt_append)

text \<open>A leaf that has been changed in place.\<close>

lemma replace_leaf:
  assumes b: "btree s U (plug (Leaf pid es) ctx)" and un: "untouched F s s'" and F: "set (ctx_pages ctx) \<subseteq> F"
    and o: "owns s' V" and nd: "node_at (view s') pid PK_Leaf (map entry_item es') (successor ctx)"
    and es': "\<forall>e\<in>set es'. entry_in (view s') e"
    and ok: "ctx_ok lo hi ctx" "tree_ok lo hi (Leaf pid es')"
    and P: "distinct (pid # chain_ids es' @ ctx_pages ctx)" "set (pid # chain_ids es' @ ctx_pages ctx) \<subseteq> V"
  shows "btree s' V (plug (Leaf pid es') ctx)"
proof -
  have "set (ids_left ctx) \<subseteq> F" "set (ids_right ctx) \<subseteq> F"
    using ids_ctx_pages [of ctx] F by auto
  then have "ctx_in (view s') pid ctx" "links (view s') (ids_left ctx) pid" "links (view s') (ids_right ctx) NO_PAGE"
    using b untouched_ctx [OF un F] untouched_links [OF un] unfolding btree_leaf_iff by auto
  then show ?thesis
    unfolding btree_leaf_iff using b o nd es' ok P by (auto simp: btree_leaf_iff)
qed

text \<open>A leaf that has been split.\<close>

lemma split_leaf_pending:
  assumes b: "btree s U (plug (Leaf pid es) ctx)" and un: "untouched F s s'" and F: "set (ctx_pages ctx) \<subseteq> F"
    and o: "owns s' V" and nd: "node_at (view s') pid PK_Leaf (map entry_item es1) rid"
      "node_at (view s') rid PK_Leaf (map entry_item es2) (successor ctx)"
    and es: "\<forall>e\<in>set (es1 @ es2). entry_in (view s') e" "es1 \<noteq> []" "es2 \<noteq> []"
    and ok: "ctx_ok lo hi ctx" "tree_ok lo hi (Leaf pid (es1 @ es2))"
    and P: "distinct (pid # rid # chain_ids (es1 @ es2) @ ctx_pages ctx)"
      "set (pid # rid # chain_ids (es1 @ es2) @ ctx_pages ctx) \<subseteq> V"
  shows "pending s' V (Leaf pid es1) (fst (hd es2)) (Leaf rid es2) ctx"
proof -
  have "set (ids_left ctx) \<subseteq> F" "set (ids_right ctx) \<subseteq> F"
    using ids_ctx_pages [of ctx] F by auto
  then have c: "ctx_in (view s') pid ctx" "links (view s') (ids_left ctx) pid" "links (view s') (ids_right ctx) NO_PAGE"
    using b untouched_ctx [OF un F] untouched_links [OF un] unfolding btree_leaf_iff by auto
  have x: "extra_at (view s') pid = rid" "extra_at (view s') rid = successor ctx"
    using nd node_at_extra by blast+
  have "links (view s') (ids_left ctx @ leaf_ids (Leaf pid es1) @ leaf_ids (Leaf rid es2) @ ids_right ctx) NO_PAGE"
    unfolding links_append using c(2,3) x by (simp add: successor_def)
  moreover obtain k1 e1 zs1 k2 e2 zs2 where e: "es1 = (k1, e1) # zs1" "es2 = (k2, e2) # zs2"
    using es(2,3) by (cases es1; cases es2) auto
  have "lo < k2" "unat k2 < hi" "tree_ok lo (unat k2) (Leaf pid es1)" "tree_ok k2 hi (Leaf rid es2)"
    using ok(2) e by (auto simp: sorted_wrt_append word_less_nat_alt word_le_nat_alt)
  moreover have "ctx_balanced 0 ctx"
    using b by (simp add: btree_leaf_iff)
  moreover have "distinct (pages (Leaf pid es1) @ pages (Leaf rid es2) @ ctx_pages ctx)"
    "set (pages (Leaf pid es1) @ pages (Leaf rid es2) @ ctx_pages ctx) \<subseteq> V"
    using P by auto
  moreover have "tree_in (view s') (Leaf pid es1)" "tree_in (view s') (Leaf rid es2)" "ctx_in (view s') (root (Leaf pid es1)) ctx"
    using nd es(1) c(1) by auto
  ultimately show ?thesis
    unfolding pending_def using o ok(1) e by auto
qed

section \<open>Insertion and replacement\<close>

text \<open>The tree \<open>t\<close> has become \<open>t'\<close>; no page outside has changed or changed hands.\<close>

definition rewritten :: "page_id set \<Rightarrow> tree \<Rightarrow> tree \<Rightarrow> pager \<Rightarrow> pager \<Rightarrow> bool" where
  "rewritten U t t' s s' \<longleftrightarrow> btree s' (U - set (pages t) \<union> set (pages t')) t' \<and>
     set (pages t') \<inter> (U - set (pages t)) = {} \<and> untouched (U - set (pages t)) s s'"

lemma rewritten_trans:
  assumes "rewritten U t t1 s s1" and "rewritten (U - set (pages t) \<union> set (pages t1)) t1 t2 s1 s2"
  shows "rewritten U t t2 s s2"
proof -
  let ?V = "U - set (pages t) \<union> set (pages t1)"
  have V: "?V - set (pages t1) = U - set (pages t)"
    using assms(1) by (auto simp: rewritten_def)
  then show ?thesis
    using assms untouched_trans_same [of "U - set (pages t)" s s1 "U - set (pages t)" s2 "U - set (pages t)"]
    unfolding rewritten_def V by simp
qed

text \<open>The new entry, its chain written, before it is in the leaf.\<close>

definition ready :: "pager \<Rightarrow> page_id set \<Rightarrow> entry \<Rightarrow> pager \<Rightarrow> bool" where
  "ready s U e s' \<longleftrightarrow> owns s' (U \<union> set (snd (snd e))) \<and> entry_in (view s') e \<and> distinct (snd (snd e)) \<and>
     set (snd (snd e)) \<inter> U = {} \<and> untouched U s s'"

lemma placed_kept:
  assumes b: "btree s U (plug (Leaf pid (xs @ old @ ys)) ctx)" and rd: "ready s U e s2"
    and st: "leaf_step (U \<union> set (snd (snd e)) - set (chain_ids old)) pid es x s2 s3"
  shows "untouched (U - {pid} - set (chain_ids old)) s s3"
    and "\<forall>e'\<in>set (xs @ e # ys). entry_in (view s3) e'"
    and "distinct (pid # chain_ids (xs @ e # ys) @ ctx_pages ctx)"
    and "set (pid # chain_ids (xs @ e # ys) @ ctx_pages ctx) \<subseteq> U \<union> set (snd (snd e)) - set (chain_ids old)"
    and "set (ctx_pages ctx) \<subseteq> U - {pid} - set (chain_ids old)"
proof -
  let ?ps = "snd (snd e)" and ?O = "set (chain_ids old)"
  have d: "distinct (pid # chain_ids (xs @ old @ ys) @ ctx_pages ctx)" "set (pid # chain_ids (xs @ old @ ys) @ ctx_pages ctx) \<subseteq> U"
    using b by (simp_all only: btree_leaf_iff)
  have r: "distinct ?ps" "set ?ps \<inter> U = {}" "untouched U s s2" "entry_in (view s2) e"
    using rd by (simp_all add: ready_def)
  have u3: "untouched (U \<union> set ?ps - ?O - {pid}) s2 s3"
    using st by (simp add: leaf_step_def)
  show un: "untouched (U - {pid} - ?O) s s3"
    by (rule untouched_trans_same [OF r(3) u3]) auto
  show "distinct (pid # chain_ids (xs @ e # ys) @ ctx_pages ctx)"
    "set (pid # chain_ids (xs @ e # ys) @ ctx_pages ctx) \<subseteq> U \<union> set ?ps - ?O"
    "set (ctx_pages ctx) \<subseteq> U - {pid} - ?O"
    using d r(1,2) by auto
  have "set (chain_ids (xs @ ys)) \<subseteq> U - {pid} - ?O" "set ?ps \<subseteq> U \<union> set ?ps - ?O - {pid}"
    using d r(2) by auto
  then have "\<forall>e'\<in>set (xs @ ys). entry_in (view s3) e'" "entry_in (view s3) e"
    using b untouched_entries [OF un, of "xs @ ys"] untouched_entries [OF u3, of "[e]"] r(4) by (auto simp: btree_leaf_iff)
  then show "\<forall>e'\<in>set (xs @ e # ys). entry_in (view s3) e'"
    by auto
qed

lemma upsert_in_place:
  assumes b: "btree s U (plug (Leaf pid (xs @ old @ ys)) ctx)" and rd: "ready s U e s2"
    and ok: "ctx_ok lo hi ctx" "tree_ok lo hi (Leaf pid (xs @ e # ys))"
    and st: "leaf_step (U \<union> set (snd (snd e)) - set (chain_ids old)) pid (xs @ e # ys) (successor ctx) s2 s3"
  shows "rewritten U (plug (Leaf pid (xs @ old @ ys)) ctx) (plug (Leaf pid (xs @ e # ys)) ctx) s s3"
proof -
  let ?t = "plug (Leaf pid (xs @ old @ ys)) ctx" and ?t' = "plug (Leaf pid (xs @ e # ys)) ctx"
  let ?V = "U \<union> set (snd (snd e)) - set (chain_ids old)"
  note kept = placed_kept [OF b rd st]
  have b': "btree s3 ?V ?t'"
    using st by (intro replace_leaf [OF b kept(1,5) _ _ kept(2) ok kept(3,4)]) (simp_all add: leaf_step_def)
  have P: "set (pages ?t) \<subseteq> U" "set (snd (snd e)) \<inter> U = {}"
    using b rd by (simp_all add: btree_def ready_def)
  have d: "distinct (pid # chain_ids (xs @ old @ ys) @ ctx_pages ctx)"
    using b by (simp only: btree_leaf_iff)
  have eq: "?V = U - set (pages ?t) \<union> set (pages ?t')"
    using P d unfolding pages_leaf by auto
  have "set (pages ?t') \<inter> (U - set (pages ?t)) = {}"
    using P unfolding pages_leaf by auto
  moreover have "untouched (U - set (pages ?t)) s s3"
    by (rule untouched_mono [OF kept(1)]) (unfold pages_leaf, auto)
  ultimately show ?thesis
    using b' eq by (simp add: rewritten_def)
qed

lemma set_split_pages:
  assumes "T = insert pid (C \<union> O' \<union> X)" and "T \<subseteq> U" and "pid \<notin> C \<union> O' \<union> X" and "(C \<union> X) \<inter> O' = {}"
    and "N \<inter> U = {}" and "rid \<notin> U \<union> N - O'"
    and "P = insert pid (insert rid (C \<union> N \<union> X))" and "T' \<inter> insert rid (U \<union> N - O') = P"
  shows "insert rid (U \<union> N - O') \<union> T' = U - T \<union> T'" and "T' \<inter> (U - T) = {}"
    and "U - T \<subseteq> insert rid (U \<union> N - O') - P" and "U - T \<subseteq> U - {pid} - O'"
proof -
  have P: "P \<subseteq> T'"
    using assms(8) by blast
  show "insert rid (U \<union> N - O') \<union> T' = U - T \<union> T'"
    using assms P by auto
  show "T' \<inter> (U - T) = {}" "U - T \<subseteq> insert rid (U \<union> N - O') - P" "U - T \<subseteq> U - {pid} - O'"
    using assms by auto
qed

lemma upsert_split:
  assumes b: "btree s U (plug (Leaf pid (xs @ old @ ys)) ctx)" and rd: "ready s U e s2"
    and ok: "ctx_ok lo hi ctx" "tree_ok lo hi (Leaf pid (xs @ e # ys))"
    and st: "leaf_step (U \<union> set (snd (snd e)) - set (chain_ids old)) pid (xs @ ys) (successor ctx) s2 s3"
    and ne: "xs @ ys \<noteq> []" and room: "room s3 (Suc (Suc (length ctx + m)))"
  shows "\<exists>t' s'. bind_op (split_leaf pid (length xs) (entry_item e))
      (\<lambda>(sep, right). propagate (root (plug (Leaf pid (xs @ old @ ys)) ctx)) (rev (path_of ctx)) sep right) s3 =
      (Inr (root t'), s') \<and>
    (\<exists>rid es1 es2. leaves t' = leaves_left ctx @ [(pid, es1), (rid, es2)] @ leaves_right ctx \<and>
      es1 @ es2 = xs @ e # ys \<and> es1 \<noteq> [] \<and> es2 \<noteq> []) \<and>
    rewritten U (plug (Leaf pid (xs @ old @ ys)) ctx) t' s s' \<and> room s' m"
proof -
  let ?t = "plug (Leaf pid (xs @ old @ ys)) ctx" and ?N = "set (snd (snd e))" and ?O = "set (chain_ids old)"
  let ?V = "U \<union> ?N - ?O"
  note kept = placed_kept [OF b rd st]
  have pid: "pid \<in> ?V" and o3: "owns s3 ?V" and nd3: "node_at (view s3) pid PK_Leaf (map entry_item (xs @ ys)) (successor ctx)"
    using kept(4) st by (auto simp: leaf_step_def)
  obtain s4 rid es1 es2 where sp: "split_leaf pid (length xs) (entry_item e) s3 = (Inr (fst (hd es2), rid), s4)"
    "xs @ e # ys = es1 @ es2" "es1 \<noteq> []" "es2 \<noteq> []" "rid \<notin> ?V" "rid \<noteq> NO_PAGE" "owns s4 (insert rid ?V)"
    "node_at (view s4) pid PK_Leaf (map entry_item es1) rid"
    "node_at (view s4) rid PK_Leaf (map entry_item es2) (successor ctx)" "untouched (?V - {pid}) s3 s4"
    "room s4 (Suc (length ctx + m))"
    by (rule split_leaf_spec [OF o3 pid nd3 ne room])
  have un4: "untouched (U - {pid} - ?O) s s4"
    by (rule untouched_trans_same [OF kept(1) sp(10)]) auto
  have d: "distinct (pid # chain_ids (es1 @ es2) @ ctx_pages ctx)" "set (pid # chain_ids (es1 @ es2) @ ctx_pages ctx) \<subseteq> ?V"
    using kept(3,4) unfolding sp(2) .
  have ch: "set (chain_ids (es1 @ es2)) \<subseteq> ?V - {pid}"
    using d by auto
  have ents: "\<forall>e'\<in>set (es1 @ es2). entry_in (view s4) e'"
    using kept(2) untouched_entries [OF sp(10) ch] unfolding sp(2) by simp
  have rid: "rid \<notin> set (pid # chain_ids (es1 @ es2) @ ctx_pages ctx)"
    using d(2) sp(5) by blast
  have pend: "pending s4 (insert rid ?V) (Leaf pid es1) (fst (hd es2)) (Leaf rid es2) ctx"
    by (rule split_leaf_pending [OF b un4 kept(5) sp(7,8,9) ents sp(3,4) ok(1) ok(2) [unfolded sp(2)]]) (use d rid in auto)
  have r: "root (plug (Leaf pid es1) ctx) = root ?t"
    by (rule root_plug) simp
  obtain t' s' where up: "propagate_up (root ?t) (path_of ctx) (fst (hd es2)) rid s4 = (Inr (root t'), s')"
    and set: "settled s4 (insert rid ?V) (set (pages (Leaf pid es1) @ pages (Leaf rid es2) @ ctx_pages ctx))
      (leaves_left ctx @ [(pid, es1), (rid, es2)] @ leaves_right ctx) t' s'" and room': "room s' m"
    using propagate_up_spec [OF pend sp(11)] r by auto
  have b': "btree s' (insert rid ?V \<union> set (pages t')) t'" "leaves t' = leaves_left ctx @ [(pid, es1), (rid, es2)] @ leaves_right ctx"
    "set (pages t') \<inter> insert rid ?V = set (pages (Leaf pid es1) @ pages (Leaf rid es2) @ ctx_pages ctx)"
    "untouched (insert rid ?V - set (pages (Leaf pid es1) @ pages (Leaf rid es2) @ ctx_pages ctx)) s4 s'"
    using set by (simp_all add: settled_def)
  have dU: "distinct (pid # chain_ids (xs @ old @ ys) @ ctx_pages ctx)" "set (pages ?t) \<subseteq> U" "?N \<inter> U = {}"
    using b rd by (simp_all add: btree_leaf_iff pages_leaf ready_def)
  have "chain_ids es1 @ chain_ids es2 = chain_ids xs @ snd (snd e) @ chain_ids ys"
    using arg_cong [OF sp(2), of chain_ids] by simp
  then have "set (chain_ids es1) \<union> set (chain_ids es2) = set (chain_ids (xs @ ys)) \<union> ?N"
    unfolding set_append [symmetric] by auto
  then have P: "set (pages (Leaf pid es1) @ pages (Leaf rid es2) @ ctx_pages ctx) =
      insert pid (insert rid (set (chain_ids (xs @ ys)) \<union> ?N \<union> set (ctx_pages ctx)))"
    by auto
  have "insert rid ?V \<union> set (pages t') = U - set (pages ?t) \<union> set (pages t')" "set (pages t') \<inter> (U - set (pages ?t)) = {}"
    "U - set (pages ?t) \<subseteq> insert rid ?V - set (pages (Leaf pid es1) @ pages (Leaf rid es2) @ ctx_pages ctx)"
    "U - set (pages ?t) \<subseteq> U - {pid} - ?O"
    by (rule set_split_pages [of "set (pages ?t)" pid "set (chain_ids (xs @ ys))" ?O "set (ctx_pages ctx)" U ?N rid,
            OF _ dU(2) _ _ dU(3) sp(5) P b'(3)]; use dU(1) in \<open>force simp: pages_leaf\<close>)+
  moreover from this have "untouched (U - set (pages ?t)) s s'"
    using untouched_trans_same [OF un4 b'(4)] by blast
  ultimately have "rewritten U ?t t' s s'"
    using b'(1) by (simp add: rewritten_def)
  moreover have "\<exists>rid es1 es2. leaves t' = leaves_left ctx @ [(pid, es1), (rid, es2)] @ leaves_right ctx \<and>
      es1 @ es2 = xs @ e # ys \<and> es1 \<noteq> [] \<and> es2 \<noteq> []"
    using b'(2) sp(2-4) by metis
  ultimately show ?thesis
    using sp(1) up room' by (intro exI [of _ t'] exI [of _ s']) (simp add: bind_op_def propagate_def)
qed

lemma contents_change:
  assumes "entries t = A @ old @ B" and "fst ` set old \<subseteq> {key}" and "key \<notin> fst ` set A" and "key \<notin> fst ` set B"
  shows "entries t' = A @ (key, d, ps) # B \<Longrightarrow> map_of (contents t') = (map_of (contents t))(key \<mapsto> d)"
    and "entries t' = A @ B \<Longrightarrow> map_of (contents t') = (map_of (contents t))(key := None)"
proof -
  have out: "map_of (plain A) key = None" "map_of (plain B) key = None"
    using assms(3,4) by (force simp: plain_def map_of_eq_None_iff)+
  have old: "map_of (plain old) k = None" if "k \<noteq> key" for k
    using assms(2) that by (force simp: plain_def map_of_eq_None_iff)
  have c: "contents t = plain A @ plain old @ plain B"
    using assms(1) by (simp add: contents_def plain_def)
  show "map_of (contents t') = (map_of (contents t))(key \<mapsto> d)" if "entries t' = A @ (key, d, ps) # B"
  proof -
    have "contents t' = plain A @ (key, d) # plain B"
      using that by (simp add: contents_def plain_def)
    then show ?thesis
      using c old out by (auto simp: fun_eq_iff map_add_def split: option.split)
  qed
  show "map_of (contents t') = (map_of (contents t))(key := None)" if "entries t' = A @ B"
  proof -
    have "contents t' = plain A @ plain B"
      using that by (simp add: contents_def plain_def)
    then show ?thesis
      using c old out by (auto simp: fun_eq_iff map_add_def split: option.split)
  qed
qed

text \<open>Where the entry of a key is, or would be.\<close>

lemma locate:
  assumes b: "btree s U (plug (Leaf pid es) ctx)" and k: "ctx_ok lo hi ctx" "lo \<le> key" "unat key < hi"
  obtains xs old ys where "es = xs @ old @ ys" and "old = [] \<or> (\<exists>e. old = [e] \<and> fst e = key)"
    and "\<forall>e\<in>set xs. fst e < key" and "\<forall>e\<in>set ys. key < fst e"
    and "fst ` set old \<subseteq> {key}" and "key \<notin> fst ` set (entries_left ctx @ xs)" and "key \<notin> fst ` set (ys @ entries_right ctx)"
proof -
  have srt: "sorted_wrt (<) (map fst es)"
    using btree_leaf [OF b] by (simp add: leaf_in_def)
  obtain xs old ys where e: "es = xs @ old @ ys" "old = [] \<or> (\<exists>e. old = [e] \<and> fst e = key)"
    "\<forall>e\<in>set xs. fst e < key" "\<forall>e\<in>set ys. key < fst e"
    using srt
  proof (cases rule: slot_of_entries [where key = key])
    case (found xs e ys)
    then show ?thesis
      using that [of xs "[e]" ys] srt by (auto simp: sorted_wrt_append)
  next
    case (absent xs ys)
    then show ?thesis
      using that [of xs "[]" ys] by simp
  qed
  then have "fst ` set old \<subseteq> {key}" "key \<notin> fst ` set (entries_left ctx @ xs)" "key \<notin> fst ` set (ys @ entries_right ctx)"
    using not_outside [OF k] by auto
  then show ?thesis
    using that [OF e] by blast
qed

definition stored_len :: "bytes \<Rightarrow> nat" where
  "stored_len d = (if length d \<le> MAX_INLINE then LEAF_HEADER + length d else OVERFLOW_DESCRIPTOR)"

lemma length_stored: "length (entry_item (k, d, ps)) = stored_len d"
  by (simp add: stored_len_def layout)

text \<open>
  An empty leaf keeps the holes of the entries it has lost, and a split cannot help it: insertion
  relies on every empty leaf having room for the item.
\<close>

definition leaves_usable :: "pager \<Rightarrow> tree \<Rightarrow> nat \<Rightarrow> bool" where
  "leaves_usable s t n \<longleftrightarrow> (\<forall>(pid, es)\<in>set (leaves t). es = [] \<longrightarrow> item_cost n \<le> leaf_space (view s) pid)"

lemma balanced_hole: "balanced H (plug t ctx) \<Longrightarrow> \<exists>h. H = h + length ctx \<and> balanced h t"
proof (induction t ctx rule: plug.induct)
  case (2 t pid xs b ys ctx)
  then obtain h where "H = h + length ctx" "balanced h (Node pid (xs @ (b, t) # ys))"
    by auto
  then show ?case
    by auto
qed simp

lemma path_short:
  assumes "btree s U (plug (Leaf pid es) ctx)"
  shows "length ctx \<le> 32"
proof -
  obtain h where h: "balanced h (plug (Leaf pid es) ctx)"
    using assms by (auto simp: btree_def)
  then have "h = length ctx"
    using balanced_hole by fastforce
  then show ?thesis
    using height_bound [OF h] assms by (auto simp: btree_def)
qed

lemma btree_unseen: "btree s U t \<Longrightarrow> unseen s s' \<Longrightarrow> btree s' U t"
  using owns_unseen [of s U s'] by (simp add: btree_def unseen_def)

lemma rewritten_unseen: "unseen s s1 \<Longrightarrow> rewritten U t t' s1 s' \<Longrightarrow> rewritten U t t' s s'"
  by (auto simp: rewritten_def untouched_def unseen_def)

lemma leaf_of_plug: "(pid, es) \<in> set (leaves (plug (Leaf pid es) ctx))"
  by (simp add: leaves_plug)

text \<open>The part of \<open>upsert\<close> that follows the descent.\<close>

lemma place_spec:
  assumes b: "btree s U (plug (Leaf pid (xs @ old @ ys)) ctx)" and rd: "ready s U e s2" and key: "fst e = key"
    and old: "old = [] \<or> (\<exists>e. old = [e] \<and> fst e = key)"
    and keys: "\<forall>e\<in>set xs. fst e < key" "\<forall>e\<in>set ys. key < fst e"
    and space: "xs @ ys = [] \<longrightarrow> old = [] \<longrightarrow> item_cost (length (entry_item e)) \<le> leaf_space (view s) pid"
  shows "\<exists>r s3. place_item pid key (entry_item e) s2 = (Inr r, s3) \<and>
    placed (U \<union> set (snd (snd e)) - set (chain_ids old)) pid (successor ctx) xs e ys r s2 s3"
proof -
  let ?V = "U \<union> set (snd (snd e))"
  have P: "distinct (pid # chain_ids (xs @ old @ ys) @ ctx_pages ctx)"
    "set (pid # chain_ids (xs @ old @ ys) @ ctx_pages ctx) \<subseteq> U"
    using b by (simp_all only: btree_leaf_iff)
  have o: "owns s2 ?V" and un: "untouched U s s2"
    using rd by (simp_all add: ready_def)
  have "leaf_in (view s) pid (xs @ old @ ys)"
    by (rule btree_leaf [OF b])
  then have leaf: "leaf_in (view s2) pid (xs @ old @ ys)"
    using untouched_entries [OF un, of "xs @ old @ ys"] untouched_node [OF un, of pid] P(2)
    by (simp add: leaf_in_def)
  have "node_at (view s) pid PK_Leaf (map entry_item (xs @ old @ ys)) (successor ctx)"
    using b by (simp only: btree_leaf_iff)
  then have nd: "node_at (view s2) pid PK_Leaf (map entry_item (xs @ old @ ys)) (successor ctx)"
    using untouched_node [OF un, of pid] P(2) by simp
  have pid: "pid \<in> ?V"
    using P(2) by simp
  have sp: "leaf_space (view s2) pid = leaf_space (view s) pid"
    using un P(2) by (simp add: untouched_def leaf_space_def)
  from old show ?thesis
  proof
    assume "old = []"
    then show ?thesis
      using place_absent [OF o _ pid _ keys, of "successor ctx" e] leaf nd space sp by auto
  next
    assume "\<exists>e. old = [e] \<and> fst e = key"
    then obtain e0 where e0: "old = [e0]" "fst e0 = key"
      by blast
    have "set (snd (snd e0)) \<subseteq> ?V - {pid}"
      using P e0(1) by auto
    then show ?thesis
      using place_found [OF o _ pid _ e0(2), of xs ys "successor ctx" e] leaf nd e0(1) by simp
  qed
qed

text \<open>One leaf gives way to leaves that are not empty.\<close>

definition regular :: "(page_id \<times> entry list) list \<Rightarrow> (page_id \<times> entry list) list \<Rightarrow> bool" where
  "regular ls ls' \<longleftrightarrow> (\<exists>L l R new. ls = L @ l # R \<and> ls' = L @ new @ R \<and> [] \<notin> snd ` set new)"

lemma upsert_correct:
  assumes b: "btree s U t" and len: "length d < 2 ^ 32" and room: "room s (length d div OVERFLOW_CHUNK + 35 + m)"
    and space: "leaves_usable s t (stored_len d)"
  shows "\<exists>t' s'. upsert (root t) key d s = (Inr (root t'), s') \<and> rewritten U t t' s s' \<and>
    map_of (contents t') = (map_of (contents t))(key \<mapsto> d) \<and> room s' m \<and> regular (leaves t) (leaves t')"
proof -
  obtain s1 pid es ctx lo hi where d: "descend (root t) key s = (Inr (pid, rev (path_of ctx)), s1)" "unseen s s1"
    and t: "t = plug (Leaf pid es) ctx" and k: "ctx_ok lo hi ctx" "tree_ok lo hi (Leaf pid es)" "lo \<le> key" "unat key < hi"
    by (rule descend_spec [OF b])
  have b1: "btree s1 U (plug (Leaf pid es) ctx)"
    using btree_unseen [OF b d(2)] t by simp
  obtain xs old ys where e: "es = xs @ old @ ys" and old: "old = [] \<or> (\<exists>e. old = [e] \<and> fst e = key)"
    and keys: "\<forall>e\<in>set xs. fst e < key" "\<forall>e\<in>set ys. key < fst e"
    and out: "fst ` set old \<subseteq> {key}" "key \<notin> fst ` set (entries_left ctx @ xs)" "key \<notin> fst ` set (ys @ entries_right ctx)"
    by (rule locate [OF b1 k(1,3,4)])
  have o1: "owns s1 U"
    using b1 by (simp add: btree_def)
  have "room s1 (length d div OVERFLOW_CHUNK + 1 + (34 + m))"
    using room room_unseen [OF d(2)] by (simp add: ac_simps)
  then obtain s2 ps where s2: "build_item key d s1 = (Inr (entry_item (key, d, ps)), s2)" "entry_in (view s2) (key, d, ps)"
    "distinct ps" "set ps \<inter> U = {}" "owns s2 (U \<union> set ps)" "untouched U s1 s2" "room s2 (34 + m)"
    by (rule build_item_spec [OF o1 len])
  let ?e = "(key, d, ps)"
  have rd: "ready s1 U ?e s2"
    using s2(2-6) by (simp add: ready_def)
  have "leaf_space (view s1) pid = leaf_space (view s) pid"
    using d(2) by (simp add: unseen_def leaf_space_def)
  then have sp: "xs @ ys = [] \<longrightarrow> old = [] \<longrightarrow> item_cost (length (entry_item ?e)) \<le> leaf_space (view s1) pid"
    using space t e leaf_of_plug [of pid es ctx] unfolding length_stored leaves_usable_def by auto
  obtain r s3 where s3: "place_item pid key (entry_item ?e) s2 = (Inr r, s3)"
    "placed (U \<union> set ps - set (chain_ids old)) pid (successor ctx) xs ?e ys r s2 s3"
    using place_spec [OF b1 [unfolded e] rd _ old keys sp] by auto
  have ok: "tree_ok lo hi (Leaf pid (xs @ ?e # ys))"
    by (rule leaf_with_entry [OF k(2) [unfolded e] k(3,4) keys])
  have run: "upsert (root t) key d s = (case r of None \<Rightarrow> ret_op (root t)
      | Some i \<Rightarrow> bind_op (split_leaf pid i (entry_item ?e)) (\<lambda>(sep, right). propagate (root t) (rev (path_of ctx)) sep right)) s3"
    using d(1) s2(1) s3(1) by (simp add: upsert_def bind_op_def del: entry_item.simps)
  have "\<exists>t' s' new. upsert (root t) key d s = (Inr (root t'), s') \<and> rewritten U t t' s1 s' \<and> room s' m \<and>
      leaves t' = leaves_left ctx @ new @ leaves_right ctx \<and> concat (map snd new) = xs @ ?e # ys \<and> [] \<notin> snd ` set new"
  proof (cases r)
    case None
    then have "rewritten U t (plug (Leaf pid (xs @ ?e # ys)) ctx) s1 s3"
      using s3(2) unfolding t e by (intro upsert_in_place [OF b1 [unfolded e] rd k(1) ok]) (simp add: placed_def)
    moreover have "root (plug (Leaf pid (xs @ ?e # ys)) ctx) = root t"
      unfolding t by (rule root_plug) simp
    moreover have "room s3 m"
      using s3(2) None room_mono [OF s2(7), of m] by (simp add: placed_def leaf_step_def)
    ultimately show ?thesis
      using run None
      by (intro exI [of _ "plug (Leaf pid (xs @ ?e # ys)) ctx"] exI [of _ s3] exI [of _ "[(pid, xs @ ?e # ys)]"])
        (simp add: leaves_plug)
  next
    case (Some i)
    have pl: "i = length xs" "xs @ ys \<noteq> []"
      "leaf_step (U \<union> set ps - set (chain_ids old)) pid (xs @ ys) (successor ctx) s2 s3"
      using s3(2) Some by (simp_all add: placed_def)
    have st: "leaf_step (U \<union> set (snd (snd ?e)) - set (chain_ids old)) pid (xs @ ys) (successor ctx) s2 s3"
      using pl(3) by (simp only: snd_conv)
    have "room s3 (Suc (Suc (length ctx + m)))"
      using pl(3) room_mono [OF s2(7)] path_short [OF b1] by (simp add: leaf_step_def)
    then obtain t' s' where "bind_op (split_leaf pid (length xs) (entry_item ?e))
        (\<lambda>(sep, right). propagate (root t) (rev (path_of ctx)) sep right) s3 = (Inr (root t'), s')"
      "\<exists>rid es1 es2. leaves t' = leaves_left ctx @ [(pid, es1), (rid, es2)] @ leaves_right ctx \<and>
        es1 @ es2 = xs @ ?e # ys \<and> es1 \<noteq> [] \<and> es2 \<noteq> []" "rewritten U t t' s1 s'" "room s' m"
      using upsert_split [OF b1 [unfolded e] rd k(1) ok st pl(2)] t e by blast
    then show ?thesis
      using run Some pl(1) by (intro exI [of _ t'] exI [of _ s']) (force simp del: entry_item.simps)
  qed
  then obtain t' s' new where t': "upsert (root t) key d s = (Inr (root t'), s')" "rewritten U t t' s1 s'" "room s' m"
    "leaves t' = leaves_left ctx @ new @ leaves_right ctx" "concat (map snd new) = xs @ ?e # ys" "[] \<notin> snd ` set new"
    by blast
  have "entries t' = (entries_left ctx @ xs) @ ?e # (ys @ entries_right ctx)"
    using t'(4,5) unfolding entries_leaves entries_outside by simp
  moreover have "regular (leaves t) (leaves t')"
    using t'(4,6) unfolding t leaves_plug regular_def by auto blast
  moreover have "entries t = (entries_left ctx @ xs) @ old @ (ys @ entries_right ctx)"
    using t e by (simp add: entries_plug)
  ultimately show ?thesis
    using contents_change(1) [OF _ out, of t t' d ps] rewritten_unseen [OF d(2)] t'(1-3) by blast
qed

section \<open>Removal\<close>

lemma remove_correct:
  assumes b: "btree s U t"
  shows "\<exists>t' s'. remove (root t) key s = (Inr (key \<in> dom (map_of (contents t))), s') \<and> rewritten U t t' s s' \<and>
    root t' = root t \<and> map_of (contents t') = (map_of (contents t))(key := None)"
proof -
  obtain s1 pid es ctx lo hi where d: "descend (root t) key s = (Inr (pid, rev (path_of ctx)), s1)" "unseen s s1"
    and t: "t = plug (Leaf pid es) ctx" and k: "ctx_ok lo hi ctx" "tree_ok lo hi (Leaf pid es)" "lo \<le> key" "unat key < hi"
    by (rule descend_spec [OF b])
  have b1: "btree s1 U (plug (Leaf pid es) ctx)"
    using btree_unseen [OF b d(2)] t by simp
  obtain xs old ys where e: "es = xs @ old @ ys" and old: "old = [] \<or> (\<exists>e. old = [e] \<and> fst e = key)"
    and keys: "\<forall>e\<in>set xs. fst e < key" "\<forall>e\<in>set ys. key < fst e"
    and out: "fst ` set old \<subseteq> {key}" "key \<notin> fst ` set (entries_left ctx @ xs)" "key \<notin> fst ` set (ys @ entries_right ctx)"
    by (rule locate [OF b1 k(1,3,4)])
  have o1: "owns s1 U"
    using b1 by (simp add: btree_def)
  have ents: "entries t = (entries_left ctx @ xs) @ old @ (ys @ entries_right ctx)"
    using t e by (simp add: entries_plug)
  have leaf: "leaf_in (view s1) pid es"
    by (rule btree_leaf [OF b1])
  from old show ?thesis
  proof
    assume "old = []"
    then have slot: "slot_of key (map entry_item es) = Inl (length xs)"
      using slot_of_absent [of "map entry_item xs" key "map entry_item ys"] keys e by simp
    obtain s2 where s2: "unseen s1 s2" "with_page pid (find_item key) s1 = (Inr None, s2)"
      using find_in_leaf [OF owns_inv [OF o1] leaf, of key] slot by auto
    have us: "unseen s s2"
      by (rule unseen_trans [OF d(2) s2(1)])
    have "key \<notin> dom (map_of (contents t))"
      using map_of_contents_None [of t key] ents out \<open>old = []\<close> by (auto simp: image_Un)
    moreover have "rewritten U t t s s2"
      using btree_unseen [OF b us] b untouched_unseen [OF us] by (auto simp: rewritten_def btree_def Un_absorb2 Diff_partition Un_commute)
    ultimately show ?thesis
      using d(1) s2(2) by (intro exI [of _ t] exI [of _ s2]) (auto simp: remove_def bind_op_def domIff)
  next
    assume "\<exists>e. old = [e] \<and> fst e = key"
    then obtain e0 where e0: "old = [e0]" "fst e0 = key"
      by blast
    have P: "distinct (pid # chain_ids (xs @ e0 # ys) @ ctx_pages ctx)" "set (pid # chain_ids (xs @ e0 # ys) @ ctx_pages ctx) \<subseteq> U"
      "node_at (view s1) pid PK_Leaf (map entry_item (xs @ e0 # ys)) (successor ctx)" "\<forall>e\<in>set (xs @ ys). entry_in (view s1) e"
      using b1 e e0(1) by (simp_all add: btree_leaf_iff)
    let ?O = "set (snd (snd e0))"
    obtain s2 s3 where s3: "with_page pid (find_item key) s1 = (Inr (Some (length xs, entry_item e0)), s2)"
      "release_item (entry_item e0) s2 = (Inr (), s3)" "leaf_step (U - ?O) pid (xs @ e0 # ys) (successor ctx) s1 s3"
      by (rule find_and_release [OF o1 _ _ P(3) e0(2)]) (use leaf e e0(1) P in auto)
    have pid: "pid \<in> U - ?O"
      using P by auto
    obtain s4 where s4: "with_page_mut pid (\<lambda>p. bind_res (remove_item (length xs) p) (\<lambda>q. Inr ((), q))) s3 = (Inr (), s4)"
      "leaf_step (U - ?O) pid (xs @ ys) (successor ctx) s3 s4"
      by (rule remove_slot [OF leaf_stepD(1) [OF s3(3)] pid leaf_stepD(2) [OF s3(3)]])
    note st = leaf_step_trans [OF s3(3) s4(2)]
    let ?t' = "plug (Leaf pid (xs @ ys)) ctx"
    have un: "untouched (U - ?O - {pid}) s1 s4"
      using st by (simp add: leaf_step_def)
    have F: "set (ctx_pages ctx) \<subseteq> U - ?O - {pid}" "set (chain_ids (xs @ ys)) \<subseteq> U - ?O - {pid}"
      using P(1,2) by auto
    have "btree s4 (U - ?O) ?t'"
      using st P F untouched_entries [OF un F(2)] leaf_without_entry [OF k(2) [unfolded e]]
      by (intro replace_leaf [OF b1 un F(1) _ _ _ k(1)]) (auto simp: leaf_step_def)
    moreover have "U - ?O = U - set (pages t) \<union> set (pages ?t')" "set (pages ?t') \<inter> (U - set (pages t)) = {}"
      "U - set (pages t) \<subseteq> U - ?O - {pid}"
      using P(1,2) unfolding t e e0(1) pages_leaf by auto
    ultimately have "rewritten U t ?t' s1 s4"
      using untouched_mono [OF un] by (simp add: rewritten_def)
    moreover have "key \<in> dom (map_of (contents t))"
      using map_of_contents_None [of t key] ents e0 by (auto simp: image_Un)
    moreover have "root ?t' = root t"
      unfolding t by (rule root_plug) simp
    moreover have "map_of (contents ?t') = (map_of (contents t))(key := None)"
      by (rule contents_change(2) [OF ents out]) (simp add: entries_plug)
    ultimately show ?thesis
      using d(1) s3(1,2) s4(1) rewritten_unseen [OF d(2)]
      by (intro exI [of _ ?t'] exI [of _ s4]) (auto simp: remove_def bind_op_def)
  qed
qed

section \<open>Creation\<close>

lemma create_correct:
  assumes o: "owns s U" and room: "room s (Suc m)"
  obtains pid s' where "create s = (Inr pid, s')" and "btree s' (insert pid U) (Leaf pid [])" and "pid \<notin> U"
    and "untouched U s s'" and "leaf_space (view s') pid = PAGE_SIZE - HEADER_SIZE" and "room s' m"
proof -
  obtain pid s1 where a: "alloc_page PK_Leaf s = (Inr pid, s1)" "pid \<notin> U" "pid \<noteq> NO_PAGE" "owns s1 (insert pid U)"
    "view s1 pid = Some (content (page_new PK_Leaf))" "untouched U s s1" "room s1 m"
    by (rule alloc_spec [OF o room])
  have nd: "node_at (view s1) pid PK_Leaf [] 0"
    by (rule node_at_content, rule node_page_new, rule a(5))
  let ?f = "\<lambda>p. Inr ((), set_extra NO_PAGE p)"
  obtain p s2 where p: "node_page p PK_Leaf [] 0" "view s1 pid = Some (content p)" "page_ok p"
    and upd: "\<And>r q k' its' x'. ?f p = Inr (r, q) \<Longrightarrow> node_page q k' its' x' \<Longrightarrow>
      with_page_mut pid ?f s1 = (Inr r, s2) \<and> wrote pid (content q) s1 s2 \<and> node_at (view s2) pid k' its' x'"
    by (rule with_node_mut [OF owns_inv [OF a(4)] nd, of ?f]) blast
  note q = node_page_set_extra [OF p(1), of NO_PAGE]
  have s2: "with_page_mut pid ?f s1 = (Inr (), s2)" "wrote pid (content (set_extra NO_PAGE p)) s1 s2"
    "node_at (view s2) pid PK_Leaf [] NO_PAGE"
    using upd [OF refl q(1)] by blast+
  have "content p = content (page_new PK_Leaf)"
    using p(2) a(5) by simp
  then have "free_space p = PAGE_SIZE - HEADER_SIZE"
    using content_determines(6) [of p "page_new PK_Leaf"] page_ok_length [OF p(3)] page_new_fields(1)
    by (simp add: page_new_space)
  moreover have "leaf_space (view s2) pid = free_space (set_extra NO_PAGE p)"
    by (rule leaf_space_page) (use s2(2) set_extra_ok [OF p(3)] in \<open>auto simp: wrote_def\<close>)
  ultimately have "leaf_space (view s2) pid = PAGE_SIZE - HEADER_SIZE"
    using q(2) by simp
  moreover have "owns s2 (insert pid U)"
    by (rule owns_wrote [OF a(4) s2(2)]) simp
  then have "btree s2 (insert pid U) (plug (Leaf pid []) [])"
    unfolding btree_leaf_iff using s2(3) by (simp add: successor_def)
  moreover have "untouched U s s2"
    by (rule untouched_trans_same [OF a(6) untouched_wrote [OF s2(2) a(2)]]) auto
  moreover have "create s = (Inr pid, s2)"
    using a(1) s2(1) by (simp add: create_def bind_op_def)
  ultimately show ?thesis
    using that a(2,7) room_wrote [OF s2(2)] by simp
qed

section \<open>Destruction\<close>

fun nodes :: "tree \<Rightarrow> nat" where
  "nodes (Leaf pid es) = 1"
| "nodes (Node pid kids) = Suc (sum_list (map (\<lambda>(k, t). nodes t) kids))"

lemma nodes_pages: "nodes t \<le> length (pages t)"
proof (induction t rule: tree_induct)
  case (Node pid kids)
  have "sum_list (map (\<lambda>(k, t). nodes t) kids) \<le> sum_list (map (\<lambda>(k, t). length (pages t)) kids)"
    using Node.IH by (intro sum_list_mono) auto
  then show ?case
    by (simp add: length_concat comp_def case_prod_unfold)
qed simp

lemma release_all:
  assumes "owns s U" and "\<forall>e\<in>set es. entry_in (view s) e" and "distinct (chain_ids es)" and "set (chain_ids es) \<subseteq> U"
  shows "\<exists>s'. for_each (map entry_item es) release_item s = (Inr (), s') \<and> owns s' (U - set (chain_ids es)) \<and>
    untouched (U - set (chain_ids es)) s s'"
  using assms
proof (induction es arbitrary: s U)
  case (Cons e es)
  obtain k d ps where e: "e = (k, d, ps)"
    by (cases e) auto
  have ps: "entry_in (view s) (k, d, ps)" "distinct ps" "set ps \<subseteq> U" "set (chain_ids es) \<subseteq> U - set ps"
    using Cons.prems e by (auto simp del: entry_in.simps)
  obtain s1 where s1: "release_item (entry_item (k, d, ps)) s = (Inr (), s1)" "owns s1 (U - set ps)" "untouched (U - set ps) s s1"
    by (rule release_item_spec [OF Cons.prems(1) ps(1-3)])
  have "\<forall>e\<in>set es. entry_in (view s1) e"
    using Cons.prems(2) untouched_entries [OF s1(3) ps(4)] by simp
  then obtain s' where "for_each (map entry_item es) release_item s1 = (Inr (), s')" "owns s' (U - set ps - set (chain_ids es))"
    "untouched (U - set ps - set (chain_ids es)) s1 s'"
    using Cons.IH [OF s1(2)] Cons.prems(3) ps(4) by auto
  moreover have "U - set ps - set (chain_ids es) = U - set (chain_ids (e # es))"
    using e by auto
  moreover from calculation have "untouched (U - set (chain_ids (e # es))) s s'"
    by (intro untouched_trans_same [OF s1(3), of "U - set ps - set (chain_ids es)"]) auto
  ultimately show ?case
    using s1(1) e by (intro exI [of _ s']) (simp add: bind_op_def del: entry_item.simps chain_ids_simps)
qed simp

lemma children_of_spec:
  assumes p: "node_page p PK_Internal (kid_items kids) x" and "kids \<noteq> []"
  shows "children_of p [0..<slot_count p] = Inr (map snd (tl kids))"
proof -
  have its: "page_items p = kid_items kids" "layout_ok p"
    using p by (simp_all add: node_page_def page_inv_def)
  then have cnt: "slot_count p = length (tl kids)"
    by (metis kid_items_def length_map length_page_items)
  have "children_of p is = Inr (map (\<lambda>i. snd (tl kids ! i)) is)" if "\<forall>i\<in>set is. i < slot_count p" for "is"
    using that
  proof (induction "is")
    case (Cons i "is")
    have "item p i = Inr (kid_items kids ! i)"
      using item_eq [OF its(2), of i] Cons.prems its(1) by simp
    moreover have "kid_items kids ! i = make_internal_item (fst (tl kids ! i)) (snd (tl kids ! i))"
      using Cons.prems cnt by (simp add: kid_items_def case_prod_beta)
    ultimately show ?case
      using Cons by simp
  qed simp
  from this [of "[0..<slot_count p]"] show ?thesis
    using cnt by (simp add: map_nth [symmetric] map_map [symmetric] del: map_map) (simp add: list_eq_iff_nth_eq)
qed

lemma destroy_leaf:
  assumes o: "owns s U" and t: "tree_in (view s) (Leaf pid es)" "distinct (pages (Leaf pid es))" "set (pages (Leaf pid es)) \<subseteq> U"
  shows "\<exists>s'. destroy_all (Suc fuel) (pid # stack) s = destroy_all fuel stack s' \<and>
    owns s' (U - set (pages (Leaf pid es))) \<and> untouched (U - set (pages (Leaf pid es))) s s'"
proof -
  obtain x where nd: "node_at (view s) pid PK_Leaf (map entry_item es) x" and ents: "\<forall>e\<in>set es. entry_in (view s) e"
    using t(1) by auto
  obtain s1 p1 where s1: "with_page pid kind s = (kind p1, s1)" "unseen s s1" "node_page p1 PK_Leaf (map entry_item es) x"
    by (rule with_node [OF owns_inv [OF o] nd])
  have o1: "owns s1 U" and nd1: "node_at (view s1) pid PK_Leaf (map entry_item es) x"
    using owns_unseen [OF o s1(2)] nd node_at_unseen [OF s1(2)] by simp_all
  obtain s2 p2 where s2: "with_page pid items_of s1 = (items_of p2, s2)" "unseen s1 s2" "node_page p2 PK_Leaf (map entry_item es) x"
    by (rule with_node [OF owns_inv [OF o1] nd1])
  have its: "items_of p2 = Inr (map entry_item es)"
    using s2(3) collect_all_items [of p2] by (simp add: items_of_def node_page_def page_inv_def)
  have us: "unseen s s2"
    by (rule unseen_trans [OF s1(2) s2(2)])
  have e2: "\<forall>e\<in>set es. entry_in (view s2) e"
    using ents us by (simp add: unseen_def)
  obtain s3 where s3: "for_each (map entry_item es) release_item s2 = (Inr (), s3)" "owns s3 (U - set (chain_ids es))"
    "untouched (U - set (chain_ids es)) s2 s3"
    using release_all [OF owns_unseen [OF o us] e2] t(2,3) by auto
  obtain s4 where s4: "free_page pid s3 = (Inr (), s4)" "owns s4 (U - set (chain_ids es) - {pid})"
    "untouched (U - set (chain_ids es) - {pid}) s3 s4"
    by (rule free_spec [OF s3(2), of pid]) (use t(2,3) in auto)
  have eq: "U - set (chain_ids es) - {pid} = U - set (pages (Leaf pid es))"
    by auto
  have "untouched (U - set (pages (Leaf pid es))) s s4"
    by (rule untouched_trans_same [OF untouched_trans [OF untouched_unseen [OF us, of UNIV] s3(3)] s4(3)]) auto
  moreover have "destroy_all (Suc fuel) (pid # stack) s = destroy_all fuel stack s4"
    using s1(1,3) s2(1) its s3(1) s4(1) by (simp add: bind_op_def node_page_def)
  ultimately show ?thesis
    using s4(2) unfolding eq by blast
qed

lemma destroy_node:
  assumes o: "owns s U" and t: "tree_in (view s) (Node pid kids)" and pid: "pid \<in> U"
  shows "\<exists>s'. destroy_all (Suc fuel) (pid # stack) s = destroy_all fuel (rev (map (root \<circ> snd) kids) @ stack) s' \<and>
    owns s' (U - {pid}) \<and> untouched (U - {pid}) s s'"
proof -
  let ?x = "snd (hd (kid_ids kids))"
  have nd: "node_at (view s) pid PK_Internal (kid_items (kid_ids kids)) ?x" and ne: "kid_ids kids \<noteq> []"
    using t by (auto simp: kids_at_def kid_ids_def)
  obtain s1 p1 where s1: "with_page pid kind s = (kind p1, s1)" "unseen s s1"
    "node_page p1 PK_Internal (kid_items (kid_ids kids)) ?x"
    by (rule with_node [OF owns_inv [OF o] nd])
  have o1: "owns s1 U" and nd1: "node_at (view s1) pid PK_Internal (kid_items (kid_ids kids)) ?x"
    using owns_unseen [OF o s1(2)] nd node_at_unseen [OF s1(2)] by simp_all
  let ?f = "\<lambda>p. bind_res (children_of p [0..<slot_count p]) (\<lambda>cs. Inr (extra p # cs))"
  obtain s2 p2 where s2: "with_page pid ?f s1 = (?f p2, s2)" "unseen s1 s2"
    "node_page p2 PK_Internal (kid_items (kid_ids kids)) ?x"
    by (rule with_node [OF owns_inv [OF o1] nd1])
  have "?f p2 = Inr (?x # map snd (tl (kid_ids kids)))"
    using children_of_spec [OF s2(3) ne] s2(3) by (simp add: node_page_def)
  then have kids: "?f p2 = Inr (map (root \<circ> snd) kids)"
    using ne by (cases kids) (auto simp: kid_ids_def comp_def case_prod_beta)
  have us: "unseen s s2"
    by (rule unseen_trans [OF s1(2) s2(2)])
  obtain s3 where s3: "free_page pid s2 = (Inr (), s3)" "owns s3 (U - {pid})" "untouched (U - {pid}) s2 s3"
    by (rule free_spec [OF owns_unseen [OF o us] pid])
  have "untouched (U - {pid}) s s3"
    by (rule untouched_trans_same [OF untouched_unseen [OF us, of UNIV] s3(3)]) auto
  moreover have "destroy_all (Suc fuel) (pid # stack) s = destroy_all fuel (rev (map (root \<circ> snd) kids) @ stack) s3"
    using s1(1,3) s2(1) kids s3(1) by (simp add: bind_op_def node_page_def)
  ultimately show ?thesis
    using s3(2) by blast
qed

lemma mset_concat_rev: "mset (concat (map f (rev xs))) = mset (concat (map f xs))"
  by (induction xs) simp_all

lemma sum_list_map_rev: "sum_list (map (f :: 'a \<Rightarrow> nat) (rev xs)) = sum_list (map f xs)"
  by (induction xs) simp_all

lemma destroy_all_spec:
  assumes "owns s U" and "\<forall>t\<in>set ts. tree_in (view s) t" and "distinct (concat (map pages ts))"
    and "set (concat (map pages ts)) \<subseteq> U" and "sum_list (map nodes ts) \<le> fuel"
  shows "\<exists>s'. destroy_all fuel (map root ts) s = (Inr (), s') \<and> owns s' (U - set (concat (map pages ts))) \<and>
    untouched (U - set (concat (map pages ts))) s s'"
  using assms
proof (induction fuel arbitrary: s U ts)
  case 0
  have pos: "0 < nodes t" for t
    by (cases t) auto
  have "ts = []"
    using "0.prems"(5) pos [of "hd ts"] by (cases ts) simp_all
  then show ?case
    using 0 by simp
next
  case (Suc fuel)
  show ?case
  proof (cases ts)
    case Nil
    then show ?thesis
      using Suc.prems by simp
  next
    case (Cons t ts')
    let ?R = "set (concat (map pages ts'))"
    show ?thesis
    proof (cases t)
      case (Leaf pid es)
      let ?P = "set (pages t)"
      obtain s1 where s1: "destroy_all (Suc fuel) (pid # map root ts') s = destroy_all fuel (map root ts') s1"
        "owns s1 (U - ?P)" "untouched (U - ?P) s s1"
        using destroy_leaf [OF Suc.prems(1), of pid es fuel "map root ts'"] Suc.prems(2-4) Cons Leaf by auto
      have R: "?R \<subseteq> U - ?P"
        using Suc.prems(3,4) Cons by auto
      have "\<forall>t\<in>set ts'. tree_in (view s1) t"
        using Suc.prems(2) Cons untouched_tree [OF s1(3)] R by fastforce
      then obtain s' where s': "destroy_all fuel (map root ts') s1 = (Inr (), s')" "owns s' (U - ?P - ?R)" "untouched (U - ?P - ?R) s1 s'"
        using Suc.IH [OF s1(2), of ts'] Suc.prems(3,5) Cons Leaf R by auto
      have "untouched (U - ?P - ?R) s s'"
        by (rule untouched_trans_same [OF s1(3) s'(3)]) auto
      moreover have "U - ?P - ?R = U - set (concat (map pages ts))"
        using Cons by auto
      ultimately show ?thesis
        using s1(1) s' Cons Leaf by auto
    next
      case (Node pid kids)
      let ?ts = "rev (map snd kids) @ ts'"
      obtain s1 where s1: "destroy_all (Suc fuel) (pid # map root ts') s = destroy_all fuel (map root ?ts) s1"
        "owns s1 (U - {pid})" "untouched (U - {pid}) s s1"
        using destroy_node [OF Suc.prems(1), of pid kids fuel "map root ts'"] Suc.prems(2,4) Cons Node by (auto simp: rev_map)
      have m: "mset (concat (map pages ts)) = mset (pid # concat (map pages ?ts))"
        using Cons Node mset_concat_rev [of pages "map snd kids"] by (simp add: case_prod_unfold comp_def)
      have P: "set (concat (map pages ts)) = insert pid (set (concat (map pages ?ts)))" "distinct (pid # concat (map pages ?ts))"
        using mset_eq_setD [OF m] mset_eq_imp_distinct_iff [OF m] Suc.prems(3) by (simp_all only: list.simps)
      have sub: "set (concat (map pages ?ts)) \<subseteq> U - {pid}"
        using P Suc.prems(4) by auto
      have "\<forall>t\<in>set ?ts. tree_in (view s) t"
        using Suc.prems(2) Cons Node by auto
      then have "\<forall>t\<in>set ?ts. tree_in (view s1) t"
        using untouched_tree [OF s1(3)] sub by fastforce
      moreover have "sum_list (map nodes ?ts) \<le> fuel"
        using Suc.prems(5) Cons Node sum_list_map_rev [of nodes "map snd kids"] by (simp add: case_prod_unfold comp_def)
      ultimately obtain s' where s': "destroy_all fuel (map root ?ts) s1 = (Inr (), s')"
        "owns s' (U - {pid} - set (concat (map pages ?ts)))" "untouched (U - {pid} - set (concat (map pages ?ts))) s1 s'"
        using Suc.IH [OF s1(2), of ?ts] P(2) sub by auto
      have "untouched (U - {pid} - set (concat (map pages ?ts))) s s'"
        by (rule untouched_trans_same [OF s1(3) s'(3)]) auto
      moreover have "U - {pid} - set (concat (map pages ?ts)) = U - set (concat (map pages ts))"
        unfolding P(1) by auto
      ultimately show ?thesis
        using s1(1) s' Cons Node by auto
    qed
  qed
qed

lemma destroy_correct:
  assumes "btree s U t"
  shows "\<exists>s'. destroy (root t) s = (Inr (), s') \<and> owns s' (U - set (pages t)) \<and> untouched (U - set (pages t)) s s'"
proof -
  have b: "owns s U" "tree_in (view s) t" "distinct (pages t)" "set (pages t) \<subseteq> U"
    using assms by (simp_all add: btree_def)
  have "nodes t \<le> PAGE_IDS"
    using nodes_pages [of t] distinct_u32_length [OF b(3)] by (simp add: PAGE_IDS_def)
  then show ?thesis
    using destroy_all_spec [OF b(1), of "[t]" PAGE_IDS] b by (simp add: destroy_def)
qed

end
