(* ===== verification/Btree_Map.thy ===== *)
theory Btree_Map
  imports Btree_Update
begin

text \<open>
  The B+-tree as a map from keys to byte strings: the contract its clients rely on, loading a new
  tree, and a leaf that cannot be filled again once it has been emptied.
\<close>

section \<open>The contract of a map of byte strings\<close>

text \<open>
  \<open>holds s r m\<close>: in the state \<open>s\<close> the structure at \<open>r\<close> is the map \<open>m\<close>. A value that the structure
  \<open>takes\<close> can be stored.
\<close>

locale byte_map =
  fixes holds :: "'s \<Rightarrow> 'r \<Rightarrow> (u64 \<Rightarrow> bytes option) \<Rightarrow> bool"
    and takes :: "'s \<Rightarrow> 'r \<Rightarrow> bytes \<Rightarrow> bool"
    and get :: "'r \<Rightarrow> u64 \<Rightarrow> ('s, failure, bytes option) op"
    and put :: "'r \<Rightarrow> u64 \<Rightarrow> bytes \<Rightarrow> ('s, failure, 'r) op"
    and del :: "'r \<Rightarrow> u64 \<Rightarrow> ('s, failure, bool) op"
  assumes get_law: "holds s r m \<Longrightarrow> \<exists>s'. get r k s = (Inr (m k), s') \<and> holds s' r m"
    and put_law: "holds s r m \<Longrightarrow> takes s r d \<Longrightarrow> \<exists>r' s'. put r k d s = (Inr r', s') \<and> holds s' r' (m(k \<mapsto> d))"
    and del_law: "holds s r m \<Longrightarrow> \<exists>s'. del r k s = (Inr (k \<in> dom m), s') \<and> holds s' r (m(k := None))"
begin

lemma put_then_get:
  assumes "holds s r m" and "takes s r d"
  shows "\<exists>r' s1. put r k d s = (Inr r', s1) \<and>
    (\<forall>k'. \<exists>s2. get r' k' s1 = (Inr (if k' = k then Some d else m k'), s2))"
proof -
  obtain r' s1 where s1: "put r k d s = (Inr r', s1)" "holds s1 r' (m(k \<mapsto> d))"
    using put_law [OF assms] by blast
  have "\<exists>s2. get r' k' s1 = (Inr (if k' = k then Some d else m k'), s2)" for k'
    using get_law [OF s1(2), of k'] by auto
  then show ?thesis
    using s1(1) by blast
qed

lemma del_then_get:
  assumes "holds s r m"
  shows "\<exists>s1. del r k s = (Inr (k \<in> dom m), s1) \<and>
    (\<forall>k'. \<exists>s2. get r k' s1 = (Inr (if k' = k then None else m k'), s2))"
proof -
  obtain s1 where s1: "del r k s = (Inr (k \<in> dom m), s1)" "holds s1 r (m(k := None))"
    using del_law [OF assms] by blast
  have "\<exists>s2. get r k' s1 = (Inr (if k' = k then None else m k'), s2)" for k'
    using get_law [OF s1(2), of k'] by auto
  then show ?thesis
    using s1(1) by blast
qed

end

definition tree_holds :: "pager \<Rightarrow> page_id \<Rightarrow> (u64 \<Rightarrow> bytes option) \<Rightarrow> bool" where
  "tree_holds s r m \<longleftrightarrow> (\<exists>U t. btree s U t \<and> root t = r \<and> map_of (contents t) = m)"

definition tree_takes :: "pager \<Rightarrow> page_id \<Rightarrow> bytes \<Rightarrow> bool" where
  "tree_takes s r d \<longleftrightarrow> length d < 2 ^ 32 \<and> room s (length d div OVERFLOW_CHUNK + 35) \<and>
     (\<forall>U t. btree s U t \<and> root t = r \<longrightarrow> leaves_usable s t (stored_len d))"

interpretation tree_map: byte_map tree_holds tree_takes lookup upsert remove
proof unfold_locales
  fix s r m k
  assume "tree_holds s r m"
  then obtain U t where t: "btree s U t" "root t = r" "map_of (contents t) = m"
    by (auto simp: tree_holds_def)
  obtain s' where "lookup r k s = (Inr (m k), s')" "unseen s s'"
    using lookup_correct [OF t(1), of k] t(2,3) by auto
  then show "\<exists>s'. lookup r k s = (Inr (m k), s') \<and> tree_holds s' r m"
    using btree_unseen [OF t(1)] t(2,3) by (auto simp: tree_holds_def)
  obtain t' s' where "remove r k s = (Inr (k \<in> dom m), s')" "rewritten U t t' s s'" "root t' = r"
    "map_of (contents t') = m(k := None)"
    using remove_correct [OF t(1), of k] t(2,3) by auto
  then show "\<exists>s'. remove r k s = (Inr (k \<in> dom m), s') \<and> tree_holds s' r (m(k := None))"
    unfolding tree_holds_def rewritten_def by blast
next
  fix s r m d k
  assume "tree_holds s r m" and takes: "tree_takes s r d"
  then obtain U t where t: "btree s U t" "root t = r" "map_of (contents t) = m"
    by (auto simp: tree_holds_def)
  obtain t' s' where "upsert r k d s = (Inr (root t'), s')" "rewritten U t t' s s'" "map_of (contents t') = m(k \<mapsto> d)"
    using upsert_correct [OF t(1), of d 0 k] takes t by (auto simp: tree_takes_def)
  then show "\<exists>r' s'. upsert r k d s = (Inr r', s') \<and> tree_holds s' r' (m(k \<mapsto> d))"
    unfolding tree_holds_def rewritten_def by blast
qed

section \<open>Loading a tree\<close>

fun load :: "(u64 \<times> bytes) list \<Rightarrow> page_id \<Rightarrow> page_id pager_op" where
  "load [] r = ret_op r"
| "load ((k, d) # kvs) r = bind_op (upsert r k d) (load kvs)"

definition load_pages :: "(u64 \<times> bytes) list \<Rightarrow> nat" where
  "load_pages kvs = sum_list (map (\<lambda>(k, d). length d div OVERFLOW_CHUNK + 35) kvs)"

text \<open>Every leaf has an entry, or the tree is one leaf that has never had any.\<close>

definition packed :: "pager \<Rightarrow> tree \<Rightarrow> bool" where
  "packed s t \<longleftrightarrow> [] \<notin> snd ` set (leaves t) \<or>
     (\<exists>pid. leaves t = [(pid, [])] \<and> leaf_space (view s) pid = PAGE_SIZE - HEADER_SIZE)"

lemma stored_cost: "item_cost (stored_len d) \<le> PAGE_SIZE - HEADER_SIZE"
  by (simp add: stored_len_def item_cost_def layout)

lemma packed_usable: "packed s t \<Longrightarrow> leaves_usable s t (stored_len d)"
  using stored_cost [of d] by (auto simp: packed_def leaves_usable_def image_iff)

lemma packed_regular: "packed s t \<Longrightarrow> regular (leaves t) (leaves t') \<Longrightarrow> packed s' t'"
proof -
  assume p: "packed s t" and "regular (leaves t) (leaves t')"
  then obtain L l R new where r: "leaves t = L @ l # R" "leaves t' = L @ new @ R" "[] \<notin> snd ` set new"
    by (auto simp: regular_def)
  have "[] \<notin> snd ` set (L @ R)"
    using p r(1) unfolding packed_def by (auto simp: append_eq_Cons_conv image_Un)
  then show "packed s' t'"
    using r(2,3) by (simp add: packed_def image_Un)
qed

lemma load_spec:
  assumes "btree s U t" and "packed s t" and "\<forall>(k, d)\<in>set kvs. length d < 2 ^ 32" and "room s (load_pages kvs)"
  shows "\<exists>t' s'. load kvs (root t) s = (Inr (root t'), s') \<and> rewritten U t t' s s' \<and>
    map_of (contents t') = map_of (contents t) ++ map_of (rev kvs)"
  using assms
proof (induction kvs arbitrary: s U t)
  case Nil
  have "U - set (pages t) \<union> set (pages t) = U"
    using Nil.prems(1) by (auto simp: btree_def)
  then show ?case
    using Nil.prems(1) by (intro exI [of _ t] exI [of _ s]) (simp add: rewritten_def)
next
  case (Cons kd kvs)
  obtain k d where kd: "kd = (k, d)"
    by fastforce
  have len: "length d < 2 ^ 32" and room: "room s (length d div OVERFLOW_CHUNK + 35 + load_pages kvs)"
    using Cons.prems(3,4) kd by (auto simp: load_pages_def)
  obtain t1 s1 where s1: "upsert (root t) k d s = (Inr (root t1), s1)" "rewritten U t t1 s s1"
    "map_of (contents t1) = (map_of (contents t))(k \<mapsto> d)" "room s1 (load_pages kvs)" "regular (leaves t) (leaves t1)"
    using upsert_correct [OF Cons.prems(1) len room packed_usable [OF Cons.prems(2)]] by blast
  let ?V = "U - set (pages t) \<union> set (pages t1)"
  have b1: "btree s1 ?V t1"
    using s1(2) by (simp add: rewritten_def)
  obtain t' s' where s': "load kvs (root t1) s1 = (Inr (root t'), s')" "rewritten ?V t1 t' s1 s'"
    "map_of (contents t') = map_of (contents t1) ++ map_of (rev kvs)"
    using Cons.IH [OF b1 packed_regular [OF Cons.prems(2) s1(5)] _ s1(4)] Cons.prems(3) by auto
  have "rewritten U t t' s s'"
    by (rule rewritten_trans [OF s1(2) s'(2)])
  moreover have "map_of (contents t') = map_of (contents t) ++ map_of (rev (kd # kvs))"
    using s'(3) s1(3) kd by simp
  ultimately show ?case
    using s1(1) s'(1) kd by (intro exI [of _ t'] exI [of _ s']) (simp add: bind_op_def)
qed

section \<open>A leaf that has been emptied\<close>

lemma plug_Leaf: "plug t ctx = Leaf pid es \<Longrightarrow> ctx = [] \<and> t = Leaf pid es"
  by (induction t ctx rule: plug.induct) auto

lemma single_descend:
  assumes "btree s U (Leaf pid es)"
  obtains s' where "descend pid key s = (Inr (pid, []), s')" and "unseen s s'"
proof -
  obtain s' pid' es' ctx lo hi where d: "descend (root (Leaf pid es)) key s = (Inr (pid', rev (path_of ctx)), s')" "unseen s s'"
    "Leaf pid es = plug (Leaf pid' es') ctx"
    by (rule descend_spec [OF assms])
  have "ctx = [] \<and> Leaf pid' es' = Leaf pid es"
    by (rule plug_Leaf [OF d(3) [symmetric]])
  then show ?thesis
    using that d(1,2) by (simp add: path_of_def)
qed

lemma single_leaf:
  assumes "btree s U (Leaf pid es)"
  shows "owns s U" and "leaf_in (view s) pid es" and "node_at (view s) pid PK_Leaf (map entry_item es) NO_PAGE" and "pid \<in> U"
  using assms btree_leaf [of s U pid es "[]"] btree_leaf_iff [of s U pid es "[]"] by (simp_all add: successor_def)

definition inline_entry :: "u64 \<Rightarrow> bytes \<Rightarrow> entry" where
  "inline_entry key d = (key, d, [])"

lemma fst_inline [simp]: "fst (inline_entry key d) = key"
  by (simp add: inline_entry_def)

lemma length_inline: "length d \<le> MAX_INLINE \<Longrightarrow> length (entry_item (inline_entry key d)) = LEAF_HEADER + length d"
  by (simp add: inline_entry_def layout)

lemma build_inline: "length d \<le> MAX_INLINE \<Longrightarrow> build_item key d s = (Inr (entry_item (inline_entry key d)), s)"
  by (simp add: build_item_def inline_entry_def)

lemma ready_inline: "owns s U \<Longrightarrow> length d \<le> MAX_INLINE \<Longrightarrow> ready s U (inline_entry key d) s"
  by (simp add: ready_def inline_entry_def layout)

text \<open>Inserting a new key into a tree that is one leaf with room for it.\<close>

lemma single_upsert:
  assumes b: "btree s U (Leaf pid (xs @ ys))" and keys: "\<forall>e\<in>set xs. fst e < key" "\<forall>e\<in>set ys. key < fst e"
    and d: "length d \<le> MAX_INLINE" and fits: "item_cost (LEAF_HEADER + length d) \<le> leaf_space (view s) pid"
  obtains s' where "upsert pid key d s = (Inr pid, s')" and "btree s' U (Leaf pid (xs @ inline_entry key d # ys))"
    and "leaf_space (view s') pid = leaf_space (view s) pid - item_cost (LEAF_HEADER + length d)"
proof -
  let ?e = "inline_entry key d"
  obtain s1 where s1: "descend pid key s = (Inr (pid, []), s1)" "unseen s s1"
    by (rule single_descend [OF b])
  have b1: "btree s1 U (Leaf pid (xs @ ys))" and v: "view s1 = view s"
    using btree_unseen [OF b s1(2)] s1(2) by (simp_all add: unseen_def)
  note l = single_leaf [OF b1]
  have cost: "item_cost (length (entry_item ?e)) = item_cost (LEAF_HEADER + length d)"
    using length_inline [OF d] by simp
  obtain r s2 where s2: "place_item pid key (entry_item ?e) s1 = (Inr r, s2)" "placed U pid NO_PAGE xs ?e ys r s1 s2" "r = None"
    "leaf_space (view s2) pid = leaf_space (view s1) pid - item_cost (length (entry_item ?e))"
    using place_absent [OF l(1,2,4,3) keys, of ?e] fits cost v by auto
  have "tree_ok 0 KEY_LIMIT (Leaf pid (xs @ [] @ ys))"
    using b1 by (simp add: btree_def)
  moreover have "unat key < KEY_LIMIT"
    using unsigned_less [of key] by (simp add: KEY_LIMIT_def)
  ultimately have ok: "tree_ok 0 KEY_LIMIT (Leaf pid (xs @ ?e # ys))"
    unfolding inline_entry_def using keys by (intro leaf_with_entry [of _ _ _ _ "[]"]) simp_all
  have "leaf_step (U \<union> set (snd (snd ?e)) - set (chain_ids [])) pid (xs @ ?e # ys) (successor []) s1 s2"
    using s2(2,3) by (simp add: placed_def successor_def inline_entry_def)
  from upsert_in_place [of s1 U pid xs "[]" ys "[]", OF _ ready_inline [OF l(1) d] _ ok this]
  have "rewritten U (Leaf pid (xs @ ys)) (Leaf pid (xs @ ?e # ys)) s1 s2"
    using b1 by simp
  moreover have "U - set (pages (Leaf pid (xs @ ys))) \<union> set (pages (Leaf pid (xs @ ?e # ys))) = U"
    using b1 by (auto simp: btree_def inline_entry_def)
  ultimately have "btree s2 U (Leaf pid (xs @ ?e # ys))"
    by (simp add: rewritten_def)
  moreover have "upsert pid key d s = (Inr pid, s2)"
    using s1(1) build_inline [OF d] s2(1,3) by (simp add: upsert_def bind_op_def)
  ultimately show ?thesis
    using that s2(4) cost v by simp
qed

lemma single_remove:
  assumes b: "btree s U (Leaf pid (inline_entry key d # ys))" and d: "length d \<le> MAX_INLINE"
  obtains s' where "remove pid key s = (Inr True, s')" and "btree s' U (Leaf pid ys)"
    and "leaf_space (view s') pid = leaf_space (view s) pid + SLOT_SIZE"
proof -
  let ?e = "inline_entry key d"
  obtain s1 where s1: "descend pid key s = (Inr (pid, []), s1)" "unseen s s1"
    by (rule single_descend [OF b])
  have b1: "btree s1 U (Leaf pid (?e # ys))" and v: "view s1 = view s"
    using btree_unseen [OF b s1(2)] s1(2) by (simp_all add: unseen_def)
  note l = single_leaf [OF b1]
  have "slot_of key (map entry_item (?e # ys)) = Inr 0"
    using slot_of_found [of "[]" "entry_item ?e" "map entry_item ys"] by simp
  then obtain s2 where s2: "unseen s1 s2" "with_page pid (find_item key) s1 = (Inr (Some (0, entry_item ?e)), s2)"
    using find_in_leaf [OF owns_inv [OF l(1)] l(2), of key] by auto
  have b2: "btree s2 U (Leaf pid (?e # ys))" and v2: "view s2 = view s"
    using btree_unseen [OF b1 s2(1)] s2(1) v by (simp_all add: unseen_def)
  note l2 = single_leaf [OF b2]
  have rel: "release_item (entry_item ?e) s2 = (Inr (), s2)"
    using d by (simp add: release_item_def inline_entry_def nth_append layout)
  obtain s3 where s3: "with_page_mut pid (\<lambda>p. bind_res (remove_item 0 p) (\<lambda>q. Inr ((), q))) s2 = (Inr (), s3)"
    "leaf_step U pid ys NO_PAGE s2 s3" "leaf_space (view s3) pid = leaf_space (view s2) pid + SLOT_SIZE"
    using remove_slot [OF l2(1,4), of "[]" ?e ys NO_PAGE] l2(3) by auto
  have un: "untouched (U - {pid}) s2 s3"
    using s3(2) by (simp add: leaf_step_def)
  have P: "distinct (pages (Leaf pid (?e # ys)))" "set (pages (Leaf pid (?e # ys))) \<subseteq> U"
    "\<forall>e\<in>set ys. entry_in (view s2) e" "tree_ok 0 KEY_LIMIT (Leaf pid ys)"
    using b2 by (auto simp: btree_def)
  have ch: "set (chain_ids ys) \<subseteq> U - {pid}"
    using P(1,2) by (auto simp: inline_entry_def)
  have "btree s3 U (plug (Leaf pid ys) [])"
  proof (rule replace_leaf [of s2 U pid "?e # ys" "[]" _ s3])
    show "untouched (U - {pid}) s2 s3"
      by (rule un)
    show "ctx_ok 0 KEY_LIMIT []" "tree_ok 0 KEY_LIMIT (Leaf pid ys)"
      using P(4) by simp_all
    show "\<forall>e\<in>set ys. entry_in (view s3) e"
      using untouched_entries [OF un ch] P(3) by simp
  qed (use b2 P s3(2) in \<open>auto simp: leaf_step_def successor_def inline_entry_def\<close>)
  moreover have "remove pid key s = (Inr True, s3)"
    using s1(1) s2(2) rel s3(1) by (simp add: remove_def bind_op_def)
  ultimately show ?thesis
    using that s3(3) v2 by simp
qed

text \<open>The leaf has no entry and still no room: the split finds a single item and gives up.\<close>

lemma single_refuses:
  assumes b: "btree s U (Leaf pid [])" and d: "length d \<le> MAX_INLINE"
    and full: "leaf_space (view s) pid < item_cost (LEAF_HEADER + length d)"
  shows "\<exists>s'. upsert pid key d s = (Inl (btree_corrupt ''a single entry does not fit in an empty leaf''), s')"
proof -
  let ?e = "inline_entry key d"
  obtain s1 where s1: "descend pid key s = (Inr (pid, []), s1)" "unseen s s1"
    by (rule single_descend [OF b])
  have b1: "btree s1 U (Leaf pid [])" and v: "view s1 = view s"
    using btree_unseen [OF b s1(2)] s1(2) by (simp_all add: unseen_def)
  note l = single_leaf [OF b1]
  have empty: "slot_of key [] = Inl 0"
    by (simp add: slot_of_def lower_def)
  obtain s2 where s2: "unseen s1 s2" "with_page pid (find_item key) s1 = (Inr None, s2)"
    using find_in_leaf [OF owns_inv [OF l(1)] l(2), of key] empty by auto
  have b2: "btree s2 U (Leaf pid [])" and v2: "view s2 = view s"
    using btree_unseen [OF b1 s2(1)] s2(1) v by (simp_all add: unseen_def)
  note l2 = single_leaf [OF b2]
  obtain s3 p where s3: "with_page pid (\<lambda>p. slot_search p key) s2 = (slot_search p key, s3)" "unseen s2 s3"
    and p: "node_page p PK_Leaf (map entry_item []) NO_PAGE"
    by (rule with_node [OF owns_inv [OF l2(1)] l2(3)])
  have search: "slot_search p key = Inr (Inl 0)"
    using slot_search_spec [OF node_page_layout [OF p], of key] p empty by (simp add: node_page_def sorted_items_def)
  have b3: "btree s3 U (Leaf pid [])" and v3: "view s3 = view s"
    using btree_unseen [OF b2 s3(2)] s3(2) v2 by (simp_all add: unseen_def)
  note l3 = single_leaf [OF b3]
  have no: "\<not> item_cost (length (entry_item ?e)) \<le> leaf_space (view s3) pid"
    using full length_inline [OF d] v3 by simp
  obtain s4 where s4: "with_page_mut pid (insert_item 0 (entry_item ?e)) s3 = (Inr False, s4)" "leaf_step U pid [] NO_PAGE s3 s4"
    using insert_slot [OF l3(1,4), of "[]" "[]" NO_PAGE ?e] l3(3) no by auto
  have nd4: "node_at (view s4) pid PK_Leaf [] NO_PAGE"
    using leaf_stepD(2) [OF s4(2)] by simp
  obtain s5 q where s5: "with_page pid node_items s4 = (node_items q, s5)" and q: "node_page q PK_Leaf [] NO_PAGE"
    by (rule with_node [OF owns_inv [OF leaf_stepD(1) [OF s4(2)]] nd4])
  have "split_leaf pid 0 (entry_item ?e) s4 = (Inl (btree_corrupt ''a single entry does not fit in an empty leaf''), s5)"
    using s5 items_of_spec [OF q] by (simp add: split_leaf_def bind_op_def vec_insert_def insert_at_def)
  then show ?thesis
    using s1(1) build_inline [OF d] s2(2) s3(1) search s4(1) by (simp add: upsert_def place_item_def bind_op_def)
qed

text \<open>A script of insertions and removals.\<close>

fun apply_ops :: "(u64 \<times> bytes option) list \<Rightarrow> page_id \<Rightarrow> page_id pager_op" where
  "apply_ops [] r = ret_op r"
| "apply_ops ((k, Some d) # ops) r = bind_op (upsert r k d) (apply_ops ops)"
| "apply_ops ((k, None) # ops) r = bind_op (remove r k) (\<lambda>_. apply_ops ops r)"

definition block :: bytes where
  "block = replicate 2000 0"

definition fill_and_empty :: "(u64 \<times> bytes option) list" where
  "fill_and_empty = [(1, Some block), (2, Some block), (3, Some block), (4, Some block),
     (1, None), (2, None), (3, None), (4, None)]"

lemma fill_four:
  assumes b: "btree s U (Leaf pid [])" and sp: "leaf_space (view s) pid = 8168"
  obtains s1 s2 s3 s4 where "upsert pid 1 block s = (Inr pid, s1)" and "upsert pid 2 block s1 = (Inr pid, s2)"
    and "upsert pid 3 block s2 = (Inr pid, s3)" and "upsert pid 4 block s3 = (Inr pid, s4)"
    and "btree s4 U (Leaf pid [inline_entry 1 block, inline_entry 2 block, inline_entry 3 block, inline_entry 4 block])"
    and "leaf_space (view s4) pid = 116"
proof -
  have d: "length block \<le> MAX_INLINE" "item_cost (LEAF_HEADER + length block) = 2013"
    by (simp_all add: block_def item_cost_def layout)
  obtain s1 where s1: "upsert pid 1 block s = (Inr pid, s1)" "btree s1 U (Leaf pid [inline_entry 1 block])"
    "leaf_space (view s1) pid = 6155"
    using single_upsert [of s U pid "[]" "[]" 1 block] b sp d by auto
  obtain s2 where s2: "upsert pid 2 block s1 = (Inr pid, s2)" "btree s2 U (Leaf pid [inline_entry 1 block, inline_entry 2 block])"
    "leaf_space (view s2) pid = 4142"
    using single_upsert [of s1 U pid "[inline_entry 1 block]" "[]" 2 block] s1 d by auto
  obtain s3 where s3: "upsert pid 3 block s2 = (Inr pid, s3)"
    "btree s3 U (Leaf pid [inline_entry 1 block, inline_entry 2 block, inline_entry 3 block])" "leaf_space (view s3) pid = 2129"
    using single_upsert [of s2 U pid "[inline_entry 1 block, inline_entry 2 block]" "[]" 3 block] s2 d by auto
  obtain s4 where s4: "upsert pid 4 block s3 = (Inr pid, s4)"
    "btree s4 U (Leaf pid [inline_entry 1 block, inline_entry 2 block, inline_entry 3 block, inline_entry 4 block])"
    "leaf_space (view s4) pid = 116"
    using single_upsert [of s3 U pid "[inline_entry 1 block, inline_entry 2 block, inline_entry 3 block]" "[]" 4 block] s3 d
    by auto
  show ?thesis
    by (rule that [OF s1(1) s2(1) s3(1) s4])
qed

lemma fill_and_empty_spec:
  assumes b: "btree s U (Leaf pid [])" and sp: "leaf_space (view s) pid = 8168"
  obtains s' where "apply_ops fill_and_empty pid s = (Inr pid, s')" and "btree s' U (Leaf pid [])"
    and "leaf_space (view s') pid = 132"
proof -
  have d: "length block \<le> MAX_INLINE"
    by (simp add: block_def layout)
  obtain s1 s2 s3 s4 where f: "upsert pid 1 block s = (Inr pid, s1)" "upsert pid 2 block s1 = (Inr pid, s2)"
    "upsert pid 3 block s2 = (Inr pid, s3)" "upsert pid 4 block s3 = (Inr pid, s4)"
    "btree s4 U (Leaf pid [inline_entry 1 block, inline_entry 2 block, inline_entry 3 block, inline_entry 4 block])"
    "leaf_space (view s4) pid = 116"
    by (rule fill_four [OF b sp])
  obtain s5 where s5: "remove pid 1 s4 = (Inr True, s5)" "btree s5 U (Leaf pid [inline_entry 2 block, inline_entry 3 block, inline_entry 4 block])"
    "leaf_space (view s5) pid = 120"
    using single_remove [OF f(5) d] f(6) by (auto simp: SLOT_SIZE_def)
  obtain s6 where s6: "remove pid 2 s5 = (Inr True, s6)" "btree s6 U (Leaf pid [inline_entry 3 block, inline_entry 4 block])"
    "leaf_space (view s6) pid = 124"
    using single_remove [OF s5(2) d] s5(3) by (auto simp: SLOT_SIZE_def)
  obtain s7 where s7: "remove pid 3 s6 = (Inr True, s7)" "btree s7 U (Leaf pid [inline_entry 4 block])" "leaf_space (view s7) pid = 128"
    using single_remove [OF s6(2) d] s6(3) by (auto simp: SLOT_SIZE_def)
  obtain s8 where s8: "remove pid 4 s7 = (Inr True, s8)" "btree s8 U (Leaf pid [])" "leaf_space (view s8) pid = 132"
    using single_remove [OF s7(2) d] s7(3) by (auto simp: SLOT_SIZE_def)
  have "apply_ops fill_and_empty pid s = (Inr pid, s8)"
    using f s5(1) s6(1) s7(1) s8(1) by (simp add: fill_and_empty_def bind_op_def)
  then show ?thesis
    by (rule that [OF _ s8(2,3)])
qed

section \<open>Results\<close>

text \<open>A new database with one small tree in it, on which the results below are exercised.\<close>

lemma new_pager:
  obtains s where "owns s {}" and "\<forall>n < 4000000000. room s n"
proof -
  obtain s where "pager_open [] None 8 True = Inr s" "clog_inv s {}" "p_meta s = meta_fresh"
    by (rule pager_open_new)
  then show ?thesis
    using that [of s] by (simp add: clog_inv_def room_def meta_fresh_def)
qed

lemma sample_tree:
  obtains s U pid where "btree s U (Leaf pid [inline_entry 7 [1, 2]])" and "\<forall>n < 3000000000. room s n"
    and "leaves_usable s (Leaf pid [inline_entry 7 [1, 2]]) n"
proof -
  obtain s0 where s0: "owns s0 {}" "\<forall>n < 4000000000. room s0 n"
    by (rule new_pager)
  obtain pid s1 where s1: "create s0 = (Inr pid, s1)" "btree s1 (insert pid {}) (Leaf pid [])"
    "leaf_space (view s1) pid = PAGE_SIZE - HEADER_SIZE" "room s1 3500000000"
    by (rule create_correct [OF s0(1), of 3500000000]) (use s0(2) in auto)
  have usable: "leaves_usable s1 (Leaf pid []) (stored_len [1, 2])"
    using s1(3) stored_cost by (simp add: leaves_usable_def)
  have "room s1 (length [1, 2 :: u8] div OVERFLOW_CHUNK + 35 + 3000000000)"
    by (rule room_mono [OF s1(4)]) (simp add: layout)
  note up = upsert_correct [OF s1(2) _ this usable, of 7]
  obtain s2 where s2: "upsert pid 7 [1, 2] s1 = (Inr pid, s2)" "btree s2 (insert pid {}) (Leaf pid [inline_entry 7 [1, 2]])"
    using single_upsert [of s1 "insert pid {}" pid "[]" "[]" 7 "[1, 2]"] s1(2,3) by (auto simp: item_cost_def layout)
  have "room s2 3000000000"
    using up s2(1) by auto
  then show ?thesis
    using that [OF s2(2)] room_mono by (auto simp: leaves_usable_def)
qed

lemma node_at_unique: "node_at v pid k its x \<Longrightarrow> node_at v pid k' its' x' \<Longrightarrow> k' = k \<and> its' = its"
  by (auto simp: node_at_def node_page_def)

lemma leaf_root_usable:
  assumes "btree s U (Leaf pid (e # es))" and "btree s U' t" and "root t = pid"
  shows "leaves_usable s t n"
proof (cases t)
  case (Leaf pid' es')
  have "map entry_item es' = map entry_item (e # es)"
    using single_leaf(3) [OF assms(1)] single_leaf(3) [of s U' pid es'] assms(2,3) Leaf node_at_unique by fastforce
  then show ?thesis
    using Leaf by (auto simp: leaves_usable_def)
next
  case (Node pid' kids)
  have "node_at (view s) pid PK_Internal (kid_items (kid_ids kids)) (snd (hd (kid_ids kids)))"
    using assms(2,3) Node by (simp add: btree_def kids_at_def)
  then show ?thesis
    using node_at_unique [OF single_leaf(3) [OF assms(1)]] by blast
qed



text \<open>
  After a value has been stored, a lookup of any key in the new state finds that value under its
  key and every other key as it was before.
\<close>

theorem tree_read_after_write:
  assumes "tree_holds s r m" and "tree_takes s r d"
  shows "\<exists>r' s1. upsert r k d s = (Inr r', s1) \<and>
    (\<forall>k'. \<exists>s2. lookup r' k' s1 = (Inr (if k' = k then Some d else m k'), s2))"
  by (rule tree_map.put_then_get [OF assms])

theorem tree_read_after_write_witness:
  "\<exists>s r m. tree_holds s r m \<and> m 7 = Some [1, 2] \<and> (\<exists>r' s1 s2 s3. upsert r 9 [3] s = (Inr r', s1) \<and>
     lookup r' 9 s1 = (Inr (Some [3]), s2) \<and> lookup r' 7 s1 = (Inr (Some [1, 2]), s3))"
proof -
  let ?m = "map_of [(7 :: u64, [1, 2 :: u8])]"
  obtain s U pid where t: "btree s U (Leaf pid [inline_entry 7 [1, 2]])" "\<forall>n < 3000000000. room s n"
    by (rule sample_tree)
  have h: "tree_holds s pid ?m"
    unfolding tree_holds_def using t(1)
    by (intro exI [of _ U] exI [of _ "Leaf pid [inline_entry 7 [1, 2]]"]) (simp add: contents_def inline_entry_def)
  have "tree_takes s pid [3]"
    using t(2) leaf_root_usable [OF t(1)] by (auto simp: tree_takes_def layout)
  then obtain r' s1 where s1: "upsert pid 9 [3] s = (Inr r', s1)"
    "\<forall>k'. \<exists>s2. lookup r' k' s1 = (Inr (if k' = 9 then Some [3] else ?m k'), s2)"
    using tree_read_after_write [OF h, of "[3]" 9] by blast
  have "\<exists>s2. lookup r' 9 s1 = (Inr (Some [3]), s2)" "\<exists>s2. lookup r' 7 s1 = (Inr (Some [1, 2]), s2)"
    using spec [OF s1(2), of 9] spec [OF s1(2), of 7] by simp_all
  then show ?thesis
    using h s1(1) by (intro exI [of _ s] exI [of _ pid] exI [of _ ?m]) auto
qed

text \<open>
  C8: a lookup finds what the tree has under the key, or nothing, and a seek finds the entry with the
  smallest key not below the bound, however many levels, empty leaves and overflow pages lie on the
  way. Both come to an end and change nothing that is visible.
\<close>

theorem tree_reads_refine:
  assumes "btree s U t"
  shows "(\<exists>s'. lookup (root t) key s = (Inr (map_of (contents t) key), s') \<and> unseen s s') \<and>
    (\<exists>s'. seek (root t) key s = (Inr (find (\<lambda>(k, d). key \<le> k) (contents t)), s') \<and> unseen s s') \<and>
    sorted_wrt (<) (map fst (contents t))"
  using lookup_correct [OF assms, of key] seek_correct [OF assms, of key] contents_sorted [of 0 KEY_LIMIT t] assms
  by (simp add: first_at_least_def btree_def)

theorem tree_reads_refine_witness:
  "\<exists>s U t. btree s U t \<and> contents t = [(7, [1, 2])] \<and>
     (\<exists>s'. lookup (root t) 7 s = (Inr (Some [1, 2]), s')) \<and> (\<exists>s'. seek (root t) 7 s = (Inr (Some (7, [1, 2])), s'))"
proof -
  let ?t = "\<lambda>pid. Leaf pid [inline_entry 7 [1, 2]]"
  obtain s U pid where t: "btree s U (?t pid)"
    by (rule sample_tree)
  have c: "contents (?t pid) = [(7, [1, 2])]"
    by (simp add: contents_def inline_entry_def)
  show ?thesis
    using t tree_reads_refine [OF t, of 7] by (intro exI [of _ s] exI [of _ U] exI [of _ "?t pid"]) (auto simp: c)
qed

text \<open>
  C9: removing a key says whether it was there and gives a well-formed tree at the same root whose
  map no longer has it. The pages of its overflow chain are free again.
\<close>

theorem tree_remove_refines:
  assumes "btree s U t"
  shows "\<exists>t' s'. remove (root t) key s = (Inr (key \<in> dom (map_of (contents t))), s') \<and> root t' = root t \<and>
    btree s' (U - set (pages t) \<union> set (pages t')) t' \<and> set (pages t') \<inter> (U - set (pages t)) = {} \<and>
    untouched (U - set (pages t)) s s' \<and> map_of (contents t') = (map_of (contents t))(key := None)"
  using remove_correct [OF assms, of key] by (auto simp: rewritten_def)

theorem tree_remove_refines_witness:
  "\<exists>s U t t' s'. btree s U t \<and> contents t = [(7, [1, 2])] \<and> remove (root t) 7 s = (Inr True, s') \<and>
     btree s' (U - set (pages t) \<union> set (pages t')) t' \<and> map_of (contents t') = Map.empty"
proof -
  let ?t = "\<lambda>pid. Leaf pid [inline_entry 7 [1, 2]]"
  obtain s U pid where t: "btree s U (?t pid)"
    by (rule sample_tree)
  have c: "contents (?t pid) = [(7, [1, 2])]"
    by (simp add: contents_def inline_entry_def)
  obtain t' s' where "remove (root (?t pid)) 7 s = (Inr True, s')"
    "btree s' (U - set (pages (?t pid)) \<union> set (pages t')) t'" "map_of (contents t') = Map.empty"
    using tree_remove_refines [OF t, of 7] unfolding c by auto
  then show ?thesis
    using t c by blast
qed



text \<open>
  C11: loading a new tree with any sequence of entries succeeds as long as the file has room for the
  pages: no insertion fails, and every later lookup gives the last value stored under its key.
\<close>

theorem tree_load_succeeds:
  assumes "owns s U" and "\<forall>(k, d)\<in>set kvs. length d < 2 ^ 32" and "room s (Suc (load_pages kvs))"
  shows "\<exists>r s1 r' s2. create s = (Inr r, s1) \<and> load kvs r s1 = (Inr r', s2) \<and> untouched U s s2 \<and>
    (\<forall>k. \<exists>s3. lookup r' k s2 = (Inr (map_of (rev kvs) k), s3))"
proof -
  obtain pid s1 where s1: "create s = (Inr pid, s1)" "btree s1 (insert pid U) (Leaf pid [])" "pid \<notin> U" "untouched U s s1"
    "leaf_space (view s1) pid = PAGE_SIZE - HEADER_SIZE" "room s1 (load_pages kvs)"
    by (rule create_correct [OF assms(1,3)])
  have "packed s1 (Leaf pid [])"
    using s1(5) by (simp add: packed_def)
  then obtain t' s2 where s2: "load kvs pid s1 = (Inr (root t'), s2)" "rewritten (insert pid U) (Leaf pid []) t' s1 s2"
    "map_of (contents t') = map_of (rev kvs)"
    using load_spec [OF s1(2) _ assms(2) s1(6)] by (auto simp: contents_def)
  have "U \<subseteq> insert pid U - set (pages (Leaf pid []))"
    using s1(3) by auto
  then have "untouched U s s2"
    using s2(2) by (intro untouched_trans_same [OF s1(4)]) (auto simp: rewritten_def)
  moreover have "\<exists>s3. lookup (root t') k s2 = (Inr (map_of (rev kvs) k), s3)" for k
    using lookup_correct [of s2 _ t' k] s2(2,3) by (auto simp: rewritten_def)
  ultimately show ?thesis
    using s1(1) s2(1) by blast
qed

theorem tree_load_succeeds_witness:
  "\<exists>s r s1 r' s2 s3 s4. create s = (Inr r, s1) \<and> load [(5, block), (3, [1]), (5, [2])] r s1 = (Inr r', s2) \<and>
     lookup r' 5 s2 = (Inr (Some [2]), s3) \<and> lookup r' 4 s2 = (Inr None, s4)"
proof -
  let ?kvs = "[(5, block), (3, [1]), (5, [2])] :: (u64 \<times> bytes) list"
  obtain s where s: "owns s {}" "\<forall>n < 4000000000. room s n"
    by (rule new_pager)
  have "room s (Suc (load_pages ?kvs))"
    using s(2) by (simp add: load_pages_def block_def layout)
  moreover have "\<forall>(k, d)\<in>set ?kvs. length d < 2 ^ 32"
    by (simp add: block_def)
  ultimately obtain r s1 r' s2 where l: "create s = (Inr r, s1)" "load ?kvs r s1 = (Inr r', s2)"
    "\<forall>k. \<exists>s3. lookup r' k s2 = (Inr (map_of (rev ?kvs) k), s3)"
    using tree_load_succeeds [OF s(1)] by blast
  have "\<exists>s3. lookup r' 5 s2 = (Inr (Some [2]), s3)" "\<exists>s3. lookup r' 4 s2 = (Inr None, s3)"
    using spec [OF l(3), of 5] spec [OF l(3), of 4] by simp_all
  then show ?thesis
    using l(1,2) by blast
qed

text \<open>
  C12: a leaf that entries have filled and left is unusable. A new tree takes four entries of 2000
  bytes and loses them again; it is empty, and yet the same insertion that succeeded at first is an
  error from then on, because the page still counts the space of the removed items as taken.
\<close>

theorem emptied_leaf_refuses:
  assumes "owns s U" and "room s 1"
  shows "\<exists>r s1 s2 s3. create s = (Inr r, s1) \<and> apply_ops fill_and_empty r s1 = (Inr r, s2) \<and>
    tree_holds s2 r Map.empty \<and>
    upsert r 1 block s2 = (Inl (btree_corrupt ''a single entry does not fit in an empty leaf''), s3)"
proof -
  obtain pid s1 where s1: "create s = (Inr pid, s1)" "btree s1 (insert pid U) (Leaf pid [])"
    "leaf_space (view s1) pid = PAGE_SIZE - HEADER_SIZE"
    by (rule create_correct [OF assms(1), of 0]) (use assms(2) in auto)
  obtain s2 where s2: "apply_ops fill_and_empty pid s1 = (Inr pid, s2)" "btree s2 (insert pid U) (Leaf pid [])"
    "leaf_space (view s2) pid = 132"
    by (rule fill_and_empty_spec [OF s1(2)]) (use s1(3) in \<open>simp_all add: layout\<close>)
  have "tree_holds s2 pid Map.empty"
    unfolding tree_holds_def using s2(2) by (intro exI [of _ "insert pid U"] exI [of _ "Leaf pid []"]) (simp add: contents_def)
  moreover have "\<exists>s3. upsert pid 1 block s2 = (Inl (btree_corrupt ''a single entry does not fit in an empty leaf''), s3)"
    by (rule single_refuses [OF s2(2)]) (simp_all add: s2(3) block_def item_cost_def layout)
  ultimately show ?thesis
    using s1(1) s2(1) by blast
qed

theorem emptied_leaf_refuses_witness:
  "\<exists>s r s1 s2 s3. create s = (Inr r, s1) \<and> apply_ops fill_and_empty r s1 = (Inr r, s2) \<and>
     upsert r 1 block s2 = (Inl (btree_corrupt ''a single entry does not fit in an empty leaf''), s3)"
proof -
  obtain s where "owns s {}" "\<forall>n < 4000000000. room s n"
    by (rule new_pager)
  then show ?thesis
    using emptied_leaf_refuses [of s "{}"] by (metis one_less_numeral_iff semiring_norm(76))
qed

end
