(* ===== verification/Floats.thy ===== *)
theory Floats
  imports Common
begin

text \<open>
  The \<open>f64\<close> operations that expressions and aggregates use, on bit patterns: IEEE 754 binary64 with
  rounding to nearest, ties to even. A result that is not a number is the canonical quiet NaN; Rust
  leaves its sign and payload open.
\<close>

section \<open>Fields of a bit pattern\<close>

definition f64_negative :: "u64 \<Rightarrow> bool" where
  "f64_negative w \<longleftrightarrow> bit w 63"

definition f64_magnitude :: "u64 \<Rightarrow> nat" where
  "f64_magnitude w = unat w mod 2 ^ 63"

definition f64_infinite :: "u64 \<Rightarrow> bool" where
  "f64_infinite w \<longleftrightarrow> f64_magnitude w = 0x7FF0000000000000"

definition f64_nan :: u64 where
  "f64_nan = 0x7FF8000000000000"

definition f64_with_sign :: "bool \<Rightarrow> nat \<Rightarrow> u64" where
  "f64_with_sign negative magnitude = word_of_nat ((if negative then 2 ^ 63 else 0) + magnitude)"

text \<open>A finite number is \<open>significand * 2 ^ exponent\<close>.\<close>

definition f64_exponent :: "u64 \<Rightarrow> int" where
  "f64_exponent w = (let e = f64_magnitude w div 2 ^ 52 in if e = 0 then - 1074 else int e - 1075)"

definition f64_significand :: "u64 \<Rightarrow> nat" where
  "f64_significand w =
     (let m = f64_magnitude w mod 2 ^ 52 in if f64_magnitude w div 2 ^ 52 = 0 then m else 2 ^ 52 + m)"

definition f64_signed :: "u64 \<Rightarrow> int" where
  "f64_signed w = (if f64_negative w then - int (f64_significand w) else int (f64_significand w))"

section \<open>Rounding\<close>

fun bit_count :: "nat \<Rightarrow> nat" where
  "bit_count n = (if n = 0 then 0 else Suc (bit_count (n div 2)))"

declare bit_count.simps [simp del]

text \<open>\<open>num / den\<close> and \<open>2 ^ e\<close> over a common denominator.\<close>

definition scaled :: "nat \<Rightarrow> nat \<Rightarrow> int \<Rightarrow> nat \<times> nat" where
  "scaled num den e = (if 0 \<le> e then (num, den * 2 ^ nat e) else (num * 2 ^ nat (- e), den))"

definition ratio_exponent :: "nat \<Rightarrow> nat \<Rightarrow> int" where
  "ratio_exponent num den =
     (let d = int (bit_count num) - int (bit_count den); (n, m) = scaled num den d
      in if m \<le> n then d else d - 1)"

text \<open>
  The magnitude bits of the double nearest to \<open>num / den\<close>. The pattern \<open>(u + 1074) * 2 ^ 52 + n\<close> is the
  number \<open>n * 2 ^ u\<close>, also when rounding carries \<open>n\<close> to \<open>2 ^ 53\<close>.
\<close>

definition round_ratio :: "nat \<Rightarrow> nat \<Rightarrow> nat" where
  "round_ratio num den =
     (if num = 0 then 0
      else let u = max (ratio_exponent num den - 52) (- 1074);
               (a, b) = scaled num den u;
               n = a div b; r = a mod b;
               n' = (if b < 2 * r \<or> b = 2 * r \<and> odd n then n + 1 else n)
           in min (nat (u + 1074) * 2 ^ 52 + n') 0x7FF0000000000000)"

text \<open>\<open>m * 2 ^ e\<close>, rounded; \<open>negative_zero\<close> is the sign of a result that is exactly zero.\<close>

definition f64_round :: "int \<Rightarrow> int \<Rightarrow> bool \<Rightarrow> u64" where
  "f64_round m e negative_zero =
     (if m = 0 then f64_with_sign negative_zero 0
      else f64_with_sign (m < 0)
        (if 0 \<le> e then round_ratio (nat \<bar>m\<bar> * 2 ^ nat e) 1 else round_ratio (nat \<bar>m\<bar>) (2 ^ nat (- e))))"

section \<open>Arithmetic\<close>

text \<open>Both numbers as multiples of the same power of two.\<close>

definition f64_aligned :: "u64 \<Rightarrow> u64 \<Rightarrow> int \<times> int \<times> int" where
  "f64_aligned a b =
     (let e = min (f64_exponent a) (f64_exponent b)
      in (f64_signed a * 2 ^ nat (f64_exponent a - e), f64_signed b * 2 ^ nat (f64_exponent b - e), e))"

definition f64_add :: "u64 \<Rightarrow> u64 \<Rightarrow> u64" where
  "f64_add a b =
     (if f64_is_nan a \<or> f64_is_nan b then f64_nan
      else if f64_infinite a then
        (if f64_infinite b \<and> f64_negative a \<noteq> f64_negative b then f64_nan else a)
      else if f64_infinite b then b
      else let (x, y, e) = f64_aligned a b
           in f64_round (x + y) e (f64_negative a \<and> f64_negative b))"

definition f64_neg :: "u64 \<Rightarrow> u64" where
  "f64_neg w = w XOR 2 ^ 63"

definition f64_sub :: "u64 \<Rightarrow> u64 \<Rightarrow> u64" where
  "f64_sub a b = (if f64_is_nan b then f64_nan else f64_add a (f64_neg b))"

definition f64_mul :: "u64 \<Rightarrow> u64 \<Rightarrow> u64" where
  "f64_mul a b =
     (let negative = (f64_negative a \<noteq> f64_negative b)
      in if f64_is_nan a \<or> f64_is_nan b then f64_nan
         else if f64_infinite a \<or> f64_infinite b then
           (if f64_is_zero a \<or> f64_is_zero b then f64_nan else f64_with_sign negative 0x7FF0000000000000)
         else f64_round (f64_signed a * f64_signed b) (f64_exponent a + f64_exponent b) negative)"

definition f64_div :: "u64 \<Rightarrow> u64 \<Rightarrow> u64" where
  "f64_div a b =
     (let negative = (f64_negative a \<noteq> f64_negative b)
      in if f64_is_nan a \<or> f64_is_nan b then f64_nan
         else if f64_infinite a then (if f64_infinite b then f64_nan else f64_with_sign negative 0x7FF0000000000000)
         else if f64_infinite b then f64_with_sign negative 0
         else if f64_is_zero b then
           (if f64_is_zero a then f64_nan else f64_with_sign negative 0x7FF0000000000000)
         else let (num, den) = scaled (f64_significand a) (f64_significand b) (f64_exponent b - f64_exponent a)
              in f64_with_sign negative (round_ratio num den))"

text \<open>\<open>%\<close> is exact and takes the sign of the dividend.\<close>

definition f64_rem :: "u64 \<Rightarrow> u64 \<Rightarrow> u64" where
  "f64_rem a b =
     (if f64_is_nan a \<or> f64_is_nan b \<or> f64_infinite a \<or> f64_is_zero b then f64_nan
      else if f64_infinite b then a
      else let (x, y, e) = f64_aligned a b; r = \<bar>x\<bar> mod \<bar>y\<bar>
           in f64_round (if f64_negative a then - r else r) e (f64_negative a))"

section \<open>Conversion and comparison\<close>

definition f64_of_int :: "int \<Rightarrow> u64" where
  "f64_of_int n = f64_round n 0 False"

text \<open>\<open>v.trunc() as i64\<close>: towards zero, saturating, and zero for NaN.\<close>

definition f64_to_i64 :: "u64 \<Rightarrow> int" where
  "f64_to_i64 w =
     (if f64_is_nan w then 0
      else if f64_infinite w then (if f64_negative w then - (2 ^ 63) else 2 ^ 63 - 1)
      else let e = f64_exponent w;
               n = (if 0 \<le> e then f64_significand w * 2 ^ nat e else f64_significand w div 2 ^ nat (- e));
               v = (if f64_negative w then - int n else int n)
           in max (- (2 ^ 63)) (min (2 ^ 63 - 1) v))"

datatype ordering = Less | Equal | Greater

fun reverse_ordering :: "ordering \<Rightarrow> ordering" where
  "reverse_ordering Less = Greater"
| "reverse_ordering Equal = Equal"
| "reverse_ordering Greater = Less"

definition cmp :: "'a :: linorder \<Rightarrow> 'a \<Rightarrow> ordering" where
  "cmp a b = (if a < b then Less else if a = b then Equal else Greater)"

text \<open>The magnitudes order the positive numbers, infinity included.\<close>

definition f64_key :: "u64 \<Rightarrow> int" where
  "f64_key w = (if f64_negative w then - int (f64_magnitude w) else int (f64_magnitude w))"

definition f64_partial_cmp :: "u64 \<Rightarrow> u64 \<Rightarrow> ordering option" where
  "f64_partial_cmp a b =
     (if f64_is_nan a \<or> f64_is_nan b then None else Some (cmp (f64_key a) (f64_key b)))"

section \<open>Facts\<close>

lemma cmp_swap: "cmp b a = reverse_ordering (cmp a b)"
  by (auto simp: cmp_def)

lemma cmp_Equal: "cmp a b = Equal \<longleftrightarrow> a = b"
  by (simp add: cmp_def)

lemma cmp_less_trans: "cmp a b = Less \<Longrightarrow> cmp b c = Less \<Longrightarrow> cmp a c = Less"
  by (auto simp: cmp_def split: if_splits)

lemma reverse_ordering_twice [simp]: "reverse_ordering (reverse_ordering x) = x"
  by (cases x) simp_all

lemma reverse_Equal [simp]: "reverse_ordering x = Equal \<longleftrightarrow> x = Equal"
  by (cases x) simp_all

lemma f64_partial_cmp_swap: "f64_partial_cmp b a = map_option reverse_ordering (f64_partial_cmp a b)"
  by (auto simp: f64_partial_cmp_def cmp_swap [of "f64_key b"])

end
