(* ===== verification/Sql_Expr.thy ===== *)
theory Sql_Expr
  imports Floats Timestamps
begin

text \<open>
  The planner's intermediate forms: expressions over column names (expr.rs), the closed set of scalar
  functions (planner scalar.rs), logical plans (logical.rs), the names in scope (scope.rs), and the
  physical expressions and plans the executor runs (physical.rs).
\<close>

section \<open>Operators and functions (expr.rs, scalar.rs)\<close>

record column_ref =
  cr_qualifier :: "string option"
  cr_name :: string

definition column_ref_new :: "string \<Rightarrow> column_ref" where
  "column_ref_new n = \<lparr>cr_qualifier = None, cr_name = n\<rparr>"

definition column_ref_qualified :: "string \<Rightarrow> string \<Rightarrow> column_ref" where
  "column_ref_qualified q n = \<lparr>cr_qualifier = Some q, cr_name = n\<rparr>"

definition column_ref_text :: "column_ref \<Rightarrow> string" where
  "column_ref_text r =
     (case cr_qualifier r of Some q \<Rightarrow> q @ ''.'' @ cr_name r | None \<Rightarrow> cr_name r)"

datatype binary_op =
    OpEq | OpNotEq | OpLt | OpLtEq | OpGt | OpGtEq | OpAnd | OpOr
  | OpPlus | OpMinus | OpMultiply | OpDivide | OpModulo | OpConcat

definition is_comparison :: "binary_op \<Rightarrow> bool" where
  "is_comparison op \<longleftrightarrow> op \<in> {OpEq, OpNotEq, OpLt, OpLtEq, OpGt, OpGtEq}"

definition is_arithmetic :: "binary_op \<Rightarrow> bool" where
  "is_arithmetic op \<longleftrightarrow> op \<in> {OpPlus, OpMinus, OpMultiply, OpDivide, OpModulo, OpConcat}"

datatype aggregate_func = AggCount | AggSum | AggAvg | AggMin | AggMax

definition aggregate_parse :: "string \<Rightarrow> aggregate_func option" where
  "aggregate_parse name =
     (if name = ''count'' then Some AggCount
      else if name = ''sum'' then Some AggSum
      else if name = ''avg'' then Some AggAvg
      else if name = ''min'' then Some AggMin
      else if name = ''max'' then Some AggMax
      else None)"

fun aggregate_name :: "aggregate_func \<Rightarrow> string" where
  "aggregate_name AggCount = ''count''"
| "aggregate_name AggSum = ''sum''"
| "aggregate_name AggAvg = ''avg''"
| "aggregate_name AggMin = ''min''"
| "aggregate_name AggMax = ''max''"

datatype scalar_func =
  Coalesce | Lower | Upper | Nocase | Substr | Hex | Randomblob | DatetimeFn | DateFn

definition scalar_parse :: "string \<Rightarrow> scalar_func option" where
  "scalar_parse name =
     (if name = ''coalesce'' then Some Coalesce
      else if name = ''lower'' then Some Lower
      else if name = ''upper'' then Some Upper
      else if name = ''nocase'' then Some Nocase
      else if name = ''substr'' \<or> name = ''substring'' then Some Substr
      else if name = ''hex'' then Some Hex
      else if name = ''randomblob'' then Some Randomblob
      else if name = ''datetime'' then Some DatetimeFn
      else if name = ''date'' then Some DateFn
      else None)"

fun scalar_name :: "scalar_func \<Rightarrow> string" where
  "scalar_name Coalesce = ''coalesce''"
| "scalar_name Lower = ''lower''"
| "scalar_name Upper = ''upper''"
| "scalar_name Nocase = ''nocase''"
| "scalar_name Substr = ''substr''"
| "scalar_name Hex = ''hex''"
| "scalar_name Randomblob = ''randomblob''"
| "scalar_name DatetimeFn = ''datetime''"
| "scalar_name DateFn = ''date''"

definition arity :: "scalar_func \<Rightarrow> nat \<times> nat option" where
  "arity f =
     (case f of
        Coalesce \<Rightarrow> (1, None)
      | DatetimeFn \<Rightarrow> (1, None)
      | DateFn \<Rightarrow> (1, None)
      | Substr \<Rightarrow> (2, Some 3)
      | _ \<Rightarrow> (1, Some 1))"

definition arity_text :: "nat \<times> nat option \<Rightarrow> string" where
  "arity_text a =
     (case a of
        (lo, Some hi) \<Rightarrow>
          if lo = hi then dec_string lo @ '' argument(s)''
          else dec_string lo @ '' to '' @ dec_string hi @ '' arguments''
      | (lo, None) \<Rightarrow> ''at least '' @ dec_string lo @ '' argument(s)'')"

definition check_arity :: "scalar_func \<Rightarrow> nat \<Rightarrow> unit res" where
  "check_arity f given =
     (let (lo, hi) = arity f
      in if given < lo \<or> (case hi of None \<Rightarrow> False | Some hi \<Rightarrow> hi < given)
         then Inl (Err (Plan (scalar_name f @ ''() takes '' @ arity_text (lo, hi) @ '', not '' @ dec_string given)))
         else Inr ())"

definition result_type :: "scalar_func \<Rightarrow> data_type \<Rightarrow> data_type" where
  "result_type f first_arg = (if f = Coalesce \<or> f = Nocase then first_arg else DT_Text)"

definition is_null_preserving :: "scalar_func \<Rightarrow> bool" where
  "is_null_preserving f \<longleftrightarrow> f \<noteq> Coalesce"

section \<open>Logical plans (logical.rs)\<close>

record table_source =
  src_id :: u32
  src_name :: string
  src_alias :: "string option"
  src_schema :: schema

definition qualifiers :: "table_source \<Rightarrow> string list" where
  "qualifiers s = src_name s # (case src_alias s of None \<Rightarrow> [] | Some a \<Rightarrow> [a])"

datatype join_type = JInner | JLeft | JRight | JFull | JCross

definition preserves_left :: "join_type \<Rightarrow> bool" where
  "preserves_left j \<longleftrightarrow> j = JLeft \<or> j = JFull"

definition preserves_right :: "join_type \<Rightarrow> bool" where
  "preserves_right j \<longleftrightarrow> j = JRight \<or> j = JFull"

text \<open>
  The structures that carry expressions, for expressions by name and by position: \<open>SortKey\<close> and
  \<open>PhysSortKey\<close>, \<open>AggregateCall\<close> and \<open>PhysAggregate\<close>, \<open>OnConflict\<close> and \<open>PhysOnConflict\<close> have the same fields.
\<close>

datatype 'e sort_key = SortKey (sk_expr: 'e) (sk_asc: bool) (sk_nulls_first: bool)

datatype 'e aggregate_call =
  AggregateCall (ac_func: aggregate_func) (ac_arg: "'e option") (ac_distinct: bool)

datatype 'e projection_item = ProjectionItem (pi_expr: 'e) (pi_output_name: string)

datatype 'e conflict_action = ConflictNothing | ConflictUpdate "(nat \<times> 'e) list" "'e option"

datatype 'e on_conflict = OnConflict (oc_target: "nat list") (oc_action: "'e conflict_action")

datatype expr =
    EColumn column_ref
  | ESlot nat
  | ELiteral val
  | EBinary expr binary_op expr
  | ENot expr
  | EIsNull expr
  | ELike expr expr bool bool
  | ECase "expr option" "(expr \<times> expr) list" "expr option"
  | ECast expr data_type
  | EFunction scalar_func "expr list"
  | EInSubquery expr logical_plan bool
and logical_plan =
    LScan table_source "expr option"
  | LJoin logical_plan logical_plan join_type "expr option"
  | LFilter logical_plan expr
  | LAggregate logical_plan "expr list" "expr aggregate_call list"
  | LProjection logical_plan "expr projection_item list"
  | LSort logical_plan "expr sort_key list"
  | LDistinct logical_plan
  | LLimit logical_plan "u64 option" u64
  | LInsert table_source "expr list list" "expr on_conflict option"
  | LUpdate table_source logical_plan "(nat \<times> expr) list"
  | LDelete table_source logical_plan
  | LCall string "expr list"

definition expr_eq :: "expr \<Rightarrow> expr \<Rightarrow> expr" where
  "expr_eq l r = EBinary l OpEq r"

definition expr_and :: "expr \<Rightarrow> expr \<Rightarrow> expr" where
  "expr_and l r = EBinary l OpAnd r"

text \<open>The columns of a subquery belong to its own scope.\<close>

fun referenced_columns :: "expr \<Rightarrow> column_ref list" where
  "referenced_columns (EColumn r) = [r]"
| "referenced_columns (ESlot _) = []"
| "referenced_columns (ELiteral _) = []"
| "referenced_columns (EBinary l _ r) = referenced_columns l @ referenced_columns r"
| "referenced_columns (ENot e) = referenced_columns e"
| "referenced_columns (EIsNull e) = referenced_columns e"
| "referenced_columns (ECast e _) = referenced_columns e"
| "referenced_columns (ELike e p _ _) = referenced_columns e @ referenced_columns p"
| "referenced_columns (ECase operand branches else_result) =
     (case operand of None \<Rightarrow> [] | Some e \<Rightarrow> referenced_columns e)
     @ (case else_result of None \<Rightarrow> [] | Some e \<Rightarrow> referenced_columns e)
     @ concat (map (\<lambda>(w, t). referenced_columns w @ referenced_columns t) branches)"
| "referenced_columns (EFunction _ args) = concat (map referenced_columns args)"
| "referenced_columns (EInSubquery e _ _) = referenced_columns e"

text \<open>\<open>children\<close> lists the inputs of a node.\<close>

fun plan_children :: "logical_plan \<Rightarrow> logical_plan list" where
  "plan_children (LScan _ _) = []"
| "plan_children (LInsert _ _ _) = []"
| "plan_children (LCall _ _) = []"
| "plan_children (LJoin l r _ _) = [l, r]"
| "plan_children (LFilter p _) = [p]"
| "plan_children (LAggregate p _ _) = [p]"
| "plan_children (LProjection p _) = [p]"
| "plan_children (LSort p _) = [p]"
| "plan_children (LDistinct p) = [p]"
| "plan_children (LLimit p _ _) = [p]"
| "plan_children (LUpdate _ p _) = [p]"
| "plan_children (LDelete _ p) = [p]"

fun split_conjunction :: "expr \<Rightarrow> expr list" where
  "split_conjunction (EBinary l OpAnd r) = split_conjunction l @ split_conjunction r"
| "split_conjunction e = [e]"

definition combine_conjunction :: "expr list \<Rightarrow> expr option" where
  "combine_conjunction preds =
     (case preds of [] \<Rightarrow> None | p # ps \<Rightarrow> Some (foldl expr_and p ps))"

section \<open>Scopes (scope.rs)\<close>

record scope_column =
  scol_qualifiers :: "string list"
  scol_column :: column_def

text \<open>\<open>Scope\<close> wraps the list of its columns; \<open>Scope::empty\<close> is \<open>[]\<close> and \<open>Scope::concat\<close> is \<open>@\<close>.\<close>

type_synonym scope = "scope_column list"

definition for_relation :: "schema \<Rightarrow> string list \<Rightarrow> scope" where
  "for_relation s quals = map (\<lambda>c. \<lparr>scol_qualifiers = quals, scol_column = c\<rparr>) (schema_columns s)"

definition anonymous :: "schema \<Rightarrow> scope" where
  "anonymous s = for_relation s []"

definition scope_nullable :: "scope \<Rightarrow> scope" where
  "scope_nullable sc = map (\<lambda>c. c\<lparr>scol_column := (scol_column c)\<lparr>col_nullable := True\<rparr>\<rparr>) sc"

definition answers :: "column_ref \<Rightarrow> scope_column \<Rightarrow> bool" where
  "answers r c \<longleftrightarrow> col_name (scol_column c) = cr_name r \<and>
     (case cr_qualifier r of None \<Rightarrow> True | Some q \<Rightarrow> q \<in> set (scol_qualifiers c))"

definition candidates :: "scope \<Rightarrow> column_ref \<Rightarrow> nat list" where
  "candidates sc r = filter (\<lambda>i. answers r (sc ! i)) [0..<length sc]"

definition can_resolve :: "scope \<Rightarrow> column_ref \<Rightarrow> bool" where
  "can_resolve sc r \<longleftrightarrow> length (candidates sc r) = 1"

definition resolve :: "scope \<Rightarrow> column_ref \<Rightarrow> nat res" where
  "resolve sc r =
     (case candidates sc r of
        [i] \<Rightarrow> Inr i
      | [] \<Rightarrow> Inl (Err (ColumnNotFound (column_ref_text r)))
      | _ \<Rightarrow> Inl (Err (Plan (''column reference '' @ column_ref_text r @ '' is ambiguous''))))"

definition out_of_range :: "nat \<Rightarrow> string" where
  "out_of_range i = ''column '' @ dec_string i @ '' out of range''"

definition column_at :: "scope \<Rightarrow> nat \<Rightarrow> column_def res" where
  "column_at sc i = (if i < length sc then Inr (scol_column (sc ! i)) else Inl (Err (Plan (out_of_range i))))"

definition positions_for :: "scope \<Rightarrow> string \<Rightarrow> nat list" where
  "positions_for sc q = filter (\<lambda>i. q \<in> set (scol_qualifiers (sc ! i))) [0..<length sc]"

definition scope_schema :: "scope \<Rightarrow> schema" where
  "scope_schema sc = \<lparr>schema_columns = map scol_column sc\<rparr>"

text \<open>\<open>LogicalPlan::scope\<close>.\<close>

fun plan_scope :: "logical_plan \<Rightarrow> scope option" where
  "plan_scope (LScan source _) = Some (for_relation (src_schema source) (qualifiers source))"
| "plan_scope (LJoin l r j _) =
     (case (plan_scope l, plan_scope r) of
        (Some ls, Some rs) \<Rightarrow>
          Some ((if preserves_right j then scope_nullable ls else ls)
            @ (if preserves_left j then scope_nullable rs else rs))
      | _ \<Rightarrow> None)"
| "plan_scope (LFilter p _) = plan_scope p"
| "plan_scope (LSort p _) = plan_scope p"
| "plan_scope (LDistinct p) = plan_scope p"
| "plan_scope (LLimit p _ _) = plan_scope p"
| "plan_scope _ = None"

section \<open>Physical expressions and plans (physical.rs)\<close>

datatype phys_expr =
    PColumn nat
  | PLiteral val
  | PBinary phys_expr binary_op phys_expr
  | PNot phys_expr
  | PIsNull phys_expr
  | PLike phys_expr phys_expr bool bool
  | PCase "phys_expr option" "(phys_expr \<times> phys_expr) list" "phys_expr option"
  | PCast phys_expr data_type
  | PFunction scalar_func "phys_expr list"
  | PInSubquery phys_expr physical_plan bool
and physical_plan =
    SeqScan u32 string schema "phys_expr option"
  | IndexScan u32 string schema string nat phys_expr "phys_expr option"
  | NestedLoopJoin physical_plan physical_plan join_type "phys_expr option" schema
  | PFilter physical_plan phys_expr
  | PAggregate physical_plan "phys_expr list" "phys_expr aggregate_call list" schema
  | PProjection physical_plan "phys_expr list" schema
  | PSort physical_plan "phys_expr sort_key list"
  | PDistinct physical_plan
  | PLimit physical_plan "u64 option" u64
  | PInsert u32 string schema "phys_expr list list" "phys_expr on_conflict option" "unique_key list"
  | PUpdate u32 string schema physical_plan "(nat \<times> phys_expr) list" "unique_key list"
  | PDelete u32 string schema physical_plan
  | CallProcedure string "phys_expr list"

type_synonym phys_sort_key = "phys_expr sort_key"
type_synonym phys_aggregate = "phys_expr aggregate_call"
type_synonym phys_on_conflict = "phys_expr on_conflict"
type_synonym phys_conflict_action = "phys_expr conflict_action"

fun output_schema :: "physical_plan \<Rightarrow> schema option" where
  "output_schema (SeqScan _ _ s _) = Some s"
| "output_schema (IndexScan _ _ s _ _ _ _) = Some s"
| "output_schema (NestedLoopJoin _ _ _ _ out) = Some out"
| "output_schema (PAggregate _ _ _ out) = Some out"
| "output_schema (PProjection _ _ out) = Some out"
| "output_schema (PFilter p _) = output_schema p"
| "output_schema (PSort p _) = output_schema p"
| "output_schema (PDistinct p) = output_schema p"
| "output_schema (PLimit p _ _) = output_schema p"
| "output_schema (PInsert _ _ _ _ _ _) = None"
| "output_schema (PUpdate _ _ _ _ _ _) = None"
| "output_schema (PDelete _ _ _ _) = None"
| "output_schema (CallProcedure _ _) = None"

fun preserves_row_identity :: "physical_plan \<Rightarrow> bool" where
  "preserves_row_identity (SeqScan _ _ _ _) = True"
| "preserves_row_identity (IndexScan _ _ _ _ _ _ _) = True"
| "preserves_row_identity (PFilter p _) = preserves_row_identity p"
| "preserves_row_identity _ = False"

end
