(* ===== verification/Eval.thy ===== *)
theory Eval
  imports Sql_Expr
begin

text \<open>
  Evaluation of expressions (exec eval.rs) and of the scalar functions and casts (exec scalar.rs). Text
  is its UTF-8 bytes; the case tables of Unicode and the decimal forms of an \<open>f64\<close> are parameters. The
  clock and the counter behind \<open>randomblob\<close> are the state an evaluation threads.
\<close>

section \<open>Surroundings\<close>

record text_ops =
  to_lowercase :: "bytes \<Rightarrow> bytes"
  to_uppercase :: "bytes \<Rightarrow> bytes"
  print_f64 :: "u64 \<Rightarrow> bytes"
  parse_f64 :: "bytes \<Rightarrow> u64 option"

text \<open>\<open>amb_clock n\<close> is the \<open>n\<close>-th reading of the clock, in microseconds since the epoch.\<close>

record ambient =
  amb_clock :: "nat \<Rightarrow> int"
  amb_reads :: nat
  amb_counter :: u64

type_synonym 'a ev = "(ambient, failure, 'a) op"

definition now_micros :: "int ev" where
  "now_micros w = (Inr (amb_clock w (amb_reads w)), w\<lparr>amb_reads := Suc (amb_reads w)\<rparr>)"

definition fetch_counter :: "u64 ev" where
  "fetch_counter w = (Inr (amb_counter w), w\<lparr>amb_counter := amb_counter w + 1\<rparr>)"

section \<open>Characters\<close>

definition char_len :: "u8 \<Rightarrow> nat" where
  "char_len b = (if b < 0x80 then 1 else if b < 0xE0 then 2 else if b < 0xF0 then 3 else 4)"

text \<open>\<open>chars()\<close>: each character by its encoding.\<close>

function chars :: "bytes \<Rightarrow> bytes list" where
  "chars [] = []"
| "chars (b # bs) = (b # take (char_len b - 1) bs) # chars (drop (char_len b - 1) bs)"
  by pat_completeness auto
termination
  by (relation "measure length") auto

definition to_ascii_lowercase :: "bytes \<Rightarrow> bytes" where
  "to_ascii_lowercase s = map (\<lambda>b. if 65 \<le> b \<and> b \<le> 90 then b + 32 else b) s"

section \<open>LIKE\<close>

abbreviation PERCENT :: bytes where "PERCENT \<equiv> [37]"
abbreviation UNDERSCORE :: bytes where "UNDERSCORE \<equiv> [95]"
abbreviation BACKSLASH :: bytes where "BACKSLASH \<equiv> [92]"

text \<open>
  The loop of \<open>like_matches\<close> on its local variables \<open>t\<close>, \<open>p\<close>, \<open>wildcard\<close> and \<open>resume\<close>. The measure: once a
  wildcard has been passed, it lies before \<open>p\<close> and \<open>resume\<close> is not past \<open>t\<close>; then each step finds a later
  wildcard, or resumes later, or consumes a character.
\<close>

function like_loop :: "bytes list \<Rightarrow> bytes list \<Rightarrow> nat \<Rightarrow> nat \<Rightarrow> nat option \<Rightarrow> nat \<Rightarrow> bool" where
  "like_loop text pattern t p wildcard resume =
     (if length text \<le> t then list_all (\<lambda>c. c = PERCENT) (drop p pattern)
      else if p < length pattern \<and> pattern ! p = PERCENT
        then like_loop text pattern t (p + 1) (Some p) t
      else if p < length pattern \<and> pattern ! p = UNDERSCORE
        then like_loop text pattern (t + 1) (p + 1) wildcard resume
      else if p + 1 < length pattern \<and> pattern ! p = BACKSLASH \<and> pattern ! (p + 1) = text ! t
        then like_loop text pattern (t + 1) (p + 2) wildcard resume
      else if p < length pattern \<and> pattern ! p \<noteq> BACKSLASH \<and> pattern ! p = text ! t
        then like_loop text pattern (t + 1) (p + 1) wildcard resume
      else case wildcard of
             Some q \<Rightarrow> like_loop text pattern (resume + 1) (q + 1) wildcard (resume + 1)
           | None \<Rightarrow> False)"
  by pat_completeness auto
termination
  by (relation "measures [
      \<lambda>(text, pattern, t, p, wildcard, resume).
        if wildcard = None \<or> the wildcard < p \<and> resume \<le> t then 0 else 1,
      \<lambda>(text, pattern, t, p, wildcard, resume).
        case wildcard of None \<Rightarrow> Suc (length pattern) | Some q \<Rightarrow> length pattern - q,
      \<lambda>(text, pattern, t, p, wildcard, resume). length text - resume,
      \<lambda>(text, pattern, t, p, wildcard, resume). length text - t]")
    (auto split: option.splits)

declare like_loop.simps [simp del]

definition like_matches :: "bytes \<Rightarrow> bytes \<Rightarrow> bool" where
  "like_matches text pattern = like_loop (chars text) (chars pattern) 0 0 None 0"

section \<open>Comparison and arithmetic\<close>

text \<open>\<open>str::cmp\<close> compares the bytes.\<close>

fun cmp_bytes :: "bytes \<Rightarrow> bytes \<Rightarrow> ordering" where
  "cmp_bytes [] [] = Equal"
| "cmp_bytes [] (_ # _) = Less"
| "cmp_bytes (_ # _) [] = Greater"
| "cmp_bytes (a # as) (b # bs) = (case cmp a b of Equal \<Rightarrow> cmp_bytes as bs | other \<Rightarrow> other)"

text \<open>\<open>data_type().expect(..)\<close>.\<close>

definition type_mismatch :: "data_type \<Rightarrow> val \<Rightarrow> failure" where
  "type_mismatch expected v =
     (case data_type_of v of Some actual \<Rightarrow> Err (TypeMismatch expected actual) | None \<Rightarrow> Panic)"

fun as_float :: "val \<Rightarrow> u64 option" where
  "as_float (VInt4 v) = Some (f64_of_int (sint v))"
| "as_float (VInt8 v) = Some (f64_of_int (sint v))"
| "as_float (VFloat8 v) = Some v"
| "as_float _ = None"

fun as_int :: "val \<Rightarrow> int option" where
  "as_int (VInt4 v) = Some (sint v)"
| "as_int (VInt8 v) = Some (sint v)"
| "as_int _ = None"

definition compare_mixed :: "val \<Rightarrow> val \<Rightarrow> ordering res" where
  "compare_mixed l r =
     (case (as_float l, as_float r) of
        (Some a, Some b) \<Rightarrow>
          (case f64_partial_cmp a b of
             Some o' \<Rightarrow> Inr o'
           | None \<Rightarrow> Inl (Err (Exec ''cannot order NaN against a number'')))
      | _ \<Rightarrow>
          (case (data_type_of l, data_type_of r) of
             (Some expected, Some actual) \<Rightarrow> Inl (Err (TypeMismatch expected actual))
           | _ \<Rightarrow> Inl Panic))"

definition compare :: "val \<Rightarrow> val \<Rightarrow> ordering option res" where
  "compare l r =
     (if is_null l \<or> is_null r then Inr None
      else bind_res
        (case (l, r) of
           (VBoolean a, VBoolean b) \<Rightarrow> Inr (cmp a b)
         | (VText a, VText b) \<Rightarrow> Inr (cmp_bytes a b)
         | (VJson a, VJson b) \<Rightarrow> Inr (cmp_bytes a b)
         | (VUuid a, VUuid b) \<Rightarrow> Inr (cmp a b)
         | (VTimestamp a, VTimestamp b) \<Rightarrow> Inr (cmp (sint a) (sint b))
         | (VInt4 a, VInt4 b) \<Rightarrow> Inr (cmp (sint a) (sint b))
         | (VInt8 a, VInt8 b) \<Rightarrow> Inr (cmp (sint a) (sint b))
         | (VInt4 a, VInt8 b) \<Rightarrow> Inr (cmp (sint a) (sint b))
         | (VInt8 a, VInt4 b) \<Rightarrow> Inr (cmp (sint a) (sint b))
         | _ \<Rightarrow> compare_mixed l r)
        (\<lambda>o'. Inr (Some o')))"

text \<open>\<open>matches\<close>; its last arm is \<open>unreachable!\<close>.\<close>

definition op_matches :: "binary_op \<Rightarrow> ordering \<Rightarrow> bool res" where
  "op_matches op o' =
     (case op of
        OpEq \<Rightarrow> Inr (o' = Equal)
      | OpNotEq \<Rightarrow> Inr (o' \<noteq> Equal)
      | OpLt \<Rightarrow> Inr (o' = Less)
      | OpLtEq \<Rightarrow> Inr (o' \<noteq> Greater)
      | OpGt \<Rightarrow> Inr (o' = Greater)
      | OpGtEq \<Rightarrow> Inr (o' \<noteq> Less)
      | _ \<Rightarrow> Inl Panic)"

fun as_bool :: "val \<Rightarrow> bool option res" where
  "as_bool VNull = Inr None"
| "as_bool (VBoolean b) = Inr (Some b)"
| "as_bool v = Inl (type_mismatch DT_Boolean v)"

fun op_debug :: "binary_op \<Rightarrow> string" where
  "op_debug OpEq = ''Eq''"
| "op_debug OpNotEq = ''NotEq''"
| "op_debug OpLt = ''Lt''"
| "op_debug OpLtEq = ''LtEq''"
| "op_debug OpGt = ''Gt''"
| "op_debug OpGtEq = ''GtEq''"
| "op_debug OpAnd = ''And''"
| "op_debug OpOr = ''Or''"
| "op_debug OpPlus = ''Plus''"
| "op_debug OpMinus = ''Minus''"
| "op_debug OpMultiply = ''Multiply''"
| "op_debug OpDivide = ''Divide''"
| "op_debug OpModulo = ''Modulo''"
| "op_debug OpConcat = ''Concat''"

definition integer_out_of_range :: failure where
  "integer_out_of_range = Err (Exec ''integer out of range'')"

definition division_by_zero :: failure where
  "division_by_zero = Err (Exec ''division by zero'')"

definition not_arithmetic :: "binary_op \<Rightarrow> failure" where
  "not_arithmetic op = Err (Exec (op_debug op @ '' is not arithmetic''))"

text \<open>\<open>checked_div\<close> and \<open>checked_rem\<close> are also \<open>None\<close> for \<open>i64::MIN\<close> by \<open>-1\<close>.\<close>

definition integer_op :: "binary_op \<Rightarrow> int \<Rightarrow> int \<Rightarrow> int res" where
  "integer_op op a b =
     (let ok = (\<lambda>failure r. if in_i64 r then Inr r else Inl failure)
      in case op of
           OpPlus \<Rightarrow> ok integer_out_of_range (a + b)
         | OpMinus \<Rightarrow> ok integer_out_of_range (a - b)
         | OpMultiply \<Rightarrow> ok integer_out_of_range (a * b)
         | OpDivide \<Rightarrow> if b = 0 then Inl division_by_zero else ok division_by_zero (a sdiv b)
         | OpModulo \<Rightarrow>
             if b = 0 \<or> \<not> in_i64 (a sdiv b) then Inl division_by_zero else Inr (a smod b)
         | other \<Rightarrow> Inl (not_arithmetic other))"

definition float_op :: "binary_op \<Rightarrow> u64 \<Rightarrow> u64 \<Rightarrow> u64 res" where
  "float_op op a b =
     (case op of
        OpPlus \<Rightarrow> Inr (f64_add a b)
      | OpMinus \<Rightarrow> Inr (f64_sub a b)
      | OpMultiply \<Rightarrow> Inr (f64_mul a b)
      | OpDivide \<Rightarrow> if f64_eq b 0 then Inl division_by_zero else Inr (f64_div a b)
      | OpModulo \<Rightarrow> if f64_eq b 0 then Inl division_by_zero else Inr (f64_rem a b)
      | other \<Rightarrow> Inl (not_arithmetic other))"

definition in_i32 :: "int \<Rightarrow> bool" where
  "in_i32 n \<longleftrightarrow> - (2 ^ 31) \<le> n \<and> n < 2 ^ 31"

definition operand_mismatch :: "data_type \<Rightarrow> val \<Rightarrow> val \<Rightarrow> failure" where
  "operand_mismatch expected l r =
     type_mismatch expected
       (if data_type_of l \<noteq> None \<and> data_type_of l \<noteq> Some expected then l else r)"

definition arithmetic :: "binary_op \<Rightarrow> val \<Rightarrow> val \<Rightarrow> val res" where
  "arithmetic op l r =
     (if is_null l \<or> is_null r then Inr VNull
      else if op = OpConcat then
        (case (l, r) of
           (VText a, VText b) \<Rightarrow> Inr (VText (a @ b))
         | _ \<Rightarrow> Inl (operand_mismatch DT_Text l r))
      else if data_type_of l = Some DT_Float8 \<or> data_type_of r = Some DT_Float8 then
        (case (as_float l, as_float r) of
           (Some a, Some b) \<Rightarrow> bind_res (float_op op a b) (\<lambda>v. Inr (VFloat8 v))
         | _ \<Rightarrow> Inl (operand_mismatch DT_Float8 l r))
      else
        (case (l, r) of
           (VInt4 a, VInt4 b) \<Rightarrow>
             bind_res (integer_op op (sint a) (sint b)) (\<lambda>v.
               if in_i32 v then Inr (VInt4 (word_of_int v)) else Inl integer_out_of_range)
         | _ \<Rightarrow>
             (case (as_int l, as_int r) of
                (Some a, Some b) \<Rightarrow> bind_res (integer_op op a b) (\<lambda>v. Inr (VInt8 (word_of_int v)))
              | _ \<Rightarrow> Inl (operand_mismatch DT_Float8 l r))))"

section \<open>Scalar functions\<close>

text \<open>\<open>args[i]\<close>.\<close>

definition arg_at :: "val list \<Rightarrow> nat \<Rightarrow> val res" where
  "arg_at args i = (if i < length args then Inr (args ! i) else Inl Panic)"

fun map_text :: "(bytes \<Rightarrow> bytes) \<Rightarrow> val \<Rightarrow> val res" where
  "map_text f VNull = Inr VNull"
| "map_text f (VText s) = Inr (VText (f s))"
| "map_text f (VJson s) = Inr (VText (f s))"
| "map_text f v = Inl (type_mismatch DT_Text v)"

fun integer_arg :: "val \<Rightarrow> int option res" where
  "integer_arg VNull = Inr None"
| "integer_arg (VInt4 v) = Inr (Some (sint v))"
| "integer_arg (VInt8 v) = Inr (Some (sint v))"
| "integer_arg v = Inl (type_mismatch DT_Int8 v)"

definition substr_begin :: "nat \<Rightarrow> int \<Rightarrow> nat" where
  "substr_begin len start =
     min len (if start = 0 then 0 else if 0 < start then nat (start - 1) else len - nat (- start))"

definition substr :: "val list \<Rightarrow> val res" where
  "substr args =
     bind_res (arg_at args 0) (\<lambda>v.
       case v of
         VText s \<Rightarrow>
           let cs = chars s
           in bind_res (arg_at args 1) (\<lambda>a. bind_res (integer_arg a) (\<lambda>start.
                case start of
                  None \<Rightarrow> Inr VNull
                | Some start \<Rightarrow>
                    let first = substr_begin (length cs) start;
                        text = (\<lambda>last. VText (concat (drop first (take last cs))))
                    in if length args \<le> 2 then Inr (text (length cs))
                       else bind_res (integer_arg (args ! 2)) (\<lambda>len.
                         case len of
                           None \<Rightarrow> Inr VNull
                         | Some len \<Rightarrow>
                             if len \<le> 0 then Inr (text first)
                             else Inr (text (min (length cs) (first + nat len))))))
       | VNull \<Rightarrow> Inr VNull
       | other \<Rightarrow> Inl (type_mismatch DT_Text other))"

definition upper_hex :: "bytes \<Rightarrow> bytes" where
  "upper_hex s =
     (let digit = (\<lambda>k. of_nat (if k < 10 then 48 + k else 55 + k))
      in concat (map (\<lambda>b. [digit (unat b div 16), digit (unat b mod 16)]) s))"

text \<open>\<open>u8 as char\<close> is the character with that number, two bytes long above \<open>0x7F\<close>.\<close>

definition byte_char :: "u8 \<Rightarrow> bytes" where
  "byte_char b = (if b < 0x80 then [b] else [0xC0 OR drop_bit 6 b, 0x80 OR (b AND 0x3F)])"

definition xorshift :: "u64 \<Rightarrow> u64" where
  "xorshift s =
     (let a = s XOR drop_bit 12 s; b = a XOR push_bit 25 a in b XOR drop_bit 27 b)"

fun random_bytes :: "nat \<Rightarrow> u64 \<Rightarrow> bytes" where
  "random_bytes 0 s = []"
| "random_bytes (Suc n) s =
     (let s' = xorshift s
      in byte_char (ucast (drop_bit 56 (s' * 0x2545F4914F6CDD1D))) @ random_bytes n s')"

definition randomblob :: "val \<Rightarrow> val ev" where
  "randomblob v =
     bind_op (lift_op (integer_arg v)) (\<lambda>len.
       case len of
         None \<Rightarrow> ret_op VNull
       | Some len \<Rightarrow>
           bind_op now_micros (\<lambda>now. bind_op fetch_counter (\<lambda>n.
             ret_op (VText (random_bytes (nat (max 0 (min (2 ^ 20) len)))
               (word_of_int now * 6364136223846793005 + (n OR 1)))))))"

definition scalar_call :: "text_ops \<Rightarrow> scalar_func \<Rightarrow> val list \<Rightarrow> val ev" where
  "scalar_call ops f args =
     (case f of
        Coalesce \<Rightarrow> ret_op (case find (\<lambda>v. \<not> is_null v) args of Some v \<Rightarrow> v | None \<Rightarrow> VNull)
      | Lower \<Rightarrow> lift_op (bind_res (arg_at args 0) (map_text (to_lowercase ops)))
      | Upper \<Rightarrow> lift_op (bind_res (arg_at args 0) (map_text (to_uppercase ops)))
      | Nocase \<Rightarrow> lift_op (bind_res (arg_at args 0) (\<lambda>v.
          Inr (case v of VText s \<Rightarrow> VText (to_lowercase ops s) | other \<Rightarrow> other)))
      | Substr \<Rightarrow> lift_op (substr args)
      | Hex \<Rightarrow> lift_op (bind_res (arg_at args 0) (map_text upper_hex))
      | Randomblob \<Rightarrow> bind_op (lift_op (arg_at args 0)) randomblob
      | DatetimeFn \<Rightarrow> bind_op now_micros (\<lambda>now. lift_op (eval_datetime now args True))
      | DateFn \<Rightarrow> bind_op now_micros (\<lambda>now. lift_op (eval_datetime now args False)))"

section \<open>Casts\<close>

fun data_type_debug :: "data_type \<Rightarrow> string" where
  "data_type_debug DT_Boolean = ''Boolean''"
| "data_type_debug DT_Int4 = ''Int4''"
| "data_type_debug DT_Int8 = ''Int8''"
| "data_type_debug DT_Float8 = ''Float8''"
| "data_type_debug DT_Text = ''Text''"
| "data_type_debug DT_Timestamp = ''Timestamp''"
| "data_type_debug DT_Uuid = ''Uuid''"
| "data_type_debug DT_Json = ''Json''"

definition int_bytes :: "int \<Rightarrow> bytes" where
  "int_bytes n = (if n < 0 then [45] else []) @ byte_string (dec_string (nat \<bar>n\<bar>))"

definition lower_hex :: "nat \<Rightarrow> nat \<Rightarrow> bytes" where
  "lower_hex w n =
     map (\<lambda>i. let k = n div 16 ^ (w - 1 - i) mod 16 in of_nat (if k < 10 then 48 + k else 87 + k)) [0..<w]"

fun render :: "text_ops \<Rightarrow> val \<Rightarrow> bytes" where
  "render ops VNull = []"
| "render ops (VBoolean b) = byte_string (if b then ''true'' else ''false'')"
| "render ops (VInt4 v) = int_bytes (sint v)"
| "render ops (VInt8 v) = int_bytes (sint v)"
| "render ops (VFloat8 v) = print_f64 ops v"
| "render ops (VText s) = s"
| "render ops (VJson s) = s"
| "render ops (VTimestamp us) = format_sqlite_datetime (sint us)"
| "render ops (VUuid u) = lower_hex 32 (unat u)"

fun to_integer :: "val \<Rightarrow> int option" where
  "to_integer (VBoolean b) = Some (if b then 1 else 0)"
| "to_integer (VInt4 v) = Some (sint v)"
| "to_integer (VInt8 v) = Some (sint v)"
| "to_integer (VFloat8 v) = Some (f64_to_i64 v)"
| "to_integer (VText s) = parse_i64 (trim s)"
| "to_integer _ = None"

definition hex_value :: "u8 \<Rightarrow> nat option" where
  "hex_value b =
     (if 48 \<le> b \<and> b \<le> 57 then Some (unat b - 48)
      else if 97 \<le> b \<and> b \<le> 102 then Some (unat b - 87)
      else if 65 \<le> b \<and> b \<le> 70 then Some (unat b - 55)
      else None)"

text \<open>\<open>u128::from_str_radix(s, 16)\<close>: an optional plus sign, at least one digit, no overflow.\<close>

definition parse_hex_u128 :: "bytes \<Rightarrow> u128 option" where
  "parse_hex_u128 s =
     (let digits = (case s of [] \<Rightarrow> [] | b # s' \<Rightarrow> if b = 43 then s' else s);
          n = foldl (\<lambda>acc b. 16 * acc + the (hex_value b)) 0 digits
      in if digits = [] \<or> \<not> list_all (\<lambda>b. hex_value b \<noteq> None) digits \<or> 2 ^ 128 \<le> n then None
         else Some (word_of_nat n))"

definition true_words :: "string list" where
  "true_words = [''t'', ''true'', ''y'', ''yes'', ''on'', ''1'']"

definition false_words :: "string list" where
  "false_words = [''f'', ''false'', ''n'', ''no'', ''off'', ''0'']"

definition ok_or :: "'a option \<Rightarrow> failure \<Rightarrow> 'a res" where
  "ok_or x e = (case x of Some y \<Rightarrow> Inr y | None \<Rightarrow> Inl e)"

definition cast :: "text_ops \<Rightarrow> val \<Rightarrow> data_type \<Rightarrow> val res" where
  "cast ops v target =
     (let bad = (\<lambda>what. Err (Exec (''cannot cast '' @ string_of_bytes what @ '' to '' @ data_type_debug target)));
          quoted = (\<lambda>s. [96] @ s @ [96])
      in if is_null v then Inr VNull
         else case target of
           DT_Text \<Rightarrow> Inr (VText (render ops v))
         | DT_Boolean \<Rightarrow>
             (case v of
                VBoolean b \<Rightarrow> Inr (VBoolean b)
              | VInt4 n \<Rightarrow> Inr (VBoolean (n \<noteq> 0))
              | VInt8 n \<Rightarrow> Inr (VBoolean (n \<noteq> 0))
              | VText s \<Rightarrow>
                  let word = string_of_bytes (to_ascii_lowercase (trim s))
                  in if word \<in> set true_words then Inr (VBoolean True)
                     else if word \<in> set false_words then Inr (VBoolean False)
                     else Inl (bad (quoted s))
              | other \<Rightarrow> Inl (bad (render ops other)))
         | DT_Int4 \<Rightarrow> bind_res (ok_or (to_integer v) (bad (render ops v))) (\<lambda>n.
             if in_i32 n then Inr (VInt4 (word_of_int n)) else Inl integer_out_of_range)
         | DT_Int8 \<Rightarrow> bind_res (ok_or (to_integer v) (bad (render ops v))) (\<lambda>n. Inr (VInt8 (word_of_int n)))
         | DT_Float8 \<Rightarrow>
             (case v of
                VInt4 n \<Rightarrow> Inr (VFloat8 (f64_of_int (sint n)))
              | VInt8 n \<Rightarrow> Inr (VFloat8 (f64_of_int (sint n)))
              | VFloat8 x \<Rightarrow> Inr (VFloat8 x)
              | VText s \<Rightarrow> bind_res (ok_or (parse_f64 ops (trim s)) (bad (quoted s))) (\<lambda>x. Inr (VFloat8 x))
              | other \<Rightarrow> Inl (bad (render ops other)))
         | DT_Timestamp \<Rightarrow>
             (case v of
                VTimestamp us \<Rightarrow> Inr (VTimestamp us)
              | VText s \<Rightarrow> bind_res (ok_or (parse_datetime_text s) (bad (quoted s)))
                  (\<lambda>us. Inr (VTimestamp (word_of_int us)))
              | other \<Rightarrow> Inl (bad (render ops other)))
         | DT_Json \<Rightarrow>
             (case v of
                VJson s \<Rightarrow> Inr (VJson s)
              | VText s \<Rightarrow> Inr (VJson s)
              | other \<Rightarrow> Inl (bad (render ops other)))
         | DT_Uuid \<Rightarrow>
             (case v of
                VUuid u \<Rightarrow> Inr (VUuid u)
              | VText s \<Rightarrow> bind_res (ok_or (parse_hex_u128 (filter (\<lambda>b. b \<noteq> 45) s)) (bad (quoted s)))
                  (\<lambda>u. Inr (VUuid u))
              | other \<Rightarrow> Inl (bad (render ops other))))"

section \<open>Evaluation\<close>

text \<open>\<open>AND\<close> and \<open>OR\<close> evaluate the right operand only when the left does not settle the result.\<close>

definition and_values :: "bool option \<Rightarrow> bool option \<Rightarrow> val" where
  "and_values l r =
     (if r = Some False then VBoolean False
      else if l = Some True \<and> r = Some True then VBoolean True
      else VNull)"

definition or_values :: "bool option \<Rightarrow> bool option \<Rightarrow> val" where
  "or_values l r =
     (if r = Some True then VBoolean True
      else if l = Some False \<and> r = Some False then VBoolean False
      else VNull)"

definition like_values :: "text_ops \<Rightarrow> val \<Rightarrow> val \<Rightarrow> bool \<Rightarrow> bool \<Rightarrow> val res" where
  "like_values ops subject pattern negated case_insensitive =
     (if is_null subject \<or> is_null pattern then Inr VNull
      else case (subject, pattern) of
             (VText s, VText p) \<Rightarrow>
               let matched = (if case_insensitive then like_matches (to_lowercase ops s) (to_lowercase ops p)
                              else like_matches s p)
               in Inr (VBoolean (matched \<noteq> negated))
           | _ \<Rightarrow>
               Inl (type_mismatch DT_Text
                 (if data_type_of subject \<noteq> None \<and> data_type_of subject \<noteq> Some DT_Text then subject else pattern)))"

definition comparison_value :: "binary_op \<Rightarrow> val \<Rightarrow> val \<Rightarrow> val res" where
  "comparison_value op l r =
     bind_res (compare l r) (\<lambda>c.
       case c of
         None \<Rightarrow> Inr VNull
       | Some o' \<Rightarrow> bind_res (op_matches op o') (\<lambda>b. Inr (VBoolean b)))"

function (sequential) eval :: "text_ops \<Rightarrow> phys_expr \<Rightarrow> row \<Rightarrow> val ev"
  and eval_args :: "text_ops \<Rightarrow> phys_expr list \<Rightarrow> row \<Rightarrow> val list ev"
  and eval_branches :: "text_ops \<Rightarrow> val option \<Rightarrow> (phys_expr \<times> phys_expr) list \<Rightarrow> row \<Rightarrow> val option ev"
where
  "eval ops (PColumn i) r =
     lift_op (if i < length (row_values r) then Inr (row_values r ! i) else Inl (Err (Exec (out_of_range i))))"
| "eval ops (PLiteral v) r = ret_op v"
| "eval ops (PIsNull e) r = bind_op (eval ops e r) (\<lambda>v. ret_op (VBoolean (is_null v)))"
| "eval ops (PNot e) r = bind_op (eval ops e r) (\<lambda>v. bind_op (lift_op (as_bool v)) (\<lambda>b.
     ret_op (case b of None \<Rightarrow> VNull | Some b \<Rightarrow> VBoolean (\<not> b))))"
| "eval ops (PLike e p negated case_insensitive) r =
     bind_op (eval ops e r) (\<lambda>subject. bind_op (eval ops p r) (\<lambda>pattern.
       lift_op (like_values ops subject pattern negated case_insensitive)))"
| "eval ops (PBinary l op e) r =
     (if is_arithmetic op then
        bind_op (eval ops l r) (\<lambda>a. bind_op (eval ops e r) (\<lambda>b. lift_op (arithmetic op a b)))
      else if op = OpAnd then
        bind_op (eval ops l r) (\<lambda>a. bind_op (lift_op (as_bool a)) (\<lambda>a.
          if a = Some False then ret_op (VBoolean False)
          else bind_op (eval ops e r) (\<lambda>b. bind_op (lift_op (as_bool b)) (\<lambda>b. ret_op (and_values a b)))))
      else if op = OpOr then
        bind_op (eval ops l r) (\<lambda>a. bind_op (lift_op (as_bool a)) (\<lambda>a.
          if a = Some True then ret_op (VBoolean True)
          else bind_op (eval ops e r) (\<lambda>b. bind_op (lift_op (as_bool b)) (\<lambda>b. ret_op (or_values a b)))))
      else
        bind_op (eval ops l r) (\<lambda>a. bind_op (eval ops e r) (\<lambda>b. lift_op (comparison_value op a b))))"
| "eval ops (PInSubquery e p negated) r =
     lift_op (Inl (Err (Exec ''a subquery reached evaluation without having been run'')))"
| "eval ops (PCast e t) r = bind_op (eval ops e r) (\<lambda>v. lift_op (cast ops v t))"
| "eval ops (PFunction f args) r = bind_op (eval_args ops args r) (scalar_call ops f)"
| "eval ops (PCase operand branches else_result) r =
     bind_op (case operand of
         None \<Rightarrow> ret_op None
       | Some e \<Rightarrow> bind_op (eval ops e r) (\<lambda>v. ret_op (Some v))) (\<lambda>operand.
       bind_op (eval_branches ops operand branches r) (\<lambda>hit.
         case hit of
           Some v \<Rightarrow> ret_op v
         | None \<Rightarrow> (case else_result of Some e \<Rightarrow> eval ops e r | None \<Rightarrow> ret_op VNull)))"
| "eval_args ops [] r = ret_op []"
| "eval_args ops (e # es) r =
     bind_op (eval ops e r) (\<lambda>v. bind_op (eval_args ops es r) (\<lambda>vs. ret_op (v # vs)))"
| "eval_branches ops operand [] r = ret_op None"
| "eval_branches ops operand ((w, t) # bs) r =
     bind_op (eval ops w r) (\<lambda>v.
       bind_op (case operand of
           Some operand \<Rightarrow> bind_op (lift_op (compare operand v)) (\<lambda>c. ret_op (c = Some Equal))
         | None \<Rightarrow> ret_op (v = VBoolean True)) (\<lambda>matched.
         if matched then bind_op (eval ops t r) (\<lambda>v. ret_op (Some v))
         else eval_branches ops operand bs r))"
  by pat_completeness auto
termination
  by (relation "measure (\<lambda>x. case x of
        Inl (ops, e, r) \<Rightarrow> size e
      | Inr (Inl (ops, es, r)) \<Rightarrow> size_list size es
      | Inr (Inr (ops, operand, bs, r)) \<Rightarrow> size_list (size_prod size size) bs)") auto

definition eval_predicate :: "text_ops \<Rightarrow> phys_expr \<Rightarrow> row \<Rightarrow> bool ev" where
  "eval_predicate ops e r = bind_op (eval ops e r) (\<lambda>v. ret_op (v = VBoolean True))"

end
