(* ===== verification/Like.thy ===== *)
theory Like
  imports Eval
begin

text \<open>
  The matcher behind \<open>LIKE\<close> against what a pattern means. The loop keeps one wildcard to return to; the
  lemmas show that no earlier one is ever needed.
\<close>

section \<open>What a pattern matches\<close>

inductive likes :: "bytes list \<Rightarrow> bytes list \<Rightarrow> bool" where
  likes_end: "likes [] []"
| likes_any: "likes cs ts \<Longrightarrow> likes (PERCENT # cs) (skipped @ ts)"
| likes_one: "likes cs ts \<Longrightarrow> likes (UNDERSCORE # cs) (t # ts)"
| likes_escaped: "likes cs ts \<Longrightarrow> likes (BACKSLASH # t # cs) (t # ts)"
| likes_plain: "c \<notin> {PERCENT, UNDERSCORE, BACKSLASH} \<Longrightarrow> likes cs ts \<Longrightarrow> likes (c # cs) (c # ts)"

inductive_simps likes_Nil: "likes [] ts"
inductive_cases likes_ConsE: "likes (c # cs) ts"

lemma likes_percent: "likes (PERCENT # cs) ts \<longleftrightarrow> (\<exists>k \<le> length ts. likes cs (drop k ts))"
proof
  show "likes (PERCENT # cs) ts \<Longrightarrow> \<exists>k \<le> length ts. likes cs (drop k ts)"
  proof (erule likes_ConsE)
    fix ts' skipped
    assume "ts = skipped @ ts'" "likes cs ts'"
    then show "\<exists>k \<le> length ts. likes cs (drop k ts)"
      by (intro exI [of _ "length skipped"]) simp
  qed auto
  show "\<exists>k \<le> length ts. likes cs (drop k ts) \<Longrightarrow> likes (PERCENT # cs) ts"
    by (metis append_take_drop_id likes_any)
qed

lemma likes_underscore: "likes (UNDERSCORE # cs) ts \<longleftrightarrow> ts \<noteq> [] \<and> likes cs (tl ts)"
  by (cases ts) (auto elim: likes_ConsE intro: likes_one)

lemma likes_backslash:
  "likes (BACKSLASH # cs) ts \<longleftrightarrow> cs \<noteq> [] \<and> ts \<noteq> [] \<and> hd cs = hd ts \<and> likes (tl cs) (tl ts)"
  by (cases cs; cases ts) (auto elim: likes_ConsE intro: likes_escaped)

lemma likes_other:
  "c \<notin> {PERCENT, UNDERSCORE, BACKSLASH} \<Longrightarrow> likes (c # cs) ts \<longleftrightarrow> ts \<noteq> [] \<and> c = hd ts \<and> likes cs (tl ts)"
  by (cases ts) (auto elim: likes_ConsE intro: likes_plain)

lemma likes_empty_text: "likes cs [] \<longleftrightarrow> list_all (\<lambda>c. c = PERCENT) cs"
proof (induction cs)
  case Nil
  show ?case by (simp add: likes_Nil)
next
  case (Cons c cs)
  consider "c = PERCENT" | "c = UNDERSCORE" | "c = BACKSLASH" | "c \<notin> {PERCENT, UNDERSCORE, BACKSLASH}"
    by blast
  then show ?case
    by cases (use Cons in \<open>simp_all add: likes_percent likes_underscore likes_backslash likes_other\<close>)
qed

section \<open>The loop\<close>

text \<open>\<open>rest_likes text pattern p t\<close>: the pattern from \<open>p\<close> matches the text from \<open>t\<close>.\<close>

definition rest_likes :: "bytes list \<Rightarrow> bytes list \<Rightarrow> nat \<Rightarrow> nat \<Rightarrow> bool" where
  "rest_likes text pattern p t \<longleftrightarrow> likes (drop p pattern) (drop t text)"

lemma rest_percent:
  assumes "p < length pattern" and "pattern ! p = PERCENT" and "t \<le> length text"
  shows "rest_likes text pattern p t \<longleftrightarrow> (\<exists>k. t \<le> k \<and> k \<le> length text \<and> rest_likes text pattern (p + 1) k)"
proof -
  have "rest_likes text pattern p t \<longleftrightarrow>
      (\<exists>k \<le> length text - t. likes (drop (p + 1) pattern) (drop (t + k) text))"
    using assms(1,2) by (simp add: rest_likes_def likes_percent Cons_nth_drop_Suc [symmetric] add.commute)
  also have "\<dots> \<longleftrightarrow> (\<exists>k. t \<le> k \<and> k \<le> length text \<and> likes (drop (p + 1) pattern) (drop k text))"
    using assms(3) by (metis le_add_diff_inverse le_add1 diff_le_mono nat_add_left_cancel_le)
  finally show ?thesis
    by (simp add: rest_likes_def)
qed

text \<open>The width in the pattern of the token at \<open>p\<close> when it matches the character at \<open>t\<close>.\<close>

definition token :: "bytes list \<Rightarrow> bytes list \<Rightarrow> nat \<Rightarrow> nat \<Rightarrow> nat option" where
  "token text pattern p t =
     (if p < length pattern \<and> pattern ! p = UNDERSCORE then Some 1
      else if p + 1 < length pattern \<and> pattern ! p = BACKSLASH \<and> pattern ! (p + 1) = text ! t then Some 2
      else if p < length pattern \<and> pattern ! p \<noteq> BACKSLASH \<and> pattern ! p = text ! t then Some 1
      else None)"

lemma rest_token:
  assumes "p < length pattern \<Longrightarrow> pattern ! p \<noteq> PERCENT" and "rest_likes text pattern p t" and "t < length text"
  shows "\<exists>n. token text pattern p t = Some n \<and> rest_likes text pattern (p + n) (t + 1)"
proof -
  have p: "p < length pattern"
    using assms(2,3) by (cases "p < length pattern") (auto simp: rest_likes_def likes_Nil)
  have d: "drop p pattern = pattern ! p # drop (p + 1) pattern" "drop t text = text ! t # drop (t + 1) text"
    using p assms(3) by (simp_all add: Cons_nth_drop_Suc)
  have e: "hd (drop (p + 1) pattern) = pattern ! (p + 1)" "tl (drop (p + 1) pattern) = drop (p + 2) pattern"
    "drop (p + 1) pattern \<noteq> [] \<longleftrightarrow> p + 1 < length pattern" if "p + 1 < length pattern"
    using that by (simp_all add: hd_drop_conv_nth tl_drop) (simp add: drop_Suc tl_drop)
  have L: "likes (pattern ! p # drop (p + 1) pattern) (text ! t # drop (t + 1) text)"
    using assms(2) by (simp add: rest_likes_def d)
  consider "pattern ! p = UNDERSCORE" | "pattern ! p = BACKSLASH"
    | "pattern ! p \<notin> {PERCENT, UNDERSCORE, BACKSLASH}"
    using assms(1) p by blast
  then show ?thesis
  proof cases
    case 1
    then show ?thesis
      using L p by (simp add: token_def rest_likes_def likes_underscore)
  next
    case 2
    then have "p + 1 < length pattern"
      using L by (auto simp: likes_backslash)
    then show ?thesis
      using L 2 e by (simp add: token_def rest_likes_def likes_backslash)
  next
    case 3
    then show ?thesis
      using L p by (auto simp: token_def rest_likes_def likes_other)
  qed
qed

lemma token_rest:
  assumes "p < length pattern \<Longrightarrow> pattern ! p \<noteq> PERCENT" and "token text pattern p t = Some n"
    and "rest_likes text pattern (p + n) (t + 1)" and "t < length text"
  shows "rest_likes text pattern p t"
proof -
  have p: "p < length pattern"
    using assms(2) by (auto simp: token_def split: if_splits)
  have d: "drop p pattern = pattern ! p # drop (p + 1) pattern" "drop t text = text ! t # drop (t + 1) text"
    using p assms(4) by (simp_all add: Cons_nth_drop_Suc)
  consider "pattern ! p = UNDERSCORE" | "pattern ! p = BACKSLASH"
    | "pattern ! p \<notin> {PERCENT, UNDERSCORE, BACKSLASH}"
    using assms(1) p by blast
  then show ?thesis
  proof cases
    case 1
    then show ?thesis
      using assms p by (auto simp: rest_likes_def d likes_underscore token_def)
  next
    case 2
    then have q: "p + 1 < length pattern" "pattern ! (p + 1) = text ! t" "n = 2"
      using assms(2) by (auto simp: token_def split: if_splits)
    then show ?thesis
      using assms 2 by (auto simp: rest_likes_def d likes_backslash hd_drop_conv_nth drop_Suc [symmetric] tl_drop)
  next
    case 3
    then show ?thesis
      using assms p by (auto simp: rest_likes_def d likes_other token_def split: if_splits)
  qed
qed

text \<open>
  The loop in terms of tokens, and its invariant: the pattern between the wildcard and \<open>p\<close> accounts for
  \<open>t - resume\<close> characters wherever it matches.
\<close>

lemma like_loop_eq:
  "like_loop text pattern t p wildcard resume =
     (if length text \<le> t then list_all (\<lambda>c. c = PERCENT) (drop p pattern)
      else if p < length pattern \<and> pattern ! p = PERCENT then like_loop text pattern t (p + 1) (Some p) t
      else case token text pattern p t of
             Some n \<Rightarrow> like_loop text pattern (t + 1) (p + n) wildcard resume
           | None \<Rightarrow>
               (case wildcard of
                  Some q \<Rightarrow> like_loop text pattern (resume + 1) (q + 1) wildcard (resume + 1)
                | None \<Rightarrow> False))"
  by (subst like_loop.simps) (auto simp: token_def)

definition loop_inv :: "bytes list \<Rightarrow> bytes list \<Rightarrow> nat \<Rightarrow> nat \<Rightarrow> nat option \<Rightarrow> nat \<Rightarrow> bool" where
  "loop_inv text pattern t p wildcard resume \<longleftrightarrow> t \<le> length text \<and>
     (\<forall>q. wildcard = Some q \<longrightarrow> resume \<le> t \<and>
       (\<forall>k. resume \<le> k \<and> k \<le> length text \<and> rest_likes text pattern (q + 1) k \<longrightarrow>
          k + (t - resume) \<le> length text \<and> rest_likes text pattern p (k + (t - resume))))"

definition resumable :: "bytes list \<Rightarrow> bytes list \<Rightarrow> nat option \<Rightarrow> nat \<Rightarrow> bool" where
  "resumable text pattern wildcard resume \<longleftrightarrow>
     (\<exists>q k. wildcard = Some q \<and> resume < k \<and> k \<le> length text \<and> rest_likes text pattern (q + 1) k)"

lemma loop_invD:
  assumes "loop_inv text pattern t p (Some q) resume" and "resume \<le> k" and "k \<le> length text"
    and "rest_likes text pattern (q + 1) k"
  shows "resume \<le> t \<and> k + (t - resume) \<le> length text \<and> rest_likes text pattern p (k + (t - resume))"
  using assms unfolding loop_inv_def by blast

lemma token_width:
  "token text pattern p t = Some n \<Longrightarrow> token text pattern p k = Some m \<Longrightarrow> m = n"
  by (auto simp: token_def split: if_splits)

lemma inv_step:
  assumes inv: "loop_inv text pattern t p wildcard resume" and t: "t < length text"
    and p: "p < length pattern \<Longrightarrow> pattern ! p \<noteq> PERCENT" and tok: "token text pattern p t = Some n"
  shows "loop_inv text pattern (t + 1) (p + n) wildcard resume"
  unfolding loop_inv_def
proof (intro conjI allI impI)
  show "t + 1 \<le> length text"
    using t by simp
  fix q
  assume q: "wildcard = Some q"
  then show r: "resume \<le> t + 1"
    using inv by (simp add: loop_inv_def)
  fix k
  assume k: "resume \<le> k \<and> k \<le> length text \<and> rest_likes text pattern (q + 1) k"
  let ?x = "k + (t - resume)"
  have x: "?x \<le> length text" "rest_likes text pattern p ?x" and rt: "resume \<le> t"
    using loop_invD inv q k by blast+
  have "p < length pattern"
    using tok by (auto simp: token_def split: if_splits)
  then have "?x \<noteq> length text"
    using x(2) p Cons_nth_drop_Suc [of p pattern, symmetric]
    by (auto simp: rest_likes_def likes_empty_text)
  then have lt: "?x < length text"
    using x(1) by simp
  then obtain m where "token text pattern p ?x = Some m" "rest_likes text pattern (p + m) (?x + 1)"
    using rest_token [OF p x(2)] by blast
  then show "k + (t + 1 - resume) \<le> length text"
    and "rest_likes text pattern (p + n) (k + (t + 1 - resume))"
    using token_width [OF tok] lt rt by (simp_all add: Suc_diff_le)
qed

lemma resumable_at_percent:
  assumes "loop_inv text pattern t p wildcard resume" and "resumable text pattern wildcard resume"
    and "p < length pattern" and "pattern ! p = PERCENT"
  shows "rest_likes text pattern p t"
proof -
  obtain q k where "wildcard = Some q" "resume < k" "k \<le> length text" "rest_likes text pattern (q + 1) k"
    using assms(2) by (auto simp: resumable_def)
  then have x: "k + (t - resume) \<le> length text" "rest_likes text pattern p (k + (t - resume))" "t \<le> k + (t - resume)"
    using loop_invD [of "text" pattern t p q resume k] assms(1) by auto
  then obtain j where "k + (t - resume) \<le> j" "j \<le> length text" "rest_likes text pattern (p + 1) j"
    using rest_percent [OF assms(3,4) x(1)] by blast
  moreover have "t \<le> length text"
    using x by simp
  ultimately show ?thesis
    using rest_percent [OF assms(3,4)] x(3) le_trans by blast
qed

lemma not_resumable_at_end:
  assumes "loop_inv text pattern t p wildcard resume" and "length text \<le> t"
  shows "\<not> resumable text pattern wildcard resume"
proof
  assume "resumable text pattern wildcard resume"
  then obtain q k where "wildcard = Some q" "resume < k" "k \<le> length text" "rest_likes text pattern (q + 1) k"
    by (auto simp: resumable_def)
  then have "k + (t - resume) \<le> length text" "resume \<le> t" "resume < k"
    using loop_invD [of "text" pattern t p q resume k] assms(1) by auto
  then show False
    using assms(2) by simp
qed

lemma percent_resumable:
  assumes "p < length pattern" and "pattern ! p = PERCENT" and "t \<le> length text"
  shows "rest_likes text pattern (p + 1) t \<or> resumable text pattern (Some p) t \<longleftrightarrow> rest_likes text pattern p t"
proof -
  have "(\<exists>k. t \<le> k \<and> Q k) \<longleftrightarrow> Q t \<or> (\<exists>k. t < k \<and> Q k)" for Q :: "nat \<Rightarrow> bool"
    using le_neq_implies_less by (metis less_imp_le order_refl)
  then show ?thesis
    using rest_percent [OF assms] assms(3) by (simp add: resumable_def)
qed

lemma resumable_next:
  assumes "resume + 1 \<le> length text"
  shows "rest_likes text pattern (q + 1) (resume + 1) \<or> resumable text pattern (Some q) (resume + 1) \<longleftrightarrow>
    resumable text pattern (Some q) resume"
proof -
  have "(\<exists>k. resume < k \<and> Q k) \<longleftrightarrow> Q (resume + 1) \<or> (\<exists>k. resume + 1 < k \<and> Q k)" for Q :: "nat \<Rightarrow> bool"
    by (metis Suc_eq_plus1 Suc_lessD Suc_lessI lessI)
  then show ?thesis
    using assms by (simp add: resumable_def)
qed

lemma like_loop_correct:
  assumes "loop_inv text pattern t p wildcard resume"
  shows "like_loop text pattern t p wildcard resume \<longleftrightarrow>
    rest_likes text pattern p t \<or> resumable text pattern wildcard resume"
  using assms
proof (induction "text" pattern t p wildcard resume rule: like_loop.induct)
  case (1 "text" pattern t p wildcard resume)
  have tl: "t \<le> length text"
    using "1.prems" by (simp add: loop_inv_def)
  consider (over) "length text \<le> t"
    | (percent) "t < length text" "p < length pattern" "pattern ! p = PERCENT"
    | (token) n where "t < length text" "\<not> (p < length pattern \<and> pattern ! p = PERCENT)" "token text pattern p t = Some n"
    | (stuck) "t < length text" "\<not> (p < length pattern \<and> pattern ! p = PERCENT)" "token text pattern p t = None"
    by (meson leI option.exhaust)
  then show ?case
  proof cases
    case over
    then show ?thesis
      using not_resumable_at_end [OF "1.prems"] by (subst like_loop_eq) (simp add: rest_likes_def likes_empty_text)
  next
    case percent
    then have "like_loop text pattern t (p + 1) (Some p) t \<longleftrightarrow> rest_likes text pattern p t"
      using tl percent_resumable "1.IH"(1) by (auto simp: loop_inv_def)
    then show ?thesis
      using percent resumable_at_percent [OF "1.prems"] by (subst like_loop_eq) auto
  next
    case token
    then have "like_loop text pattern (t + 1) (p + n) wildcard resume \<longleftrightarrow>
        rest_likes text pattern (p + n) (t + 1) \<or> resumable text pattern wildcard resume"
      using "1.IH"(2,3,4) inv_step [OF "1.prems" _ _ token(3)] by (auto simp: token_def split: if_splits)
    moreover have "rest_likes text pattern (p + n) (t + 1) \<longleftrightarrow> rest_likes text pattern p t"
      using rest_token [of p pattern "text" t] token_rest [OF _ token(3)] token by fastforce
    ultimately show ?thesis
      using token by (subst like_loop_eq) auto
  next
    case stuck
    have no: "\<not> rest_likes text pattern p t"
      using rest_token [of p pattern "text" t] stuck by auto
    show ?thesis
    proof (cases wildcard)
      case None
      then show ?thesis
        using stuck no by (subst like_loop_eq) (auto simp: resumable_def)
    next
      case (Some q)
      have "resume \<le> t"
        using "1.prems" Some by (simp add: loop_inv_def)
      then have "like_loop text pattern (resume + 1) (q + 1) (Some q) (resume + 1) \<longleftrightarrow>
          resumable text pattern (Some q) resume"
        using "1.IH"(5) stuck Some resumable_next [of resume "text" pattern q]
        by (auto simp: token_def loop_inv_def split: if_splits)
      then show ?thesis
        using stuck no Some by (subst like_loop_eq) auto
    qed
  qed
qed

text \<open>
  C20: \<open>LIKE\<close> accepts a text exactly when the pattern describes it: \<open>%\<close> any run of characters, \<open>_\<close> one
  character, a backslash the character after it, anything else itself. The loop remembers only the last
  wildcard, and returns on every input.
\<close>

theorem like_matches_correct:
  "like_matches text pattern \<longleftrightarrow> likes (chars pattern) (chars text)"
  using like_loop_correct [of "chars text" "chars pattern" 0 0 None 0]
  by (simp add: like_matches_def loop_inv_def resumable_def rest_likes_def)

end
