(* ===== verification/Bind.thy ===== *)
theory Bind
  imports Eval
begin

text \<open>
  Type inference and binding of column names to positions (physical.rs), with the coercion of literals
  to a column's type (lower.rs).
\<close>

section \<open>Results of lists\<close>

text \<open>\<open>collect::<Result<Vec<_>, _>>()\<close>: the first failure, or every value.\<close>

fun map_res :: "('a \<Rightarrow> 'e + 'b) \<Rightarrow> 'a list \<Rightarrow> 'e + 'b list" where
  "map_res f [] = Inr []"
| "map_res f (x # xs) = bind_res (f x) (\<lambda>y. bind_res (map_res f xs) (\<lambda>ys. Inr (y # ys)))"

lemma map_res_cong [fundef_cong]:
  "xs = ys \<Longrightarrow> (\<And>x. x \<in> set ys \<Longrightarrow> f x = g x) \<Longrightarrow> map_res f xs = map_res g ys"
  by (induction ys arbitrary: xs) auto

text \<open>\<open>map(..).transpose()\<close> on an option.\<close>

definition opt_res :: "('a \<Rightarrow> 'e + 'b) \<Rightarrow> 'a option \<Rightarrow> 'e + 'b option" where
  "opt_res f x = (case x of None \<Rightarrow> Inr None | Some a \<Rightarrow> bind_res (f a) (\<lambda>b. Inr (Some b)))"

lemma opt_res_cong [fundef_cong]:
  "x = y \<Longrightarrow> (\<And>a. a \<in> set_option y \<Longrightarrow> f a = g a) \<Longrightarrow> opt_res f x = opt_res g y"
  by (auto simp: opt_res_def split: option.splits)

section \<open>Coercion of literals (lower.rs)\<close>

text \<open>
  \<open>{:?}\<close> of a string: in quotes, with the escapes of the ASCII characters. Characters outside ASCII
  that Rust holds to be unprintable stay as they are.
\<close>

definition escape_byte :: "u8 \<Rightarrow> bytes" where
  "escape_byte b =
     (if b = 34 then [92, 34]
      else if b = 92 then [92, 92]
      else if b = 10 then [92, 110]
      else if b = 13 then [92, 114]
      else if b = 9 then [92, 116]
      else if b = 0 then [92, 48]
      else if b < 32 \<or> b = 127
        then [92, 117, 123] @ dropWhile (\<lambda>d. d = 48) (lower_hex 2 (unat b)) @ [125]
      else [b])"

definition debug_str :: "bytes \<Rightarrow> string" where
  "debug_str s = string_of_bytes ([34] @ concat (map escape_byte s) @ [34])"

fun uuid_digits :: "bytes \<Rightarrow> u128 \<Rightarrow> nat \<Rightarrow> (u128 \<times> nat) option" where
  "uuid_digits [] bits digits = Some (bits, digits)"
| "uuid_digits (c # cs) bits digits =
     (if c = 45 then uuid_digits cs bits digits
      else case hex_value c of
             None \<Rightarrow> None
           | Some nibble \<Rightarrow> uuid_digits cs (push_bit 4 bits OR word_of_nat nibble) (Suc digits))"

definition coerce_uuid :: "bytes \<Rightarrow> u128 res" where
  "coerce_uuid s =
     (let bad = Err (Plan (debug_str s @ '' is not a UUID''))
      in case uuid_digits s 0 0 of
           None \<Rightarrow> Inl bad
         | Some (bits, digits) \<Rightarrow> if digits \<noteq> 32 then Inl bad else Inr bits)"

text \<open>The planner's own copy of the day count.\<close>

definition planner_days_from_civil :: "int \<Rightarrow> int \<Rightarrow> int \<Rightarrow> int" where
  "planner_days_from_civil year month day =
     (let year = i64_wrap (year - (if month \<le> 2 then 1 else 0));
          era = (if 0 \<le> year then year else i64_wrap (year - 399)) sdiv 400;
          year_of_era = i64_wrap (year - i64_wrap (era * 400));
          day_of_year = (153 * (month + (if 2 < month then - 3 else 9)) + 2) sdiv 5 + day - 1;
          day_of_era = i64_wrap (i64_wrap (i64_wrap (i64_wrap (year_of_era * 365) + year_of_era sdiv 4)
            - year_of_era sdiv 100) + day_of_year)
      in i64_wrap (i64_wrap (i64_wrap (era * 146097) + day_of_era) - 719468))"

definition parse_date_fields :: "bytes \<Rightarrow> (int \<times> int \<times> int) option" where
  "parse_date_fields date =
     (case split_on 45 date of
        ys # ms # ds # extra \<Rightarrow>
          Option.bind (parse_i64 ys) (\<lambda>y. Option.bind (parse_i64 ms) (\<lambda>m. Option.bind (parse_i64 ds) (\<lambda>d.
            if extra \<noteq> [] \<or> \<not> (1 \<le> m \<and> m \<le> 12) \<or> \<not> (1 \<le> d \<and> d \<le> 31) then None else Some (y, m, d))))
      | _ \<Rightarrow> None)"

definition parse_time_fields :: "bytes \<Rightarrow> (int \<times> int \<times> int) option" where
  "parse_time_fields time =
     (let parts = split_on 58 time;
          part = (\<lambda>i. if i < length parts then parts ! i else byte_string ''0'')
      in Option.bind (parse_i64 (part 0)) (\<lambda>h. Option.bind (parse_i64 (part 1)) (\<lambda>mi.
           Option.bind (parse_i64 (part 2)) (\<lambda>s.
             if 3 < length parts \<or> 23 < h \<or> 59 < mi \<or> 60 < s then None else Some (h, mi, s)))))"

definition parse_fraction :: "bytes \<Rightarrow> int option" where
  "parse_fraction fraction =
     (if fraction = [] then Some 0
      else if 6 < length fraction \<or> \<not> list_all is_digit fraction then None
      else map_option (\<lambda>n. n * 10 ^ (6 - length fraction)) (parse_i64 fraction))"

definition timestamp_fields :: "bytes \<Rightarrow> int option" where
  "timestamp_fields s =
     (let text = trim_end_matches [[90]] (trim s);
          (date, time) = (case split_once [[84], [32]] text of
              Some parts \<Rightarrow> parts
            | None \<Rightarrow> (text, byte_string ''00:00:00''));
          (time, fraction) = (case split_once [[46]] time of Some parts \<Rightarrow> parts | None \<Rightarrow> (time, []))
      in Option.bind (parse_date_fields date) (\<lambda>(y, m, d).
           Option.bind (parse_time_fields time) (\<lambda>(h, mi, sec).
             Option.bind (parse_fraction fraction) (\<lambda>micros.
               let days = planner_days_from_civil y m d;
                   seconds = i64_wrap (i64_wrap (i64_wrap (i64_wrap (days * 86400) + i64_wrap (h * 3600))
                     + i64_wrap (mi * 60)) + sec)
               in Option.bind (i64_checked (seconds * 1000000)) (\<lambda>v. i64_checked (v + micros))))))"

definition coerce_timestamp :: "bytes \<Rightarrow> int res" where
  "coerce_timestamp s =
     ok_or (timestamp_fields s) (Err (Plan (debug_str s @ '' is not a timestamp'')))"

definition coerce_value :: "val \<Rightarrow> data_type \<Rightarrow> val res" where
  "coerce_value v target =
     (case (v, target) of
        (VText s, DT_Uuid) \<Rightarrow> bind_res (coerce_uuid s) (\<lambda>u. Inr (VUuid u))
      | (VText s, DT_Timestamp) \<Rightarrow> bind_res (coerce_timestamp s) (\<lambda>us. Inr (VTimestamp (word_of_int us)))
      | (VText s, DT_Json) \<Rightarrow> Inr (VJson s)
      | (VInt4 n, DT_Int8) \<Rightarrow> Inr (VInt8 (scast n))
      | (VInt4 n, DT_Float8) \<Rightarrow> Inr (VFloat8 (f64_of_int (sint n)))
      | (VInt8 n, DT_Float8) \<Rightarrow> Inr (VFloat8 (f64_of_int (sint n)))
      | _ \<Rightarrow> Inr v)"

fun coerce :: "expr \<Rightarrow> data_type \<Rightarrow> expr res" where
  "coerce (ELiteral v) target = bind_res (coerce_value v target) (\<lambda>w. Inr (ELiteral w))"
| "coerce e target = Inr e"

section \<open>Type inference\<close>

definition type_rank :: "data_type \<Rightarrow> nat option" where
  "type_rank t = (case t of DT_Int4 \<Rightarrow> Some 0 | DT_Int8 \<Rightarrow> Some 1 | DT_Float8 \<Rightarrow> Some 2 | _ \<Rightarrow> None)"

definition numeric_result :: "data_type \<Rightarrow> data_type \<Rightarrow> binary_op \<Rightarrow> data_type res" where
  "numeric_result l r op =
     (case (type_rank l, type_rank r) of
        (Some a, Some b) \<Rightarrow> Inr (if b \<le> a then l else r)
      | _ \<Rightarrow> Inl (Err (Plan (op_debug op @ '' is not defined for '' @ data_type_debug l @ '' and '' @ data_type_debug r))))"

fun infer :: "expr \<Rightarrow> scope \<Rightarrow> (data_type \<times> bool) res" where
  "infer (EColumn r) sc =
     bind_res (resolve sc r) (\<lambda>i. bind_res (column_at sc i) (\<lambda>c. Inr (col_data_type c, col_nullable c)))"
| "infer (ESlot i) sc = bind_res (column_at sc i) (\<lambda>c. Inr (col_data_type c, col_nullable c))"
| "infer (ELiteral v) sc = Inr (case data_type_of v of Some t \<Rightarrow> t | None \<Rightarrow> DT_Text, is_null v)"
| "infer (ENot _) sc = Inr (DT_Boolean, True)"
| "infer (EIsNull _) sc = Inr (DT_Boolean, True)"
| "infer (ELike _ _ _ _) sc = Inr (DT_Boolean, True)"
| "infer (EInSubquery _ _ _) sc = Inr (DT_Boolean, True)"
| "infer (ECast _ t) sc = Inr (t, True)"
| "infer (EFunction f args) sc =
     bind_res (map_res (\<lambda>a. infer a sc) args) (\<lambda>inferred.
       let first = (case inferred of [] \<Rightarrow> DT_Text | (t, _) # _ \<Rightarrow> t);
           nullable = (if is_null_preserving f then list_ex snd inferred else list_all snd inferred)
       in Inr (result_type f first, nullable))"
| "infer (ECase operand branches else_result) sc =
     bind_res (map_res (\<lambda>(w, t). infer t sc) branches) (\<lambda>inferred.
       bind_res (opt_res (\<lambda>e. infer e sc) else_result) (\<lambda>else_inferred.
         let data_type = (case inferred of [] \<Rightarrow> DT_Text | (t, _) # _ \<Rightarrow> t);
             exhaustive = (case else_inferred of None \<Rightarrow> False | Some (_, n) \<Rightarrow> \<not> n)
         in Inr (data_type, \<not> exhaustive \<or> list_ex snd inferred)))"
| "infer (EBinary l op r) sc =
     (if is_arithmetic op then
        bind_res (infer l sc) (\<lambda>(lt, ln). bind_res (infer r sc) (\<lambda>(rt, rn).
          if op = OpConcat then Inr (DT_Text, ln \<or> rn)
          else bind_res (numeric_result lt rt op) (\<lambda>t. Inr (t, ln \<or> rn))))
      else Inr (DT_Boolean, True))"

definition inferred_debug :: "(data_type \<times> bool) option \<Rightarrow> string" where
  "inferred_debug x =
     (case x of
        None \<Rightarrow> ''None''
      | Some (t, n) \<Rightarrow> ''Some(('' @ data_type_debug t @ '', '' @ (if n then ''true'' else ''false'') @ ''))'')"

definition aggregate_column :: "aggregate_func \<Rightarrow> (data_type \<times> bool) option \<Rightarrow> column_def res" where
  "aggregate_column f arg =
     bind_res
       (case (f, arg) of
          (AggCount, _) \<Rightarrow> Inr (DT_Int8, False)
        | (AggAvg, Some (DT_Int4, _)) \<Rightarrow> Inr (DT_Float8, True)
        | (AggAvg, Some (DT_Int8, _)) \<Rightarrow> Inr (DT_Float8, True)
        | (AggAvg, Some (DT_Float8, _)) \<Rightarrow> Inr (DT_Float8, True)
        | (AggSum, Some (DT_Int4, _)) \<Rightarrow> Inr (DT_Int8, True)
        | (AggSum, Some (DT_Int8, _)) \<Rightarrow> Inr (DT_Int8, True)
        | (AggSum, Some (DT_Float8, _)) \<Rightarrow> Inr (DT_Float8, True)
        | (AggMin, Some (t, _)) \<Rightarrow> Inr (t, True)
        | (AggMax, Some (t, _)) \<Rightarrow> Inr (t, True)
        | _ \<Rightarrow> Inl (Err (Plan (aggregate_name f @ ''() is not defined for '' @ inferred_debug arg))))
       (\<lambda>(t, n). Inr (column_def_new (aggregate_name f) t n))"

definition key_name :: "expr \<Rightarrow> string" where
  "key_name key = (case key of EColumn r \<Rightarrow> cr_name r | _ \<Rightarrow> ''?column?'')"

definition aggregate_schema :: "expr list \<Rightarrow> expr aggregate_call list \<Rightarrow> scope \<Rightarrow> schema res" where
  "aggregate_schema group_by aggregates input =
     bind_res (map_res (\<lambda>key. bind_res (infer key input) (\<lambda>(t, n). Inr (column_def_new (key_name key) t n))) group_by)
       (\<lambda>keys. bind_res (map_res (\<lambda>call. bind_res (opt_res (\<lambda>e. infer e input) (ac_arg call))
           (aggregate_column (ac_func call))) aggregates)
         (\<lambda>aggs. Inr \<lparr>schema_columns = keys @ aggs\<rparr>))"

section \<open>Binding\<close>

fun coerce_literal :: "phys_expr \<Rightarrow> data_type \<Rightarrow> phys_expr res" where
  "coerce_literal (PLiteral v) target = bind_res (coerce_value v target) (\<lambda>w. Inr (PLiteral w))"
| "coerce_literal e target = Inr e"

text \<open>The type that \<open>align_comparison\<close> coerces both sides to, when one is a column and one a literal.\<close>

definition comparison_target :: "expr \<Rightarrow> expr \<Rightarrow> scope \<Rightarrow> data_type option res" where
  "comparison_target l r sc =
     (case (l, r) of
        (EColumn _, ELiteral _) \<Rightarrow> bind_res (infer l sc) (\<lambda>(t, _). Inr (Some t))
      | (ELiteral _, EColumn _) \<Rightarrow> bind_res (infer r sc) (\<lambda>(t, _). Inr (Some t))
      | _ \<Rightarrow> Inr None)"

definition align :: "data_type option \<Rightarrow> phys_expr \<Rightarrow> phys_expr \<Rightarrow> (phys_expr \<times> phys_expr) res" where
  "align target l r =
     (case target of
        None \<Rightarrow> Inr (l, r)
      | Some t \<Rightarrow> bind_res (coerce_literal l t) (\<lambda>l'. bind_res (coerce_literal r t) (\<lambda>r'. Inr (l', r'))))"

definition subquery_width :: "physical_plan \<Rightarrow> nat" where
  "subquery_width p = (case output_schema p of None \<Rightarrow> 0 | Some s \<Rightarrow> length (schema_columns s))"

text \<open>\<open>lower\<close> turns the plan of a subquery into a physical one.\<close>

fun bind_with :: "(logical_plan \<Rightarrow> physical_plan res) \<Rightarrow> expr \<Rightarrow> scope \<Rightarrow> phys_expr res" where
  "bind_with lower (EColumn r) sc = bind_res (resolve sc r) (\<lambda>i. Inr (PColumn i))"
| "bind_with lower (ESlot i) sc = bind_res (column_at sc i) (\<lambda>_. Inr (PColumn i))"
| "bind_with lower (ELiteral v) sc = Inr (PLiteral v)"
| "bind_with lower (EBinary l op r) sc =
     (if is_comparison op then
        bind_res (comparison_target l r sc) (\<lambda>target.
          bind_res (bind_with lower l sc) (\<lambda>l'. bind_res (bind_with lower r sc) (\<lambda>r'.
            bind_res (align target l' r') (\<lambda>(l'', r''). Inr (PBinary l'' op r'')))))
      else bind_res (bind_with lower l sc) (\<lambda>l'. bind_res (bind_with lower r sc) (\<lambda>r'. Inr (PBinary l' op r'))))"
| "bind_with lower (ENot e) sc = bind_res (bind_with lower e sc) (\<lambda>e'. Inr (PNot e'))"
| "bind_with lower (EIsNull e) sc = bind_res (bind_with lower e sc) (\<lambda>e'. Inr (PIsNull e'))"
| "bind_with lower (ELike e p negated ci) sc =
     bind_res (bind_with lower e sc) (\<lambda>e'. bind_res (bind_with lower p sc) (\<lambda>p'. Inr (PLike e' p' negated ci)))"
| "bind_with lower (ECase operand branches else_result) sc =
     bind_res (opt_res (\<lambda>e. bind_with lower e sc) operand) (\<lambda>operand'.
       bind_res (map_res (\<lambda>(w, t). bind_res (bind_with lower w sc) (\<lambda>w'. bind_res (bind_with lower t sc)
           (\<lambda>t'. Inr (w', t')))) branches) (\<lambda>branches'.
         bind_res (opt_res (\<lambda>e. bind_with lower e sc) else_result) (\<lambda>else'. Inr (PCase operand' branches' else'))))"
| "bind_with lower (ECast e t) sc = bind_res (bind_with lower e sc) (\<lambda>e'. Inr (PCast e' t))"
| "bind_with lower (EFunction f args) sc =
     bind_res (map_res (\<lambda>a. bind_with lower a sc) args) (\<lambda>args'. Inr (PFunction f args'))"
| "bind_with lower (EInSubquery e subquery negated) sc =
     bind_res (lower subquery) (\<lambda>p.
       if subquery_width p \<noteq> 1
       then Inl (Err (Plan (''the subquery of IN must select exactly one column, not '' @ dec_string (subquery_width p))))
       else bind_res (bind_with lower e sc) (\<lambda>e'. Inr (PInSubquery e' p negated)))"

definition no_subquery :: "logical_plan \<Rightarrow> physical_plan res" where
  "no_subquery p = Inl (Err (Plan ''a subquery is not allowed here''))"

definition bind_names :: "expr \<Rightarrow> scope \<Rightarrow> phys_expr res" where
  "bind_names e sc = bind_with no_subquery e sc"

end
