(* ===== verification/Typing.thy ===== *)
theory Typing
  imports Bind
begin

text \<open>
  Type inference is sound: an expression evaluates, if it does, to a value of the type and nullability
  that \<open>infer\<close> announces, provided that the results a \<open>CASE\<close> or \<open>coalesce\<close> chooses between have one type.
  The inference does not check that last condition; the end of the theory shows what happens without it.
\<close>

section \<open>Typed values and rows\<close>

definition has_type :: "val \<Rightarrow> data_type \<times> bool \<Rightarrow> bool" where
  "has_type v tn \<longleftrightarrow> (if is_null v then snd tn else data_type_of v = Some (fst tn))"

definition row_typed :: "scope \<Rightarrow> row \<Rightarrow> bool" where
  "row_typed sc r \<longleftrightarrow>
     list_all2 (\<lambda>c v. has_type v (col_data_type (scol_column c), col_nullable (scol_column c))) sc (row_values r)"

definition inferred_type :: "scope \<Rightarrow> expr \<Rightarrow> data_type option" where
  "inferred_type sc e = (case infer e sc of Inr (t, _) \<Rightarrow> Some t | Inl _ \<Rightarrow> None)"

definition one_type :: "scope \<Rightarrow> expr list \<Rightarrow> bool" where
  "one_type sc es \<longleftrightarrow> (case es of [] \<Rightarrow> True | e # es' \<Rightarrow> list_all (\<lambda>x. inferred_type sc x = inferred_type sc e) es')"

text \<open>Calls have the number of arguments the planner checked, and choices have one type.\<close>

fun uniform :: "scope \<Rightarrow> expr \<Rightarrow> bool" where
  "uniform sc (EBinary l op r) \<longleftrightarrow> uniform sc l \<and> uniform sc r"
| "uniform sc (EFunction f args) \<longleftrightarrow>
     check_arity f (length args) = Inr () \<and> list_all (uniform sc) args \<and> (f = Coalesce \<longrightarrow> one_type sc args)"
| "uniform sc (ECase operand branches else_result) \<longleftrightarrow>
     branches \<noteq> [] \<and> list_all (\<lambda>(w, t). uniform sc t) branches
     \<and> (case else_result of None \<Rightarrow> True | Some e \<Rightarrow> uniform sc e)
     \<and> one_type sc (map snd branches @ (case else_result of None \<Rightarrow> [] | Some e \<Rightarrow> [e]))"
| "uniform sc _ \<longleftrightarrow> True"

lemma has_type_null [simp]: "has_type VNull (t, n) = n"
  by (simp add: has_type_def is_null_def)

lemma has_type_simps [simp]:
  "has_type (VBoolean b) (t, n) = (t = DT_Boolean)"
  "has_type (VInt4 i4) (t, n) = (t = DT_Int4)"
  "has_type (VInt8 i8) (t, n) = (t = DT_Int8)"
  "has_type (VFloat8 f) (t, n) = (t = DT_Float8)"
  "has_type (VText s) (t, n) = (t = DT_Text)"
  "has_type (VTimestamp us) (t, n) = (t = DT_Timestamp)"
  "has_type (VUuid u) (t, n) = (t = DT_Uuid)"
  "has_type (VJson s) (t, n) = (t = DT_Json)"
  by (auto simp: has_type_def is_null_def)

lemma has_type_cases:
  "has_type v (t, n) \<longleftrightarrow> v = VNull \<and> n \<or> v \<noteq> VNull \<and> data_type_of v = Some t"
  by (auto simp: has_type_def is_null_def)

section \<open>Operators\<close>

lemma arithmetic_concat:
  "arithmetic OpConcat a b = Inr v \<Longrightarrow> has_type v (DT_Text, a = VNull \<or> b = VNull)"
  by (auto simp: arithmetic_def is_null_def split: if_splits val.splits)

lemma arithmetic_numeric:
  assumes "arithmetic op a b = Inr v" and "op \<noteq> OpConcat" and "has_type a (lt, ln)" and "has_type b (rt, rn)"
    and "numeric_result lt rt op = Inr t"
  shows "has_type v (t, ln \<or> rn)"
proof (cases "a = VNull \<or> b = VNull")
  case True
  then show ?thesis
    using assms by (auto simp: arithmetic_def is_null_def)
next
  case False
  then have "data_type_of a = Some lt" "data_type_of b = Some rt"
    using assms(3,4) by (auto simp: has_type_cases)
  then show ?thesis
    using assms(1,2,5) False
    by (cases a; cases b)
      (auto simp: arithmetic_def is_null_def numeric_result_def type_rank_def bind_res_def split: sum.splits if_splits)
qed

lemma comparison_boolean: "comparison_value op a b = Inr v \<Longrightarrow> has_type v (DT_Boolean, True)"
  by (auto simp: comparison_value_def bind_res_def split: sum.splits option.splits)

lemma like_boolean: "like_values ops a b x y = Inr v \<Longrightarrow> has_type v (DT_Boolean, True)"
  by (auto simp: like_values_def Let_def split: if_splits val.splits)

lemma logic_boolean: "has_type (and_values x y) (DT_Boolean, True)" "has_type (or_values x y) (DT_Boolean, True)"
  by (simp_all add: and_values_def or_values_def)

lemma cast_type: "cast ops v t = Inr u \<Longrightarrow> has_type u (t, True)"
  by (cases t; cases v)
    (auto simp: cast_def Let_def bind_res_def is_null_def split: if_splits sum.splits)

section \<open>Functions\<close>

lemma map_text_type: "map_text f v = Inr u \<Longrightarrow> has_type u (DT_Text, v = VNull)"
  by (cases v) auto

lemma integer_arg_None: "integer_arg v = Inr None \<Longrightarrow> v = VNull"
  by (cases v) auto

lemma substr_type:
  assumes "substr args = Inr u" and "2 \<le> length args"
  shows "has_type u (DT_Text, VNull \<in> set args)"
proof -
  have m: "i < length args \<Longrightarrow> args ! i = VNull \<Longrightarrow> VNull \<in> set args" for i
    by (metis nth_mem)
  show ?thesis
    using assms m [of 0] m [of 1] m [of 2] integer_arg_None [of "args ! 1"] integer_arg_None [of "args ! 2"]
    by (auto simp: substr_def arg_at_def bind_res_def Let_def split: val.splits sum.splits option.splits if_splits)
qed

lemma apply_modifiers_None: "apply_modifiers us args = Inr None \<Longrightarrow> VNull \<in> set args"
  by (induction args arbitrary: us) (auto split: val.splits option.splits)

lemma datetime_type:
  assumes "eval_datetime now args b = Inr u" and "args \<noteq> []"
  shows "has_type u (DT_Text, VNull \<in> set args)"
proof -
  have "first_micros now args = Inr None \<Longrightarrow> VNull \<in> set args"
    using assms(2) by (auto simp: first_micros_def split: list.splits val.splits if_splits option.splits)
  moreover have "VNull \<in> set (tl args) \<Longrightarrow> VNull \<in> set args"
    by (cases args) auto
  ultimately show ?thesis
    using assms(1) apply_modifiers_None
    by (auto simp: eval_datetime_def bind_res_def split: sum.splits option.splits)
qed

lemma list_has_type_null:
  "list_all2 has_type args tns \<Longrightarrow> VNull \<in> set args \<Longrightarrow> list_ex snd tns"
  by (induction args tns rule: list_all2_induct) (auto simp: has_type_def is_null_def split: if_splits)

lemma coalesce_null:
  "list_all2 has_type args tns \<Longrightarrow> find (\<lambda>v. \<not> is_null v) args = None \<Longrightarrow> list_all snd tns"
  by (induction args tns rule: list_all2_induct) (auto simp: has_type_def split: if_splits)

lemma coalesce_value:
  "list_all2 has_type args tns \<Longrightarrow> find (\<lambda>v. \<not> is_null v) args = Some u \<Longrightarrow>
   \<exists>tn\<in>set tns. data_type_of u = Some (fst tn)"
  by (induction args tns rule: list_all2_induct) (auto simp: has_type_def split: if_splits)

lemma coalesce_type:
  assumes "list_all2 has_type args tns" and "\<forall>tn\<in>set tns. fst tn = fst (hd tns)"
  shows "has_type (case find (\<lambda>v. \<not> is_null v) args of Some v \<Rightarrow> v | None \<Rightarrow> VNull) (fst (hd tns), list_all snd tns)"
proof (cases "find (\<lambda>v. \<not> is_null v) args")
  case None
  then show ?thesis
    using coalesce_null [OF assms(1)] by simp
next
  case (Some u)
  then have "\<not> is_null u"
    by (auto simp: find_Some_iff)
  then show ?thesis
    using coalesce_value [OF assms(1) Some] assms(2) Some by (auto simp: has_type_def)
qed

lemma randomblob_type: "randomblob v w = (Inr u, w') \<Longrightarrow> has_type u (DT_Text, v = VNull)"
  using integer_arg_None [of v]
  by (auto simp: randomblob_def bind_op_Inr_iff lift_op_def ret_op_def split: option.splits)

lemma has_type_mono: "has_type v (t, n) \<Longrightarrow> (n \<Longrightarrow> m) \<Longrightarrow> has_type v (t, m)"
  by (auto simp: has_type_def)

lemma arity_least: "check_arity f k = Inr () \<Longrightarrow> fst (arity f) \<le> k"
  by (auto simp: check_arity_def split: prod.splits if_splits)

lemma strict_call_type:
  assumes c: "scalar_call ops f args w = (Inr u, w')" and ar: "check_arity f (length args) = Inr ()"
    and f: "f \<noteq> Coalesce" "f \<noteq> Nocase"
  shows "has_type u (DT_Text, VNull \<in> set args)"
proof -
  have n: "fst (arity f) \<le> length args"
    using arity_least [OF ar] .
  then have "args \<noteq> []"
    using f by (cases f) (auto simp: arity_def)
  then have m: "args ! 0 = VNull \<Longrightarrow> VNull \<in> set args"
    by (metis length_greater_0_conv nth_mem)
  show ?thesis
  proof (cases f)
    case Substr
    then show ?thesis
      using c n by (auto simp: scalar_call_def lift_op_def arity_def intro: substr_type)
  next
    case Randomblob
    then show ?thesis
      using c m \<open>args \<noteq> []\<close>
      by (auto simp: scalar_call_def arg_at_def dest!: randomblob_type elim!: has_type_mono)
  next
    case DatetimeFn
    then show ?thesis
      using c \<open>args \<noteq> []\<close>
      by (auto simp: scalar_call_def bind_op_Inr_iff lift_op_def intro: datetime_type)
  next
    case DateFn
    then show ?thesis
      using c \<open>args \<noteq> []\<close>
      by (auto simp: scalar_call_def bind_op_Inr_iff lift_op_def intro: datetime_type)
  qed (use c m f \<open>args \<noteq> []\<close> in
      \<open>auto simp: scalar_call_def arg_at_def lift_op_def dest!: map_text_type elim!: has_type_mono\<close>)
qed

lemma call_type:
  assumes c: "scalar_call ops f args w = (Inr u, w')" and ar: "check_arity f (length args) = Inr ()"
    and ty: "list_all2 has_type args tns" and co: "f = Coalesce \<Longrightarrow> \<forall>tn\<in>set tns. fst tn = fst (hd tns)"
  shows "has_type u (result_type f (fst (hd tns)),
    if is_null_preserving f then list_ex snd tns else list_all snd tns)"
proof (cases "f = Coalesce \<or> f = Nocase")
  case False
  then show ?thesis
    using strict_call_type [OF c ar] list_has_type_null [OF ty]
    by (auto simp: result_type_def is_null_preserving_def elim: has_type_mono)
next
  case True
  have ne: "args \<noteq> []" if "f = Nocase"
    using arity_least [OF ar] that by (auto simp: arity_def)
  show ?thesis
  proof (cases "f = Coalesce")
    case True
    then show ?thesis
      using c coalesce_type [OF ty co]
      by (auto simp: scalar_call_def ret_op_def result_type_def is_null_preserving_def)
  next
    case False
    then have f: "f = Nocase" and "args \<noteq> []"
      using \<open>f = Coalesce \<or> f = Nocase\<close> ne by auto
    then obtain a args' tn tns' where "args = a # args'" "tns = tn # tns'" "has_type a tn"
      using ty by (cases args; cases tns) auto
    then show ?thesis
      using c f by (cases tn; cases a)
        (auto simp: scalar_call_def arg_at_def lift_op_def result_type_def is_null_preserving_def)
  qed
qed

section \<open>Soundness\<close>

definition sound_at :: "text_ops \<Rightarrow> (logical_plan \<Rightarrow> physical_plan res) \<Rightarrow> scope \<Rightarrow> row \<Rightarrow> expr \<Rightarrow> bool" where
  "sound_at ops lower sc r e \<longleftrightarrow>
     (\<forall>t n pe w v w'. infer e sc = Inr (t, n) \<longrightarrow> bind_with lower e sc = Inr pe \<longrightarrow> eval ops pe r w = (Inr v, w') \<longrightarrow>
        has_type v (t, n))"

lemma sound_atI:
  "(\<And>t n pe w v w'. infer e sc = Inr (t, n) \<Longrightarrow> bind_with lower e sc = Inr pe \<Longrightarrow> eval ops pe r w = (Inr v, w') \<Longrightarrow>
     has_type v (t, n)) \<Longrightarrow> sound_at ops lower sc r e"
  unfolding sound_at_def by blast

lemma sound_atD:
  "sound_at ops lower sc r e \<Longrightarrow> infer e sc = Inr tn \<Longrightarrow> bind_with lower e sc = Inr pe \<Longrightarrow> eval ops pe r w = (Inr v, w') \<Longrightarrow>
   has_type v tn"
  unfolding sound_at_def by (cases tn) blast

lemma args_sound:
  assumes "\<forall>a\<in>set args. sound_at ops lower sc r a" and "map_res (\<lambda>a. infer a sc) args = Inr tns"
    and "map_res (\<lambda>a. bind_with lower a sc) args = Inr pes" and "eval_args ops pes r w = (Inr vs, w')"
  shows "list_all2 has_type vs tns"
  using assms
proof (induction args arbitrary: tns pes w vs w')
  case (Cons a args)
  then show ?case
    by (auto simp: bind_res_Inr_iff bind_op_Inr_iff ret_op_def intro: sound_atD)
qed (auto simp: ret_op_def)

lemma branches_sound:
  assumes "\<forall>b\<in>set branches. sound_at ops lower sc r (snd b)" and "map_res (\<lambda>(w, t). infer t sc) branches = Inr tns"
    and "map_res (\<lambda>(w, t). bind_res (bind_with lower w sc) (\<lambda>w'. bind_res (bind_with lower t sc)
           (\<lambda>t'. Inr (w', t')))) branches = Inr pbs"
    and "eval_branches ops operand pbs r w = (Inr (Some v), w')"
  shows "\<exists>tn\<in>set tns. has_type v tn"
  using assms
proof (induction branches arbitrary: tns pbs w)
  case (Cons b branches)
  obtain c t where b: "b = (c, t)"
    by fastforce
  obtain tn tns' pc pt pbs' where *: "infer t sc = Inr tn" "map_res (\<lambda>(w, t). infer t sc) branches = Inr tns'"
      "tns = tn # tns'" "bind_with lower t sc = Inr pt" "pbs = (pc, pt) # pbs'"
      "map_res (\<lambda>(w, t). bind_res (bind_with lower w sc) (\<lambda>w'. bind_res (bind_with lower t sc)
           (\<lambda>t'. Inr (w', t')))) branches = Inr pbs'"
    using Cons.prems(2,3) b by (auto simp: bind_res_Inr_iff)
  have t: "sound_at ops lower sc r t"
    using Cons.prems(1) b by simp
  from Cons.prems(4) * obtain m w1 where
    "(if m then bind_op (eval ops pt r) (\<lambda>v. ret_op (Some v)) else eval_branches ops operand pbs' r) w1
       = (Inr (Some v), w')"
    by (auto simp: bind_op_Inr_iff)
  then show ?case
    using Cons.IH [OF _ *(2) *(6)] Cons.prems(1) * sound_atD [OF t *(1) *(4)]
    by (auto simp: bind_op_Inr_iff ret_op_def split: if_splits)
qed (auto simp: ret_op_def)

lemma one_type_inferred:
  assumes "one_type sc es" and "map_res (\<lambda>a. infer a sc) es = Inr tns"
  shows "\<forall>tn\<in>set tns. fst tn = fst (hd tns)"
proof (cases es)
  case (Cons e es')
  have "list_all (\<lambda>tn. fst tn = t) ts"
    if "list_all (\<lambda>x. inferred_type sc x = Some t) es'" "map_res (\<lambda>a. infer a sc) es' = Inr ts" for t ts
    using that by (induction es' arbitrary: ts) (auto simp: bind_res_Inr_iff inferred_type_def)
  then show ?thesis
    using assms Cons by (fastforce simp: one_type_def bind_res_Inr_iff inferred_type_def list_all_iff)
qed (use assms in auto)

lemma function_sound:
  assumes "\<forall>a\<in>set args. sound_at ops lower sc r a" and u: "uniform sc (EFunction f args)"
  shows "sound_at ops lower sc r (EFunction f args)"
proof (rule sound_atI)
  fix t n pe w v w'
  assume inf: "infer (EFunction f args) sc = Inr (t, n)" and b: "bind_with lower (EFunction f args) sc = Inr pe"
    and e: "eval ops pe r w = (Inr v, w')"
  obtain tns where tns: "map_res (\<lambda>a. infer a sc) args = Inr tns"
    "t = result_type f (case tns of [] \<Rightarrow> DT_Text | (t, _) # _ \<Rightarrow> t)"
    "n = (if is_null_preserving f then list_ex snd tns else list_all snd tns)"
    using inf by (auto simp: bind_res_Inr_iff Let_def)
  obtain pes vs w1 where pes: "map_res (\<lambda>a. bind_with lower a sc) args = Inr pes" "eval_args ops pes r w = (Inr vs, w1)"
    "scalar_call ops f vs w1 = (Inr v, w')"
    using b e by (auto simp: bind_res_Inr_iff bind_op_Inr_iff)
  have ty: "list_all2 has_type vs tns"
    using args_sound [OF assms(1) tns(1) pes(1,2)] .
  have len: "length tns = length args"
    using tns(1) by (induction args arbitrary: tns) (auto simp: bind_res_Inr_iff)
  have "tns \<noteq> [] \<longleftrightarrow> args \<noteq> []"
    using len by auto
  moreover have "args \<noteq> []"
    using u arity_least [of f "length args"] by (cases f) (auto simp: arity_def)
  ultimately show "has_type v (t, n)"
    using call_type [OF pes(3) _ ty one_type_inferred [OF _ tns(1)]] u tns(2,3) len list_all2_lengthD [OF ty]
    by (cases tns) auto
qed

lemma case_choice_sound:
  assumes "branches \<noteq> []" and "one_type sc (map snd branches @ es)"
    and "map_res (\<lambda>(w, t). infer t sc) branches = Inr tns" and "map_res (\<lambda>e. infer e sc) es = Inr ets"
  shows "tns \<noteq> []" and "\<forall>tn\<in>set (tns @ ets). fst tn = fst (hd tns)"
proof -
  have 1: "map_res (\<lambda>a. infer a sc) (map snd bs @ es) = Inr (ts @ ets)"
    if "map_res (\<lambda>(w, t). infer t sc) bs = Inr ts" for bs ts
    using that by (induction bs arbitrary: ts) (auto simp: bind_res_Inr_iff assms(4))
  show ne: "tns \<noteq> []"
    using assms(1,3) by (cases branches) (auto simp: bind_res_Inr_iff)
  show "\<forall>tn\<in>set (tns @ ets). fst tn = fst (hd tns)"
    using one_type_inferred [OF assms(2) 1 [OF assms(3)]] ne by (cases tns) auto
qed

lemma case_sound:
  assumes br: "\<forall>b\<in>set branches. sound_at ops lower sc r (snd b)"
    and el: "\<And>e. else_result = Some e \<Longrightarrow> sound_at ops lower sc r e"
    and u: "uniform sc (ECase operand branches else_result)"
  shows "sound_at ops lower sc r (ECase operand branches else_result)"
proof (rule sound_atI)
  fix t n pe w v w'
  assume inf: "infer (ECase operand branches else_result) sc = Inr (t, n)"
    and b: "bind_with lower (ECase operand branches else_result) sc = Inr pe"
    and e: "eval ops pe r w = (Inr v, w')"
  obtain tns eo where tns: "map_res (\<lambda>(w, t). infer t sc) branches = Inr tns"
    "opt_res (\<lambda>e. infer e sc) else_result = Inr eo"
    "t = (case tns of [] \<Rightarrow> DT_Text | (t, _) # _ \<Rightarrow> t)"
    "n = (\<not> (case eo of None \<Rightarrow> False | Some (_, n) \<Rightarrow> \<not> n) \<or> list_ex snd tns)"
    using inf by (auto simp: bind_res_Inr_iff Let_def)
  obtain po pbs pel where pb: "map_res (\<lambda>(w, t). bind_res (bind_with lower w sc) (\<lambda>w'. bind_res (bind_with lower t sc)
           (\<lambda>t'. Inr (w', t')))) branches = Inr pbs"
    "opt_res (\<lambda>e. bind_with lower e sc) else_result = Inr pel" "pe = PCase po pbs pel"
    using b by (auto simp: bind_res_Inr_iff)
  define es where "es = (case else_result of None \<Rightarrow> [] | Some e \<Rightarrow> [e])"
  define ets where "ets = (case eo of None \<Rightarrow> [] | Some tn \<Rightarrow> [tn])"
  have es: "map_res (\<lambda>e. infer e sc) es = Inr ets"
    using tns(2) by (auto simp: es_def ets_def opt_res_def bind_res_Inr_iff split: option.splits)
  have one: "branches \<noteq> []" "one_type sc (map snd branches @ es)"
    using u by (simp_all add: es_def)
  note ty = case_choice_sound [OF one tns(1) es]
  have t: "t = fst (hd tns)"
    using tns(3) ty(1) by (auto split: list.splits)
  obtain operand' hit w0 w1 where hit: "eval_branches ops operand' pbs r w0 = (Inr hit, w1)"
    "(case hit of Some v \<Rightarrow> ret_op v
       | None \<Rightarrow> (case pel of Some e \<Rightarrow> eval ops e r | None \<Rightarrow> ret_op VNull)) w1 = (Inr v, w')"
    using e pb(3) by (auto simp: bind_op_Inr_iff)
  show "has_type v (t, n)"
  proof (cases hit)
    case (Some v')
    then have "eval_branches ops operand' pbs r w0 = (Inr (Some v), w1)"
      using hit by (simp add: ret_op_def)
    then obtain t' n' where tn: "(t', n') \<in> set tns" "has_type v (t', n')"
      using branches_sound [OF br tns(1) pb(1)] by (metis surj_pair)
    then have "t' = t"
      using ty(2) t by force
    moreover have "n' \<Longrightarrow> n"
      using tn(1) tns(4) by (force simp: list_ex_iff)
    ultimately show ?thesis
      using tn(2) by (auto elim: has_type_mono)
  next
    case None
    show ?thesis
    proof (cases else_result)
      case None
      then show ?thesis
        using hit \<open>hit = None\<close> pb(2) tns(2,4) by (auto simp: opt_res_def ret_op_def)
    next
      case (Some e')
      then obtain pe' tn where *: "bind_with lower e' sc = Inr pe'" "pel = Some pe'" "infer e' sc = Inr tn" "eo = Some tn"
        using pb(2) tns(2) by (auto simp: opt_res_def bind_res_Inr_iff)
      then have "has_type v tn"
        using hit(2) \<open>hit = None\<close> sound_atD [OF el [OF Some] *(3) *(1)] by simp
      then show ?thesis
        using ty(2) t tns(4) * by (cases tn) (auto simp: ets_def elim: has_type_mono)
    qed
  qed
qed

lemma row_typed_at:
  "row_typed sc r \<Longrightarrow> i < length sc \<Longrightarrow> i < length (row_values r) \<Longrightarrow>
   has_type (row_values r ! i) (col_data_type (scol_column (sc ! i)), col_nullable (scol_column (sc ! i)))"
  by (auto simp: row_typed_def dest: list_all2_nthD)

lemma binary_sound:
  assumes "sound_at ops lower sc r l" and "sound_at ops lower sc r e"
  shows "sound_at ops lower sc r (EBinary l op e)"
proof (rule sound_atI)
  fix t n pe w v w'
  assume inf: "infer (EBinary l op e) sc = Inr (t, n)" and b: "bind_with lower (EBinary l op e) sc = Inr pe"
    and ev: "eval ops pe r w = (Inr v, w')"
  show "has_type v (t, n)"
  proof (cases "is_arithmetic op")
    case True
    then have "\<not> is_comparison op"
      by (cases op) (auto simp: is_arithmetic_def is_comparison_def)
    then obtain pl pr where p: "bind_with lower l sc = Inr pl" "bind_with lower e sc = Inr pr" "pe = PBinary pl op pr"
      using b by (auto simp: bind_res_Inr_iff)
    obtain lt ln rt rn where i: "infer l sc = Inr (lt, ln)" "infer e sc = Inr (rt, rn)"
      using inf True by (auto simp: bind_res_Inr_iff)
    then have tn: "if op = OpConcat then (t, n) = (DT_Text, ln \<or> rn) else numeric_result lt rt op = Inr t \<and> n = (ln \<or> rn)"
      using inf True by (auto simp: bind_res_Inr_iff)
    obtain a b' w1 w2 where v: "eval ops pl r w = (Inr a, w1)" "eval ops pr r w1 = (Inr b', w2)"
      "arithmetic op a b' = Inr v"
      using ev p(3) True by (auto simp: bind_op_Inr_iff lift_op_def)
    have "has_type a (lt, ln)" "has_type b' (rt, rn)"
      using sound_atD [OF assms(1) i(1) p(1) v(1)] sound_atD [OF assms(2) i(2) p(2) v(2)] .
    then show ?thesis
      using tn arithmetic_concat [of a b' v] arithmetic_numeric [OF v(3)] v(3)
      by (auto split: if_splits elim!: has_type_mono)
  next
    case False
    then obtain pl pr where "pe = PBinary pl op pr" "(t, n) = (DT_Boolean, True)"
      using b inf by (auto simp: bind_res_Inr_iff split: if_splits)
    then show ?thesis
      using ev False
      by (auto simp: bind_op_Inr_iff lift_op_def ret_op_def logic_boolean split: if_splits intro: comparison_boolean)
  qed
qed

lemma uniform_sound: "row_typed sc r \<Longrightarrow> uniform sc e \<Longrightarrow> sound_at ops lower sc r e"
proof (induction sc e rule: uniform.induct [case_names Binary Function Case Column Slot Literal Not IsNull Like Cast InSubquery])
  case (Binary sc l op e)
  then show ?case
    by (simp add: binary_sound)
next
  case (Function sc f args)
  then show ?case
    by (intro function_sound) (auto simp: list_all_iff)
next
  case (Case sc operand branches else_result)
  then show ?case
    by (intro case_sound) (auto simp: list_all_iff)
next
  case (Column sc cr)
  then show ?case
    by (intro sound_atI) (auto simp: bind_res_Inr_iff lift_op_def column_at_def row_typed_at split: if_splits)
next
  case (Slot sc i)
  then show ?case
    by (intro sound_atI) (auto simp: bind_res_Inr_iff lift_op_def column_at_def row_typed_at split: if_splits)
next
  case (Literal sc v)
  then show ?case
    by (intro sound_atI) (cases v; auto simp: ret_op_def is_null_def)
next
  case (Not sc e)
  then show ?case
    by (intro sound_atI) (auto simp: bind_res_Inr_iff bind_op_Inr_iff ret_op_def split: option.splits)
next
  case (IsNull sc e)
  then show ?case
    by (intro sound_atI) (auto simp: bind_res_Inr_iff bind_op_Inr_iff ret_op_def)
next
  case (Like sc e p neg ci)
  then show ?case
    by (intro sound_atI) (auto simp: bind_res_Inr_iff bind_op_Inr_iff lift_op_def intro: like_boolean)
next
  case (Cast sc e t)
  then show ?case
    by (intro sound_atI) (auto simp: bind_res_Inr_iff bind_op_Inr_iff lift_op_def intro: cast_type)
next
  case (InSubquery sc e p neg)
  then show ?case
    by (intro sound_atI) (auto simp: bind_res_Inr_iff lift_op_def split: if_splits)
qed

text \<open>
  C18: types are sound. If \<open>infer\<close> announces a type and a nullability for an expression, the expression binds in
  the same scope, and the row it is evaluated on has the types of that scope, then the value is of that type, or
  is NULL where the announcement allows it. The condition \<open>uniform\<close> asks that calls have the number of arguments
  the planner checks and that the results of a CASE and the arguments of coalesce are announced with one type.
\<close>

theorem inferred_types_sound:
  assumes "infer e sc = Inr (t, n)" and "bind_with lower e sc = Inr pe" and "uniform sc e" and "row_typed sc r"
    and "eval ops pe r w = (Inr v, w')"
  shows "has_type v (t, n)"
  using sound_atD [OF uniform_sound [OF assms(4,3)] assms(1,2,5)] .

definition sample_scope :: scope where
  "sample_scope = for_relation \<lparr>schema_columns = [column_def_new ''a'' DT_Int4 True]\<rparr> [''t'']"

lemmas sample_simps =
  sample_scope_def for_relation_def column_def_new_def resolve_def candidates_def answers_def column_at_def
  column_ref_new_def

definition sample_ops :: text_ops where
  "sample_ops = \<lparr>to_lowercase = id, to_uppercase = id, print_f64 = \<lambda>_. [], parse_f64 = \<lambda>_. None\<rparr>"

definition sample_ambient :: ambient where
  "sample_ambient = \<lparr>amb_clock = \<lambda>_. 0, amb_reads = 0, amb_counter = 0\<rparr>"

theorem inferred_types_sound_witness:
  "has_type (VInt8 5) (DT_Int8, True)"
  by (rule inferred_types_sound [where e = "EBinary (EColumn (column_ref_new ''a'')) OpPlus (ELiteral (VInt8 3))"
        and sc = sample_scope and lower = no_subquery and pe = "PBinary (PColumn 0) OpPlus (PLiteral (VInt8 3))"
        and r = "\<lparr>row_values = [VInt4 2]\<rparr>" and ops = sample_ops and w = sample_ambient and w' = sample_ambient])
    (simp_all add: sample_simps is_arithmetic_def is_comparison_def numeric_result_def type_rank_def row_typed_def
      arithmetic_def is_null_def integer_op_def in_i64_def)

text \<open>
  Without that condition the announcement can be wrong: \<open>CASE WHEN a IS NULL THEN 1 ELSE 'x' END\<close> is announced
  as an integer, and on a row where \<open>a\<close> is not NULL it is the text \<open>x\<close>.
\<close>

lemma mixed_case_mistyped:
  defines "e \<equiv> ECase None [(EIsNull (EColumn (column_ref_new ''a'')), ELiteral (VInt4 1))] (Some (ELiteral (VText [120])))"
  shows "infer e sample_scope = Inr (DT_Int4, False)"
    and "bind_names e sample_scope = Inr (PCase None [(PIsNull (PColumn 0), PLiteral (VInt4 1))] (Some (PLiteral (VText [120]))))"
    and "eval ops (PCase None [(PIsNull (PColumn 0), PLiteral (VInt4 1))] (Some (PLiteral (VText [120]))))
       \<lparr>row_values = [VInt4 2]\<rparr> w = (Inr (VText [120]), w)"
  by (simp_all add: e_def sample_simps is_null_def bind_names_def opt_res_def ret_op_def bind_op_def)

end
