(* ===== verification/Subquery.thy ===== *)
theory Subquery
  imports Eval
begin

text \<open>
  Running the subqueries of a plan before the plan itself (ferrite-exec/src/subquery.rs). An \<open>IN (SELECT ..)\<close>
  becomes a test against the values its subquery returned.
\<close>

section \<open>Monadic traversals\<close>

fun map_op :: "('a \<Rightarrow> ('s, 'e, 'b) op) \<Rightarrow> 'a list \<Rightarrow> ('s, 'e, 'b list) op" where
  "map_op f [] = ret_op []"
| "map_op f (x # xs) = bind_op (f x) (\<lambda>y. bind_op (map_op f xs) (\<lambda>ys. ret_op (y # ys)))"

definition opt_op :: "('a \<Rightarrow> ('s, 'e, 'b) op) \<Rightarrow> 'a option \<Rightarrow> ('s, 'e, 'b option) op" where
  "opt_op f x = (case x of None \<Rightarrow> ret_op None | Some a \<Rightarrow> bind_op (f a) (\<lambda>b. ret_op (Some b)))"

lemma map_op_cong [fundef_cong]:
  "xs = ys \<Longrightarrow> (\<And>x. x \<in> set ys \<Longrightarrow> f x = g x) \<Longrightarrow> map_op f xs = map_op g ys"
  by (induction ys arbitrary: xs) auto

lemma opt_op_cong [fundef_cong]:
  "x = y \<Longrightarrow> (\<And>a. a \<in> set_option y \<Longrightarrow> f a = g a) \<Longrightarrow> opt_op f x = opt_op g y"
  by (auto simp: opt_op_def split: option.splits)

section \<open>Whether a plan holds a subquery\<close>

fun in_expr :: "phys_expr \<Rightarrow> bool" where
  "in_expr (PInSubquery _ _ _) \<longleftrightarrow> True"
| "in_expr (PColumn _) \<longleftrightarrow> False"
| "in_expr (PLiteral _) \<longleftrightarrow> False"
| "in_expr (PNot e) \<longleftrightarrow> in_expr e"
| "in_expr (PIsNull e) \<longleftrightarrow> in_expr e"
| "in_expr (PCast e _) \<longleftrightarrow> in_expr e"
| "in_expr (PBinary l _ r) \<longleftrightarrow> in_expr l \<or> in_expr r"
| "in_expr (PLike e p _ _) \<longleftrightarrow> in_expr e \<or> in_expr p"
| "in_expr (PFunction _ args) \<longleftrightarrow> list_ex in_expr args"
| "in_expr (PCase operand branches else_result) \<longleftrightarrow>
     (case operand of None \<Rightarrow> False | Some e \<Rightarrow> in_expr e)
     \<or> (case else_result of None \<Rightarrow> False | Some e \<Rightarrow> in_expr e)
     \<or> list_ex (\<lambda>(w, t). in_expr w \<or> in_expr t) branches"

definition option_list :: "'a option \<Rightarrow> 'a list" where
  "option_list x = (case x of None \<Rightarrow> [] | Some a \<Rightarrow> [a])"

text \<open>\<open>walk_exprs\<close>: the expressions of a plan and of its inputs.\<close>

fun plan_exprs :: "physical_plan \<Rightarrow> phys_expr list" where
  "plan_exprs (SeqScan _ _ _ filt) = option_list filt"
| "plan_exprs (IndexScan _ _ _ _ _ _ residual) = option_list residual"
| "plan_exprs (PFilter p e) = e # plan_exprs p"
| "plan_exprs (PProjection p es _) = es @ plan_exprs p"
| "plan_exprs (PSort p keys) = map sk_expr keys @ plan_exprs p"
| "plan_exprs (PLimit p _ _) = plan_exprs p"
| "plan_exprs (PDistinct p) = plan_exprs p"
| "plan_exprs (PAggregate p group_by aggregates _) =
     group_by @ List.map_filter ac_arg aggregates @ plan_exprs p"
| "plan_exprs (NestedLoopJoin l r _ predicate _) = option_list predicate @ plan_exprs l @ plan_exprs r"
| "plan_exprs (PInsert _ _ _ rows _ _) = concat rows"
| "plan_exprs (PUpdate _ _ _ source assignments _) = map snd assignments @ plan_exprs source"
| "plan_exprs (PDelete _ _ _ source) = plan_exprs source"
| "plan_exprs (CallProcedure _ args) = args"

definition present_in :: "physical_plan \<Rightarrow> bool" where
  "present_in p \<longleftrightarrow> list_ex in_expr (plan_exprs p)"

section \<open>The test a subquery becomes\<close>

fun or_pairs :: "phys_expr list \<Rightarrow> phys_expr list" where
  "or_pairs (l # r # es) = PBinary l OpOr r # or_pairs es"
| "or_pairs es = es"

lemma or_pairs_length: "length (or_pairs es) = (length es + 1) div 2"
  by (induction es rule: or_pairs.induct) auto

function or_tree :: "phys_expr list \<Rightarrow> phys_expr list" where
  "or_tree es = (if 1 < length es then or_tree (or_pairs es) else es)"
  by pat_completeness auto
termination
  by (relation "measure length") (auto simp: or_pairs_length)

declare or_tree.simps [simp del]

definition value_test :: "phys_expr \<Rightarrow> val list \<Rightarrow> bool \<Rightarrow> phys_expr res" where
  "value_test tested vs negated =
     (if vs = [] then Inr (PLiteral (VBoolean negated))
      else case or_tree (map (\<lambda>v. PBinary tested OpEq (PLiteral v)) vs) of
             [] \<Rightarrow> Inl Panic
           | es \<Rightarrow> Inr (if negated then PNot (last es) else last es))"

section \<open>Resolving\<close>

text \<open>
  \<open>resolve\<close> on a plan: its own expressions first, then its inputs. The expressions of an \<open>ON CONFLICT\<close> clause
  and the key of an index scan are not visited.
\<close>

function (sequential)
  resolve_plan :: "(physical_plan \<Rightarrow> ('s, failure, val list) op) \<Rightarrow> physical_plan \<Rightarrow> ('s, failure, physical_plan) op"
  and resolve_expr :: "(physical_plan \<Rightarrow> ('s, failure, val list) op) \<Rightarrow> phys_expr \<Rightarrow> ('s, failure, phys_expr) op"
where
  "resolve_plan run (SeqScan t n s filt) =
     bind_op (opt_op (resolve_expr run) filt) (\<lambda>filt'. ret_op (SeqScan t n s filt'))"
| "resolve_plan run (IndexScan t n s i c k residual) =
     bind_op (opt_op (resolve_expr run) residual) (\<lambda>residual'. ret_op (IndexScan t n s i c k residual'))"
| "resolve_plan run (PFilter p e) =
     bind_op (resolve_expr run e) (\<lambda>e'. bind_op (resolve_plan run p) (\<lambda>p'. ret_op (PFilter p' e')))"
| "resolve_plan run (PProjection p es out) =
     bind_op (map_op (resolve_expr run) es) (\<lambda>es'. bind_op (resolve_plan run p) (\<lambda>p'. ret_op (PProjection p' es' out)))"
| "resolve_plan run (PSort p keys) =
     bind_op (map_op (\<lambda>k. bind_op (resolve_expr run (sk_expr k))
         (\<lambda>e. ret_op (SortKey e (sk_asc k) (sk_nulls_first k)))) keys) (\<lambda>keys'.
       bind_op (resolve_plan run p) (\<lambda>p'. ret_op (PSort p' keys')))"
| "resolve_plan run (NestedLoopJoin l r j predicate out) =
     bind_op (opt_op (resolve_expr run) predicate) (\<lambda>predicate'.
       bind_op (resolve_plan run l) (\<lambda>l'. bind_op (resolve_plan run r) (\<lambda>r'.
         ret_op (NestedLoopJoin l' r' j predicate' out))))"
| "resolve_plan run (PAggregate p group_by aggregates out) =
     bind_op (map_op (resolve_expr run) group_by) (\<lambda>group_by'.
       bind_op (map_op (\<lambda>c. bind_op (opt_op (resolve_expr run) (ac_arg c))
           (\<lambda>a. ret_op (AggregateCall (ac_func c) a (ac_distinct c)))) aggregates) (\<lambda>aggregates'.
         bind_op (resolve_plan run p) (\<lambda>p'. ret_op (PAggregate p' group_by' aggregates' out))))"
| "resolve_plan run (PInsert t n s rows oc u) =
     bind_op (map_op (map_op (resolve_expr run)) rows) (\<lambda>rows'. ret_op (PInsert t n s rows' oc u))"
| "resolve_plan run (PUpdate t n s source assignments u) =
     bind_op (map_op (\<lambda>a. bind_op (resolve_expr run (snd a)) (\<lambda>e. ret_op (fst a, e))) assignments) (\<lambda>assignments'.
       bind_op (resolve_plan run source) (\<lambda>source'. ret_op (PUpdate t n s source' assignments' u)))"
| "resolve_plan run (CallProcedure n args) =
     bind_op (map_op (resolve_expr run) args) (\<lambda>args'. ret_op (CallProcedure n args'))"
| "resolve_plan run (PLimit p c off) = bind_op (resolve_plan run p) (\<lambda>p'. ret_op (PLimit p' c off))"
| "resolve_plan run (PDistinct p) = bind_op (resolve_plan run p) (\<lambda>p'. ret_op (PDistinct p'))"
| "resolve_plan run (PDelete t n s source) = bind_op (resolve_plan run source) (\<lambda>source'. ret_op (PDelete t n s source'))"
| "resolve_expr run (PInSubquery tested subquery negated) =
     bind_op (resolve_plan run subquery) (\<lambda>subquery'. bind_op (resolve_expr run tested) (\<lambda>tested'.
       bind_op (run subquery') (\<lambda>vs. lift_op (value_test tested' vs negated))))"
| "resolve_expr run (PColumn i) = ret_op (PColumn i)"
| "resolve_expr run (PLiteral v) = ret_op (PLiteral v)"
| "resolve_expr run (PNot e) = bind_op (resolve_expr run e) (\<lambda>e'. ret_op (PNot e'))"
| "resolve_expr run (PIsNull e) = bind_op (resolve_expr run e) (\<lambda>e'. ret_op (PIsNull e'))"
| "resolve_expr run (PCast e t) = bind_op (resolve_expr run e) (\<lambda>e'. ret_op (PCast e' t))"
| "resolve_expr run (PBinary l op r) =
     bind_op (resolve_expr run l) (\<lambda>l'. bind_op (resolve_expr run r) (\<lambda>r'. ret_op (PBinary l' op r')))"
| "resolve_expr run (PLike e p negated ci) =
     bind_op (resolve_expr run e) (\<lambda>e'. bind_op (resolve_expr run p) (\<lambda>p'. ret_op (PLike e' p' negated ci)))"
| "resolve_expr run (PFunction f args) =
     bind_op (map_op (resolve_expr run) args) (\<lambda>args'. ret_op (PFunction f args'))"
| "resolve_expr run (PCase operand branches else_result) =
     bind_op (opt_op (resolve_expr run) operand) (\<lambda>operand'.
       bind_op (map_op (\<lambda>b. bind_op (resolve_expr run (fst b)) (\<lambda>w. bind_op (resolve_expr run (snd b))
           (\<lambda>t. ret_op (w, t)))) branches) (\<lambda>branches'.
         bind_op (opt_op (resolve_expr run) else_result) (\<lambda>else'. ret_op (PCase operand' branches' else'))))"
  by pat_completeness auto

lemma size_list_mem: "x \<in> set xs \<Longrightarrow> f x \<le> size_list f xs"
  by (induction xs) auto

lemma sort_key_size: "k \<in> set keys \<Longrightarrow> size (sk_expr k) \<le> size_list (size_sort_key size) keys"
  using size_list_mem [of k keys "size_sort_key size"] by (cases k) auto

lemma call_arg_size:
  "c \<in> set calls \<Longrightarrow> e \<in> set_option (ac_arg c) \<Longrightarrow> size e \<le> size_list (size_aggregate_call size) calls"
  using size_list_mem [of c calls "size_aggregate_call size"] by (cases c) auto

lemma rows_size: "es \<in> set rows \<Longrightarrow> e \<in> set es \<Longrightarrow> size e \<le> size_list (size_list size) rows"
  using size_list_mem [of es rows "size_list size"] size_list_mem [of e es size] by linarith

lemma pair_size:
  "b \<in> set bs \<Longrightarrow> size (fst b) + size (snd b) \<le> size_list (size_prod size size) bs"
  using size_list_mem [of b bs "size_prod size size"] by (cases b) auto

lemma assignment_size: "a \<in> set as \<Longrightarrow> size (snd a) \<le> size_list (size_prod (\<lambda>_. 0) size) as"
  using size_list_mem [of a as "size_prod (\<lambda>_. 0) size"] by (cases a) auto

termination resolve_plan
  by (relation "measure (\<lambda>x. case x of Inl (run, p) \<Rightarrow> size p | Inr (run, e) \<Rightarrow> size e)")
    (auto dest: sort_key_size call_arg_size rows_size pair_size assignment_size size_list_mem [of _ _ size])

end
