(* ===== verification/In_Test.thy ===== *)
theory In_Test
  imports Subquery
begin

text \<open>
  The test that a subquery becomes, against SQL's definition of \<open>IN\<close> and \<open>NOT IN\<close> with three truth values.
\<close>

text \<open>The SQL truth values as values: \<open>None\<close> is unknown.\<close>

definition truth :: "bool option \<Rightarrow> val" where
  "truth b = (case b of None \<Rightarrow> VNull | Some b \<Rightarrow> VBoolean b)"

definition any3 :: "bool option list \<Rightarrow> bool option" where
  "any3 bs = (if Some True \<in> set bs then Some True else if None \<in> set bs then None else Some False)"

definition not3 :: "bool option \<Rightarrow> bool option" where
  "not3 = map_option Not"

text \<open>What \<open>x IN (vs)\<close> means: equal to one of them, unknown if a comparison is unknown, false otherwise.\<close>

definition sql_in :: "val \<Rightarrow> val list \<Rightarrow> bool option" where
  "sql_in x vs = any3 (map (\<lambda>v. case compare x v of Inr (Some ord) \<Rightarrow> Some (ord = Equal) | _ \<Rightarrow> None) vs)"

text \<open>An expression that has a value on a row without reading the clock or the counter.\<close>

definition steady :: "text_ops \<Rightarrow> row \<Rightarrow> phys_expr \<Rightarrow> val \<Rightarrow> bool" where
  "steady ops r e v \<longleftrightarrow> (\<forall>w. eval ops e r w = (Inr v, w))"

lemma steady_or:
  assumes "steady ops r l (truth a)" and "steady ops r e (truth b)"
  shows "steady ops r (PBinary l OpOr e) (truth (any3 [a, b]))"
  using assms
  by (auto simp: steady_def truth_def any3_def bind_op_def or_values_def is_arithmetic_def split: option.splits)

lemma steady_pairs:
  assumes "list_all2 (\<lambda>e b. steady ops r e (truth b)) es bs"
  shows "\<exists>cs. list_all2 (\<lambda>e b. steady ops r e (truth b)) (or_pairs es) cs \<and> any3 cs = any3 bs"
  using assms
proof (induction es arbitrary: bs rule: or_pairs.induct)
  case (1 l e es)
  then obtain a b bs' where bs: "bs = a # b # bs'" "steady ops r l (truth a)" "steady ops r e (truth b)"
    "list_all2 (\<lambda>e b. steady ops r e (truth b)) es bs'"
    by (auto simp: list_all2_Cons1)
  obtain cs where cs: "list_all2 (\<lambda>e b. steady ops r e (truth b)) (or_pairs es) cs" "any3 cs = any3 bs'"
    using "1.IH" [OF bs(4)] by blast
  have "any3 (any3 [a, b] # cs) = any3 bs"
    using cs(2) by (auto simp: bs(1) any3_def split: if_splits)
  then show ?case
    using steady_or [OF bs(2,3)] cs(1)
    by (intro exI [of _ "any3 [a, b] # cs"]) simp
qed auto

lemma steady_tree:
  assumes "list_all2 (\<lambda>e b. steady ops r e (truth b)) es bs" and "es \<noteq> []"
  shows "\<exists>e. or_tree es = [e] \<and> steady ops r e (truth (any3 bs))"
  using assms
proof (induction es arbitrary: bs rule: or_tree.induct)
  case (1 es)
  show ?case
  proof (cases "1 < length es")
    case True
    obtain cs where cs: "list_all2 (\<lambda>e b. steady ops r e (truth b)) (or_pairs es) cs" "any3 cs = any3 bs"
      using steady_pairs [OF "1.prems"(1)] by blast
    moreover have "or_pairs es \<noteq> []"
      using True or_pairs_length [of es] by auto
    ultimately show ?thesis
      using "1.IH" [OF True cs(1)] True by (simp add: or_tree.simps [of es])
  next
    case False
    then obtain e b where "es = [e]" "bs = [b]"
      using "1.prems" by (cases es; cases bs) auto
    then show ?thesis
      using "1.prems" by (cases b) (auto simp: or_tree.simps [of "[e]"] any3_def)
  qed
qed

lemma steady_equal:
  assumes "steady ops r e x" and "compare x v = Inr c"
  shows "steady ops r (PBinary e OpEq (PLiteral v)) (truth (case c of Some ord \<Rightarrow> Some (ord = Equal) | None \<Rightarrow> None))"
  using assms
  by (auto simp: steady_def truth_def bind_op_def is_arithmetic_def comparison_value_def op_matches_def split: option.splits)

lemma steady_not: "steady ops r e (truth b) \<Longrightarrow> steady ops r (PNot e) (truth (not3 b))"
  by (auto simp: steady_def truth_def not3_def bind_op_def split: option.splits)

text \<open>
  C19: the expression that replaces \<open>x IN (SELECT ..)\<close> or \<open>x NOT IN (SELECT ..)\<close> has, on a row where \<open>x\<close> can be
  compared with every value the subquery returned, exactly the SQL truth value: true when some value is
  equal, unknown when none is and a comparison involves NULL, false otherwise; negated for \<open>NOT IN\<close>. For an
  empty result that is false and true, even when \<open>x\<close> is NULL.
\<close>

theorem value_test_is_sql_in:
  assumes "steady ops r tested x" and "\<forall>v\<in>set vs. \<exists>c. compare x v = Inr c"
  shows "\<exists>e. value_test tested vs negated = Inr e \<and>
    steady ops r e (truth ((if negated then not3 else id) (sql_in x vs)))"
proof (cases "vs = []")
  case True
  then show ?thesis
    by (auto simp: value_test_def steady_def truth_def sql_in_def any3_def not3_def)
next
  case False
  let ?b = "\<lambda>v. case compare x v of Inr (Some ord) \<Rightarrow> Some (ord = Equal) | _ \<Rightarrow> None"
  have "list_all2 (\<lambda>e b. steady ops r e (truth b)) (map (\<lambda>v. PBinary tested OpEq (PLiteral v)) vs) (map ?b vs)"
    using assms(2) steady_equal [OF assms(1)] by (induction vs) (fastforce split: option.splits)+
  then obtain e where "or_tree (map (\<lambda>v. PBinary tested OpEq (PLiteral v)) vs) = [e]" "steady ops r e (truth (sql_in x vs))"
    using steady_tree [of ops r "map (\<lambda>v. PBinary tested OpEq (PLiteral v)) vs"] False by (auto simp: sql_in_def)
  then show ?thesis
    using False steady_not by (auto simp: value_test_def)
qed

theorem value_test_is_sql_in_witness:
  "\<exists>e. value_test (PColumn 0) [VInt8 1, VNull, VInt8 3] True = Inr e \<and>
     steady \<lparr>to_lowercase = id, to_uppercase = id, print_f64 = \<lambda>_. [], parse_f64 = \<lambda>_. None\<rparr>
       (row_new [VInt8 2]) e VNull"
proof -
  let ?ops = "\<lparr>to_lowercase = id, to_uppercase = id, print_f64 = \<lambda>_. [], parse_f64 = \<lambda>_. None\<rparr>"
  have "steady ?ops (row_new [VInt8 2]) (PColumn 0) (VInt8 2)"
    by (simp add: steady_def row_new_def)
  moreover have "\<forall>v\<in>set [VInt8 1, VNull, VInt8 3]. \<exists>c. compare (VInt8 2) v = Inr c"
    by (simp add: compare_def is_null_def)
  ultimately show ?thesis
    using value_test_is_sql_in [of ?ops "row_new [VInt8 2]" "PColumn 0" "VInt8 2" "[VInt8 1, VNull, VInt8 3]" True]
    by (simp add: sql_in_def any3_def not3_def truth_def compare_def is_null_def cmp_def)
qed

end
