(* ===== verification/Procs.thy ===== *)
theory Procs
  imports Eval "HOL-Library.AList"
begin

text \<open>
  Roles, triggers and procedures (ferrite-proc). The bodies of triggers and procedures are closures that the
  program embedding the server registers; they are functions of the context and the row.
\<close>

section \<open>Contexts (context.rs)\<close>

datatype trigger_event = TInsert | TUpdate | TDelete

record proc_context =
  ctx_identity :: identity
  ctx_roles :: "role list"
  ctx_txn :: u64
  ctx_table :: "u32 option"
  ctx_table_name :: "string option"
  ctx_event :: "trigger_event option"
  ctx_old_row :: "row option"

definition context_new :: "identity \<Rightarrow> role list \<Rightarrow> u64 \<Rightarrow> proc_context" where
  "context_new who roles txn =
     \<lparr>ctx_identity = who, ctx_roles = roles, ctx_txn = txn, ctx_table = None, ctx_table_name = None,
      ctx_event = None, ctx_old_row = None\<rparr>"

definition with_table :: "u32 \<Rightarrow> string \<Rightarrow> proc_context \<Rightarrow> proc_context" where
  "with_table table name ctx = ctx\<lparr>ctx_table := Some table, ctx_table_name := Some name\<rparr>"

definition with_event :: "trigger_event \<Rightarrow> proc_context \<Rightarrow> proc_context" where
  "with_event event ctx = ctx\<lparr>ctx_event := Some event\<rparr>"

definition with_old_row :: "row \<Rightarrow> proc_context \<Rightarrow> proc_context" where
  "with_old_row r ctx = ctx\<lparr>ctx_old_row := Some r\<rparr>"

definition has_permission :: "proc_context \<Rightarrow> permission \<Rightarrow> bool" where
  "has_permission ctx p \<longleftrightarrow>
     list_ex (\<lambda>r. list_ex (\<lambda>held. held = p \<or> held = Admin) (role_permissions r)) (ctx_roles ctx)"

definition identity_hex :: "identity \<Rightarrow> string" where
  "identity_hex who = string_of_bytes (concat (map (\<lambda>b. lower_hex 2 (unat b)) who))"

fun permission_debug :: "permission \<Rightarrow> string" where
  "permission_debug Connect = ''Connect''"
| "permission_debug CreateTable = ''CreateTable''"
| "permission_debug Select = ''Select''"
| "permission_debug Insert = ''Insert''"
| "permission_debug Update = ''Update''"
| "permission_debug Delete = ''Delete''"
| "permission_debug Execute = ''Execute''"
| "permission_debug Admin = ''Admin''"

definition denied :: "identity \<Rightarrow> permission \<Rightarrow> failure" where
  "denied who p = Err (PermissionDenied (''identity '' @ identity_hex who @ '' lacks '' @ permission_debug p))"

definition require :: "proc_context \<Rightarrow> permission \<Rightarrow> unit res" where
  "require ctx p = (if has_permission ctx p then Inr () else Inl (denied (ctx_identity ctx) p))"

section \<open>Triggers and procedures (trigger.rs, procedure.rs)\<close>

datatype proc_decision = Allow | Replace row | Skip

record trigger =
  tg_name :: string
  tg_table :: u32
  tg_event :: trigger_event
  tg_body :: "proc_context \<Rightarrow> row \<Rightarrow> proc_decision res"

record procedure =
  pr_name :: string
  pr_required_permission :: permission
  pr_body :: "proc_context \<Rightarrow> val list \<Rightarrow> val res"

section \<open>The registry (registry.rs)\<close>

record proc_registry =
  reg_grants :: "(identity \<times> role list) list"
  reg_triggers :: "((u32 \<times> trigger_event) \<times> trigger list) list"
  reg_procedures :: "(string \<times> procedure) list"

definition registry_new :: proc_registry where
  "registry_new = \<lparr>reg_grants = [], reg_triggers = [], reg_procedures = []\<rparr>"

text \<open>\<open>HashMap::get\<close> and \<open>entry(k).or_default()\<close>, for the maps whose values are lists.\<close>

definition slice_at :: "'k \<Rightarrow> ('k \<times> 'v list) list \<Rightarrow> 'v list" where
  "slice_at k m = (case map_of m k of Some vs \<Rightarrow> vs | None \<Rightarrow> [])"

definition push_at :: "'k \<Rightarrow> 'v \<Rightarrow> ('k \<times> 'v list) list \<Rightarrow> ('k \<times> 'v list) list" where
  "push_at k v m = AList.update k (slice_at k m @ [v]) m"

definition grant_role :: "identity \<Rightarrow> role \<Rightarrow> proc_registry \<Rightarrow> proc_registry" where
  "grant_role who r reg = reg\<lparr>reg_grants := push_at who r (reg_grants reg)\<rparr>"

definition roles_for :: "proc_registry \<Rightarrow> identity \<Rightarrow> role list" where
  "roles_for reg who = slice_at who (reg_grants reg)"

definition proc_context_for :: "proc_registry \<Rightarrow> identity \<Rightarrow> u64 \<Rightarrow> proc_context" where
  "proc_context_for reg who txn = context_new who (roles_for reg who) txn"

definition authorize :: "proc_registry \<Rightarrow> identity \<Rightarrow> u64 \<Rightarrow> permission \<Rightarrow> unit res" where
  "authorize reg who txn p = require (proc_context_for reg who txn) p"

definition register_trigger :: "trigger \<Rightarrow> proc_registry \<Rightarrow> proc_registry" where
  "register_trigger t reg = reg\<lparr>reg_triggers := push_at (tg_table t, tg_event t) t (reg_triggers reg)\<rparr>"

definition triggers_for :: "proc_registry \<Rightarrow> u32 \<Rightarrow> trigger_event \<Rightarrow> trigger list" where
  "triggers_for reg table event = slice_at (table, event) (reg_triggers reg)"

fun fire_from :: "proc_context \<Rightarrow> row \<Rightarrow> row option \<Rightarrow> trigger list \<Rightarrow> proc_decision res" where
  "fire_from ctx r replaced [] = Inr (case replaced of Some r' \<Rightarrow> Replace r' | None \<Rightarrow> Allow)"
| "fire_from ctx r replaced (t # ts) =
     bind_res (tg_body t ctx (case replaced of Some r' \<Rightarrow> r' | None \<Rightarrow> r)) (\<lambda>decision.
       case decision of
         Allow \<Rightarrow> fire_from ctx r replaced ts
       | Skip \<Rightarrow> Inr Skip
       | Replace new \<Rightarrow> fire_from ctx r (Some new) ts)"

definition fire_before :: "proc_registry \<Rightarrow> proc_context \<Rightarrow> trigger_event \<Rightarrow> row \<Rightarrow> proc_decision res" where
  "fire_before reg ctx event r =
     (case ctx_table ctx of
        None \<Rightarrow> Inr Allow
      | Some table \<Rightarrow> fire_from ctx r None (triggers_for reg table event))"

definition register_procedure :: "procedure \<Rightarrow> proc_registry \<Rightarrow> proc_registry" where
  "register_procedure p reg = reg\<lparr>reg_procedures := AList.update (pr_name p) p (reg_procedures reg)\<rparr>"

definition call_procedure :: "proc_registry \<Rightarrow> proc_context \<Rightarrow> string \<Rightarrow> val list \<Rightarrow> val res" where
  "call_procedure reg ctx name args =
     (case map_of (reg_procedures reg) name of
        None \<Rightarrow> Inl (Err (Exec (''no such procedure: '' @ name)))
      | Some p \<Rightarrow> bind_res (require ctx (pr_required_permission p)) (\<lambda>_. pr_body p ctx args))"

section \<open>Deny by default\<close>

lemma slice_push: "slice_at k (push_at k' v m) = (if k = k' then slice_at k m @ [v] else slice_at k m)"
  by (simp add: push_at_def slice_at_def update_conv')

lemma permission_grant:
  "has_permission (proc_context_for (grant_role who r reg) who' txn) p \<longleftrightarrow>
   has_permission (proc_context_for reg who' txn) p \<or>
   who' = who \<and> (p \<in> set (role_permissions r) \<or> Admin \<in> set (role_permissions r))"
  by (auto simp: has_permission_def proc_context_for_def context_new_def roles_for_def grant_role_def slice_push
      list_ex_iff)

lemma authorize_cases:
  "authorize reg who txn p =
     (if has_permission (proc_context_for reg who txn) p then Inr () else Inl (denied who p))"
  by (simp add: authorize_def require_def proc_context_for_def context_new_def)

end
