(* ===== verification/Aggregate.thy ===== *)
theory Aggregate
  imports Eval
begin

text \<open>
  Grouping and aggregate functions (ferrite-exec/src/aggregate.rs), and the keys that grouping and
  de-duplication compare (\<open>row_key\<close> and \<open>value_key\<close> of executor.rs).
\<close>

section \<open>Keys\<close>

text \<open>
  The code compares the \<open>Debug\<close> renderings of values. The rendering tells apart any two values except two
  NaNs, which all print as \<open>NaN\<close>; the model compares the values with every NaN made the same.
\<close>

fun key_of :: "val \<Rightarrow> val" where
  "key_of (VFloat8 f) = (if f64_is_nan f then VFloat8 f64_nan else VFloat8 f)"
| "key_of v = v"

definition value_key :: "val list \<Rightarrow> val list" where
  "value_key vs = map key_of vs"

definition row_key :: "row \<Rightarrow> val list" where
  "row_key r = value_key (row_values r)"

section \<open>Accumulators\<close>

record accumulator =
  acc_func :: aggregate_func
  acc_seen :: "val list option"
  acc_count :: u64
  acc_integral :: u64
  acc_fractional :: u64
  acc_is_float :: bool
  acc_any :: bool
  acc_extreme :: "val option"

definition accumulator_new :: "phys_aggregate \<Rightarrow> accumulator" where
  "accumulator_new call =
     \<lparr>acc_func = ac_func call, acc_seen = (if ac_distinct call then Some [] else None), acc_count = 0,
      acc_integral = 0, acc_fractional = 0, acc_is_float = False, acc_any = False, acc_extreme = None\<rparr>"

definition acc_add :: "int \<Rightarrow> accumulator \<Rightarrow> accumulator res" where
  "acc_add v a =
     (let total = sint (acc_integral a) + v
      in if in_i64 total then Inr (a\<lparr>acc_integral := word_of_int total\<rparr>)
         else Inl (Err (Exec ''sum() overflowed a BIGINT'')))"

definition acc_take :: "val \<Rightarrow> accumulator \<Rightarrow> accumulator res" where
  "acc_take v a =
     (case acc_func a of
        AggCount \<Rightarrow> Inr a
      | AggMin \<Rightarrow>
          (case acc_extreme a of
             None \<Rightarrow> Inr (a\<lparr>acc_extreme := Some v\<rparr>)
           | Some current \<Rightarrow> bind_res (compare v current) (\<lambda>o'. case o' of
               None \<Rightarrow> Inl Panic
             | Some ord \<Rightarrow> Inr (if ord = Less then a\<lparr>acc_extreme := Some v\<rparr> else a)))
      | AggMax \<Rightarrow>
          (case acc_extreme a of
             None \<Rightarrow> Inr (a\<lparr>acc_extreme := Some v\<rparr>)
           | Some current \<Rightarrow> bind_res (compare v current) (\<lambda>o'. case o' of
               None \<Rightarrow> Inl Panic
             | Some ord \<Rightarrow> Inr (if ord = Greater then a\<lparr>acc_extreme := Some v\<rparr> else a)))
      | _ \<Rightarrow>
          (case v of
             VInt4 i \<Rightarrow> acc_add (sint i) a
           | VInt8 i \<Rightarrow> acc_add (sint i) a
           | VFloat8 f \<Rightarrow> Inr (a\<lparr>acc_is_float := True, acc_fractional := f64_add (acc_fractional a) f\<rparr>)
           | other \<Rightarrow>
               (case data_type_of other of
                  None \<Rightarrow> Inl Panic
                | Some t \<Rightarrow> Inl (Err (TypeMismatch DT_Float8 t)))))"

definition acc_push :: "val option \<Rightarrow> accumulator \<Rightarrow> accumulator res" where
  "acc_push v a =
     (case v of
        None \<Rightarrow> Inr (a\<lparr>acc_count := acc_count a + 1\<rparr>)
      | Some v \<Rightarrow>
          if is_null v then Inr a
          else (case acc_seen a of
                  Some seen \<Rightarrow>
                    if key_of v \<in> set seen then Inr a
                    else acc_take v (a\<lparr>acc_seen := Some (key_of v # seen), acc_count := acc_count a + 1, acc_any := True\<rparr>)
                | None \<Rightarrow> acc_take v (a\<lparr>acc_count := acc_count a + 1, acc_any := True\<rparr>)))"

definition acc_total :: "accumulator \<Rightarrow> u64" where
  "acc_total a = f64_add (f64_of_int (sint (acc_integral a))) (acc_fractional a)"

definition acc_finish :: "accumulator \<Rightarrow> val" where
  "acc_finish a =
     (if acc_func a = AggCount then VInt8 (acc_count a)
      else if \<not> acc_any a then VNull
      else case acc_func a of
             AggSum \<Rightarrow> if acc_is_float a then VFloat8 (acc_total a) else VInt8 (acc_integral a)
           | AggAvg \<Rightarrow> VFloat8 (f64_div (acc_total a) (f64_of_int (sint (acc_count a))))
           | _ \<Rightarrow> (case acc_extreme a of Some v \<Rightarrow> v | None \<Rightarrow> VNull))"

section \<open>Groups\<close>

type_synonym group = "val list \<times> accumulator list"

text \<open>The position of the group with the key, a new one being added at the end.\<close>

definition group_position :: "phys_aggregate list \<Rightarrow> val list \<Rightarrow> group list \<Rightarrow> nat \<times> group list" where
  "group_position aggregates key groups =
     (case position (\<lambda>g. value_key (fst g) = value_key key) groups of
        Some i \<Rightarrow> (i, groups)
      | None \<Rightarrow> (length groups, groups @ [(key, map accumulator_new aggregates)]))"

fun push_all :: "text_ops \<Rightarrow> row \<Rightarrow> (accumulator \<times> phys_aggregate) list \<Rightarrow> accumulator list ev" where
  "push_all ops r [] = ret_op []"
| "push_all ops r ((a, call) # rest) =
     bind_op (case ac_arg call of
         None \<Rightarrow> ret_op None
       | Some e \<Rightarrow> bind_op (eval ops e r) (\<lambda>v. ret_op (Some v))) (\<lambda>v.
       bind_op (lift_op (acc_push v a)) (\<lambda>a'.
         bind_op (push_all ops r rest) (\<lambda>as. ret_op (a' # as))))"

fun group_rows ::
  "text_ops \<Rightarrow> phys_expr list \<Rightarrow> phys_aggregate list \<Rightarrow> row list \<Rightarrow> group list \<Rightarrow> group list ev" where
  "group_rows ops group_by aggregates [] groups = ret_op groups"
| "group_rows ops group_by aggregates (r # rs) groups =
     bind_op (eval_args ops group_by r) (\<lambda>key.
       let (i, groups') = group_position aggregates key groups
       in bind_op (push_all ops r (zip (snd (groups' ! i)) aggregates)) (\<lambda>as.
            group_rows ops group_by aggregates rs (groups'[i := (fst (groups' ! i), as)])))"

definition aggregate_run :: "text_ops \<Rightarrow> row list \<Rightarrow> phys_expr list \<Rightarrow> phys_aggregate list \<Rightarrow> row list ev" where
  "aggregate_run ops input group_by aggregates =
     bind_op (group_rows ops group_by aggregates input []) (\<lambda>groups.
       let groups' = (if groups = [] \<and> group_by = [] then [([], map accumulator_new aggregates)] else groups)
       in ret_op (map (\<lambda>(key, as). row_new (key @ map acc_finish as)) groups'))"

end
