(* ===== verification/Executor.thy ===== *)
theory Executor
  imports Procs Aggregate Subquery
begin

text \<open>
  The plan executor (ferrite-exec/src/executor.rs). The executor reaches storage, the catalog and the indexes
  through trait objects; here they are the fields of the record \<open>session\<close>, over a type \<open>'s\<close> of storage states
  and a type \<open>'it\<close> of scan iterators. Each node collects its input, as the code does.
\<close>

section \<open>Sessions\<close>

record tuple =
  rid :: "u64 option"
  tuple_row :: row

record limits =
  max_rows :: nat
  statement_timeout :: "nat option"

definition DEFAULT_MAX_ROWS :: nat where
  "DEFAULT_MAX_ROWS = 10000000"

text \<open>Times are in nanoseconds.\<close>

definition DEFAULT_STATEMENT_TIMEOUT :: nat where
  "DEFAULT_STATEMENT_TIMEOUT = 60 * 10 ^ 9"

definition CLOCK_INTERVAL :: nat where
  "CLOCK_INTERVAL = 512"

definition limits_default :: limits where
  "limits_default = \<lparr>max_rows = DEFAULT_MAX_ROWS, statement_timeout = Some DEFAULT_STATEMENT_TIMEOUT\<rparr>"

definition limits_unlimited :: limits where
  "limits_unlimited = \<lparr>max_rows = 0, statement_timeout = None\<rparr>"

record ('s, 'it) session =
  se_scan :: "u64 \<Rightarrow> u32 \<Rightarrow> ('s, failure, 'it) op"
  se_next :: "'it \<Rightarrow> 's \<Rightarrow> ((u64 \<times> row) res option \<times> 'it) \<times> 's"
  se_get :: "u64 \<Rightarrow> u32 \<Rightarrow> u64 \<Rightarrow> ('s, failure, row) op"
  se_insert_unique :: "u64 \<Rightarrow> u32 \<Rightarrow> row \<Rightarrow> unique_key list \<Rightarrow> ('s, failure, u64) op"
  se_update_unique :: "u64 \<Rightarrow> u32 \<Rightarrow> u64 \<Rightarrow> row \<Rightarrow> unique_key list \<Rightarrow> ('s, failure, unit) op"
  se_delete :: "u64 \<Rightarrow> u32 \<Rightarrow> u64 \<Rightarrow> ('s, failure, unit) op"
  se_table_schema :: "u32 \<Rightarrow> schema res"
  se_lookup :: "(u64 \<Rightarrow> u32 \<Rightarrow> string \<Rightarrow> val \<Rightarrow> ('s, failure, u64 list) op) option"
  se_procs :: proc_registry
  se_identity :: identity
  se_limits :: limits
  se_text :: text_ops

text \<open>
  The state a statement changes: storage, the clock and counter that expressions read, and the deadline with
  the rows seen since the clock was last read. \<open>xs_instants n\<close> is the \<open>n\<close>-th reading of \<open>Instant::now\<close>.
\<close>

record 's exec_state =
  xs_store :: 's
  xs_ambient :: ambient
  xs_instants :: "nat \<Rightarrow> nat"
  xs_readings :: nat
  xs_deadline :: "nat option"
  xs_since :: nat

type_synonym ('s, 'a) exec = "('s exec_state, failure, 'a) op"

definition on_store :: "('s, failure, 'a) op \<Rightarrow> ('s, 'a) exec" where
  "on_store m x = (case m (xs_store x) of (r, s) \<Rightarrow> (r, x\<lparr>xs_store := s\<rparr>))"

definition on_ambient :: "'a ev \<Rightarrow> ('s, 'a) exec" where
  "on_ambient m x = (case m (xs_ambient x) of (r, w) \<Rightarrow> (r, x\<lparr>xs_ambient := w\<rparr>))"

definition instant_now :: "('s, nat) exec" where
  "instant_now x = (Inr (xs_instants x (xs_readings x)), x\<lparr>xs_readings := Suc (xs_readings x)\<rparr>)"

section \<open>Budgets\<close>

definition timed_out :: failure where
  "timed_out = Err (Timeout ''the statement ran past its time budget'')"

definition tick :: "('s, unit) exec" where
  "tick =
     bind_op (get_op xs_deadline) (\<lambda>deadline.
       case deadline of
         None \<Rightarrow> ret_op ()
       | Some deadline \<Rightarrow>
           bind_op (get_op xs_since) (\<lambda>n.
             if n + 1 < CLOCK_INTERVAL then modify_op (\<lambda>x. x\<lparr>xs_since := n + 1\<rparr>)
             else bind_op (modify_op (\<lambda>x. x\<lparr>xs_since := 0\<rparr>)) (\<lambda>_.
                    bind_op instant_now (\<lambda>now. if deadline \<le> now then lift_op (Inl timed_out) else ret_op ()))))"

definition too_many :: "nat \<Rightarrow> failure" where
  "too_many limit = Err (ResourceLimit (''a query materialized more than '' @ dec_string limit @
     '' rows; narrow it with a WHERE clause, or raise              the executor row budget''))"

definition admit :: "limits \<Rightarrow> nat \<Rightarrow> ('s, unit) exec" where
  "admit lim rows =
     lift_op (if max_rows lim = 0 \<or> rows \<le> max_rows lim then Inr () else Inl (too_many (max_rows lim)))"

section \<open>Scans\<close>

definition check_schema :: "('s, 'it) session \<Rightarrow> u32 \<Rightarrow> string \<Rightarrow> schema \<Rightarrow> ('s, unit) exec" where
  "check_schema se table table_name planned =
     lift_op (bind_res (se_table_schema se table) (\<lambda>current.
       if current = planned then Inr ()
       else Inl (Err (Plan (''stale plan: the schema of '' @ table_name @ '' changed since planning'')))))"

definition fill_added_columns :: "schema \<Rightarrow> row \<Rightarrow> row" where
  "fill_added_columns s r =
     row_new (row_values r @ map (\<lambda>c. case Option.bind (col_default c) column_default_constant of
         Some v \<Rightarrow> v | None \<Rightarrow> VNull) (drop (length (row_values r)) (schema_columns s)))"

definition predicate_keeps :: "('s, 'it) session \<Rightarrow> phys_expr option \<Rightarrow> row \<Rightarrow> ('s, bool) exec" where
  "predicate_keeps se predicate r =
     (case predicate of None \<Rightarrow> ret_op True | Some e \<Rightarrow> on_ambient (eval_predicate (se_text se) e r))"

definition next_entry :: "('s, 'it) session \<Rightarrow> 'it \<Rightarrow> ('s, (u64 \<times> row) res option \<times> 'it) exec" where
  "next_entry se it x = (case se_next se it (xs_store x) of (n, s) \<Rightarrow> (Inr n, x\<lparr>xs_store := s\<rparr>))"

text \<open>
  The loop over a scan. An iterator yields at most one entry per row id, so \<open>SCAN_STEPS\<close> turns are enough.
\<close>

definition SCAN_STEPS :: nat where
  "SCAN_STEPS = 2 ^ 64 + 1"

primrec scan_loop ::
  "nat \<Rightarrow> ('s, 'it) session \<Rightarrow> schema \<Rightarrow> phys_expr option \<Rightarrow> 'it \<Rightarrow> tuple list \<Rightarrow> ('s, tuple list) exec" where
  "scan_loop 0 se sch filt it out = lift_op (Inl Diverge)"
| "scan_loop (Suc n) se sch filt it out =
     bind_op (next_entry se it) (\<lambda>(entry, it').
       case entry of
         None \<Rightarrow> ret_op out
       | Some entry \<Rightarrow>
           bind_op tick (\<lambda>_. bind_op (lift_op entry) (\<lambda>(i, r).
             let r' = fill_added_columns sch r
             in bind_op (predicate_keeps se filt r') (\<lambda>keep.
                  if keep then
                    let out' = out @ [\<lparr>rid = Some i, tuple_row = r'\<rparr>]
                    in bind_op (admit (se_limits se) (length out')) (\<lambda>_. scan_loop n se sch filt it' out')
                  else scan_loop n se sch filt it' out))))"

definition seq_scan :: "('s, 'it) session \<Rightarrow> u64 \<Rightarrow> u32 \<Rightarrow> schema \<Rightarrow> phys_expr option \<Rightarrow> ('s, tuple list) exec" where
  "seq_scan se txn table sch filt =
     bind_op (on_store (se_scan se txn table)) (\<lambda>it. scan_loop SCAN_STEPS se sch filt it [])"

primrec fetch_rows :: "('s, 'it) session \<Rightarrow> u64 \<Rightarrow> u32 \<Rightarrow> schema \<Rightarrow> u64 list \<Rightarrow> ('s, tuple list) exec" where
  "fetch_rows se txn table sch [] = ret_op []"
| "fetch_rows se txn table sch (i # is) =
     bind_op (on_store (se_get se txn table i)) (\<lambda>r.
       bind_op (fetch_rows se txn table sch is) (\<lambda>ts.
         ret_op (\<lparr>rid = Some i, tuple_row = fill_added_columns sch r\<rparr> # ts)))"

primrec keep_rows :: "('s, 'it) session \<Rightarrow> phys_expr \<Rightarrow> tuple list \<Rightarrow> ('s, tuple list) exec" where
  "keep_rows se e [] = ret_op []"
| "keep_rows se e (t # ts) =
     bind_op (on_ambient (eval_predicate (se_text se) e (tuple_row t))) (\<lambda>keep.
       bind_op (keep_rows se e ts) (\<lambda>ts'. ret_op (if keep then t # ts' else ts')))"

definition index_scan ::
  "('s, 'it) session \<Rightarrow> u64 \<Rightarrow> u32 \<Rightarrow> schema \<Rightarrow> string \<Rightarrow> nat \<Rightarrow> phys_expr \<Rightarrow> phys_expr option \<Rightarrow> ('s, tuple list) exec" where
  "index_scan se txn table sch index column key residual =
     bind_op (on_ambient (eval (se_text se) key (row_new []))) (\<lambda>key.
       bind_op (case se_lookup se of
           Some lookup \<Rightarrow> bind_op (on_store (lookup txn table index key)) (fetch_rows se txn table sch)
         | None \<Rightarrow> seq_scan se txn table sch (Some (PBinary (PColumn column) OpEq (PLiteral key)))) (\<lambda>candidates.
         case residual of None \<Rightarrow> ret_op candidates | Some e \<Rightarrow> keep_rows se e candidates))"

section \<open>Joins\<close>

definition concat_rows :: "val list \<Rightarrow> val list \<Rightarrow> row" where
  "concat_rows l r = row_new (l @ r)"

definition no_rid :: "row \<Rightarrow> tuple" where
  "no_rid r = \<lparr>rid = None, tuple_row = r\<rparr>"

definition push_tuple :: "('s, 'it) session \<Rightarrow> row \<Rightarrow> tuple list \<Rightarrow> ('s, tuple list) exec" where
  "push_tuple se r out =
     (let out' = out @ [no_rid r] in bind_op (admit (se_limits se) (length out')) (\<lambda>_. ret_op out'))"

text \<open>One outer row against the inner rows from position \<open>i\<close> on.\<close>

primrec join_row ::
  "('s, 'it) session \<Rightarrow> phys_expr option \<Rightarrow> val list \<Rightarrow> nat \<Rightarrow> tuple list \<Rightarrow> bool \<Rightarrow> bool list \<Rightarrow> tuple list
     \<Rightarrow> ('s, bool \<times> bool list \<times> tuple list) exec" where
  "join_row se predicate l i [] any matched out = ret_op (any, matched, out)"
| "join_row se predicate l i (r # rs) any matched out =
     bind_op tick (\<lambda>_.
       let joined = concat_rows l (row_values (tuple_row r))
       in bind_op (predicate_keeps se predicate joined) (\<lambda>keep.
            if keep then bind_op (push_tuple se joined out) (\<lambda>out'.
              join_row se predicate l (Suc i) rs True (matched[i := True]) out')
            else join_row se predicate l (Suc i) rs any matched out))"

primrec join_outer ::
  "('s, 'it) session \<Rightarrow> phys_expr option \<Rightarrow> join_type \<Rightarrow> nat \<Rightarrow> tuple list \<Rightarrow> tuple list \<Rightarrow> bool list \<Rightarrow> tuple list
     \<Rightarrow> ('s, bool list \<times> tuple list) exec" where
  "join_outer se predicate j inner_width inner [] matched out = ret_op (matched, out)"
| "join_outer se predicate j inner_width inner (l # ls) matched out =
     bind_op (join_row se predicate (row_values (tuple_row l)) 0 inner False matched out) (\<lambda>(any, matched', out').
       if \<not> any \<and> preserves_left j then
         bind_op (push_tuple se (concat_rows (row_values (tuple_row l)) (replicate inner_width VNull)) out') (\<lambda>out''.
           join_outer se predicate j inner_width inner ls matched' out'')
       else join_outer se predicate j inner_width inner ls matched' out')"

fun join_unmatched :: "('s, 'it) session \<Rightarrow> nat \<Rightarrow> (tuple \<times> bool) list \<Rightarrow> tuple list \<Rightarrow> ('s, tuple list) exec" where
  "join_unmatched se outer_width [] out = ret_op out"
| "join_unmatched se outer_width ((r, hit) # rs) out =
     (if hit then join_unmatched se outer_width rs out
      else bind_op (push_tuple se (concat_rows (replicate outer_width VNull) (row_values (tuple_row r))) out) (\<lambda>out'.
             join_unmatched se outer_width rs out'))"

definition first_width :: "tuple list \<Rightarrow> nat" where
  "first_width ts = (case ts of [] \<Rightarrow> 0 | t # _ \<Rightarrow> length (row_values (tuple_row t)))"

definition nested_loop_join ::
  "('s, 'it) session \<Rightarrow> tuple list \<Rightarrow> tuple list \<Rightarrow> join_type \<Rightarrow> phys_expr option \<Rightarrow> ('s, tuple list) exec" where
  "nested_loop_join se outer inner j predicate =
     bind_op (join_outer se predicate j (first_width inner) inner outer (replicate (length inner) False) [])
       (\<lambda>(matched, out).
         if preserves_right j then join_unmatched se (first_width outer) (zip inner matched) out else ret_op out)"

section \<open>Sorting\<close>

fun compare_keys :: "val list \<Rightarrow> val list \<Rightarrow> phys_sort_key list \<Rightarrow> ordering res" where
  "compare_keys (l # ls) (r # rs) (key # keys) =
     bind_res
       (if is_null l \<and> is_null r then Inr Equal
        else if is_null l then Inr (if sk_nulls_first key then Less else Greater)
        else if is_null r then Inr (if sk_nulls_first key then Greater else Less)
        else bind_res (compare l r) (\<lambda>o'. case o' of
               None \<Rightarrow> Inl Panic
             | Some ord \<Rightarrow> Inr (if sk_asc key then ord else reverse_ordering ord)))
       (\<lambda>ord. if ord = Equal then compare_keys ls rs keys else Inr ord)"
| "compare_keys _ _ _ = Inr Equal"

text \<open>
  \<open>sort_by\<close> with a comparison that remembers its first failure and then answers \<open>Equal\<close>. The standard
  library sorts stably; for a total order every stable sort gives the same result, so the model inserts each
  element from the right, which is what the library does on short slices. A failing comparison is not an
  order, and on such input the library may also panic.
\<close>

definition key_less ::
  "phys_sort_key list \<Rightarrow> val list \<Rightarrow> val list \<Rightarrow> failure option \<Rightarrow> bool \<times> failure option" where
  "key_less keys a b failed =
     (case compare_keys a b keys of
        Inr ord \<Rightarrow> (ord = Less, failed)
      | Inl e \<Rightarrow> (False, case failed of None \<Rightarrow> Some e | Some e' \<Rightarrow> Some e'))"

text \<open>The list is kept in reverse.\<close>

fun insert_key ::
  "phys_sort_key list \<Rightarrow> val list \<times> tuple \<Rightarrow> (val list \<times> tuple) list \<Rightarrow> failure option
     \<Rightarrow> (val list \<times> tuple) list \<times> failure option" where
  "insert_key keys x [] failed = ([x], failed)"
| "insert_key keys x (y # ys) failed =
     (let (less, failed') = key_less keys (fst x) (fst y) failed
      in if less then (case insert_key keys x ys failed' of (zs, failed'') \<Rightarrow> (y # zs, failed''))
         else (x # y # ys, failed'))"

primrec insertion_sort ::
  "phys_sort_key list \<Rightarrow> (val list \<times> tuple) list \<Rightarrow> (val list \<times> tuple) list \<Rightarrow> failure option
     \<Rightarrow> (val list \<times> tuple) list \<times> failure option" where
  "insertion_sort keys [] acc failed = (rev acc, failed)"
| "insertion_sort keys (x # xs) acc failed =
     (case insert_key keys x acc failed of (acc', failed') \<Rightarrow> insertion_sort keys xs acc' failed')"

definition sort_tuples :: "text_ops \<Rightarrow> phys_sort_key list \<Rightarrow> tuple list \<Rightarrow> tuple list ev" where
  "sort_tuples ops keys rows =
     bind_op (map_op (\<lambda>t. eval_args ops (map sk_expr keys) (tuple_row t)) rows) (\<lambda>evaluated.
       case insertion_sort keys (zip evaluated rows) [] None of
         (ordered, None) \<Rightarrow> ret_op (map snd ordered)
       | (_, Some e) \<Rightarrow> lift_op (Inl e))"

section \<open>Streaming a query\<close>

primrec filter_rows :: "('s, 'it) session \<Rightarrow> phys_expr \<Rightarrow> tuple list \<Rightarrow> ('s, tuple list) exec" where
  "filter_rows se e [] = ret_op []"
| "filter_rows se e (t # ts) =
     bind_op tick (\<lambda>_. bind_op (on_ambient (eval_predicate (se_text se) e (tuple_row t))) (\<lambda>keep.
       bind_op (filter_rows se e ts) (\<lambda>ts'. ret_op (if keep then t # ts' else ts'))))"

primrec distinct_rows :: "val list list \<Rightarrow> tuple list \<Rightarrow> tuple list" where
  "distinct_rows seen [] = []"
| "distinct_rows seen (t # ts) =
     (if row_key (tuple_row t) \<in> set seen then distinct_rows seen ts
      else t # distinct_rows (row_key (tuple_row t) # seen) ts)"

definition limit_rows :: "u64 option \<Rightarrow> u64 \<Rightarrow> tuple list \<Rightarrow> tuple list" where
  "limit_rows count offset rows =
     (let rows' = drop (min (unat offset) (length rows)) rows
      in case count of None \<Rightarrow> rows' | Some n \<Rightarrow> take (unat n) rows')"

fun node_name :: "physical_plan \<Rightarrow> string" where
  "node_name (SeqScan _ _ _ _) = ''SeqScan''"
| "node_name (IndexScan _ _ _ _ _ _ _) = ''IndexScan''"
| "node_name (NestedLoopJoin _ _ _ _ _) = ''NestedLoopJoin''"
| "node_name (PFilter _ _) = ''Filter''"
| "node_name (PAggregate _ _ _ _) = ''Aggregate''"
| "node_name (PProjection _ _ _) = ''Projection''"
| "node_name (PSort _ _) = ''Sort''"
| "node_name (PDistinct _) = ''Distinct''"
| "node_name (PLimit _ _ _) = ''Limit''"
| "node_name (PInsert _ _ _ _ _ _) = ''Insert''"
| "node_name (PUpdate _ _ _ _ _ _) = ''Update''"
| "node_name (PDelete _ _ _ _) = ''Delete''"
| "node_name (CallProcedure _ _) = ''CallProcedure''"

definition admitted :: "('s, 'it) session \<Rightarrow> ('s, tuple list) exec \<Rightarrow> ('s, tuple list) exec" where
  "admitted se m = bind_op m (\<lambda>rows. bind_op (admit (se_limits se) (length rows)) (\<lambda>_. ret_op rows))"

text \<open>\<open>stream_node\<close>; \<open>stream\<close> is this followed by the budget check.\<close>

fun stream_node :: "('s, 'it) session \<Rightarrow> u64 \<Rightarrow> physical_plan \<Rightarrow> ('s, tuple list) exec" where
  "stream_node se txn (SeqScan table table_name sch filt) =
     bind_op (check_schema se table table_name sch) (\<lambda>_. seq_scan se txn table sch filt)"
| "stream_node se txn (IndexScan table table_name sch index column key residual) =
     bind_op (check_schema se table table_name sch) (\<lambda>_. index_scan se txn table sch index column key residual)"
| "stream_node se txn (PFilter input predicate) =
     bind_op (admitted se (stream_node se txn input)) (filter_rows se predicate)"
| "stream_node se txn (PProjection input exprs out) =
     bind_op (admitted se (stream_node se txn input)) (map_op (\<lambda>t.
       bind_op (on_ambient (eval_args (se_text se) exprs (tuple_row t))) (\<lambda>vs. ret_op (no_rid (row_new vs)))))"
| "stream_node se txn (NestedLoopJoin left right j predicate out) =
     bind_op (admitted se (stream_node se txn left)) (\<lambda>outer.
       bind_op (admitted se (stream_node se txn right)) (\<lambda>inner. nested_loop_join se outer inner j predicate))"
| "stream_node se txn (PAggregate input group_by aggregates out) =
     bind_op (admitted se (stream_node se txn input)) (\<lambda>rows.
       bind_op (on_ambient (aggregate_run (se_text se) (map tuple_row rows) group_by aggregates)) (\<lambda>rs.
         ret_op (map no_rid rs)))"
| "stream_node se txn (PSort input keys) =
     bind_op (admitted se (stream_node se txn input)) (\<lambda>rows. on_ambient (sort_tuples (se_text se) keys rows))"
| "stream_node se txn (PDistinct input) =
     bind_op (admitted se (stream_node se txn input)) (\<lambda>rows. ret_op (distinct_rows [] rows))"
| "stream_node se txn (PLimit input count offset) =
     bind_op (admitted se (stream_node se txn input)) (\<lambda>rows. ret_op (limit_rows count offset rows))"
| "stream_node se txn other =
     lift_op (Inl (Err (Exec (node_name other @ '' is a statement root, not a row source''))))"

definition stream :: "('s, 'it) session \<Rightarrow> u64 \<Rightarrow> physical_plan \<Rightarrow> ('s, tuple list) exec" where
  "stream se txn plan = admitted se (stream_node se txn plan)"

section \<open>Rows on their way to storage\<close>

definition widen :: "val \<Rightarrow> data_type \<Rightarrow> val option" where
  "widen v to' =
     (case (v, to') of
        (VInt4 i, DT_Int8) \<Rightarrow> Some (VInt8 (scast i))
      | (VInt4 i, DT_Float8) \<Rightarrow> Some (VFloat8 (f64_of_int (sint i)))
      | (VInt8 i, DT_Float8) \<Rightarrow> Some (VFloat8 (f64_of_int (sint i)))
      | _ \<Rightarrow> None)"

definition conform_value :: "string \<Rightarrow> column_def \<Rightarrow> val \<Rightarrow> val res" where
  "conform_value table c v =
     (case data_type_of v of
        None \<Rightarrow>
          if col_nullable c then Inr v
          else Inl (Err (Exec (table @ ''.'' @ col_name c @ '' is not nullable'')))
      | Some actual \<Rightarrow>
          if actual = col_data_type c then Inr v
          else (case widen v (col_data_type c) of
                  Some w \<Rightarrow> Inr w
                | None \<Rightarrow> Inl (Err (TypeMismatch (col_data_type c) actual))))"

fun conform_values :: "string \<Rightarrow> column_def list \<Rightarrow> val list \<Rightarrow> val list res" where
  "conform_values table (c # cs) (v # vs) =
     bind_res (conform_value table c v) (\<lambda>v'. bind_res (conform_values table cs vs) (\<lambda>vs'. Inr (v' # vs')))"
| "conform_values table _ _ = Inr []"

definition conform_row :: "schema \<Rightarrow> row \<Rightarrow> string \<Rightarrow> row res" where
  "conform_row s r table =
     (if length (row_values r) \<noteq> length (schema_columns s)
      then Inl (Err (Exec (table @ '' has '' @ dec_string (length (schema_columns s)) @ '' columns, got a row of '' @
             dec_string (length (row_values r)))))
      else bind_res (conform_values table (schema_columns s) (row_values r)) (\<lambda>vs. Inr (row_new vs)))"

section \<open>Writes\<close>

fun assign_all :: "text_ops \<Rightarrow> row \<Rightarrow> (nat \<times> phys_expr) list \<Rightarrow> val list \<Rightarrow> val list ev" where
  "assign_all ops r [] vs = ret_op vs"
| "assign_all ops r ((i, e) # as) vs =
     bind_op (eval ops e r) (\<lambda>v.
       if i < length vs then assign_all ops r as (vs[i := v]) else lift_op (Inl (Err (Exec (out_of_range i)))))"

definition target_key :: "nat list \<Rightarrow> row \<Rightarrow> val list" where
  "target_key target r = map (\<lambda>p. if p < length (row_values r) then row_values r ! p else VNull) target"

primrec conflict_loop ::
  "nat \<Rightarrow> ('s, 'it) session \<Rightarrow> schema \<Rightarrow> nat list \<Rightarrow> val list \<Rightarrow> 'it \<Rightarrow> ('s, (u64 \<times> row) option) exec" where
  "conflict_loop 0 se sch target wanted it = lift_op (Inl Diverge)"
| "conflict_loop (Suc n) se sch target wanted it =
     bind_op (next_entry se it) (\<lambda>(entry, it').
       case entry of
         None \<Rightarrow> ret_op None
       | Some entry \<Rightarrow>
           bind_op tick (\<lambda>_. bind_op (lift_op entry) (\<lambda>(i, r).
             let r' = fill_added_columns sch r
             in if list_all2 val_eq (target_key target r') wanted then ret_op (Some (i, r'))
                else conflict_loop n se sch target wanted it')))"

definition conflicting_row ::
  "('s, 'it) session \<Rightarrow> u64 \<Rightarrow> u32 \<Rightarrow> schema \<Rightarrow> nat list \<Rightarrow> row \<Rightarrow> ('s, (u64 \<times> row) option) exec" where
  "conflicting_row se txn table sch target candidate =
     (let wanted = target_key target candidate
      in if list_ex is_null wanted then ret_op None
         else bind_op (on_store (se_scan se txn table)) (\<lambda>it. conflict_loop SCAN_STEPS se sch target wanted it))"

definition trigger_context ::
  "('s, 'it) session \<Rightarrow> u64 \<Rightarrow> u32 \<Rightarrow> string \<Rightarrow> trigger_event \<Rightarrow> row option \<Rightarrow> proc_context" where
  "trigger_context se txn table table_name event old =
     (let ctx = with_event event (with_table table table_name (proc_context_for (se_procs se) (se_identity se) txn))
      in case old of None \<Rightarrow> ctx | Some r \<Rightarrow> with_old_row r ctx)"

definition resolve_conflict ::
  "('s, 'it) session \<Rightarrow> u64 \<Rightarrow> u32 \<Rightarrow> string \<Rightarrow> schema \<Rightarrow> phys_on_conflict \<Rightarrow> u64 \<Rightarrow> row \<Rightarrow> row \<Rightarrow> unique_key list
     \<Rightarrow> ('s, nat) exec" where
  "resolve_conflict se txn table table_name sch clause i existing excluded unique =
     (case oc_action clause of
        ConflictNothing \<Rightarrow> ret_op 0
      | ConflictUpdate assignments selection \<Rightarrow>
          let combined = concat_rows (row_values existing) (row_values excluded)
          in bind_op (predicate_keeps se selection combined) (\<lambda>keep.
               if \<not> keep then ret_op 0
               else bind_op (on_ambient (assign_all (se_text se) combined assignments (row_values existing))) (\<lambda>vs.
                 bind_op (lift_op (fire_before (se_procs se)
                     (trigger_context se txn table table_name TUpdate (Some existing)) TUpdate (row_new vs))) (\<lambda>decision.
                   case decision of
                     Skip \<Rightarrow> ret_op 0
                   | _ \<Rightarrow>
                       bind_op (lift_op (conform_row sch (case decision of Replace r \<Rightarrow> r | _ \<Rightarrow> row_new vs) table_name))
                         (\<lambda>updated. bind_op (on_store (se_update_unique se txn table i updated unique)) (\<lambda>_.
                           ret_op 1))))))"

datatype query_result = Rows schema "row list" | Affected nat | Value val

primrec run_insert ::
  "('s, 'it) session \<Rightarrow> u64 \<Rightarrow> u32 \<Rightarrow> string \<Rightarrow> schema \<Rightarrow> phys_expr list list \<Rightarrow> phys_on_conflict option
     \<Rightarrow> unique_key list \<Rightarrow> nat \<Rightarrow> ('s, nat) exec" where
  "run_insert se txn table table_name sch [] on_conflict unique affected = ret_op affected"
| "run_insert se txn table table_name sch (exprs # rows) on_conflict unique affected =
     bind_op tick (\<lambda>_. bind_op (on_ambient (eval_args (se_text se) exprs (row_new []))) (\<lambda>vs.
       bind_op (lift_op (fire_before (se_procs se) (trigger_context se txn table table_name TInsert None) TInsert
           (row_new vs))) (\<lambda>decision.
         case decision of
           Skip \<Rightarrow> run_insert se txn table table_name sch rows on_conflict unique affected
         | _ \<Rightarrow>
             bind_op (lift_op (conform_row sch (case decision of Replace r \<Rightarrow> r | _ \<Rightarrow> row_new vs) table_name)) (\<lambda>r.
               bind_op (case on_conflict of
                   None \<Rightarrow> ret_op None
                 | Some clause \<Rightarrow> conflicting_row se txn table sch (oc_target clause) r) (\<lambda>conflict.
                 case (on_conflict, conflict) of
                   (Some clause, Some (i, existing)) \<Rightarrow>
                     bind_op (resolve_conflict se txn table table_name sch clause i existing r unique) (\<lambda>n.
                       run_insert se txn table table_name sch rows on_conflict unique (affected + n))
                 | _ \<Rightarrow>
                     bind_op (on_store (se_insert_unique se txn table r unique)) (\<lambda>_.
                       run_insert se txn table table_name sch rows on_conflict unique (affected + 1)))))))"

definition tuple_rid :: "string \<Rightarrow> tuple \<Rightarrow> u64 res" where
  "tuple_rid statement t =
     (case rid t of Some i \<Rightarrow> Inr i | None \<Rightarrow> Inl (Err (Exec (statement @ '' source lost row identity''))))"

primrec update_rows ::
  "('s, 'it) session \<Rightarrow> u64 \<Rightarrow> u32 \<Rightarrow> string \<Rightarrow> schema \<Rightarrow> (nat \<times> phys_expr) list \<Rightarrow> unique_key list \<Rightarrow> tuple list
     \<Rightarrow> nat \<Rightarrow> ('s, nat) exec" where
  "update_rows se txn table table_name sch assignments unique [] affected = ret_op affected"
| "update_rows se txn table table_name sch assignments unique (t # ts) affected =
     bind_op tick (\<lambda>_. bind_op (lift_op (tuple_rid ''UPDATE'' t)) (\<lambda>i.
       bind_op (on_ambient (assign_all (se_text se) (tuple_row t) assignments (row_values (tuple_row t)))) (\<lambda>vs.
         bind_op (lift_op (fire_before (se_procs se)
             (trigger_context se txn table table_name TUpdate (Some (tuple_row t))) TUpdate (row_new vs))) (\<lambda>decision.
           case decision of
             Skip \<Rightarrow> update_rows se txn table table_name sch assignments unique ts affected
           | _ \<Rightarrow>
               bind_op (lift_op (conform_row sch (case decision of Replace r \<Rightarrow> r | _ \<Rightarrow> row_new vs) table_name)) (\<lambda>r.
                 bind_op (on_store (se_update_unique se txn table i r unique)) (\<lambda>_.
                   update_rows se txn table table_name sch assignments unique ts (affected + 1)))))))"

definition run_update ::
  "('s, 'it) session \<Rightarrow> u64 \<Rightarrow> u32 \<Rightarrow> string \<Rightarrow> schema \<Rightarrow> physical_plan \<Rightarrow> (nat \<times> phys_expr) list \<Rightarrow> unique_key list
     \<Rightarrow> ('s, nat) exec" where
  "run_update se txn table table_name sch source assignments unique =
     bind_op (stream se txn source) (\<lambda>targets. update_rows se txn table table_name sch assignments unique targets 0)"

primrec delete_rows :: "('s, 'it) session \<Rightarrow> u64 \<Rightarrow> u32 \<Rightarrow> string \<Rightarrow> tuple list \<Rightarrow> nat \<Rightarrow> ('s, nat) exec" where
  "delete_rows se txn table table_name [] affected = ret_op affected"
| "delete_rows se txn table table_name (t # ts) affected =
     bind_op tick (\<lambda>_. bind_op (lift_op (tuple_rid ''DELETE'' t)) (\<lambda>i.
       bind_op (lift_op (fire_before (se_procs se)
           (trigger_context se txn table table_name TDelete (Some (tuple_row t))) TDelete (tuple_row t))) (\<lambda>decision.
         case decision of
           Skip \<Rightarrow> delete_rows se txn table table_name ts affected
         | Replace _ \<Rightarrow>
             lift_op (Inl (Err (Exec (''a BEFORE DELETE trigger on '' @ table_name @ '' returned Replace''))))
         | Allow \<Rightarrow>
             bind_op (on_store (se_delete se txn table i)) (\<lambda>_.
               delete_rows se txn table table_name ts (affected + 1)))))"

definition run_delete :: "('s, 'it) session \<Rightarrow> u64 \<Rightarrow> u32 \<Rightarrow> string \<Rightarrow> physical_plan \<Rightarrow> ('s, nat) exec" where
  "run_delete se txn table table_name source =
     bind_op (stream se txn source) (\<lambda>targets. delete_rows se txn table table_name targets 0)"

section \<open>Statements\<close>

definition permit :: "('s, 'it) session \<Rightarrow> u64 \<Rightarrow> permission \<Rightarrow> ('s, unit) exec" where
  "permit se txn p = lift_op (authorize (se_procs se) (se_identity se) txn p)"

definition is_upsert :: "phys_on_conflict option \<Rightarrow> bool" where
  "is_upsert on_conflict \<longleftrightarrow>
     (case on_conflict of Some (OnConflict _ (ConflictUpdate _ _)) \<Rightarrow> True | _ \<Rightarrow> False)"

definition run_query :: "('s, 'it) session \<Rightarrow> u64 \<Rightarrow> physical_plan \<Rightarrow> ('s, query_result) exec" where
  "run_query se txn query =
     bind_op (permit se txn Select) (\<lambda>_.
       bind_op (lift_op (ok_or (output_schema query) (Err (Exec ''plan produces no rows'')))) (\<lambda>sch.
         bind_op (stream se txn query) (\<lambda>ts. ret_op (Rows sch (map tuple_row ts)))))"

fun execute_resolved :: "('s, 'it) session \<Rightarrow> u64 \<Rightarrow> physical_plan \<Rightarrow> ('s, query_result) exec" where
  "execute_resolved se txn (PInsert table table_name sch rows on_conflict unique) =
     bind_op (permit se txn Insert) (\<lambda>_.
       bind_op (if is_upsert on_conflict then permit se txn Update else ret_op ()) (\<lambda>_.
         bind_op (check_schema se table table_name sch) (\<lambda>_.
           bind_op (run_insert se txn table table_name sch rows on_conflict unique 0) (\<lambda>n. ret_op (Affected n)))))"
| "execute_resolved se txn (PUpdate table table_name sch source assignments unique) =
     bind_op (permit se txn Update) (\<lambda>_. bind_op (check_schema se table table_name sch) (\<lambda>_.
       bind_op (run_update se txn table table_name sch source assignments unique) (\<lambda>n. ret_op (Affected n))))"
| "execute_resolved se txn (PDelete table table_name sch source) =
     bind_op (permit se txn Delete) (\<lambda>_. bind_op (check_schema se table table_name sch) (\<lambda>_.
       bind_op (run_delete se txn table table_name source) (\<lambda>n. ret_op (Affected n))))"
| "execute_resolved se txn (CallProcedure name args) =
     bind_op (on_ambient (eval_args (se_text se) args (row_new []))) (\<lambda>vs.
       bind_op (lift_op (call_procedure (se_procs se) (proc_context_for (se_procs se) (se_identity se) txn) name vs))
         (\<lambda>v. ret_op (Value v)))"
| "execute_resolved se txn query = run_query se txn query"

definition run_subquery :: "('s, 'it) session \<Rightarrow> u64 \<Rightarrow> physical_plan \<Rightarrow> ('s, val list) exec" where
  "run_subquery se txn subplan =
     bind_op (permit se txn Select) (\<lambda>_. bind_op (stream se txn subplan) (\<lambda>ts.
       ret_op (List.map_filter (\<lambda>t. case row_values (tuple_row t) of [] \<Rightarrow> None | v # _ \<Rightarrow> Some v) ts)))"

definition execute_within_budget :: "('s, 'it) session \<Rightarrow> u64 \<Rightarrow> physical_plan \<Rightarrow> ('s, query_result) exec" where
  "execute_within_budget se txn plan =
     (if present_in plan then bind_op (resolve_plan (run_subquery se txn) plan) (execute_resolved se txn)
      else execute_resolved se txn plan)"

definition set_deadline :: "('s, 'it) session \<Rightarrow> ('s, unit) exec" where
  "set_deadline se =
     (case statement_timeout (se_limits se) of
        None \<Rightarrow> modify_op (\<lambda>x. x\<lparr>xs_deadline := None, xs_since := 0\<rparr>)
      | Some d \<Rightarrow> bind_op instant_now (\<lambda>now. modify_op (\<lambda>x. x\<lparr>xs_deadline := Some (now + d), xs_since := 0\<rparr>)))"

definition execute :: "('s, 'it) session \<Rightarrow> u64 \<Rightarrow> physical_plan \<Rightarrow> ('s, query_result) exec" where
  "execute se txn plan =
     bind_op (set_deadline se) (\<lambda>_ x.
       case execute_within_budget se txn plan x of (outcome, x') \<Rightarrow> (outcome, x'\<lparr>xs_deadline := None\<rparr>))"

end
