(* ===== verification/Exec_Safety.thy ===== *)
theory Exec_Safety
  imports Executor
begin

text \<open>
  What the executor guarantees of every statement: a statement that the identity may not run does not reach
  storage, a result never holds more rows than the budget allows, and a row reaches storage only if it has
  the types of its table.
\<close>

section \<open>Permissions\<close>

fun required :: "physical_plan \<Rightarrow> permission list" where
  "required (PInsert _ _ _ _ on_conflict _) = Insert # (if is_upsert on_conflict then [Update] else [])"
| "required (PUpdate _ _ _ _ _ _) = [Update]"
| "required (PDelete _ _ _ _) = [Delete]"
| "required (CallProcedure _ _) = []"
| "required _ = [Select]"

definition permitted :: "('s, 'it) session \<Rightarrow> u64 \<Rightarrow> permission \<Rightarrow> bool" where
  "permitted se txn p \<longleftrightarrow> has_permission (proc_context_for (se_procs se) (se_identity se) txn) p"

lemma permit_cases:
  "permit se txn p = (if permitted se txn p then ret_op () else lift_op (Inl (denied (se_identity se) p)))"
  by (simp add: permit_def permitted_def authorize_cases ret_op_def lift_op_def)

lemma resolved_denied:
  assumes "\<exists>p\<in>set (required plan). \<not> permitted se txn p"
  shows "\<exists>p\<in>set (required plan). \<not> permitted se txn p \<and>
    execute_resolved se txn plan x = (Inl (denied (se_identity se) p), x)"
  using assms by (cases plan) (auto simp: permit_cases run_query_def)

lemma set_deadline_store: "set_deadline se x = (r, x') \<Longrightarrow> r = Inr () \<and> xs_store x' = xs_store x"
  by (auto simp: set_deadline_def instant_now_def bind_op_def split: option.splits)

text \<open>
  C16: a statement without subqueries that needs a permission its identity does not hold is refused with
  \<open>PermissionDenied\<close> for one of the missing permissions, and storage is exactly as it was.
\<close>

theorem denied_statement_harmless:
  assumes "\<not> present_in plan" and "p \<in> set (required plan)" and "\<not> permitted se txn p"
    and "execute se txn plan x = (r, x')"
  shows "xs_store x' = xs_store x \<and> (\<exists>q\<in>set (required plan). \<not> permitted se txn q \<and> r = Inl (denied (se_identity se) q))"
proof -
  obtain x1 where x1: "set_deadline se x = (Inr (), x1)" "xs_store x1 = xs_store x"
    using set_deadline_store [of se x] by (metis surj_pair)
  obtain q where "q \<in> set (required plan)" "\<not> permitted se txn q"
    "execute_resolved se txn plan x1 = (Inl (denied (se_identity se) q), x1)"
    using resolved_denied [of plan se txn x1] assms(2,3) by blast
  then show ?thesis
    using assms(1,4) x1 by (auto simp: execute_def execute_within_budget_def bind_op_def)
qed

text \<open>The session of a witness: storage is a list of rows with their ids, and nobody holds a role.\<close>

definition list_session :: "schema \<Rightarrow> proc_registry \<Rightarrow> limits \<Rightarrow> ((u64 \<times> row) list, (u64 \<times> row) list) session" where
  "list_session sch reg lim =
     \<lparr>se_scan = \<lambda>txn table s. (Inr s, s),
      se_next = \<lambda>it s. (case it of [] \<Rightarrow> (None, []) | e # it' \<Rightarrow> (Some (Inr e), it'), s),
      se_get = \<lambda>txn table i s. (case map_of s i of Some r \<Rightarrow> Inr r | None \<Rightarrow> Inl (Err RowNotFound), s),
      se_insert_unique = \<lambda>txn table r unique s. (Inr (of_nat (length s)), s @ [(of_nat (length s), r)]),
      se_update_unique = \<lambda>txn table i r unique s. (Inr (), map (\<lambda>e. if fst e = i then (i, r) else e) s),
      se_delete = \<lambda>txn table i s. (Inr (), filter (\<lambda>e. fst e \<noteq> i) s),
      se_table_schema = \<lambda>table. Inr sch,
      se_lookup = None, se_procs = reg, se_identity = ANONYMOUS, se_limits = lim,
      se_text = \<lparr>to_lowercase = id, to_uppercase = id, print_f64 = \<lambda>_. [], parse_f64 = \<lambda>_. None\<rparr>\<rparr>"

definition list_state :: "(u64 \<times> row) list \<Rightarrow> (u64 \<times> row) list exec_state" where
  "list_state rows =
     \<lparr>xs_store = rows, xs_ambient = \<lparr>amb_clock = \<lambda>_. 0, amb_reads = 0, amb_counter = 0\<rparr>, xs_instants = id,
      xs_readings = 0, xs_deadline = None, xs_since = 0\<rparr>"

definition int_schema :: schema where
  "int_schema = \<lparr>schema_columns = [column_def_new ''a'' DT_Int8 False]\<rparr>"

theorem denied_statement_harmless_witness:
  "let se = list_session int_schema registry_new limits_unlimited; plan = PDelete 1 ''t'' int_schema (SeqScan 1 ''t'' int_schema None)
   in xs_store (snd (execute se 1 plan (list_state [(0, row_new [VInt8 7])]))) = [(0, row_new [VInt8 7])]"
proof -
  define se where "se = list_session int_schema registry_new limits_unlimited"
  define plan where "plan = PDelete 1 ''t'' int_schema (SeqScan 1 ''t'' int_schema None)"
  have "\<not> present_in plan" "Delete \<in> set (required plan)" "\<not> permitted se 1 Delete"
    by (simp_all add: plan_def se_def present_in_def option_list_def permitted_def has_permission_def
        proc_context_for_def context_new_def roles_for_def slice_at_def registry_new_def list_session_def)
  from denied_statement_harmless [OF this prod.collapse [symmetric]] show ?thesis
    by (simp add: Let_def se_def plan_def list_state_def)
qed

section \<open>The row budget\<close>

lemma admitted_bound:
  assumes "admitted se m x = (Inr ts, x')" and "max_rows (se_limits se) \<noteq> 0"
  shows "length ts \<le> max_rows (se_limits se)"
  using assms by (auto simp: admitted_def admit_def bind_op_Inr_iff split: if_splits)

lemma run_query_bound:
  assumes "run_query se txn plan x = (Inr (Rows sch rows), x')" and "max_rows (se_limits se) \<noteq> 0"
  shows "length rows \<le> max_rows (se_limits se)"
  using assms by (auto simp: run_query_def stream_def bind_op_Inr_iff dest!: admitted_bound)

lemma resolved_rows:
  "execute_resolved se txn plan x = (Inr (Rows sch rows), x') \<Longrightarrow> run_query se txn plan x = (Inr (Rows sch rows), x')"
  by (cases plan) (auto simp: bind_op_Inr_iff)

text \<open>
  C17: the rows a query returns are never more than the row budget of the session, when it has one, whatever
  the plan, the storage and the expressions.
\<close>

theorem query_within_budget:
  assumes "execute se txn plan x = (Inr (Rows sch rows), x')" and "max_rows (se_limits se) \<noteq> 0"
  shows "length rows \<le> max_rows (se_limits se)"
proof -
  obtain x1 where "(case execute_within_budget se txn plan x1 of (outcome, x') \<Rightarrow> (outcome, x'\<lparr>xs_deadline := None\<rparr>))
      = (Inr (Rows sch rows), x')"
    using assms(1) by (auto simp: execute_def bind_op_Inr_iff)
  then obtain x2 where "execute_within_budget se txn plan x1 = (Inr (Rows sch rows), x2)"
    by (cases "execute_within_budget se txn plan x1") auto
  then obtain plan' x3 where "execute_resolved se txn plan' x3 = (Inr (Rows sch rows), x2)"
    by (auto simp: execute_within_budget_def bind_op_Inr_iff split: if_splits)
  then show ?thesis
    using run_query_bound [OF resolved_rows assms(2)] by blast
qed

lemma scan_steps_three: "\<exists>n. SCAN_STEPS = Suc (Suc (Suc n))"
  by (rule exI [of _ "2 ^ 64 - 2"]) (simp add: SCAN_STEPS_def)

definition admin_registry :: proc_registry where
  "admin_registry = grant_role ANONYMOUS \<lparr>role_name = ''root'', role_permissions = [Admin]\<rparr> registry_new"

lemma admin_permitted: "se_procs se = admin_registry \<Longrightarrow> se_identity se = ANONYMOUS \<Longrightarrow> permitted se txn p"
  by (simp add: permitted_def admin_registry_def permission_grant)

definition budget_of :: "nat \<Rightarrow> limits" where
  "budget_of n = \<lparr>max_rows = n, statement_timeout = None\<rparr>"

theorem query_within_budget_witness:
  "fst (execute (list_session int_schema admin_registry (budget_of 1)) 1 (SeqScan 1 ''t'' int_schema None)
      (list_state [(0, row_new [VInt8 7])])) = Inr (Rows int_schema [row_new [VInt8 7]])
   \<and> length [row_new [VInt8 7]] \<le> (1 :: nat)"
proof -
  define se where "se = list_session int_schema admin_registry (budget_of 1)"
  obtain n where n: "SCAN_STEPS = Suc (Suc (Suc n))"
    using scan_steps_three by blast
  have p: "permit se 1 Select = ret_op ()"
    by (simp add: permit_cases admin_permitted se_def list_session_def)
  have run: "execute se 1 (SeqScan 1 ''t'' int_schema None) (list_state [(0, row_new [VInt8 7])])
      = (Inr (Rows int_schema [row_new [VInt8 7]]), list_state [(0, row_new [VInt8 7])])"
    using p
    by (simp add: execute_def set_deadline_def execute_within_budget_def present_in_def option_list_def run_query_def
        stream_def admitted_def seq_scan_def n next_entry_def tick_def fill_added_columns_def predicate_keeps_def
        check_schema_def admit_def on_store_def se_def list_session_def list_state_def budget_of_def
        int_schema_def row_new_def bind_op_def ok_or_def)
  from query_within_budget [OF run] have "length [row_new [VInt8 7]] \<le> (1 :: nat)"
    by (simp add: se_def list_session_def budget_of_def)
  then show ?thesis
    using run by (simp add: se_def)
qed

section \<open>Rows that reach storage\<close>

definition fits :: "column_def \<Rightarrow> val \<Rightarrow> bool" where
  "fits c v \<longleftrightarrow> (if is_null v then col_nullable c else data_type_of v = Some (col_data_type c))"

definition conforms :: "schema \<Rightarrow> row \<Rightarrow> bool" where
  "conforms sch r \<longleftrightarrow> list_all2 fits (schema_columns sch) (row_values r)"

lemma conform_value_fits: "conform_value table c v = Inr w \<Longrightarrow> fits c w"
  by (cases v; cases "col_data_type c")
    (auto simp: conform_value_def fits_def is_null_def widen_def split: if_splits)

lemma conform_values_fit:
  "length vs = length cs \<Longrightarrow> conform_values table cs vs = Inr ws \<Longrightarrow> list_all2 fits cs ws"
proof (induction table cs vs arbitrary: ws rule: conform_values.induct)
  case (1 table c cs v vs)
  then show ?case
    by (auto simp: bind_res_Inr_iff intro: conform_value_fits)
qed auto

lemma conform_row_conforms: "conform_row sch r table = Inr r' \<Longrightarrow> conforms sch r'"
  by (auto simp: conform_row_def conforms_def bind_res_Inr_iff row_new_def split: if_splits intro: conform_values_fit)

text \<open>A session whose storage refuses, by a panic, a row that does not fit the table.\<close>

definition storable :: "('s, 'it) session \<Rightarrow> u32 \<Rightarrow> row \<Rightarrow> bool" where
  "storable se table r \<longleftrightarrow> (case se_table_schema se table of Inr sch \<Rightarrow> conforms sch r | Inl _ \<Rightarrow> False)"

definition guarded :: "('s, 'it) session \<Rightarrow> ('s, 'it) session" where
  "guarded se = se
     \<lparr>se_insert_unique := \<lambda>txn table r unique.
        if storable se table r then se_insert_unique se txn table r unique else lift_op (Inl Panic),
      se_update_unique := \<lambda>txn table i r unique.
        if storable se table r then se_update_unique se txn table i r unique else lift_op (Inl Panic)\<rparr>"

lemma guarded_fields [simp]:
  "se_scan (guarded se) = se_scan se" "se_next (guarded se) = se_next se" "se_get (guarded se) = se_get se"
  "se_delete (guarded se) = se_delete se" "se_table_schema (guarded se) = se_table_schema se"
  "se_lookup (guarded se) = se_lookup se" "se_procs (guarded se) = se_procs se"
  "se_identity (guarded se) = se_identity se" "se_limits (guarded se) = se_limits se" "se_text (guarded se) = se_text se"
  by (simp_all add: guarded_def)

lemma guarded_reads [simp]:
  "check_schema (guarded se) = check_schema se" "predicate_keeps (guarded se) = predicate_keeps se"
  "next_entry (guarded se) = next_entry se" "push_tuple (guarded se) = push_tuple se" "admitted (guarded se) = admitted se"
  "permit (guarded se) = permit se" "trigger_context (guarded se) = trigger_context se"
  "set_deadline (guarded se) = set_deadline se"
  by (simp_all add: fun_eq_iff check_schema_def predicate_keeps_def next_entry_def push_tuple_def admitted_def permit_def
      trigger_context_def set_deadline_def split: option.splits)

lemmas deep_cong = option.case_cong if_cong conflict_action.case_cong proc_decision.case_cong

lemma guarded_scan_loop [simp]: "scan_loop n (guarded se) sch filt = scan_loop n se sch filt"
proof (induction n)
  case (Suc n)
  show ?case
    by (intro ext) (simp add: Let_def Suc cong: deep_cong)
qed (intro ext, simp)

lemma guarded_conflict_loop [simp]: "conflict_loop n (guarded se) sch target wanted = conflict_loop n se sch target wanted"
proof (induction n)
  case (Suc n)
  show ?case
    by (intro ext) (simp add: Let_def Suc cong: deep_cong)
qed (intro ext, simp)

lemma guarded_seq_scan [simp]: "seq_scan (guarded se) = seq_scan se"
  by (intro ext) (simp add: seq_scan_def)

lemma guarded_fetch_rows [simp]: "fetch_rows (guarded se) txn table sch = fetch_rows se txn table sch"
proof
  show "fetch_rows (guarded se) txn table sch is = fetch_rows se txn table sch is" for "is"
    by (induction "is") simp_all
qed

lemma guarded_keep_rows [simp]: "keep_rows (guarded se) e = keep_rows se e"
proof
  show "keep_rows (guarded se) e ts = keep_rows se e ts" for ts
    by (induction ts) simp_all
qed

lemma guarded_index_scan [simp]: "index_scan (guarded se) = index_scan se"
  by (intro ext) (simp add: index_scan_def cong: deep_cong)

lemma guarded_join_row [simp]: "join_row (guarded se) predicate l i rs = join_row se predicate l i rs"
proof (intro ext)
  show "join_row (guarded se) predicate l i rs any matched out x = join_row se predicate l i rs any matched out x"
    for any matched out x
  proof (induction rs arbitrary: i any matched out x)
    case (Cons r rs)
    have "join_row (guarded se) predicate l i rs = join_row se predicate l i rs" for i
      using Cons.IH by (intro ext)
    then show ?case
      by (simp add: Let_def cong: deep_cong)
  qed simp
qed

lemma guarded_join_outer [simp]: "join_outer (guarded se) predicate j w inner ls = join_outer se predicate j w inner ls"
proof (induction ls)
  case (Cons l ls)
  show ?case
    by (intro ext) (simp add: Let_def Cons cong: deep_cong)
qed (intro ext, simp)

lemma guarded_join_unmatched [simp]: "join_unmatched (guarded se) w rs = join_unmatched se w rs"
proof (induction rs)
  case (Cons r rs)
  then show ?case
    by (cases r) (intro ext, simp)
qed (intro ext, simp)

lemma guarded_filter_rows [simp]: "filter_rows (guarded se) e = filter_rows se e"
proof
  show "filter_rows (guarded se) e ts = filter_rows se e ts" for ts
    by (induction ts) simp_all
qed

lemma guarded_join [simp]: "nested_loop_join (guarded se) = nested_loop_join se"
  by (intro ext) (simp add: nested_loop_join_def cong: deep_cong)

lemma guarded_stream_node [simp]: "stream_node (guarded se) txn plan = stream_node se txn plan"
  by (induction se txn plan rule: stream_node.induct) simp_all

lemma guarded_stream [simp]: "stream (guarded se) = stream se"
  by (intro ext) (simp add: stream_def)

lemma guarded_conflicting_row [simp]: "conflicting_row (guarded se) = conflicting_row se"
  by (intro ext) (simp add: conflicting_row_def Let_def)

lemma bind_op_ext:
  assumes "\<And>a s'. m s = (Inr a, s') \<Longrightarrow> f a s' = g a s'"
  shows "bind_op m f s = bind_op m g s"
  using assms by (auto simp: bind_op_def split: prod.splits sum.splits)

text \<open>Storing what \<open>conform_row\<close> returned.\<close>

lemma guarded_conform:
  assumes "se_table_schema se table = Inr sch" and "\<And>r. conforms sch r \<Longrightarrow> f r = g r"
  shows "bind_op (lift_op (conform_row sch r0 name)) f = bind_op (lift_op (conform_row sch r0 name)) g"
  using assms conform_row_conforms [of sch r0 name] by (cases "conform_row sch r0 name") auto

lemma guarded_resolve_conflict:
  assumes "se_table_schema se table = Inr sch"
  shows "resolve_conflict (guarded se) txn table name sch clause i existing excluded unique =
    resolve_conflict se txn table name sch clause i existing excluded unique"
proof -
  have "bind_op (lift_op (conform_row sch r name)) (\<lambda>u. bind_op (on_store (se_update_unique (guarded se) txn table i u unique)) k) =
    bind_op (lift_op (conform_row sch r name)) (\<lambda>u. bind_op (on_store (se_update_unique se txn table i u unique)) k)"
    for r and k :: "unit \<Rightarrow> ('a, nat) exec"
    by (rule guarded_conform [OF assms]) (simp add: guarded_def storable_def assms)
  then show ?thesis
    unfolding resolve_conflict_def by (simp add: Let_def cong: deep_cong)
qed

lemma guarded_update_rows:
  assumes "se_table_schema se table = Inr sch"
  shows "update_rows (guarded se) txn table name sch assignments unique ts n =
    update_rows se txn table name sch assignments unique ts n"
proof (induction ts arbitrary: n)
  case (Cons t ts)
  have "bind_op (lift_op (conform_row sch r name)) (\<lambda>u. bind_op (on_store (se_update_unique (guarded se) txn table i u unique)) k) =
    bind_op (lift_op (conform_row sch r name)) (\<lambda>u. bind_op (on_store (se_update_unique se txn table i u unique)) k)"
    for r i and k :: "unit \<Rightarrow> ('a, nat) exec"
    by (rule guarded_conform [OF assms]) (simp add: guarded_def storable_def assms)
  then show ?case
    by (simp add: Cons cong: deep_cong)
qed simp

lemma guarded_delete_rows: "delete_rows (guarded se) txn table name ts n = delete_rows se txn table name ts n"
  by (induction ts arbitrary: n) (simp_all cong: deep_cong)

lemma guarded_insert_unique:
  assumes "se_table_schema se table = Inr sch" and "conforms sch r"
  shows "se_insert_unique (guarded se) txn table r unique = se_insert_unique se txn table r unique"
  using assms by (simp add: guarded_def storable_def)

lemma guarded_run_insert:
  assumes "se_table_schema se table = Inr sch"
  shows "run_insert (guarded se) txn table name sch rows on_conflict unique n =
    run_insert se txn table name sch rows on_conflict unique n"
proof (induction rows arbitrary: n)
  case (Cons exprs rows)
  have plain: "bind_op (lift_op (conform_row sch r0 name)) (\<lambda>r. bind_op (on_store (se_insert_unique (guarded se) txn table r unique)) k) =
      bind_op (lift_op (conform_row sch r0 name)) (\<lambda>r. bind_op (on_store (se_insert_unique se txn table r unique)) k)"
    for r0 and k :: "64 word \<Rightarrow> ('a, nat) exec"
    by (rule guarded_conform [OF assms]) (simp add: guarded_insert_unique [OF assms])
  have upsert: "bind_op (lift_op (conform_row sch r0 name)) (\<lambda>r. bind_op (m r) (\<lambda>c. case c of
        None \<Rightarrow> bind_op (on_store (se_insert_unique (guarded se) txn table r unique)) k | Some y \<Rightarrow> h r y)) =
      bind_op (lift_op (conform_row sch r0 name)) (\<lambda>r. bind_op (m r) (\<lambda>c. case c of
        None \<Rightarrow> bind_op (on_store (se_insert_unique se txn table r unique)) k | Some y \<Rightarrow> h r y))"
    for r0 and k :: "64 word \<Rightarrow> ('a, nat) exec" and m :: "row \<Rightarrow> ('a, (64 word \<times> row) option) exec" and h
    by (rule guarded_conform [OF assms]) (simp add: guarded_insert_unique [OF assms] cong: deep_cong)
  show ?case
    using Cons by (cases on_conflict)
      (simp_all add: guarded_resolve_conflict [OF assms] plain upsert cong: deep_cong)
qed simp

lemma check_schema_then:
  assumes "se_table_schema se table = Inr sch \<Longrightarrow> f () = g ()"
  shows "bind_op (check_schema se table name sch) f = bind_op (check_schema se table name sch) g"
  using assms by (cases "se_table_schema se table") (auto simp: check_schema_def)

lemma guarded_execute_resolved: "execute_resolved (guarded se) txn = execute_resolved se txn"
proof
  show "execute_resolved (guarded se) txn plan = execute_resolved se txn plan" for plan
  proof (cases plan)
    case (PInsert table name sch rows on_conflict unique)
    show ?thesis
      unfolding PInsert execute_resolved.simps guarded_reads
      by (intro arg_cong [where f = "bind_op _"] ext check_schema_then) (simp add: guarded_run_insert)
  next
    case (PUpdate table name sch source assignments unique)
    show ?thesis
      unfolding PUpdate execute_resolved.simps guarded_reads
      by (intro arg_cong [where f = "bind_op _"] ext check_schema_then)
        (simp add: run_update_def guarded_update_rows)
  qed (simp_all add: run_query_def run_delete_def guarded_delete_rows)
qed

text \<open>
  C15: every row that a statement hands to storage has the columns of its table: one value per column, of the
  column's type, and NULL only where the column allows it. Replacing the storage by one that panics on any
  other row changes nothing, whatever the triggers and the expressions do.
\<close>

theorem stored_rows_conform: "execute (guarded se) txn plan x = execute se txn plan x"
proof -
  have "run_subquery (guarded se) = run_subquery se"
    by (intro ext) (simp add: run_subquery_def)
  then show ?thesis
    by (simp add: execute_def execute_within_budget_def guarded_execute_resolved)
qed

end
