(* ===== verification/Joins.thy ===== *)
theory Joins
  imports Executor
begin

text \<open>
  The nested loop join against the definition of the SQL joins, for predicates that have a value on every
  pair of rows, and what it does when one input is empty.
\<close>

section \<open>The definition\<close>

definition tuple_values :: "tuple \<Rightarrow> val list" where
  "tuple_values t = row_values (tuple_row t)"

text \<open>
  Rows are lists of values; \<open>lw\<close> and \<open>rw\<close> are the numbers of columns of the two sides. A left row is followed by
  its partners, or by NULLs if it has none and the join keeps it; right rows without a partner follow at the end.
\<close>

definition sql_join ::
  "join_type \<Rightarrow> (val list \<Rightarrow> bool) \<Rightarrow> nat \<Rightarrow> nat \<Rightarrow> val list list \<Rightarrow> val list list \<Rightarrow> val list list" where
  "sql_join j on lw rw left right =
     concat (map (\<lambda>l. if preserves_left j \<and> (\<forall>r\<in>set right. \<not> on (l @ r)) then [l @ replicate rw VNull]
                      else map ((@) l) (filter (\<lambda>r. on (l @ r)) right)) left)
     @ (if preserves_right j then map ((@) (replicate lw VNull)) (filter (\<lambda>r. \<forall>l\<in>set left. \<not> on (l @ r)) right) else [])"

text \<open>The predicate has the value \<open>on\<close> on a row, and evaluating it changes nothing.\<close>

definition decides :: "text_ops \<Rightarrow> phys_expr option \<Rightarrow> (val list \<Rightarrow> bool) \<Rightarrow> val list \<Rightarrow> bool" where
  "decides ops predicate on vs \<longleftrightarrow>
     (case predicate of
        None \<Rightarrow> on vs
      | Some e \<Rightarrow> \<forall>w. eval_predicate ops e (row_new vs) w = (Inr (on vs), w))"

text \<open>No row budget, and no deadline in force.\<close>

definition unbounded :: "('s, 'it) session \<Rightarrow> 's exec_state \<Rightarrow> bool" where
  "unbounded se x \<longleftrightarrow> max_rows (se_limits se) = 0 \<and> xs_deadline x = None"

section \<open>The loops\<close>

lemma unbounded_tick: "unbounded se x \<Longrightarrow> tick x = (Inr (), x)"
  by (simp add: unbounded_def tick_def)

lemma unbounded_push: "unbounded se x \<Longrightarrow> push_tuple se r out x = (Inr (out @ [no_rid r]), x)"
  by (simp add: unbounded_def push_tuple_def admit_def)

lemma decided_keeps:
  "decides (se_text se) predicate on vs \<Longrightarrow> predicate_keeps se predicate (row_new vs) x = (Inr (on vs), x)"
  by (auto simp: decides_def predicate_keeps_def on_ambient_def split: option.splits)

definition joined :: "val list list \<Rightarrow> tuple list" where
  "joined rows = map (\<lambda>vs. no_rid (row_new vs)) rows"

lemma joined_append [simp]: "joined (xs @ ys) = joined xs @ joined ys"
  by (simp add: joined_def)

lemma joined_Cons [simp]: "joined (x # xs) = no_rid (row_new x) # joined xs"
  by (simp add: joined_def)

lemma joined_Nil [simp]: "joined [] = []"
  by (simp add: joined_def)

lemma join_row_spec:
  assumes "unbounded se x" and "\<forall>r\<in>set rs. decides (se_text se) predicate on (l @ tuple_values r)"
    and "length matched = i + length rs"
  shows "join_row se predicate l i rs any matched out x =
    (Inr (any \<or> (\<exists>r\<in>set rs. on (l @ tuple_values r)),
          take i matched @ map2 (\<lambda>b r. b \<or> on (l @ tuple_values r)) (drop i matched) rs,
          out @ joined (map ((@) l) (filter (\<lambda>r. on (l @ r)) (map tuple_values rs)))), x)"
  using assms(2,3)
proof (induction rs arbitrary: i any matched out)
  case (Cons r rs)
  have i: "i < length matched"
    using Cons.prems(2) by simp
  then have d: "drop i matched = matched ! i # drop (Suc i) matched"
    by (simp add: Cons_nth_drop_Suc)
  have k: "predicate_keeps se predicate (concat_rows l (row_values (tuple_row r))) x = (Inr (on (l @ tuple_values r)), x)"
    using Cons.prems(1) decided_keeps [of se predicate on "l @ tuple_values r" x]
    by (simp add: concat_rows_def tuple_values_def)
  show ?case
  proof (cases "on (l @ tuple_values r)")
    case True
    let ?m = "matched[i := True]"
    have "take (Suc i) ?m = take i matched @ [True]" "drop (Suc i) ?m = drop (Suc i) matched"
      using i by (simp_all add: take_Suc_conv_app_nth)
    then show ?thesis
      using Cons True k i d unbounded_tick [OF assms(1)] unbounded_push [OF assms(1)]
      by (simp add: bind_op_def Let_def concat_rows_def tuple_values_def)
  next
    case False
    have "take (Suc i) matched = take i matched @ [matched ! i]"
      using i by (simp add: take_Suc_conv_app_nth)
    then show ?thesis
      using Cons False k i d unbounded_tick [OF assms(1)]
      by (simp add: bind_op_def Let_def)
  qed
qed simp

lemma join_outer_spec:
  assumes "unbounded se x" and "\<forall>l\<in>set ls. \<forall>r\<in>set inner. decides (se_text se) predicate on (tuple_values l @ tuple_values r)"
    and "length matched = length inner"
  shows "join_outer se predicate j w inner ls matched out x =
    (Inr (map2 (\<lambda>b r. b \<or> (\<exists>l\<in>set ls. on (tuple_values l @ tuple_values r))) matched inner,
          out @ joined (concat (map (\<lambda>l. if preserves_left j \<and> (\<forall>r\<in>set inner. \<not> on (l @ tuple_values r))
              then [l @ replicate w VNull]
              else map ((@) l) (filter (\<lambda>r. on (l @ r)) (map tuple_values inner))) (map tuple_values ls)))), x)"
  using assms(2,3)
proof (induction ls arbitrary: matched out)
  case Nil
  have "map2 (\<lambda>b r. b) matched inner = matched" if "length matched = length inner" for matched :: "bool list"
    using that by (induction matched inner rule: list_induct2) auto
  then show ?case
    using Nil by simp
next
  case (Cons l ls)
  let ?v = "tuple_values l"
  let ?m = "map2 (\<lambda>b r. b \<or> on (?v @ tuple_values r)) matched inner"
  have row: "join_row se predicate ?v 0 inner False matched out x =
    (Inr (\<exists>r\<in>set inner. on (?v @ tuple_values r), ?m,
      out @ joined (map ((@) ?v) (filter (\<lambda>r. on (?v @ r)) (map tuple_values inner)))), x)"
    using join_row_spec [OF assms(1), of inner predicate on ?v matched 0] Cons.prems by simp
  have m: "map2 (\<lambda>b r. b \<or> (\<exists>l\<in>set ls. on (tuple_values l @ tuple_values r))) ?m inner =
      map2 (\<lambda>b r. b \<or> (\<exists>l\<in>set (l # ls). on (tuple_values l @ tuple_values r))) matched inner"
    using Cons.prems(2) by (induction matched inner rule: list_induct2) auto
  have IH: "join_outer se predicate j w inner ls ?m out' x = (Inr (map2 (\<lambda>b r. b \<or> (\<exists>l\<in>set (l # ls). on (tuple_values l @ tuple_values r))) matched inner,
      out' @ joined (concat (map (\<lambda>l. if preserves_left j \<and> (\<forall>r\<in>set inner. \<not> on (l @ tuple_values r))
              then [l @ replicate w VNull]
              else map ((@) l) (filter (\<lambda>r. on (l @ r)) (map tuple_values inner))) (map tuple_values ls)))), x)" for out'
    using Cons.IH [of ?m out'] Cons.prems m by simp
  have none: "filter (\<lambda>r. on (?v @ r)) (map tuple_values inner) = []" if "\<forall>r\<in>set inner. \<not> on (?v @ tuple_values r)"
    using that by (simp add: filter_empty_conv)
  show ?case
    using row IH none unbounded_push [OF assms(1)]
    by (auto simp: bind_op_def tuple_values_def [of l] concat_rows_def)
qed

lemma join_unmatched_spec:
  assumes "unbounded se x"
  shows "join_unmatched se w rms out x =
    (Inr (out @ joined (map ((@) (replicate w VNull)) (map (tuple_values \<circ> fst) (filter (\<lambda>(r, m). \<not> m) rms)))), x)"
proof (induction rms arbitrary: out)
  case (Cons rm rms)
  then show ?case
    using unbounded_push [OF assms] by (cases rm) (auto simp: bind_op_def concat_rows_def tuple_values_def)
qed simp

text \<open>The widths that the code takes are those of the first rows.\<close>

lemma nested_loop_join_spec:
  assumes "unbounded se x"
    and "\<forall>l\<in>set outer. \<forall>r\<in>set inner. decides (se_text se) predicate on (tuple_values l @ tuple_values r)"
  shows "nested_loop_join se outer inner j predicate x =
    (Inr (joined (sql_join j on (first_width outer) (first_width inner) (map tuple_values outer) (map tuple_values inner))), x)"
proof -
  let ?m = "map2 (\<lambda>b r. b \<or> (\<exists>l\<in>set outer. on (tuple_values l @ tuple_values r))) (replicate (length inner) False) inner"
  have m: "map (tuple_values \<circ> fst) (filter (\<lambda>(r, m). \<not> m) (zip inner ?m)) =
      filter (\<lambda>r. \<forall>l\<in>set (map tuple_values outer). \<not> on (l @ r)) (map tuple_values inner)"
    by (induction inner) auto
  show ?thesis
    using join_outer_spec [OF assms(1,2), of "replicate (length inner) False" j "first_width inner" "[]"]
      join_unmatched_spec [OF assms(1)] m
    by (simp add: nested_loop_join_def bind_op_def sql_join_def del: map_map)
qed

section \<open>Correctness, and the empty side\<close>




definition plain_session :: "(unit, unit) session" where
  "plain_session =
     \<lparr>se_scan = \<lambda>_ _. ret_op (), se_next = \<lambda>it s. ((None, it), s), se_get = \<lambda>_ _ _. lift_op (Inl (Err RowNotFound)),
      se_insert_unique = \<lambda>_ _ _ _. ret_op 0, se_update_unique = \<lambda>_ _ _ _ _. ret_op (), se_delete = \<lambda>_ _ _. ret_op (),
      se_table_schema = \<lambda>_. Inl (Err RowNotFound), se_lookup = None, se_procs = registry_new, se_identity = ANONYMOUS,
      se_limits = limits_unlimited,
      se_text = \<lparr>to_lowercase = id, to_uppercase = id, print_f64 = \<lambda>_. [], parse_f64 = \<lambda>_. None\<rparr>\<rparr>"

definition plain_state :: "unit exec_state" where
  "plain_state =
     \<lparr>xs_store = (), xs_ambient = \<lparr>amb_clock = \<lambda>_. 0, amb_reads = 0, amb_counter = 0\<rparr>, xs_instants = id,
      xs_readings = 0, xs_deadline = None, xs_since = 0\<rparr>"

lemma plain_unbounded: "unbounded plain_session plain_state"
  by (simp add: unbounded_def plain_session_def plain_state_def limits_unlimited_def)

definition int_tuple :: "u64 \<Rightarrow> tuple" where
  "int_tuple i = no_rid (row_new [VInt8 i])"

lemma int_tuple_values: "tuple_values (int_tuple i) = [VInt8 i]"
  by (simp add: tuple_values_def int_tuple_def no_rid_def row_new_def)




text \<open>
  C21: a \<open>RIGHT\<close> or \<open>FULL JOIN\<close> whose left side is empty returns the right rows without the NULLs of the left
  columns, so every value of a right row is read as the column of a left one; a \<open>LEFT\<close> or \<open>FULL JOIN\<close> whose
  right side is empty returns rows that lack the right columns.
\<close>

theorem empty_side_unpadded:
  assumes "unbounded se x"
  shows "(preserves_right j \<longrightarrow> nested_loop_join se [] inner j predicate x = (Inr (joined (map tuple_values inner)), x)) \<and>
    (preserves_left j \<longrightarrow> nested_loop_join se outer [] j predicate x = (Inr (joined (map tuple_values outer)), x))"
  using nested_loop_join_spec [OF assms, of "[]" inner predicate "\<lambda>_. True" j]
    nested_loop_join_spec [OF assms, of outer "[]" predicate "\<lambda>_. True" j]
  by (simp_all add: sql_join_def first_width_def comp_def split: if_splits)

theorem empty_side_unpadded_witness:
  "nested_loop_join plain_session [] [int_tuple 5] JRight None plain_state = (Inr (joined [[VInt8 5]]), plain_state)
   \<and> sql_join JRight (\<lambda>_. True) 1 1 [] [[VInt8 5]] = [[VNull, VInt8 5]]"
  using empty_side_unpadded [OF plain_unbounded, of JRight "[int_tuple 5]" None "[]"]
  by (simp add: int_tuple_values preserves_right_def preserves_left_def sql_join_def)

end
