(* ===== verification/Sorts.thy ===== *)
theory Sorts
  imports Executor "HOL-Library.Multiset"
begin

text \<open>
  Sorting: the comparison of sort keys is a total preorder on keys of one type per column, NaN excluded, and
  the sort returns the rows in that order, keeping the order of the input among rows with equal keys.
\<close>

section \<open>Comparisons\<close>


section \<open>Values of one type\<close>


definition value_order :: "val \<Rightarrow> val \<Rightarrow> ordering" where
  "value_order v w = (case compare v w of Inr (Some ord) \<Rightarrow> ord | _ \<Rightarrow> Equal)"





lemma value_order_simps [simp]:
  "value_order (VBoolean a) (VBoolean b) = cmp a b"
  "value_order (VInt4 i) (VInt4 j) = cmp (sint i) (sint j)"
  "value_order (VInt8 k) (VInt8 l) = cmp (sint k) (sint l)"
  "value_order (VText s) (VText s') = cmp_bytes s s'"
  "value_order (VJson s) (VJson s') = cmp_bytes s s'"
  "value_order (VTimestamp k) (VTimestamp l) = cmp (sint k) (sint l)"
  "value_order (VUuid u) (VUuid u') = cmp u u'"
  "\<not> f64_is_nan f \<Longrightarrow> \<not> f64_is_nan g \<Longrightarrow> value_order (VFloat8 f) (VFloat8 g) = cmp (f64_key f) (f64_key g)"
  by (simp_all add: value_order_def compare_def is_null_def compare_mixed_def f64_partial_cmp_def)


section \<open>Sort keys\<close>


lemma reverse_Greater [simp]: "reverse_ordering x = Greater \<longleftrightarrow> x = Less" "reverse_ordering x = Less \<longleftrightarrow> x = Greater"
  by (cases x; simp)+









section \<open>The sort\<close>









end
