(* ===== verification/Ast.thy ===== *)
theory Ast
  imports Sql_Expr
begin

text \<open>
  The syntax trees the parser hands to the planner (ferrite-sql/src/ast.rs). Names are HOL strings, text
  literals UTF-8 bytes; \<open>Int\<close> literals are 64-bit words read as signed, \<open>Float\<close> literals bit patterns.
\<close>

section \<open>Names and literals\<close>

type_synonym object_name = "string list"

definition name_base :: "object_name \<Rightarrow> string" where
  "name_base n = (if n = [] then '''' else last n)"

definition name_qualifier :: "object_name \<Rightarrow> string option" where
  "name_qualifier n = (if 2 \<le> length n then Some (n ! (length n - 2)) else None)"

definition name_split :: "object_name \<Rightarrow> string \<Rightarrow> string \<times> string" where
  "name_split n default_schema =
     ((case name_qualifier n of Some q \<Rightarrow> q | None \<Rightarrow> default_schema), name_base n)"

datatype sql_literal = LitNull | LitBoolean bool | LitInt u64 | LitFloat u64 | LitString bytes

datatype unary_op = UPlus | UMinus | UNot

text \<open>The binary operators of the parser and of the planner are the same fourteen; \<open>binary_op\<close> of lower.rs is the identity.\<close>

section \<open>Expressions and queries\<close>

datatype 'e function_args = ArgsWildcard | ArgsList "'e list"

datatype 'e function_call = FunctionCall (fc_name: string) (fc_args: "'e function_args") (fc_distinct: bool)

datatype 'e select_item = SelWildcard | SelQualified object_name | SelExpr 'e "string option"

datatype 'e join_constraint = JoinOn 'e | JoinUsing "string list" | JoinNone

datatype 'q table_factor = TableName object_name "string option" | Derived 'q string

datatype ('e, 'q) join_clause =
  JoinClause (jc_type: join_type) (jc_relation: "'q table_factor") (jc_constraint: "'e join_constraint")

datatype ('e, 'q) table_with_joins =
  TableWithJoins (tj_relation: "'q table_factor") (tj_joins: "('e, 'q) join_clause list")

datatype 'e order_by_item = OrderByItem (ob_expr: 'e) (ob_asc: bool) (ob_nulls_first: "bool option")

datatype ('e, 'q) select =
  SelectBody (sel_distinct: bool) (sel_projection: "'e select_item list")
    (sel_from: "('e, 'q) table_with_joins list") (sel_selection: "'e option") (sel_group_by: "'e list")
    (sel_having: "'e option")

datatype set_op = SetUnion | SetIntersect | SetExcept

datatype sql_expr =
    SLiteral sql_literal
  | SColumn object_name
  | SParameter u32
  | SUnary unary_op sql_expr
  | SBinary sql_expr binary_op sql_expr
  | SIsNull sql_expr bool
  | SBetween sql_expr bool sql_expr sql_expr
  | SInList sql_expr "sql_expr list" bool
  | SInSubquery sql_expr sql_query bool
  | SExists sql_query bool
  | SLike sql_expr sql_expr bool bool
  | SCollate sql_expr string
  | SCase "sql_expr option" "(sql_expr \<times> sql_expr) list" "sql_expr option"
  | SCast sql_expr data_type
  | SFunction "sql_expr function_call"
  | SSubquery sql_query
and sql_query =
    Query "(string \<times> string list \<times> sql_query) list" set_expr "sql_expr order_by_item list" "sql_expr option" "sql_expr option"
and set_expr =
    SetSelect "(sql_expr, sql_query) select"
  | SetQuery sql_query
  | SetOp set_op bool set_expr set_expr

definition is_aggregate :: "string \<Rightarrow> bool" where
  "is_aggregate name \<longleftrightarrow> name \<in> {''count'', ''sum'', ''avg'', ''min'', ''max''}"

section \<open>Definitions of tables\<close>

datatype column_constraint =
    CNotNull
  | CNull
  | CPrimaryKey
  | CUnique
  | CDefault sql_expr
  | CCollate string

datatype table_constraint = TPrimaryKey "string list" | TUnique "string list"

record column_spec =
  cs_name :: string
  cs_data_type :: data_type
  cs_constraints :: "column_constraint list"

record create_table_stmt =
  ct_if_not_exists :: bool
  ct_name :: object_name
  ct_columns :: "column_spec list"
  ct_constraints :: "table_constraint list"

definition literal_value :: "sql_literal \<Rightarrow> val" where
  "literal_value l =
     (case l of
        LitNull \<Rightarrow> VNull
      | LitBoolean b \<Rightarrow> VBoolean b
      | LitInt n \<Rightarrow> if - (2 ^ 31) \<le> sint n \<and> sint n < 2 ^ 31 then VInt4 (scast n) else VInt8 n
      | LitFloat f \<Rightarrow> VFloat8 f
      | LitString s \<Rightarrow> VText s)"

definition is_current_timestamp :: "string \<Rightarrow> bool" where
  "is_current_timestamp name \<longleftrightarrow> name = ''now'' \<or> name = ''current_timestamp''"

text \<open>\<open>-f\<close> flips the sign bit.\<close>

definition column_default_of :: "string \<Rightarrow> sql_expr \<Rightarrow> column_default res" where
  "column_default_of column e =
     (let refused = Inl (Err (InvalidDefinition (''the DEFAULT of column `'' @ column @
            ''` is not a literal or CURRENT_TIMESTAMP'')))
      in case e of
           SLiteral l \<Rightarrow> Inr (Constant (literal_value l))
         | SUnary UPlus (SLiteral l) \<Rightarrow> Inr (Constant (literal_value l))
         | SUnary UMinus (SLiteral (LitInt n)) \<Rightarrow>
             if sint n = - (2 ^ 63) then refused else Inr (Constant (literal_value (LitInt (- n))))
         | SUnary UMinus (SLiteral (LitFloat f)) \<Rightarrow> Inr (Constant (VFloat8 (f64_neg f)))
         | SFunction call \<Rightarrow>
             if is_current_timestamp (fc_name call) \<and> fc_args call = ArgsList [] then Inr CurrentTimestamp else refused
         | SColumn name \<Rightarrow>
             if name_qualifier name = None \<and> is_current_timestamp (name_base name) then Inr CurrentTimestamp else refused
         | _ \<Rightarrow> refused)"

fun first_default :: "column_constraint list \<Rightarrow> sql_expr option" where
  "first_default [] = None"
| "first_default (CDefault e # cs) = Some e"
| "first_default (_ # cs) = first_default cs"

definition to_column_def :: "column_spec \<Rightarrow> bool \<Rightarrow> column_def res" where
  "to_column_def spec primary_key =
     (let nullable = (\<not> primary_key \<and> \<not> list_ex (\<lambda>c. c = CNotNull \<or> c = CPrimaryKey) (cs_constraints spec))
      in bind_res (case first_default (cs_constraints spec) of
             None \<Rightarrow> Inr None
           | Some e \<Rightarrow> bind_res (column_default_of (cs_name spec) e) (\<lambda>d. Inr (Some d))) (\<lambda>default.
           Inr \<lparr>col_name = cs_name spec, col_data_type = cs_data_type spec, col_nullable = nullable, col_default = default\<rparr>))"

fun column_defs :: "string list \<Rightarrow> column_spec list \<Rightarrow> column_def list res" where
  "column_defs pk [] = Inr []"
| "column_defs pk (c # cs) =
     bind_res (to_column_def c (cs_name c \<in> set pk)) (\<lambda>d. bind_res (column_defs pk cs) (\<lambda>ds. Inr (d # ds)))"

fun primary_columns :: "table_constraint \<Rightarrow> string list" where
  "primary_columns (TPrimaryKey cols) = cols"
| "primary_columns (TUnique _) = []"

definition to_schema :: "create_table_stmt \<Rightarrow> schema res" where
  "to_schema stmt =
     bind_res (column_defs (concat (map primary_columns (ct_constraints stmt))) (ct_columns stmt))
       (\<lambda>columns. Inr \<lparr>schema_columns = columns\<rparr>)"

text \<open>\<open>Vec::dedup\<close> drops an element equal to the one before it.\<close>

definition stmt_unique_keys :: "create_table_stmt \<Rightarrow> string list list" where
  "stmt_unique_keys stmt =
     remdups_adj
       (List.map_filter (\<lambda>c. case c of TPrimaryKey cols \<Rightarrow> Some cols | TUnique _ \<Rightarrow> None) (ct_constraints stmt)
        @ map (\<lambda>c. [cs_name c]) (filter (\<lambda>c. CPrimaryKey \<in> set (cs_constraints c)) (ct_columns stmt))
        @ List.map_filter (\<lambda>c. case c of TUnique cols \<Rightarrow> Some cols | TPrimaryKey _ \<Rightarrow> None) (ct_constraints stmt)
        @ map (\<lambda>c. [cs_name c]) (filter (\<lambda>c. CUnique \<in> set (cs_constraints c)) (ct_columns stmt)))"

section \<open>Statements\<close>

datatype assignment = Assignment (as_column: string) (as_value: sql_expr)

datatype insert_conflict_action = ConflictDoNothing | ConflictDoUpdate "assignment list" "sql_expr option"

datatype sql_on_conflict = SqlOnConflict (so_target: "string list") (so_action: insert_conflict_action)

datatype sqlite_conflict_prefix = OrIgnore | OrReplace

definition into_on_conflict :: "sqlite_conflict_prefix \<Rightarrow> string list \<Rightarrow> sql_on_conflict" where
  "into_on_conflict prefix columns =
     SqlOnConflict []
       (case prefix of
          OrIgnore \<Rightarrow> ConflictDoNothing
        | OrReplace \<Rightarrow> ConflictDoUpdate (map (\<lambda>c. Assignment c (SColumn [''excluded'', c])) columns) None)"

datatype insert_source = InsertValues "sql_expr list list" | InsertQuery sql_query

record insert_stmt =
  in_table :: object_name
  in_columns :: "string list"
  in_source :: insert_source
  in_returning :: "sql_expr select_item list"
  in_on_conflict :: "sql_on_conflict option"

record update_stmt =
  up_table :: object_name
  up_alias :: "string option"
  up_assignments :: "assignment list"
  up_selection :: "sql_expr option"
  up_returning :: "sql_expr select_item list"

record delete_stmt =
  de_table :: object_name
  de_alias :: "string option"
  de_selection :: "sql_expr option"
  de_returning :: "sql_expr select_item list"

datatype alter_table_action = AddColumn bool column_spec

datatype trigger_timing = Before | After

datatype ddl_event = OnInsert | OnUpdate | OnDelete

datatype statement =
    StCreateTable create_table_stmt
  | StAlterTable bool object_name alter_table_action
  | StDropTable bool "object_name list" bool
  | StCreateIndex bool bool string object_name "string list"
  | StDropIndex bool string
  | StQuery sql_query
  | StInsert insert_stmt
  | StUpdate update_stmt
  | StDelete delete_stmt
  | StBegin
  | StCommit
  | StRollback
  | StCreateProcedure bool object_name "(string \<times> data_type) list" "proc_statement list"
  | StDropProcedure bool object_name
  | StCall object_name "sql_expr list"
  | StCreateTrigger string trigger_timing "ddl_event list" object_name bool "sql_expr option" object_name "sql_expr list"
  | StDropTrigger bool string object_name
and proc_statement =
    ProcSql statement
  | ProcReturn "sql_expr option"
  | ProcRaise sql_expr
  | ProcIf "(sql_expr \<times> proc_statement list) list" "proc_statement list option"

end
