(* ===== verification/Rules.thy ===== *)
theory Rules
  imports Sql_Expr
begin

text \<open>
  The rewrite rules (ferrite-planner/src/rules.rs): predicate pushdown, in one pass.
\<close>

datatype side = LeftSide | RightSide

definition side_of :: "expr \<Rightarrow> scope \<Rightarrow> scope \<Rightarrow> side option" where
  "side_of e left right =
     (let references = referenced_columns e
      in if references = [] then None
         else if list_all (can_resolve left) references \<and> \<not> list_ex (can_resolve right) references then Some LeftSide
         else if list_all (can_resolve right) references \<and> \<not> list_ex (can_resolve left) references then Some RightSide
         else None)"

definition is_transparent :: "expr projection_item list \<Rightarrow> bool" where
  "is_transparent items \<longleftrightarrow> list_all (\<lambda>i. case pi_expr i of EColumn _ \<Rightarrow> True | _ \<Rightarrow> False) items"

definition materialize :: "logical_plan \<Rightarrow> expr list \<Rightarrow> logical_plan" where
  "materialize plan pending =
     (case combine_conjunction pending of None \<Rightarrow> plan | Some predicate \<Rightarrow> LFilter plan predicate)"

text \<open>
  Where a conjunct of a \<open>WHERE\<close> and a conjunct of an \<open>ON\<close> go. \<open>push_join\<close> sorts the conjuncts into the four
  lists \<open>to_left\<close>, \<open>to_right\<close>, \<open>condition\<close> and \<open>above\<close>.
\<close>

datatype place = ToLeft | ToRight | Condition | Above

definition place_where :: "join_type \<Rightarrow> side option \<Rightarrow> place" where
  "place_where j s =
     (if s = Some LeftSide \<and> \<not> preserves_right j then ToLeft
      else if s = Some RightSide \<and> \<not> preserves_left j then ToRight
      else if j = JInner \<or> j = JCross then Condition
      else Above)"

definition place_on :: "join_type \<Rightarrow> side option \<Rightarrow> place" where
  "place_on j s =
     (if s = Some LeftSide \<and> \<not> preserves_left j then ToLeft
      else if s = Some RightSide \<and> \<not> preserves_right j then ToRight
      else Condition)"

definition conjuncts_of :: "expr option \<Rightarrow> expr list" where
  "conjuncts_of e = (case e of None \<Rightarrow> [] | Some e \<Rightarrow> split_conjunction e)"

definition placed :: "join_type \<Rightarrow> scope \<Rightarrow> scope \<Rightarrow> expr list \<Rightarrow> expr option \<Rightarrow> place \<Rightarrow> expr list" where
  "placed j left right pending on p =
     filter (\<lambda>e. place_where j (side_of e left right) = p) pending
     @ filter (\<lambda>e. place_on j (side_of e left right) = p) (conjuncts_of on)"

text \<open>The case of \<open>Join\<close> is \<open>push_join\<close>.\<close>

fun push_predicates :: "logical_plan \<Rightarrow> expr list \<Rightarrow> logical_plan" where
  "push_predicates (LFilter input predicate) pending =
     push_predicates input (pending @ split_conjunction predicate)"
| "push_predicates (LScan source filt) pending =
     LScan source (combine_conjunction (conjuncts_of filt @ pending))"
| "push_predicates (LJoin left right j on) pending =
     (case (plan_scope left, plan_scope right) of
        (Some ls, Some rs) \<Rightarrow>
          materialize
            (LJoin (push_predicates left (placed j ls rs pending on ToLeft))
              (push_predicates right (placed j ls rs pending on ToRight)) j
              (combine_conjunction (placed j ls rs pending on Condition)))
            (placed j ls rs pending on Above)
      | _ \<Rightarrow> materialize (LJoin (push_predicates left []) (push_predicates right []) j on) pending)"
| "push_predicates (LProjection input items) pending =
     (if is_transparent items then LProjection (push_predicates input pending) items
      else materialize (LProjection (push_predicates input []) items) pending)"
| "push_predicates (LSort input keys) pending = LSort (push_predicates input pending) keys"
| "push_predicates (LAggregate input group_by aggregates) pending =
     materialize (LAggregate (push_predicates input []) group_by aggregates) pending"
| "push_predicates (LDistinct input) pending = materialize (LDistinct (push_predicates input [])) pending"
| "push_predicates (LLimit input count offset) pending =
     materialize (LLimit (push_predicates input []) count offset) pending"
| "push_predicates (LUpdate source input assignments) pending =
     LUpdate source (push_predicates input pending) assignments"
| "push_predicates (LDelete source input) pending = LDelete source (push_predicates input pending)"
| "push_predicates (LInsert source rows on_conflict) pending =
     materialize (LInsert source rows on_conflict) pending"
| "push_predicates (LCall name args) pending = materialize (LCall name args) pending"

definition optimize :: "logical_plan \<Rightarrow> logical_plan" where
  "optimize plan = push_predicates plan []"

end
