(* ===== verification/Lowering.thy ===== *)
theory Lowering
  imports Rules Bind
begin

text \<open>
  Lowering an optimized logical plan to a physical one, with the choice between a scan and an index
  (ferrite-planner/src/planner.rs, \<open>to_physical\<close>).
\<close>

section \<open>Subqueries of an expression\<close>

fun subqueries :: "expr \<Rightarrow> logical_plan list" where
  "subqueries (EBinary l _ r) = subqueries l @ subqueries r"
| "subqueries (ENot e) = subqueries e"
| "subqueries (EIsNull e) = subqueries e"
| "subqueries (ELike e p _ _) = subqueries e @ subqueries p"
| "subqueries (ECase operand branches else_result) =
     (case operand of None \<Rightarrow> [] | Some e \<Rightarrow> subqueries e)
     @ concat (map (\<lambda>(w, t). subqueries w @ subqueries t) branches)
     @ (case else_result of None \<Rightarrow> [] | Some e \<Rightarrow> subqueries e)"
| "subqueries (ECast e _) = subqueries e"
| "subqueries (EFunction _ args) = concat (map subqueries args)"
| "subqueries (EInSubquery e p _) = p # subqueries e"
| "subqueries _ = []"

lemma size_list_member: "x \<in> set xs \<Longrightarrow> f x \<le> size_list f xs"
  by (induction xs) auto

lemma subqueries_size: "p \<in> set (subqueries e) \<Longrightarrow> size p < size e"
proof (induction e rule: subqueries.induct)
  case (5 operand branches else_result)
  have b: "size w + size t \<le> size_list (size_prod size size) branches" if "(w, t) \<in> set branches" for w t
    using size_list_member [OF that, of "size_prod size size"] by simp
  show ?case
    using 5 b by (fastforce split: option.splits)
next
  case (7 f args)
  then show ?case
    using size_list_member [of _ args size] by fastforce
qed auto

lemma subqueries_split: "set (concat (map subqueries (split_conjunction e))) = set (subqueries e)"
  by (induction e rule: split_conjunction.induct) auto

lemma subqueries_fold: "set (subqueries (foldl expr_and e es)) = set (concat (map subqueries (e # es)))"
  by (induction es arbitrary: e) (auto simp: expr_and_def)

lemma subqueries_combine:
  "combine_conjunction es = Some e \<Longrightarrow> set (subqueries e) = set (concat (map subqueries es))"
  by (auto simp: combine_conjunction_def subqueries_fold split: list.splits)

lemma bind_with_cong [fundef_cong]:
  assumes "e = e'" and "sc = sc'" and "\<And>p. p \<in> set (subqueries e') \<Longrightarrow> lower p = lower' p"
  shows "bind_with lower e sc = bind_with lower' e' sc'"
proof -
  have "(\<And>p. p \<in> set (subqueries e') \<Longrightarrow> lower p = lower' p) \<Longrightarrow> bind_with lower e' sc' = bind_with lower' e' sc'"
  proof (induction lower' e' sc' rule: bind_with.induct)
    case (8 lower' operand branches else_result sc)
    have "opt_res (\<lambda>e. bind_with lower e sc) operand = opt_res (\<lambda>e. bind_with lower' e sc) operand"
      using 8 by (intro opt_res_cong) auto
    moreover have "opt_res (\<lambda>e. bind_with lower e sc) else_result = opt_res (\<lambda>e. bind_with lower' e sc) else_result"
      using 8 by (intro opt_res_cong) auto
    moreover have "bind_with lower (fst b) sc = bind_with lower' (fst b) sc \<and> bind_with lower (snd b) sc = bind_with lower' (snd b) sc"
      if b: "b \<in> set branches" for b
    proof (cases b)
      case (Pair w t)
      then have "set (subqueries w) \<subseteq> set (subqueries (ECase operand branches else_result))"
        "set (subqueries t) \<subseteq> set (subqueries (ECase operand branches else_result))"
        using b by force+
      then have "\<And>p. p \<in> set (subqueries w) \<Longrightarrow> lower p = lower' p" "\<And>p. p \<in> set (subqueries t) \<Longrightarrow> lower p = lower' p"
        using 8(5) by blast+
      then show ?thesis
        using 8(2) [OF b, of w t] 8(3) [OF b, of w t] Pair by simp
    qed
    then have "map_res (\<lambda>(w, t). bind_res (bind_with lower w sc) (\<lambda>w'. bind_res (bind_with lower t sc) (\<lambda>t'. Inr (w', t')))) branches
      = map_res (\<lambda>(w, t). bind_res (bind_with lower' w sc) (\<lambda>w'. bind_res (bind_with lower' t sc) (\<lambda>t'. Inr (w', t')))) branches"
      by (intro map_res_cong) (auto split: prod.splits)
    ultimately show ?case
      by simp
  next
    case (10 lower' f args sc)
    have "map_res (\<lambda>a. bind_with lower a sc) args = map_res (\<lambda>a. bind_with lower' a sc) args"
      using 10 by (intro map_res_cong) auto
    then show ?case
      by simp
  next
    case (11 lower' e subquery negated sc)
    then show ?case
      by (cases "lower' subquery") auto
  qed auto
  then show ?thesis
    using assms by simp
qed

section \<open>Access paths\<close>

text \<open>What the planner reads of the catalog, which does not change while a statement is planned.\<close>

record planner_env =
  indexes_for :: "u32 \<Rightarrow> index_def list res"
  table_id_of :: "string \<Rightarrow> string \<Rightarrow> u32 option res"
  table_schema_of :: "u32 \<Rightarrow> schema res"

definition index_equality :: "expr \<Rightarrow> scope \<Rightarrow> (nat \<times> val) option" where
  "index_equality e sc =
     (let probe = (\<lambda>reference v.
        if is_null v then None
        else case resolve sc reference of
               Inl _ \<Rightarrow> None
             | Inr i \<Rightarrow>
                 (case column_at sc i of
                    Inl _ \<Rightarrow> None
                  | Inr c \<Rightarrow>
                      (case coerce (ELiteral v) (col_data_type c) of
                         Inr (ELiteral key) \<Rightarrow> Some (i, key)
                       | _ \<Rightarrow> None)))
      in case e of
           EBinary (EColumn r) OpEq (ELiteral v) \<Rightarrow> probe r v
         | EBinary (ELiteral v) OpEq (EColumn r) \<Rightarrow> probe r v
         | _ \<Rightarrow> None)"

text \<open>\<open>max_by_key\<close> keeps the last of the greatest elements.\<close>

definition pick_index :: "index_def list \<Rightarrow> string \<Rightarrow> index_def option" where
  "pick_index indexes column =
     foldl (\<lambda>best i. case best of None \<Rightarrow> Some i | Some b \<Rightarrow> if idx_unique b \<and> \<not> idx_unique i then Some b else Some i)
       None (filter (\<lambda>i. idx_columns i = [column]) indexes)"

fun first_probe :: "index_def list \<Rightarrow> schema \<Rightarrow> scope \<Rightarrow> nat \<Rightarrow> expr list \<Rightarrow> (nat \<times> index_def \<times> nat \<times> val) option res" where
  "first_probe indexes s sc pos [] = Inr None"
| "first_probe indexes s sc pos (e # es) =
     (case index_equality e sc of
        None \<Rightarrow> first_probe indexes s sc (Suc pos) es
      | Some (column, key) \<Rightarrow>
          if length (schema_columns s) \<le> column then Inl Panic
          else (case pick_index indexes (col_name (schema_columns s ! column)) of
                  None \<Rightarrow> first_probe indexes s sc (Suc pos) es
                | Some index \<Rightarrow> Inr (Some (pos, index, column, key))))"

definition access_path ::
  "planner_env \<Rightarrow> (logical_plan \<Rightarrow> physical_plan res) \<Rightarrow> table_source \<Rightarrow> expr option \<Rightarrow> scope \<Rightarrow> physical_plan res" where
  "access_path env lower source filt sc =
     (let conjuncts = conjuncts_of filt
      in bind_res (indexes_for env (src_id source)) (\<lambda>indexes.
           bind_res (first_probe indexes (src_schema source) sc 0 conjuncts) (\<lambda>chosen.
             case chosen of
               Some (pos, index, column, key) \<Rightarrow>
                 bind_res (opt_res (\<lambda>e. bind_with lower e sc)
                     (combine_conjunction (take pos conjuncts @ drop (Suc pos) conjuncts))) (\<lambda>residual.
                   Inr (IndexScan (src_id source) (src_name source) (src_schema source) (idx_name index) column
                     (PLiteral key) residual))
             | None \<Rightarrow>
                 bind_res (opt_res (\<lambda>e. bind_with lower e sc) (combine_conjunction conjuncts)) (\<lambda>filt'.
                   Inr (SeqScan (src_id source) (src_name source) (src_schema source) filt')))))"

definition unique_keys :: "planner_env \<Rightarrow> u32 \<Rightarrow> schema \<Rightarrow> unique_key list res" where
  "unique_keys env table s =
     bind_res (indexes_for env table) (\<lambda>indexes.
       Inr (List.map_filter (\<lambda>index.
         if \<not> idx_unique index then None
         else let positions = map (column_index s) (idx_columns index)
              in if None \<notin> set positions \<and> positions \<noteq> []
                 then Some \<lparr>uk_name = idx_name index, uk_columns = map the positions\<rparr> else None) indexes))"

fun bind_on_conflict :: "expr on_conflict \<Rightarrow> scope \<Rightarrow> phys_on_conflict res" where
  "bind_on_conflict (OnConflict target ConflictNothing) sc = Inr (OnConflict target ConflictNothing)"
| "bind_on_conflict (OnConflict target (ConflictUpdate assignments selection)) sc =
     bind_res (map_res (\<lambda>(i, e). bind_res (bind_names e sc) (\<lambda>e'. Inr (i, e'))) assignments) (\<lambda>assignments'.
       bind_res (opt_res (\<lambda>e. bind_names e sc) selection) (\<lambda>selection'.
         Inr (OnConflict target (ConflictUpdate assignments' selection'))))"

definition check_row_identity :: "physical_plan \<Rightarrow> string \<Rightarrow> physical_plan res" where
  "check_row_identity p table =
     (if preserves_row_identity p then Inr p
      else Inl (Err (Plan (''UPDATE/DELETE on '' @ table @ '' needs a source that preserves row identity''))))"

lemma access_path_cong [fundef_cong]:
  assumes "env = env'" and "source = source'" and "filt = filt'" and "sc = sc'"
    and "\<And>p. p \<in> set (case filt' of None \<Rightarrow> [] | Some e \<Rightarrow> subqueries e) \<Longrightarrow> lower p = lower' p"
  shows "access_path env lower source filt sc = access_path env' lower' source' filt' sc'"
proof -
  have sub: "set (concat (map subqueries (conjuncts_of filt'))) = set (case filt' of None \<Rightarrow> [] | Some e \<Rightarrow> subqueries e)"
    by (auto simp: conjuncts_of_def subqueries_split simp del: set_concat split: option.splits)
  have "opt_res (\<lambda>e. bind_with lower e sc') (combine_conjunction es) = opt_res (\<lambda>e. bind_with lower' e sc') (combine_conjunction es)"
    if "set es \<subseteq> set (conjuncts_of filt')" for es
  proof (intro opt_res_cong bind_with_cong refl)
    fix e p
    assume "e \<in> set_option (combine_conjunction es)" and "p \<in> set (subqueries e)"
    then have "p \<in> set (concat (map subqueries es))"
      using subqueries_combine [of es e] by auto
    then have "p \<in> set (concat (map subqueries (conjuncts_of filt')))"
      using that by auto
    then show "lower p = lower' p"
      using assms(5) sub by blast
  qed
  moreover have "set (take n es @ drop (Suc n) es) \<subseteq> set es" for n and es :: "expr list"
    by (auto dest: in_set_takeD in_set_dropD)
  ultimately show ?thesis
    unfolding access_path_def assms(1-4) Let_def by (simp cong: option.case_cong)
qed

section \<open>Lowering\<close>

definition bind_aggregate :: "(expr \<Rightarrow> phys_expr res) \<Rightarrow> expr aggregate_call \<Rightarrow> phys_aggregate res" where
  "bind_aggregate b call =
     bind_res (opt_res b (ac_arg call)) (\<lambda>arg. Inr (AggregateCall (ac_func call) arg (ac_distinct call)))"

definition bind_sort_key :: "(expr \<Rightarrow> phys_expr res) \<Rightarrow> expr sort_key \<Rightarrow> phys_sort_key res" where
  "bind_sort_key b key =
     bind_res (b (sk_expr key)) (\<lambda>e. Inr (SortKey e (sk_asc key) (sk_nulls_first key)))"

definition bind_item ::
  "(expr \<Rightarrow> phys_expr res) \<Rightarrow> scope \<Rightarrow> expr projection_item \<Rightarrow> (phys_expr \<times> column_def) res" where
  "bind_item b sc item =
     bind_res (b (pi_expr item)) (\<lambda>e. bind_res (infer (pi_expr item) sc) (\<lambda>(t, n).
       Inr (e, column_def_new (pi_output_name item) t n)))"

definition conflict_scope :: "table_source \<Rightarrow> scope" where
  "conflict_scope source =
     for_relation (src_schema source) [src_name source] @ for_relation (src_schema source) [''excluded'']"

definition join_scope :: "join_type \<Rightarrow> scope \<Rightarrow> scope \<Rightarrow> scope" where
  "join_scope j ls rs =
     (if preserves_right j then scope_nullable ls else ls) @ (if preserves_left j then scope_nullable rs else rs)"

lemma bind_aggregate_cong [fundef_cong]:
  "call = call' \<Longrightarrow> (\<And>e. ac_arg call' = Some e \<Longrightarrow> b e = b' e) \<Longrightarrow> bind_aggregate b call = bind_aggregate b' call'"
  by (cases "ac_arg call'") (auto simp: bind_aggregate_def opt_res_def)

lemma bind_sort_key_cong [fundef_cong]:
  "key = key' \<Longrightarrow> b (sk_expr key') = b' (sk_expr key') \<Longrightarrow> bind_sort_key b key = bind_sort_key b' key'"
  by (auto simp: bind_sort_key_def)

lemma bind_item_cong [fundef_cong]:
  "item = item' \<Longrightarrow> sc = sc' \<Longrightarrow> b (pi_expr item') = b' (pi_expr item') \<Longrightarrow> bind_item b sc item = bind_item b' sc' item'"
  by (auto simp: bind_item_def)

text \<open>\<open>row_identity_source\<close> and \<open>to_physical\<close> are the calls of \<open>lower_plan\<close> whose scope is dropped.\<close>

definition just_plan :: "(physical_plan \<times> scope) res \<Rightarrow> physical_plan res" where
  "just_plan r = bind_res r (\<lambda>(p, _). Inr p)"

function (sequential) lower_plan :: "planner_env \<Rightarrow> logical_plan \<Rightarrow> (physical_plan \<times> scope) res" where
  "lower_plan env (LScan source filt) =
     (let sc = for_relation (src_schema source) (qualifiers source)
      in bind_res (access_path env (\<lambda>p. just_plan (lower_plan env p)) source filt sc) (\<lambda>p. Inr (p, sc)))"
| "lower_plan env (LJoin left right j on) =
     bind_res (lower_plan env left) (\<lambda>(lp, ls). bind_res (lower_plan env right) (\<lambda>(rp, rs).
       let sc = join_scope j ls rs
       in bind_res (opt_res (\<lambda>e. bind_with (\<lambda>p. just_plan (lower_plan env p)) e sc) on) (\<lambda>predicate.
            Inr (NestedLoopJoin lp rp j predicate (scope_schema sc), sc))))"
| "lower_plan env (LFilter input predicate) =
     bind_res (lower_plan env input) (\<lambda>(p, sc).
       bind_res (bind_with (\<lambda>p. just_plan (lower_plan env p)) predicate sc) (\<lambda>e. Inr (PFilter p e, sc)))"
| "lower_plan env (LAggregate input group_by aggregates) =
     bind_res (lower_plan env input) (\<lambda>(p, sc).
       bind_res (aggregate_schema group_by aggregates sc) (\<lambda>out.
         bind_res (map_res (\<lambda>e. bind_with (\<lambda>p. just_plan (lower_plan env p)) e sc) group_by) (\<lambda>keys.
           bind_res (map_res (bind_aggregate (\<lambda>e. bind_with (\<lambda>p. just_plan (lower_plan env p)) e sc)) aggregates)
             (\<lambda>calls. Inr (PAggregate p keys calls out, anonymous out)))))"
| "lower_plan env (LProjection input items) =
     bind_res (lower_plan env input) (\<lambda>(p, sc).
       bind_res (map_res (bind_item (\<lambda>e. bind_with (\<lambda>p. just_plan (lower_plan env p)) e sc) sc) items) (\<lambda>bound.
         let out = \<lparr>schema_columns = map snd bound\<rparr>
         in Inr (PProjection p (map fst bound) out, anonymous out)))"
| "lower_plan env (LSort input keys) =
     bind_res (lower_plan env input) (\<lambda>(p, sc).
       bind_res (map_res (bind_sort_key (\<lambda>e. bind_with (\<lambda>p. just_plan (lower_plan env p)) e sc)) keys) (\<lambda>keys'.
         Inr (PSort p keys', sc)))"
| "lower_plan env (LDistinct input) = bind_res (lower_plan env input) (\<lambda>(p, sc). Inr (PDistinct p, sc))"
| "lower_plan env (LLimit input count offset) =
     bind_res (lower_plan env input) (\<lambda>(p, sc). Inr (PLimit p count offset, sc))"
| "lower_plan env (LInsert source rows on_conflict) =
     bind_res (map_res (map_res (\<lambda>e. bind_names e [])) rows) (\<lambda>rows'.
       bind_res (opt_res (\<lambda>c. bind_on_conflict c (conflict_scope source)) on_conflict) (\<lambda>on_conflict'.
         bind_res (unique_keys env (src_id source) (src_schema source)) (\<lambda>unique.
           Inr (PInsert (src_id source) (src_name source) (src_schema source) rows' on_conflict' unique, []))))"
| "lower_plan env (LUpdate source input assignments) =
     bind_res (just_plan (lower_plan env input)) (\<lambda>p.
       bind_res (check_row_identity p (src_name source)) (\<lambda>p.
         bind_res (map_res (\<lambda>(i, e). bind_res (bind_names e (for_relation (src_schema source) (qualifiers source)))
             (\<lambda>e'. Inr (i, e'))) assignments) (\<lambda>assignments'.
           bind_res (unique_keys env (src_id source) (src_schema source)) (\<lambda>unique.
             Inr (PUpdate (src_id source) (src_name source) (src_schema source) p assignments' unique, [])))))"
| "lower_plan env (LDelete source input) =
     bind_res (just_plan (lower_plan env input)) (\<lambda>p.
       bind_res (check_row_identity p (src_name source)) (\<lambda>p.
         Inr (PDelete (src_id source) (src_name source) (src_schema source) p, [])))"
| "lower_plan env (LCall name args) =
     bind_res (map_res (\<lambda>e. bind_names e []) args) (\<lambda>args'. Inr (CallProcedure name args', []))"
  by pat_completeness auto

lemma aggregate_arg_size:
  "call \<in> set calls \<Longrightarrow> ac_arg call = Some e \<Longrightarrow> size e \<le> size_list (size_aggregate_call size) calls"
  using size_list_member [of call calls "size_aggregate_call size"] by (cases call) auto

lemma item_size: "item \<in> set items \<Longrightarrow> size (pi_expr item) \<le> size_list (size_projection_item size) items"
  using size_list_member [of item items "size_projection_item size"] by (cases item) auto

lemma key_size: "key \<in> set keys \<Longrightarrow> size (sk_expr key) \<le> size_list (size_sort_key size) keys"
  using size_list_member [of key keys "size_sort_key size"] by (cases key) auto

termination lower_plan
proof (relation "measure (\<lambda>(env, p). size p)", goal_cases)
  case (2 env source filt sc p)
  then show ?case
    by (auto dest: subqueries_size split: option.splits)
qed (auto dest!: subqueries_size dest: aggregate_arg_size item_size key_size size_list_member [of _ _ size])

definition to_physical :: "planner_env \<Rightarrow> logical_plan \<Rightarrow> physical_plan res" where
  "to_physical env p = just_plan (lower_plan env p)"

end
