(* ===== verification/Build.thy ===== *)
theory Build
  imports Ast Lowering Subquery
begin

text \<open>
  From syntax trees to logical plans: lowering of expressions (ferrite-planner/src/lower.rs) and the
  \<open>build_\<close> functions (planner.rs). \<open>datetime(..)\<close> over literals is folded while lowering and
  \<open>CURRENT_TIMESTAMP\<close> defaults are read from the clock, so these run in the monad of expression evaluation.
\<close>

section \<open>Lowering expressions\<close>

definition unsupported :: "string \<Rightarrow> failure" where
  "unsupported what = Err (Plan (what @ '' is not supported by the v1 planner''))"

datatype collation = BinaryCollation | NocaseCollation

definition ascii_lower :: "string \<Rightarrow> string" where
  "ascii_lower s = string_of_bytes (to_ascii_lowercase (byte_string s))"

definition collation_kind :: "string \<Rightarrow> collation res" where
  "collation_kind name =
     (if ascii_lower name = ''nocase'' then Inr NocaseCollation
      else if ascii_lower name = ''binary'' then Inr BinaryCollation
      else Inl (unsupported (''the collation '' @ name)))"

definition folds_case :: "sql_expr \<Rightarrow> bool res" where
  "folds_case e =
     (case e of
        SCollate _ collation \<Rightarrow> bind_res (collation_kind collation) (\<lambda>k. Inr (k = NocaseCollation))
      | _ \<Rightarrow> Inr False)"

text \<open>\<open>folds_case(left)? || folds_case(right)?\<close>.\<close>

definition either_folds :: "sql_expr \<Rightarrow> sql_expr \<Rightarrow> bool res" where
  "either_folds l r = bind_res (folds_case l) (\<lambda>a. if a then Inr True else folds_case r)"

fun literal_values :: "expr list \<Rightarrow> val list option" where
  "literal_values [] = Some []"
| "literal_values (ELiteral v # es) = map_option ((#) v) (literal_values es)"
| "literal_values (_ # es) = None"

definition fold_temporal :: "scalar_func \<Rightarrow> expr list \<Rightarrow> val option ev" where
  "fold_temporal f args =
     (if f = DatetimeFn \<or> f = DateFn then
        case literal_values args of
          None \<Rightarrow> ret_op None
        | Some vs \<Rightarrow> bind_op now_micros (\<lambda>now.
            bind_op (lift_op (eval_datetime now vs (f = DatetimeFn))) (\<lambda>v. ret_op (Some v)))
      else ret_op None)"

definition fold_case :: "expr \<Rightarrow> expr" where
  "fold_case e = (case e of EFunction Nocase _ \<Rightarrow> e | _ \<Rightarrow> EFunction Nocase [e])"

text \<open>
  The lowerer. \<open>lw_show\<close> is the \<open>Debug\<close> rendering of a value, which error messages quote;
  \<open>lw_subqueries\<close> is set where a subquery is legal.
\<close>

record lowerer =
  lw_params :: "val list"
  lw_qualifiers :: "string list"
  lw_aggregates :: "(sql_expr function_call list \<times> nat) option"
  lw_subqueries :: "(sql_query \<Rightarrow> logical_plan ev) option"
  lw_show :: "val \<Rightarrow> string"

definition negate :: "(val \<Rightarrow> string) \<Rightarrow> val \<Rightarrow> val res" where
  "negate show_val v =
     (case v of
        VInt4 n \<Rightarrow> Inr (VInt4 (- n))
      | VInt8 n \<Rightarrow> Inr (VInt8 (- n))
      | VFloat8 f \<Rightarrow> Inr (VFloat8 (f64_neg f))
      | other \<Rightarrow> Inl (Err (Plan (''cannot negate '' @ show_val other))))"

definition lower_column :: "lowerer \<Rightarrow> object_name \<Rightarrow> expr res" where
  "lower_column lw name =
     (case name_qualifier name of
        None \<Rightarrow> Inr (EColumn (column_ref_new (name_base name)))
      | Some q \<Rightarrow>
          if lw_qualifiers lw = [] then
            Inl (Err (Plan (''column reference '' @ q @ ''.'' @ name_base name @ '' has no relation in scope'')))
          else if q \<notin> set (lw_qualifiers lw) then
            Inl (Err (Plan (''no relation named '' @ q @ '' in this statement'')))
          else Inr (EColumn (column_ref_qualified q (name_base name))))"

definition lower_parameter :: "lowerer \<Rightarrow> u32 \<Rightarrow> val res" where
  "lower_parameter lw n =
     (if n = 0 then Inl (Err (Plan (''invalid parameter $'' @ dec_string (unat n))))
      else if unat n - 1 < length (lw_params lw) then Inr (lw_params lw ! (unat n - 1))
      else Inl (Err (Plan (''$'' @ dec_string (unat n) @ '' has no bound value''))))"

text \<open>\<open>balanced_or\<close>, the same loop as in the executor's \<open>value_test\<close>.\<close>

fun or_pairs_logical :: "expr list \<Rightarrow> expr list" where
  "or_pairs_logical (l # r # es) = EBinary l OpOr r # or_pairs_logical es"
| "or_pairs_logical es = es"

lemma or_pairs_logical_length: "length (or_pairs_logical es) = (length es + 1) div 2"
  by (induction es rule: or_pairs_logical.induct) auto

function or_tree_logical :: "expr list \<Rightarrow> expr list" where
  "or_tree_logical es = (if 1 < length es then or_tree_logical (or_pairs_logical es) else es)"
  by pat_completeness auto
termination
  by (relation "measure length") (auto simp: or_pairs_logical_length)

declare or_tree_logical.simps [simp del]

definition balanced_or :: "expr list \<Rightarrow> expr" where
  "balanced_or tests = (case or_tree_logical tests of [] \<Rightarrow> ELiteral (VBoolean False) | es \<Rightarrow> last es)"

definition negated_if :: "bool \<Rightarrow> expr \<Rightarrow> expr" where
  "negated_if negated e = (if negated then ENot e else e)"

text \<open>The call of a scalar function or of an aggregate, given the lowering of the arguments.\<close>

definition lower_call ::
  "(sql_expr \<Rightarrow> expr ev) \<Rightarrow> lowerer \<Rightarrow> sql_expr function_call \<Rightarrow> expr ev" where
  "lower_call lower lw call =
     (if \<not> is_aggregate (fc_name call) then
        (case scalar_parse (fc_name call) of
           None \<Rightarrow> lift_op (Inl (unsupported (''the function '' @ fc_name call)))
         | Some f \<Rightarrow>
             (case fc_args call of
                ArgsWildcard \<Rightarrow>
                  lift_op (Inl (Err (Plan (fc_name call @ ''(*) is not a valid call; `*` is only an argument to count()''))))
              | ArgsList args \<Rightarrow>
                  if fc_distinct call then
                    lift_op (Inl (Err (Plan (''DISTINCT is only meaningful inside an aggregate, not in '' @ fc_name call @ ''()''))))
                  else bind_op (lift_op (check_arity f (length args))) (\<lambda>_.
                    bind_op (map_op lower args) (\<lambda>args'.
                      bind_op (fold_temporal f args') (\<lambda>folded.
                        ret_op (case folded of Some v \<Rightarrow> ELiteral v | None \<Rightarrow> EFunction f args'))))))
      else
        (case lw_aggregates lw of
           None \<Rightarrow>
             lift_op (Inl (Err (Plan (fc_name call @ ''() is only allowed in a select list, HAVING or ORDER BY''))))
         | Some (calls, offset) \<Rightarrow>
             (case position (\<lambda>c. c = call) calls of
                None \<Rightarrow> lift_op (Inl Panic)
              | Some i \<Rightarrow> ret_op (ESlot (offset + i)))))"

definition call_args :: "sql_expr function_call \<Rightarrow> sql_expr list" where
  "call_args call = (case fc_args call of ArgsWildcard \<Rightarrow> [] | ArgsList args \<Rightarrow> args)"

lemma lower_call_cong [fundef_cong]:
  assumes "lw = lw'" and "call = call'" and "\<And>a. a \<in> set (call_args call') \<Longrightarrow> f a = g a"
  shows "lower_call f lw call = lower_call g lw' call'"
proof -
  have "fc_args call' = ArgsList args \<Longrightarrow> map_op f args = map_op g args" for args
    using assms(3) by (intro map_op_cong) (auto simp: call_args_def)
  then show ?thesis
    unfolding assms(1,2) lower_call_def by (auto split: option.splits function_args.splits)
qed

function (sequential) lower_expr :: "lowerer \<Rightarrow> sql_expr \<Rightarrow> expr ev" where
  "lower_expr lw (SLiteral l) = ret_op (ELiteral (literal_value l))"
| "lower_expr lw (SColumn name) = lift_op (lower_column lw name)"
| "lower_expr lw (SParameter n) = bind_op (lift_op (lower_parameter lw n)) (\<lambda>v. ret_op (ELiteral v))"
| "lower_expr lw (SUnary op e) =
     (case op of
        UNot \<Rightarrow> bind_op (lower_expr lw e) (\<lambda>e'. ret_op (ENot e'))
      | UPlus \<Rightarrow> lower_expr lw e
      | UMinus \<Rightarrow> bind_op (lower_expr lw e) (\<lambda>e'.
          case e' of
            ELiteral v \<Rightarrow> bind_op (lift_op (negate (lw_show lw) v)) (\<lambda>v'. ret_op (ELiteral v'))
          | other \<Rightarrow> ret_op (EBinary (ELiteral (VInt4 0)) OpMinus other)))"
| "lower_expr lw (SBinary l op r) =
     bind_op (lower_expr lw l) (\<lambda>l'. bind_op (lower_expr lw r) (\<lambda>r'.
       bind_op (if is_comparison op then lift_op (either_folds l r) else ret_op False) (\<lambda>fold.
         ret_op (if fold then EBinary (fold_case l') op (fold_case r') else EBinary l' op r'))))"
| "lower_expr lw (SIsNull e negated) = bind_op (lower_expr lw e) (\<lambda>e'. ret_op (negated_if negated (EIsNull e')))"
| "lower_expr lw (SBetween e negated low high) =
     bind_op (lower_expr lw e) (\<lambda>subject. bind_op (lower_expr lw low) (\<lambda>low'. bind_op (lower_expr lw high) (\<lambda>high'.
       ret_op (negated_if negated (expr_and (EBinary subject OpGtEq low') (EBinary subject OpLtEq high'))))))"
| "lower_expr lw (SInList e items negated) =
     (if items = [] then lift_op (Inl (unsupported ''an empty IN list''))
      else bind_op (lower_expr lw e) (\<lambda>subject. bind_op (map_op (lower_expr lw) items) (\<lambda>items'.
        ret_op (negated_if negated (balanced_or (map (expr_eq subject) items'))))))"
| "lower_expr lw (SLike e p negated ci) =
     bind_op (lift_op (either_folds e p)) (\<lambda>nocase. bind_op (lower_expr lw e) (\<lambda>e'. bind_op (lower_expr lw p) (\<lambda>p'.
       ret_op (ELike e' p' negated (ci \<or> nocase)))))"
| "lower_expr lw (SCollate e collation) =
     bind_op (lower_expr lw e) (\<lambda>e'. bind_op (lift_op (collation_kind collation)) (\<lambda>k.
       ret_op (case k of BinaryCollation \<Rightarrow> e' | NocaseCollation \<Rightarrow> EFunction Nocase [e'])))"
| "lower_expr lw (SCast e t) = bind_op (lower_expr lw e) (\<lambda>e'. ret_op (ECast e' t))"
| "lower_expr lw (SCase operand branches else_result) =
     bind_op (opt_op (lower_expr lw) operand) (\<lambda>operand'.
       bind_op (map_op (\<lambda>b. bind_op (lower_expr lw (fst b)) (\<lambda>w. bind_op (lower_expr lw (snd b)) (\<lambda>t. ret_op (w, t))))
           branches) (\<lambda>branches'.
         bind_op (opt_op (lower_expr lw) else_result) (\<lambda>else'. ret_op (ECase operand' branches' else'))))"
| "lower_expr lw (SFunction call) = lower_call (lower_expr lw) lw call"
| "lower_expr lw (SInSubquery e q negated) =
     (case lw_subqueries lw of
        None \<Rightarrow> lift_op (Inl (unsupported ''a subquery here''))
      | Some build \<Rightarrow> bind_op (lower_expr lw e) (\<lambda>e'. bind_op (build q) (\<lambda>p. ret_op (EInSubquery e' p negated))))"
| "lower_expr lw (SSubquery q) = lift_op (Inl (unsupported ''a scalar subquery''))"
| "lower_expr lw (SExists q negated) = lift_op (Inl (unsupported ''EXISTS''))"
  by pat_completeness auto

lemma call_args_size: "a \<in> set (call_args call) \<Longrightarrow> size a < Suc (size_function_call size call)"
  using size_list_mem [of a "call_args call" size] by (cases call; cases "fc_args call") (auto simp: call_args_def)

termination lower_expr
  by (relation "measure (\<lambda>(lw, e). size e)")
    (auto dest: call_args_size pair_size size_list_mem [of _ _ size])

section \<open>Aggregates\<close>

text \<open>\<open>walk\<close>: an expression and its parts, in the order they are visited. Subqueries are not entered.\<close>

function (sequential) walk :: "sql_expr \<Rightarrow> sql_expr list" where
  "walk (SUnary op e) = SUnary op e # walk e"
| "walk (SIsNull e n) = SIsNull e n # walk e"
| "walk (SCast e t) = SCast e t # walk e"
| "walk (SCollate e c) = SCollate e c # walk e"
| "walk (SInSubquery e q n) = SInSubquery e q n # walk e"
| "walk (SBinary l op r) = SBinary l op r # walk l @ walk r"
| "walk (SBetween e n low high) = SBetween e n low high # walk e @ walk low @ walk high"
| "walk (SInList e items n) = SInList e items n # walk e @ concat (map walk items)"
| "walk (SLike e p n ci) = SLike e p n ci # walk e @ walk p"
| "walk (SCase operand branches else_result) =
     SCase operand branches else_result
     # (case operand of None \<Rightarrow> [] | Some e \<Rightarrow> walk e)
     @ (case else_result of None \<Rightarrow> [] | Some e \<Rightarrow> walk e)
     @ concat (map (\<lambda>b. walk (fst b) @ walk (snd b)) branches)"
| "walk (SFunction call) = SFunction call # concat (map walk (call_args call))"
| "walk e = [e]"
  by pat_completeness auto
termination walk
  by (relation "measure size") (auto dest: call_args_size pair_size size_list_mem [of _ _ size])

definition contains_aggregate :: "sql_expr \<Rightarrow> bool" where
  "contains_aggregate e \<longleftrightarrow>
     list_ex (\<lambda>x. case x of SFunction call \<Rightarrow> is_aggregate (fc_name call) | _ \<Rightarrow> False) (walk e)"

fun collect_from :: "sql_expr list \<Rightarrow> sql_expr function_call list \<Rightarrow> sql_expr function_call list res" where
  "collect_from [] out = Inr out"
| "collect_from (SFunction call # es) out =
     (if is_aggregate (fc_name call) then
        if list_ex contains_aggregate (call_args call) then Inl (unsupported ''an aggregate inside another aggregate'')
        else collect_from es (if call \<in> set out then out else out @ [call])
      else collect_from es out)"
| "collect_from (_ # es) out = collect_from es out"

definition collect_aggregates ::
  "sql_expr \<Rightarrow> sql_expr function_call list \<Rightarrow> sql_expr function_call list res" where
  "collect_aggregates e out = collect_from (walk e) out"

fun collect_all :: "sql_expr list \<Rightarrow> sql_expr function_call list \<Rightarrow> sql_expr function_call list res" where
  "collect_all [] out = Inr out"
| "collect_all (e # es) out = bind_res (collect_aggregates e out) (collect_all es)"

text \<open>Replacing the group keys above an \<open>Aggregate\<close> node.\<close>

function (sequential) substitute_group_keys :: "expr list \<Rightarrow> expr \<Rightarrow> expr" where
  "substitute_group_keys keys e =
     (case position (\<lambda>k. k = e) keys of
        Some i \<Rightarrow> ESlot i
      | None \<Rightarrow>
          (case e of
             EBinary l op r \<Rightarrow> EBinary (substitute_group_keys keys l) op (substitute_group_keys keys r)
           | ENot x \<Rightarrow> ENot (substitute_group_keys keys x)
           | EIsNull x \<Rightarrow> EIsNull (substitute_group_keys keys x)
           | ELike x p n ci \<Rightarrow> ELike (substitute_group_keys keys x) (substitute_group_keys keys p) n ci
           | ECast x t \<Rightarrow> ECast (substitute_group_keys keys x) t
           | EFunction f args \<Rightarrow> EFunction f (map (substitute_group_keys keys) args)
           | ECase operand branches else_result \<Rightarrow>
               ECase (map_option (substitute_group_keys keys) operand)
                 (map (\<lambda>b. (substitute_group_keys keys (fst b), substitute_group_keys keys (snd b))) branches)
                 (map_option (substitute_group_keys keys) else_result)
           | other \<Rightarrow> other))"
  by pat_completeness auto
termination substitute_group_keys
  by (relation "measure (\<lambda>(keys, e). size e)")
    (auto dest: pair_size size_list_mem [of _ _ size] split: option.splits)

declare substitute_group_keys.simps [simp del]

definition reject_ungrouped :: "expr \<Rightarrow> unit res" where
  "reject_ungrouped e =
     (case referenced_columns e of
        [] \<Rightarrow> Inr ()
      | r # _ \<Rightarrow> Inl (Err (Plan (column_ref_text r @
          '' must appear in the GROUP BY clause or be used in an aggregate function''))))"

definition lower_aggregate :: "lowerer \<Rightarrow> sql_expr function_call \<Rightarrow> expr aggregate_call ev" where
  "lower_aggregate lw call =
     bind_op (lift_op (ok_or (aggregate_parse (fc_name call)) (unsupported (''the aggregate '' @ fc_name call)))) (\<lambda>f.
       bind_op (case fc_args call of
           ArgsWildcard \<Rightarrow>
             if f \<noteq> AggCount then lift_op (Inl (Err (Plan (fc_name call @ ''(*) is not defined; only count(*) is''))))
             else ret_op None
         | ArgsList [only] \<Rightarrow> bind_op (lower_expr lw only) (\<lambda>e. ret_op (Some e))
         | ArgsList _ \<Rightarrow> lift_op (Inl (Err (Plan (fc_name call @ ''() takes exactly one argument''))))) (\<lambda>arg.
         ret_op (AggregateCall f arg (fc_distinct call))))"

section \<open>The parts of a query\<close>

fun single_select :: "sql_query \<Rightarrow> (sql_expr, sql_query) select res"
  and set_select :: "set_expr \<Rightarrow> (sql_expr, sql_query) select res" where
  "single_select (Query with body order_by limit offset) =
     (if with \<noteq> [] then Inl (unsupported ''WITH (common table expressions)'') else set_select body)"
| "set_select (SetSelect s) = Inr s"
| "set_select (SetQuery q) = single_select q"
| "set_select (SetOp _ _ _ _) = Inl (unsupported ''UNION/INTERSECT/EXCEPT'')"

definition row_count :: "sql_expr option \<Rightarrow> lowerer \<Rightarrow> string \<Rightarrow> u64 option ev" where
  "row_count e lw clause =
     (let bad = Err (Plan (clause @ '' must be a non-negative integer constant''));
          count = (\<lambda>n. if n < 0 then lift_op (Inl bad) else ret_op (Some (word_of_int n)))
      in case e of
           None \<Rightarrow> ret_op None
         | Some e \<Rightarrow> bind_op (lower_expr lw e) (\<lambda>e'.
             case e' of
               ELiteral (VInt4 n) \<Rightarrow> count (sint n)
             | ELiteral (VInt8 n) \<Rightarrow> count (sint n)
             | ELiteral VNull \<Rightarrow> ret_op None
             | _ \<Rightarrow> lift_op (Inl bad)))"

definition expand_items :: "nat list \<Rightarrow> scope \<Rightarrow> expr projection_item list res" where
  "expand_items positions sc =
     map_res (\<lambda>i. bind_res (column_at sc i) (\<lambda>c. Inr (ProjectionItem (ESlot i) (col_name c)))) positions"

definition output_name :: "sql_expr \<Rightarrow> string" where
  "output_name e =
     (case e of
        SColumn name \<Rightarrow> name_base name
      | SFunction call \<Rightarrow> fc_name call
      | SCast _ t \<Rightarrow> ascii_lower (data_type_debug t)
      | _ \<Rightarrow> ''?column?'')"

definition select_items ::
  "scope \<Rightarrow> bool \<Rightarrow> (sql_expr \<Rightarrow> expr ev) \<Rightarrow> sql_expr select_item \<Rightarrow> expr projection_item list ev" where
  "select_items sc grouped rewrite item =
     (let no_star = lift_op (Inl (Err (Plan ''* cannot be used with GROUP BY or an aggregate'')))
      in case item of
           SelWildcard \<Rightarrow> if grouped then no_star else lift_op (expand_items [0..<length sc] sc)
         | SelQualified name \<Rightarrow>
             if grouped then no_star
             else if positions_for sc (name_base name) = [] then
               lift_op (Inl (Err (Plan (''no relation named '' @ name_base name @ '' in this statement''))))
             else lift_op (expand_items (positions_for sc (name_base name)) sc)
         | SelExpr e alias \<Rightarrow> bind_op (rewrite e) (\<lambda>e'.
             ret_op [ProjectionItem e' (case alias of Some a \<Rightarrow> a | None \<Rightarrow> output_name e)]))"

definition projection_items ::
  "sql_expr select_item list \<Rightarrow> scope \<Rightarrow> bool \<Rightarrow> (sql_expr \<Rightarrow> expr ev) \<Rightarrow> expr projection_item list option ev" where
  "projection_items projection sc grouped rewrite =
     (if projection = [] then lift_op (Inl (Err (Plan ''empty SELECT list'')))
      else if projection = [SelWildcard] \<and> \<not> grouped then ret_op None
      else bind_op (map_op (select_items sc grouped rewrite) projection) (\<lambda>items. ret_op (Some (concat items))))"

definition select_list_reference :: "sql_expr \<Rightarrow> expr projection_item list option \<Rightarrow> expr option res" where
  "select_list_reference e items =
     (let items' = (case items of None \<Rightarrow> [] | Some is \<Rightarrow> is)
      in case e of
           SLiteral (LitInt n) \<Rightarrow>
             if 1 \<le> sint n \<and> sint n \<le> int (length items') then Inr (Some (pi_expr (items' ! (nat (sint n) - 1))))
             else Inl (Err (Plan (''ORDER BY position '' @ string_of_bytes (int_bytes (sint n)) @ '' is not in the select list'')))
         | SColumn name \<Rightarrow>
             if name_qualifier name = None
             then Inr (map_option pi_expr (find (\<lambda>i. pi_output_name i = name_base name) items'))
             else Inr None
         | _ \<Rightarrow> Inr None)"

definition sort_keys ::
  "sql_expr order_by_item list \<Rightarrow> expr projection_item list option \<Rightarrow> (sql_expr \<Rightarrow> expr ev) \<Rightarrow> expr sort_key list ev" where
  "sort_keys order_by items rewrite =
     map_op (\<lambda>item.
       bind_op (lift_op (select_list_reference (ob_expr item) items)) (\<lambda>found.
         bind_op (case found of Some e \<Rightarrow> ret_op e | None \<Rightarrow> rewrite (ob_expr item)) (\<lambda>e.
           ret_op (SortKey e (ob_asc item) (case ob_nulls_first item of Some b \<Rightarrow> b | None \<Rightarrow> \<not> ob_asc item))))) order_by"

fun aliased :: "string \<Rightarrow> sql_expr select_item list \<Rightarrow> sql_expr option" where
  "aliased name [] = None"
| "aliased name (SelExpr e (Some a) # items) = (if a = name then Some e else aliased name items)"
| "aliased name (_ # items) = aliased name items"

definition group_key :: "sql_expr \<Rightarrow> sql_expr select_item list \<Rightarrow> scope \<Rightarrow> lowerer \<Rightarrow> expr ev" where
  "group_key key projection from_scope lw =
     (case key of
        SColumn name \<Rightarrow>
          if name_qualifier name \<noteq> None \<or> can_resolve from_scope (column_ref_new (name_base name)) then lower_expr lw key
          else lower_expr lw (case aliased (name_base name) projection of Some e \<Rightarrow> e | None \<Rightarrow> key)
      | _ \<Rightarrow> lower_expr lw key)"

section \<open>FROM\<close>

definition DEFAULT_NAMESPACE :: string where
  "DEFAULT_NAMESPACE = ''public''"

record planner =
  pl_env :: planner_env
  pl_params :: "val list"
  pl_show :: "val \<Rightarrow> string"

definition plain_lowerer :: "planner \<Rightarrow> lowerer" where
  "plain_lowerer pl =
     \<lparr>lw_params = pl_params pl, lw_qualifiers = [], lw_aggregates = None, lw_subqueries = None, lw_show = pl_show pl\<rparr>"

definition resolve_table :: "planner \<Rightarrow> object_name \<Rightarrow> string option \<Rightarrow> table_source res" where
  "resolve_table pl table alias =
     (let (namespace, name) = name_split table DEFAULT_NAMESPACE
      in bind_res (table_id_of (pl_env pl) namespace name) (\<lambda>found.
           bind_res (ok_or found (Err (TableNotFound (namespace @ ''.'' @ name)))) (\<lambda>i.
             bind_res (table_schema_of (pl_env pl) i) (\<lambda>s.
               Inr \<lparr>src_id = i, src_name = name, src_alias = alias, src_schema = s\<rparr>))))"

definition using_predicate :: "string list \<Rightarrow> scope \<Rightarrow> scope \<Rightarrow> expr res" where
  "using_predicate columns left right =
     bind_res (map_res (\<lambda>name.
         bind_res (resolve left (column_ref_new name)) (\<lambda>i. bind_res (resolve right (column_ref_new name)) (\<lambda>j.
           Inr (expr_eq (ESlot i) (ESlot (length left + j)))))) columns) (\<lambda>conjuncts.
       ok_or (combine_conjunction conjuncts) (Err (Plan ''USING needs at least one column'')))"

definition table_factor_plan :: "planner \<Rightarrow> sql_query table_factor \<Rightarrow> (logical_plan \<times> string list) res" where
  "table_factor_plan pl factor =
     (case factor of
        TableName name alias \<Rightarrow>
          bind_res (resolve_table pl name alias) (\<lambda>source. Inr (LScan source None, qualifiers source))
      | Derived _ _ \<Rightarrow> Inl (unsupported ''a subquery in FROM''))"

definition join_condition ::
  "planner \<Rightarrow> string list \<Rightarrow> scope \<Rightarrow> scope \<Rightarrow> sql_expr join_constraint \<Rightarrow> expr option ev" where
  "join_condition pl quals left right constraint =
     (case constraint of
        JoinNone \<Rightarrow> ret_op None
      | JoinOn e \<Rightarrow>
          if contains_aggregate e then lift_op (Inl (unsupported ''an aggregate in a join condition''))
          else bind_op (lower_expr ((plain_lowerer pl)\<lparr>lw_qualifiers := quals\<rparr>) e) (\<lambda>e'. ret_op (Some e'))
      | JoinUsing columns \<Rightarrow> bind_op (lift_op (using_predicate columns left right)) (\<lambda>e. ret_op (Some e)))"

text \<open>\<open>plan.scope().expect(..)\<close>.\<close>

definition scope_of :: "logical_plan \<Rightarrow> scope res" where
  "scope_of p = ok_or (plan_scope p) Panic"

primrec add_joins ::
  "planner \<Rightarrow> (sql_expr, sql_query) join_clause list \<Rightarrow> logical_plan \<Rightarrow> string list \<Rightarrow> (logical_plan \<times> string list) ev" where
  "add_joins pl [] plan quals = ret_op (plan, quals)"
| "add_joins pl (join # joins) plan quals =
     bind_op (lift_op (table_factor_plan pl (jc_relation join))) (\<lambda>(right, right_quals).
       bind_op (lift_op (scope_of plan)) (\<lambda>left_scope. bind_op (lift_op (scope_of right)) (\<lambda>right_scope.
         bind_op (join_condition pl (quals @ right_quals) left_scope right_scope (jc_constraint join)) (\<lambda>on.
           add_joins pl joins (LJoin plan right (jc_type join) on) (quals @ right_quals)))))"

definition build_joins :: "planner \<Rightarrow> (sql_expr, sql_query) table_with_joins \<Rightarrow> (logical_plan \<times> string list) ev" where
  "build_joins pl item =
     bind_op (lift_op (table_factor_plan pl (tj_relation item))) (\<lambda>(plan, quals). add_joins pl (tj_joins item) plan quals)"

primrec cross_joins ::
  "planner \<Rightarrow> (sql_expr, sql_query) table_with_joins list \<Rightarrow> logical_plan \<Rightarrow> string list \<Rightarrow> (logical_plan \<times> string list) ev" where
  "cross_joins pl [] plan quals = ret_op (plan, quals)"
| "cross_joins pl (item # items) plan quals =
     bind_op (build_joins pl item) (\<lambda>(right, right_quals).
       cross_joins pl items (LJoin plan right JCross None) (quals @ right_quals))"

definition build_from ::
  "planner \<Rightarrow> (sql_expr, sql_query) table_with_joins list \<Rightarrow> (logical_plan \<times> string list) ev" where
  "build_from pl items =
     (case items of
        [] \<Rightarrow> lift_op (Inl (unsupported ''a SELECT without FROM''))
      | item # items' \<Rightarrow> bind_op (build_joins pl item) (\<lambda>(plan, quals). cross_joins pl items' plan quals))"

section \<open>SELECT\<close>

definition select_exprs :: "sql_expr select_item list \<Rightarrow> sql_expr list" where
  "select_exprs items = List.map_filter (\<lambda>i. case i of SelExpr e _ \<Rightarrow> Some e | _ \<Rightarrow> None) items"

definition add_where :: "lowerer \<Rightarrow> sql_expr option \<Rightarrow> logical_plan \<Rightarrow> logical_plan ev" where
  "add_where lw selection plan =
     (case selection of
        None \<Rightarrow> ret_op plan
      | Some predicate \<Rightarrow>
          if contains_aggregate predicate
          then lift_op (Inl (Err (Plan ''aggregates are not allowed in WHERE; use HAVING'')))
          else bind_op (lower_expr lw predicate) (\<lambda>e. ret_op (LFilter plan e)))"

text \<open>Grouping: the plan, the keys and the scope above it.\<close>

definition add_grouping ::
  "lowerer \<Rightarrow> bool \<Rightarrow> (sql_expr, sql_query) select \<Rightarrow> sql_expr function_call list \<Rightarrow> scope \<Rightarrow> logical_plan
     \<Rightarrow> (logical_plan \<times> expr list \<times> scope) ev" where
  "add_grouping lw grouped s calls from_scope plan =
     (if \<not> grouped then ret_op (plan, [], from_scope)
      else bind_op (map_op (\<lambda>k. group_key k (sel_projection s) from_scope lw) (sel_group_by s)) (\<lambda>keys.
        bind_op (map_op (lower_aggregate lw) calls) (\<lambda>aggregates.
          bind_op (lift_op (aggregate_schema keys aggregates from_scope)) (\<lambda>schema.
            ret_op (LAggregate plan keys aggregates, keys, anonymous schema)))))"

definition rewrite_above :: "lowerer \<Rightarrow> expr list \<Rightarrow> bool \<Rightarrow> sql_expr \<Rightarrow> expr ev" where
  "rewrite_above upper keys grouped e =
     bind_op (lower_expr upper e) (\<lambda>e'.
       let lowered = substitute_group_keys keys e'
       in bind_op (if grouped then lift_op (reject_ungrouped lowered) else ret_op ()) (\<lambda>_. ret_op lowered))"

definition add_limit :: "lowerer \<Rightarrow> sql_expr option \<Rightarrow> sql_expr option \<Rightarrow> logical_plan \<Rightarrow> logical_plan ev" where
  "add_limit lw limit offset plan =
     bind_op (row_count limit lw ''LIMIT'') (\<lambda>count. bind_op (row_count offset lw ''OFFSET'') (\<lambda>off.
       let off' = (case off of None \<Rightarrow> 0 | Some n \<Rightarrow> n)
       in ret_op (if count \<noteq> None \<or> 0 < off' then LLimit plan count off' else plan)))"

definition is_grouped :: "(sql_expr, sql_query) select \<Rightarrow> sql_expr function_call list \<Rightarrow> bool" where
  "is_grouped s calls \<longleftrightarrow> sel_group_by s \<noteq> [] \<or> calls \<noteq> [] \<or> sel_having s \<noteq> None"

text \<open>Everything above the grouping: \<open>HAVING\<close>, the projection, \<open>ORDER BY\<close>, \<open>DISTINCT\<close>.\<close>

definition finish_select ::
  "(sql_expr, sql_query) select \<Rightarrow> sql_expr order_by_item list \<Rightarrow> scope \<Rightarrow> bool \<Rightarrow> (sql_expr \<Rightarrow> expr ev) \<Rightarrow> logical_plan
     \<Rightarrow> logical_plan ev" where
  "finish_select s order_by sc grouped rewrite plan =
     bind_op (case sel_having s of
         None \<Rightarrow> ret_op plan
       | Some having \<Rightarrow> bind_op (rewrite having) (\<lambda>e. ret_op (LFilter plan e))) (\<lambda>plan.
       bind_op (projection_items (sel_projection s) sc grouped rewrite) (\<lambda>items.
         bind_op (sort_keys order_by items rewrite) (\<lambda>keys.
           let sorted_plan = (if keys \<noteq> [] then LSort plan keys else plan);
               projected = (case items of None \<Rightarrow> sorted_plan | Some is \<Rightarrow> LProjection sorted_plan is)
           in ret_op (if sel_distinct s then LDistinct projected else projected))))"

text \<open>
  \<open>build_select\<close>. A subquery is planned by the same function; the first argument bounds how deep subqueries
  nest, and the size of the query is always enough.
\<close>

primrec build_select :: "nat \<Rightarrow> planner \<Rightarrow> sql_query \<Rightarrow> logical_plan ev" where
  "build_select 0 pl q = lift_op (Inl Diverge)"
| "build_select (Suc n) pl q =
     (case q of Query with body order_by limit offset \<Rightarrow>
       bind_op (lift_op (single_select q)) (\<lambda>s.
         bind_op (build_from pl (sel_from s)) (\<lambda>(plan, quals).
           bind_op (lift_op (scope_of plan)) (\<lambda>from_scope.
             let lw = (plain_lowerer pl)\<lparr>lw_qualifiers := quals, lw_subqueries := Some (build_select n pl)\<rparr>
             in bind_op (add_where lw (sel_selection s) plan) (\<lambda>plan.
                  bind_op (lift_op (collect_all (select_exprs (sel_projection s) @ option_list (sel_having s)
                      @ map ob_expr order_by) [])) (\<lambda>calls.
                    let grouped = is_grouped s calls
                    in bind_op (add_grouping lw grouped s calls from_scope plan) (\<lambda>(plan, keys, sc).
                         let upper = lw\<lparr>lw_aggregates := Some (calls, length keys)\<rparr>
                         in bind_op (finish_select s order_by sc grouped (rewrite_above upper keys grouped) plan)
                              (add_limit lw limit offset))))))))"

definition plan_query :: "planner \<Rightarrow> sql_query \<Rightarrow> logical_plan ev" where
  "plan_query pl q = build_select (size q) pl q"

section \<open>INSERT, UPDATE, DELETE, CALL\<close>

definition no_returning :: failure where
  "no_returning = Err (Plan ''RETURNING is not supported by the v1 planner'')"

definition planner_now :: "u64 ev" where
  "planner_now = bind_op now_micros (\<lambda>t. ret_op (word_of_int (max 0 (min (2 ^ 63 - 1) t))))"

definition default_expr :: "column_default option \<Rightarrow> expr ev" where
  "default_expr d =
     (case d of
        None \<Rightarrow> ret_op (ELiteral VNull)
      | Some (Constant v) \<Rightarrow> ret_op (ELiteral v)
      | Some CurrentTimestamp \<Rightarrow> bind_op planner_now (\<lambda>t. ret_op (ELiteral (VTimestamp t))))"

definition column_named :: "schema \<Rightarrow> string \<Rightarrow> nat res" where
  "column_named s name = ok_or (column_index s name) (Err (ColumnNotFound name))"

text \<open>\<open>source.schema.columns[position].data_type\<close>.\<close>

definition type_at :: "schema \<Rightarrow> nat \<Rightarrow> data_type res" where
  "type_at s i = (if i < length (schema_columns s) then Inr (col_data_type (schema_columns s ! i)) else Inl Panic)"

definition lower_into :: "lowerer \<Rightarrow> schema \<Rightarrow> nat \<Rightarrow> sql_expr \<Rightarrow> expr ev" where
  "lower_into lw s i e =
     bind_op (lower_expr lw e) (\<lambda>e'. bind_op (lift_op (type_at s i)) (\<lambda>t. lift_op (coerce e' t)))"

primrec fill_row :: "lowerer \<Rightarrow> schema \<Rightarrow> (nat \<times> sql_expr) list \<Rightarrow> expr list \<Rightarrow> expr list ev" where
  "fill_row lw s [] out = ret_op out"
| "fill_row lw s (pe # rest) out =
     bind_op (lower_into lw s (fst pe) (snd pe)) (\<lambda>e. fill_row lw s rest (out[fst pe := e]))"

definition build_values ::
  "lowerer \<Rightarrow> table_source \<Rightarrow> nat list \<Rightarrow> expr list \<Rightarrow> sql_expr list \<Rightarrow> expr list ev" where
  "build_values lw source targets defaults exprs =
     (if length exprs \<noteq> length targets
      then lift_op (Inl (Err (Plan (''INSERT into '' @ src_name source @ '' expects '' @ dec_string (length targets) @
             '' values per row, got '' @ dec_string (length exprs)))))
      else fill_row lw (src_schema source) (zip targets exprs) defaults)"

definition lower_assignment :: "lowerer \<Rightarrow> schema \<Rightarrow> assignment \<Rightarrow> (nat \<times> expr) ev" where
  "lower_assignment lw s a =
     bind_op (lift_op (column_named s (as_column a))) (\<lambda>i. bind_op (lower_into lw s i (as_value a)) (\<lambda>e. ret_op (i, e)))"

definition conflict_target :: "planner \<Rightarrow> table_source \<Rightarrow> string list \<Rightarrow> nat list res" where
  "conflict_target pl source target =
     bind_res
       (if target \<noteq> [] then Inr target
        else bind_res (indexes_for (pl_env pl) (src_id source)) (\<lambda>indexes.
          ok_or (map_option idx_columns (find idx_unique indexes))
            (Err (Plan (''no unique key is recorded on '' @ src_name source @
               '', so ON CONFLICT has no target; write ON CONFLICT (columns) explicitly'')))))
       (\<lambda>names. map_res (column_named (src_schema source)) names)"

definition build_on_conflict :: "planner \<Rightarrow> table_source \<Rightarrow> sql_on_conflict \<Rightarrow> expr on_conflict ev" where
  "build_on_conflict pl source clause =
     bind_op (lift_op (conflict_target pl source (so_target clause))) (\<lambda>target.
       case so_action clause of
         ConflictDoNothing \<Rightarrow> ret_op (OnConflict target ConflictNothing)
       | ConflictDoUpdate assignments selection \<Rightarrow>
           let lw = (plain_lowerer pl)\<lparr>lw_qualifiers := [src_name source, ''excluded'']\<rparr>
           in bind_op (map_op (lower_assignment lw (src_schema source)) assignments) (\<lambda>assignments'.
                bind_op (opt_op (lower_expr lw) selection) (\<lambda>selection'.
                  bind_op (lift_op (map_res (\<lambda>a. bind_names (snd a) (conflict_scope source)) assignments')) (\<lambda>_.
                    ret_op (OnConflict target (ConflictUpdate assignments' selection'))))))"

definition build_insert :: "planner \<Rightarrow> insert_stmt \<Rightarrow> logical_plan ev" where
  "build_insert pl stmt =
     (if in_returning stmt \<noteq> [] then lift_op (Inl no_returning)
      else case in_source stmt of
        InsertQuery _ \<Rightarrow> lift_op (Inl (Err (Plan ''INSERT ... SELECT is not supported by the v1 planner'')))
      | InsertValues rows \<Rightarrow>
          bind_op (lift_op (resolve_table pl (in_table stmt) None)) (\<lambda>source.
            let s = src_schema source
            in bind_op (lift_op (if in_columns stmt = [] then Inr [0..<length (schema_columns s)]
                   else map_res (column_named s) (in_columns stmt))) (\<lambda>targets.
                 bind_op (map_op (\<lambda>c. default_expr (col_default c)) (schema_columns s)) (\<lambda>defaults.
                   bind_op (map_op (build_values (plain_lowerer pl) source targets defaults) rows) (\<lambda>rows'.
                     bind_op (opt_op (build_on_conflict pl source) (in_on_conflict stmt)) (\<lambda>on_conflict.
                       ret_op (LInsert source rows' on_conflict)))))))"

definition filtered_scan :: "table_source \<Rightarrow> sql_expr option \<Rightarrow> lowerer \<Rightarrow> logical_plan ev" where
  "filtered_scan source selection lw =
     (case selection of
        None \<Rightarrow> ret_op (LScan source None)
      | Some predicate \<Rightarrow> bind_op (lower_expr lw predicate) (\<lambda>e. ret_op (LFilter (LScan source None) e)))"

text \<open>The subqueries of an \<open>UPDATE\<close> or \<open>DELETE\<close> are planned by \<open>build_select\<close>.\<close>

definition write_lowerer :: "planner \<Rightarrow> table_source \<Rightarrow> lowerer" where
  "write_lowerer pl source =
     (plain_lowerer pl)\<lparr>lw_qualifiers := qualifiers source, lw_subqueries := Some (plan_query pl)\<rparr>"

definition build_update :: "planner \<Rightarrow> update_stmt \<Rightarrow> logical_plan ev" where
  "build_update pl stmt =
     (if up_returning stmt \<noteq> [] then lift_op (Inl no_returning)
      else bind_op (lift_op (resolve_table pl (up_table stmt) (up_alias stmt))) (\<lambda>source.
        let lw = write_lowerer pl source
        in bind_op (map_op (lower_assignment lw (src_schema source)) (up_assignments stmt)) (\<lambda>assignments.
             bind_op (filtered_scan source (up_selection stmt) lw) (\<lambda>input.
               ret_op (LUpdate source input assignments)))))"

definition build_delete :: "planner \<Rightarrow> delete_stmt \<Rightarrow> logical_plan ev" where
  "build_delete pl stmt =
     (if de_returning stmt \<noteq> [] then lift_op (Inl no_returning)
      else bind_op (lift_op (resolve_table pl (de_table stmt) (de_alias stmt))) (\<lambda>source.
        bind_op (filtered_scan source (de_selection stmt) (write_lowerer pl source)) (\<lambda>input.
          ret_op (LDelete source input))))"

definition build_call :: "planner \<Rightarrow> object_name \<Rightarrow> sql_expr list \<Rightarrow> logical_plan ev" where
  "build_call pl name args =
     bind_op (map_op (lower_expr (plain_lowerer pl)) args) (\<lambda>args'. ret_op (LCall (name_base name) args'))"

definition build_logical :: "planner \<Rightarrow> statement \<Rightarrow> logical_plan ev" where
  "build_logical pl stmt =
     (case stmt of
        StQuery q \<Rightarrow> plan_query pl q
      | StInsert i \<Rightarrow> build_insert pl i
      | StUpdate u \<Rightarrow> build_update pl u
      | StDelete d \<Rightarrow> build_delete pl d
      | StCall name args \<Rightarrow> build_call pl name args
      | StBegin \<Rightarrow> lift_op (Inl (Err (Plan ''transaction control does not go through the planner'')))
      | StCommit \<Rightarrow> lift_op (Inl (Err (Plan ''transaction control does not go through the planner'')))
      | StRollback \<Rightarrow> lift_op (Inl (Err (Plan ''transaction control does not go through the planner'')))
      | StCreateProcedure _ _ _ _ \<Rightarrow> lift_op (Inl (Err (Plan (''procedures and triggers are native Rust closures registered in '' @
          ''ferrite-proc at startup; there is no procedural language in v1''))))
      | StDropProcedure _ _ \<Rightarrow> lift_op (Inl (Err (Plan (''procedures and triggers are native Rust closures registered in '' @
          ''ferrite-proc at startup; there is no procedural language in v1''))))
      | StCreateTrigger _ _ _ _ _ _ _ _ \<Rightarrow> lift_op (Inl (Err (Plan (''procedures and triggers are native Rust closures registered in '' @
          ''ferrite-proc at startup; there is no procedural language in v1''))))
      | StDropTrigger _ _ _ \<Rightarrow> lift_op (Inl (Err (Plan (''procedures and triggers are native Rust closures registered in '' @
          ''ferrite-proc at startup; there is no procedural language in v1''))))
      | _ \<Rightarrow> lift_op (Inl (Err (Plan ''DDL does not go through the planner; call the catalog directly''))))"

definition plan_statement :: "planner \<Rightarrow> statement \<Rightarrow> physical_plan ev" where
  "plan_statement pl stmt =
     bind_op (build_logical pl stmt) (\<lambda>logical. lift_op (to_physical (pl_env pl) (optimize logical)))"

section \<open>Column defaults\<close>

definition resolve_default :: "(val \<Rightarrow> string) \<Rightarrow> column_def \<Rightarrow> column_default \<Rightarrow> column_default res" where
  "resolve_default show_val c d =
     (let bad = (\<lambda>what. Inl (Err (InvalidDefinition (''the DEFAULT of column `'' @ col_name c @ ''` '' @ what))))
      in case d of
           CurrentTimestamp \<Rightarrow>
             if col_data_type c \<noteq> DT_Timestamp then bad ''is CURRENT_TIMESTAMP, which needs a TIMESTAMP column''
             else Inr CurrentTimestamp
         | Constant v \<Rightarrow>
             if v = VNull then
               if \<not> col_nullable c then bad ''is NULL, but the column is NOT NULL'' else Inr (Constant VNull)
             else bind_res (coerce (ELiteral v) (col_data_type c)) (\<lambda>e.
               case e of
                 ELiteral coerced \<Rightarrow>
                   if data_type_of coerced \<noteq> Some (col_data_type c)
                   then bad (''is '' @ show_val coerced @ '', which does not fit a '' @ data_type_debug (col_data_type c) @ '' column'')
                   else Inr (Constant coerced)
               | _ \<Rightarrow> Inl Panic))"

definition typecheck_defaults :: "(val \<Rightarrow> string) \<Rightarrow> schema \<Rightarrow> schema res" where
  "typecheck_defaults show_val s =
     bind_res (map_res (\<lambda>c. case col_default c of
         None \<Rightarrow> Inr c
       | Some d \<Rightarrow> bind_res (resolve_default show_val c d) (\<lambda>d'. Inr (c\<lparr>col_default := Some d'\<rparr>))) (schema_columns s))
       (\<lambda>cs. Inr \<lparr>schema_columns = cs\<rparr>)"

end
