(* ===== verification/Spec2Isabelle.thy ===== *)
theory Spec2Isabelle
  imports Mvcc Throttle Wire_Values Btree_Map Like Typing In_Test Exec_Safety Joins Sorts Build
begin

text \<open>
  Verification of Ferrite, a relational database written in Rust: a storage engine with multi-version
  concurrency control, a SQL planner and executor, and a server that speaks the PostgreSQL protocol.
  File names below are under src/crates.

  \<^bold>\<open>Conventions.\<close> Theory Prelude fixes them. An \<open>uN\<close> or \<open>iN\<close> is a word of that width, or an integer with the
  wrap-around written out; a \<open>usize\<close> is a natural number; text that is data is its UTF-8 bytes, names and
  messages are HOL strings; an \<open>f64\<close> is its 64-bit pattern. A function that returns \<open>Result\<close> gives \<open>Inr\<close> a value or
  \<open>Inl\<close> a failure, and a failure is an error of the program, \<open>Panic\<close>, or \<open>Diverge\<close> where a loop would not
  end. A method with \<open>&mut self\<close> is a function of type \<open>op\<close>, which returns the new state even when it fails.

  \<^bold>\<open>Storage\<close> (ferrite-common, ferrite-storage). From the bottom up:
  \<^item> Common: values, rows, schemas, errors, snapshots, roles (value.rs, schema.rs, error.rs, txn.rs, storage.rs,
    identity.rs). Datetime and Timestamps: datetime.rs.
  \<^item> Crc (crc.rs), Codec (codec.rs), Version (version.rs): checksums and the encodings of rows and of version
    chains. Shown: a checksum detects every burst of up to four bytes, encodings round trip, a truncated
    row is refused, and a chain of 65536 versions is lost.
  \<^item> Page (page.rs) byte for byte, with Page_Items for its reading as a list of items. File_Io: what is used of
    \<open>std::fs::File\<close>. Wal (wal.rs): the journal; replay visits exactly the intact records.
  \<^item> Pager (pager.rs): cache, allocator, journalling and recovery. Pager_View and Page_Store show that caching,
    eviction and checkpoints do not change the pages a client sees, and give the laws of allocation.
  \<^item> Clog (clog.rs): commit bits, a refinement of a set of transactions.
  \<^item> Btree (btree.rs). Btree_Tree has the abstract trees and the pages that represent one; Btree_Nodes,
    Btree_Read, Btree_Alloc, Btree_Split and Btree_Update follow search, descent, allocation, splits and
    updates; Btree_Map concludes with the contract, locale \<open>byte_map\<close>, interpreted on the operations.
  \<^item> Unique (unique.rs): the negative cache of unique keys, with its contract as locale \<open>negative_cache\<close>.
  \<^item> Engine (engine.rs): transactions, reads, writes, scans, unique constraints, tables and garbage collection
    over all of the above. Mvcc shows snapshot isolation: what a snapshot reads does not change under
    the steps of other transactions, pruning keeps it, writers conflict, an aborted write leaves no trace.

  \<^bold>\<open>SQL\<close> (ferrite-sql, ferrite-planner, ferrite-exec, ferrite-proc):
  \<^item> Ast (ast.rs): the syntax trees the parser builds and the table definitions they give.
  \<^item> Sql_Expr: expressions, logical plans, scopes and physical plans (expr.rs, scalar.rs, logical.rs, scope.rs,
    physical.rs). Bind: types, binding of names and coercion of literals (physical.rs, lower.rs).
  \<^item> Build: lowering of expressions and statements to logical plans (lower.rs, planner.rs). Rules: predicate
    pushdown (rules.rs). Lowering: physical plans and access paths (planner.rs).
  \<^item> Floats: IEEE arithmetic on bit patterns. Eval: evaluation, \<open>LIKE\<close>, casts and scalar functions (eval.rs,
    scalar.rs). Aggregate (aggregate.rs), Subquery (subquery.rs), Procs (ferrite-proc) and Executor
    (executor.rs): whole statements, with budgets, permissions and triggers.
  \<^item> Like: the matcher accepts what the pattern describes. Typing: announced types are sound. In_Test: the test
    that replaces a subquery is SQL's \<open>IN\<close>. Joins: the nested loop is the SQL join, and what it does with an
    empty input. Sorts: \<open>ORDER BY\<close> is a stable sort; the orders on values, columns and keys are
    interpretations of one locale, \<open>comparison\<close>. Exec_Safety: permissions, the row budget, and the shape of
    every row that reaches storage.

  \<^bold>\<open>Network\<close> (ferrite-protocol): Wire (error.rs, buf.rs, message.rs, codec.rs) and Wire_Values (types.rs): decoding
  never panics, messages and values round trip, and framing stays in step; the fields of a message are
  interpretations of locale \<open>wire_field\<close>. Throttle (throttle.rs): bounds on password guesses.

  \<^bold>\<open>How the parts meet.\<close> The engine calls the tree, the log and the cache models directly. The executor reaches
  storage, the catalog and the indexes through trait objects: they are the fields of the record \<open>session\<close>, and what
  is shown of the executor holds for every storage. The planner takes the catalog as functions in \<open>planner\<close>.

  \<^bold>\<open>Bounds.\<close> A walk over pages has fuel \<open>PAGE_IDS\<close> = 2^32, the number of page ids, and a walk over rows \<open>ROW_IDS\<close> =
  2^64 or \<open>SCAN_STEPS\<close> = 2^64 + 1: a longer walk has met a page or a row twice, and the code would not return
  either. Planning a query has fuel the size of the query, which bounds the nesting of its subqueries.

  \<^bold>\<open>Parameters.\<close> Unicode case mapping, Rust's printing and parsing of floats and the Debug form of a value in
  messages; clocks; the bodies of triggers and procedures, which applications register. The sort of
  the standard library is modelled by its stable insertion sort, which asks for comparisons in one
  particular order: only the choice of the error reported among several depends on it.

  \<^bold>\<open>Not modelled.\<close> The lexer and the parser (ferrite-sql): the planner's model starts from their trees. The catalog
  (ferrite-catalog): a parameter of planner and executor. Sessions, authentication, TLS and the
  listener (ferrite-protocol), start-up and configuration (ferrite-server), metrics, and the lock
  file: threads, sockets and calls of the operating system. Mapped definitions name whole functions and
  types; the definitions that model one loop or one branch of such a function stand before it.
\<close>

end
